(* ===== verification/Prelude.thy ===== *)
theory Prelude
  imports Main "HOL-Library.Word" "HOL-Library.Multiset"
begin

text \<open>
  Shared vocabulary of the development: fixed-width integers, C++ failures as values, the
  result monad the components are written in, the two loop shapes of the sources, checked
  buffer access, and decimal printing as \<^verbatim>\<open>std::to_string\<close> and \<^verbatim>\<open>operator<<\<close> do it.

  A C++ function that may throw is a function into \<open>exn + 'a\<close>; \<open>Inl\<close> is the exception.
  \<open>Undefined\<close> is not an exception of the program: it marks an execution whose behaviour the
  C++ standard leaves undefined (an out-of-bounds access, a dangling pointer), so that the
  absence of undefined behaviour can be stated and proved. \<open>OutOfFuel\<close> marks a recursion
  or loop that did not end within its fuel; every fuelled definition comes with a lemma that
  its fuel is enough.
\<close>

section \<open>Machine integers and failures\<close>

type_synonym u8 = "8 word"
type_synonym u32 = "32 word"
type_synonym u64 = "64 word"

datatype exn =
    InvalidArgument string
  | RuntimeError string
  | OutOfRange string
  | BadAlloc
  | LengthError
  | Undefined string
  | OutOfFuel

type_synonym 'a res = "exn + 'a"

lemma unat_word_of_nat: "n < 2 ^ 64 \<Longrightarrow> unat (word_of_nat n :: u64) = n"
  by (simp add: unsigned_of_nat take_bit_nat_eq_self)

text \<open>What a \<^verbatim>\<open>catch (...)\<close> clause can see: everything but undefined behaviour and a run
  that did not finish.\<close>

fun catchable :: "exn \<Rightarrow> bool" where
  "catchable (Undefined w) = False"
| "catchable OutOfFuel = False"
| "catchable _ = True"

section \<open>The result monad\<close>

named_theorems res_simps \<open>unfolding rules of the result monad and its loops\<close>

fun rbind :: "'a res \<Rightarrow> ('a \<Rightarrow> 'b res) \<Rightarrow> 'b res" where
  "rbind (Inl e) f = Inl e"
| "rbind (Inr x) f = f x"

lemma rbind_eq_Inr: "rbind m f = Inr y \<longleftrightarrow> (\<exists>x. m = Inr x \<and> f x = Inr y)"
  by (cases m) auto

lemma rbind_eq_Inl: "rbind m f = Inl e \<longleftrightarrow> m = Inl e \<or> (\<exists>x. m = Inr x \<and> f x = Inl e)"
  by (cases m) auto

lemma rbind_assoc: "rbind (rbind m f) g = rbind m (\<lambda>x. rbind (f x) g)"
  by (cases m) auto

lemma rbind_Inr_right [simp]: "rbind m Inr = m"
  by (cases m) auto

lemma rbind_cong [fundef_cong]:
  "m = m' \<Longrightarrow> (\<And>x. m' = Inr x \<Longrightarrow> f x = f' x) \<Longrightarrow> rbind m f = rbind m' f'"
  by (cases m') auto

text \<open>A result whose failure, if any, is an exception a handler can catch.\<close>

definition fails_cleanly :: "'a res \<Rightarrow> bool" where
  "fails_cleanly r = (\<forall>e. r = Inl e \<longrightarrow> catchable e)"

lemma fails_cleanly_simps [simp]:
  "fails_cleanly (Inr x)" "fails_cleanly (Inl e) = catchable e"
  by (simp_all add: fails_cleanly_def)

lemma fails_cleanly_rbind:
  "fails_cleanly m \<Longrightarrow> (\<And>x. m = Inr x \<Longrightarrow> fails_cleanly (f x)) \<Longrightarrow> fails_cleanly (rbind m f)"
  by (cases m) (auto simp: fails_cleanly_def)

text \<open>A guard that throws: \<^verbatim>\<open>if (!b) throw e;\<close>\<close>

definition require :: "bool \<Rightarrow> exn \<Rightarrow> unit res" where
  "require b e = (if b then Inr () else Inl e)"

lemma require_simps [simp]:
  "require True e = Inr ()" "require False e = Inl e"
  by (simp_all add: require_def)

lemma fails_cleanly_require [simp]: "fails_cleanly (require b e) \<longleftrightarrow> b \<or> catchable e"
  by (simp add: require_def)

lemma require_eq_Inr [simp]: "require b e = Inr u \<longleftrightarrow> b"
  by (simp add: require_def)

lemma require_eq_Inl [simp]: "require b e = Inl e' \<longleftrightarrow> \<not> b \<and> e' = e"
  by (auto simp: require_def)

section \<open>Loops\<close>

text \<open>A loop over a sequence whose body may throw, and the counting loops built from it.\<close>

fun rfold :: "('x \<Rightarrow> 's \<Rightarrow> 's res) \<Rightarrow> 'x list \<Rightarrow> 's \<Rightarrow> 's res" where
  "rfold f [] s = Inr s"
| "rfold f (x # xs) s = rbind (f x s) (rfold f xs)"

lemma rfold_Nil_eta [simp]: "rfold f [] = Inr"
  by (simp add: fun_eq_iff)

lemma rfold_append: "rfold f (xs @ ys) s = rbind (rfold f xs s) (rfold f ys)"
  by (induction xs arbitrary: s) (auto simp: rbind_assoc intro!: rbind_cong)

lemma rfold_cong [fundef_cong]:
  "xs = ys \<Longrightarrow> s = t \<Longrightarrow> (\<And>x u. x \<in> set ys \<Longrightarrow> f x u = g x u) \<Longrightarrow> rfold f xs s = rfold g ys t"
proof (induction ys arbitrary: xs s t)
  case (Cons y ys)
  then show ?case by (auto intro!: rbind_cong)
qed simp

text \<open>
  The rule that carries most loop proofs: when every iteration returns, and returns what the
  pure step \<open>g\<close> computes, under an invariant \<open>P\<close> of the loop state, the loop returns the
  pure fold.
\<close>

lemma rfold_pure:
  assumes "P s"
    and "\<And>x u. x \<in> set xs \<Longrightarrow> P u \<Longrightarrow> f x u = Inr (g x u) \<and> P (g x u)"
  shows "rfold f xs s = Inr (fold g xs s) \<and> P (fold g xs s)"
  using assms
proof (induction xs arbitrary: s)
  case (Cons x xs)
  then have "f x s = Inr (g x s)" "P (g x s)" by auto
  with Cons show ?case by auto
qed simp

lemma rfold_inv:
  assumes "P s" and "\<And>x u v. x \<in> set xs \<Longrightarrow> P u \<Longrightarrow> f x u = Inr v \<Longrightarrow> P v"
    and "rfold f xs s = Inr t"
  shows "P t"
  using assms
proof (induction xs arbitrary: s)
  case (Cons x xs)
  from Cons.prems(3) obtain u where u: "f x s = Inr u" "rfold f xs u = Inr t"
    by (auto simp: rbind_eq_Inr)
  with Cons.prems(1,2) have "P u" by auto
  from Cons.IH [OF this _ u(2)] Cons.prems(2) show ?case by auto
qed simp

text \<open>
  Data refinement of a loop: each iteration returns, and what it does to the concrete state is
  what \<open>u\<close> does to the abstract one, so the loop returns and is the pure fold of \<open>u\<close>.
\<close>

lemma rfold_refine:
  assumes "R s g"
    and "\<And>x t h. x \<in> set xs \<Longrightarrow> R t h \<Longrightarrow> \<exists>t'. f x t = Inr t' \<and> R t' (u x h)"
  shows "\<exists>t. rfold f xs s = Inr t \<and> R t (fold u xs g)"
  using assms
proof (induction xs arbitrary: s g)
  case (Cons x xs)
  then obtain t where t: "f x s = Inr t" "R t (u x g)" by force
  with Cons.IH [OF t(2)] Cons.prems(2) show ?case by auto
qed simp

definition for_range :: "nat \<Rightarrow> nat \<Rightarrow> (nat \<Rightarrow> 's \<Rightarrow> 's res) \<Rightarrow> 's \<Rightarrow> 's res" where
  "for_range lo hi f s = rfold f [lo..<hi] s"

text \<open>\<^verbatim>\<open>for (i = lo; i < hi; i += st)\<close>: the values the counter takes.\<close>

function steps :: "nat \<Rightarrow> nat \<Rightarrow> nat \<Rightarrow> nat list" where
  "steps lo hi st = (if lo < hi \<and> 0 < st then lo # steps (lo + st) hi st else [])"
  by pat_completeness auto
termination
  by (relation "measure (\<lambda>(lo, hi, st). hi - lo)") auto

declare steps.simps [simp del]

lemma steps_empty [simp]: "hi \<le> lo \<Longrightarrow> steps lo hi st = []"
  by (subst steps.simps) simp

lemma steps_Cons: "lo < hi \<Longrightarrow> 0 < st \<Longrightarrow> steps lo hi st = lo # steps (lo + st) hi st"
  by (subst steps.simps) simp

definition for_step :: "nat \<Rightarrow> nat \<Rightarrow> nat \<Rightarrow> (nat \<Rightarrow> 's \<Rightarrow> 's res) \<Rightarrow> 's \<Rightarrow> 's res" where
  "for_step lo hi st f s = rfold f (steps lo hi st) s"

lemma for_step_eta: "for_step lo hi st f = rfold f (steps lo hi st)"
  by (simp add: fun_eq_iff for_step_def)

lemma for_range_eta: "for_range lo hi f = rfold f [lo..<hi]"
  by (simp add: fun_eq_iff for_range_def)

lemma steps_bounds: "x \<in> set (steps lo hi st) \<Longrightarrow> lo \<le> x \<and> x < hi"
proof (induction lo hi st rule: steps.induct)
  case (1 lo hi st)
  then show ?case
    by (cases "lo < hi \<and> 0 < st") (auto simp: steps_Cons steps.simps [of lo hi st] split: if_splits)
qed

lemma upt_split: "a \<le> b \<Longrightarrow> b \<le> c \<Longrightarrow> [a..<c] = [a..<b] @ [b..<c]"
  using upt_add_eq_append [of a b "c - b"] by simp

text \<open>Blocking a range covers it once, in order.\<close>

lemma steps_blocks:
  assumes "0 < st"
  shows "concat (map (\<lambda>b. [b..<min (b + st) hi]) (steps lo hi st)) = [lo..<hi]"
  using assms
proof (induction lo hi st rule: steps.induct)
  case (1 lo hi st)
  show ?case
  proof (cases "lo < hi")
    case True
    have "[lo..<hi] = [lo..<min (lo + st) hi] @ [min (lo + st) hi..<hi]"
      using True by (intro upt_split) auto
    moreover have "[min (lo + st) hi..<hi] = [lo + st..<hi]"
      by (cases "lo + st \<le> hi") (auto simp: min_def)
    ultimately show ?thesis using True 1 by (simp add: steps_Cons)
  qed simp
qed

section \<open>Checked buffers\<close>

text \<open>Reading or writing outside a buffer is undefined behaviour.\<close>

definition rd :: "'a list \<Rightarrow> nat \<Rightarrow> 'a res" where
  "rd xs i = (if i < length xs then Inr (xs ! i) else Inl (Undefined ''out-of-bounds read''))"

definition wr :: "'a list \<Rightarrow> nat \<Rightarrow> 'a \<Rightarrow> 'a list res" where
  "wr xs i v = (if i < length xs then Inr (xs[i := v]) else Inl (Undefined ''out-of-bounds write''))"

lemma rd_ok [simp]: "i < length xs \<Longrightarrow> rd xs i = Inr (xs ! i)"
  by (simp add: rd_def)

lemma wr_ok [simp]: "i < length xs \<Longrightarrow> wr xs i v = Inr (xs[i := v])"
  by (simp add: wr_def)

lemma rd_eq_Inr: "rd xs i = Inr v \<longleftrightarrow> i < length xs \<and> v = xs ! i"
  by (auto simp: rd_def)

lemma wr_eq_Inr: "wr xs i v = Inr ys \<longleftrightarrow> i < length xs \<and> ys = xs[i := v]"
  by (auto simp: wr_def)

section \<open>Decimal printing\<close>

definition digit_char :: "nat \<Rightarrow> char" where
  "digit_char d = char_of (48 + d)"

fun nat_to_string :: "nat \<Rightarrow> string" where
  "nat_to_string n =
     (if n < 10 then [digit_char n] else nat_to_string (n div 10) @ [digit_char (n mod 10)])"

declare nat_to_string.simps [simp del]

lemma nat_to_string_not_Nil [simp]: "nat_to_string n \<noteq> []"
  by (subst nat_to_string.simps) simp

end
