(* ===== verification/Floats.thy ===== *)
theory Floats
  imports Prelude
begin

text \<open>
  The C++ types \<^verbatim>\<open>float\<close> and \<^verbatim>\<open>double\<close> as IEEE 754 binary32 and binary64: a value is its
  bit pattern (\<open>32 word\<close>, \<open>64 word\<close>), which is also what \<^verbatim>\<open>reinterpret_cast\<close> and
  \<^verbatim>\<open>memcpy\<close> in the sources move around. Arithmetic is computed exactly on integers and rounded
  once, to nearest with ties to even, with gradual underflow, overflow to infinity, signed
  zeros and one quiet NaN for every invalid result (the standard leaves the payload open).
  The definitions are parametrised by the exponent width \<open>eb\<close> and the fraction width \<open>mb\<close>
  and instantiated at (8, 23) and (11, 52). The lemmas give the facts the kernels rest on:
  rounding is the identity on representable values, adding a zero product leaves an
  accumulator unchanged, and an accumulator never becomes a negative zero.

  Every operation of the sources is rounded separately, as the C++ code is written; a
  compiler that contracts \<open>a * b + c\<close> into a fused multiply-add computes something else.
\<close>

section \<open>Values, unpacking, rounding\<close>

text \<open>\<open>FFin s m e\<close> is the number \<open>(-1)^s * m * 2^e\<close>.\<close>

datatype fpv = FNan | FInf bool | FFin bool int int

definition fp_emin :: "nat \<Rightarrow> nat \<Rightarrow> int" where
  "fp_emin eb mb = 2 - 2 ^ (eb - 1) - int mb"

definition fp_unpack :: "nat \<Rightarrow> nat \<Rightarrow> int \<Rightarrow> fpv" where
  "fp_unpack eb mb n =
     (let s = odd (n div 2 ^ (eb + mb)); ex = n div 2 ^ mb mod 2 ^ eb; fr = n mod 2 ^ mb
      in if ex = 2 ^ eb - 1 then (if fr = 0 then FInf s else FNan)
         else if ex = 0 then FFin s fr (fp_emin eb mb)
         else FFin s (2 ^ mb + fr) (ex - 1 + fp_emin eb mb))"

function bitlen :: "int \<Rightarrow> nat" where
  "bitlen n = (if n \<le> 0 then 0 else Suc (bitlen (n div 2)))"
  by pat_completeness auto
termination
  by (relation "measure nat") auto

declare bitlen.simps [simp del]

text \<open>Dropping \<open>d\<close> low bits, to nearest, ties to even.\<close>

definition rne :: "int \<Rightarrow> nat \<Rightarrow> int" where
  "rne m d =
     (let t = m div 2 ^ d; r = m mod 2 ^ d
      in if 2 * r > 2 ^ d \<or> (2 * r = 2 ^ d \<and> odd t) then t + 1 else t)"

definition fp_sign :: "nat \<Rightarrow> nat \<Rightarrow> bool \<Rightarrow> int" where
  "fp_sign eb mb s = (if s then 2 ^ (eb + mb) else 0)"

definition fp_inf :: "nat \<Rightarrow> nat \<Rightarrow> bool \<Rightarrow> int" where
  "fp_inf eb mb s = fp_sign eb mb s + (2 ^ eb - 1) * 2 ^ mb"

definition fp_nan :: "nat \<Rightarrow> nat \<Rightarrow> int" where
  "fp_nan eb mb = (2 ^ eb - 1) * 2 ^ mb + 2 ^ (mb - 1)"

text \<open>
  The pattern nearest to \<open>(-1)^s * m * 2^e\<close>: \<open>q\<close> is the exponent of the last kept bit,
  \<open>k\<close> the kept significand. A carry out of the significand moves into the exponent field by
  itself, and a pattern at or past the top exponent is an infinity.
\<close>

definition fp_round :: "nat \<Rightarrow> nat \<Rightarrow> bool \<Rightarrow> int \<Rightarrow> int \<Rightarrow> int" where
  "fp_round eb mb s m e =
     (if m = 0 then fp_sign eb mb s
      else let q = max (e + int (bitlen m) - int mb - 1) (fp_emin eb mb);
               k = (if q \<le> e then m * 2 ^ nat (e - q) else rne m (nat (q - e)));
               b = (q - fp_emin eb mb) * 2 ^ mb + k
           in if b \<ge> (2 ^ eb - 1) * 2 ^ mb then fp_inf eb mb s else fp_sign eb mb s + b)"

definition signed_int :: "bool \<Rightarrow> int \<Rightarrow> int" where
  "signed_int s m = (if s then - m else m)"

section \<open>Arithmetic on patterns\<close>

fun fpv_add :: "nat \<Rightarrow> nat \<Rightarrow> fpv \<Rightarrow> fpv \<Rightarrow> int" where
  "fpv_add eb mb FNan _ = fp_nan eb mb"
| "fpv_add eb mb _ FNan = fp_nan eb mb"
| "fpv_add eb mb (FInf s) (FInf t) = (if s = t then fp_inf eb mb s else fp_nan eb mb)"
| "fpv_add eb mb (FInf s) (FFin _ _ _) = fp_inf eb mb s"
| "fpv_add eb mb (FFin _ _ _) (FInf t) = fp_inf eb mb t"
| "fpv_add eb mb (FFin s m e) (FFin t n f) =
     (let g = min e f;
          z = signed_int s (m * 2 ^ nat (e - g)) + signed_int t (n * 2 ^ nat (f - g))
      in if z = 0 then fp_sign eb mb (s \<and> t) else fp_round eb mb (z < 0) \<bar>z\<bar> g)"

fun fpv_mul :: "nat \<Rightarrow> nat \<Rightarrow> fpv \<Rightarrow> fpv \<Rightarrow> int" where
  "fpv_mul eb mb FNan _ = fp_nan eb mb"
| "fpv_mul eb mb _ FNan = fp_nan eb mb"
| "fpv_mul eb mb (FInf s) (FInf t) = fp_inf eb mb (s \<noteq> t)"
| "fpv_mul eb mb (FInf s) (FFin t n _) = (if n = 0 then fp_nan eb mb else fp_inf eb mb (s \<noteq> t))"
| "fpv_mul eb mb (FFin s m _) (FInf t) = (if m = 0 then fp_nan eb mb else fp_inf eb mb (s \<noteq> t))"
| "fpv_mul eb mb (FFin s m e) (FFin t n f) = fp_round eb mb (s \<noteq> t) (m * n) (e + f)"

text \<open>Division keeps enough quotient bits for one correct rounding, the last of them sticky.\<close>

fun fpv_div :: "nat \<Rightarrow> nat \<Rightarrow> fpv \<Rightarrow> fpv \<Rightarrow> int" where
  "fpv_div eb mb FNan _ = fp_nan eb mb"
| "fpv_div eb mb _ FNan = fp_nan eb mb"
| "fpv_div eb mb (FInf s) (FInf t) = fp_nan eb mb"
| "fpv_div eb mb (FInf s) (FFin t _ _) = fp_inf eb mb (s \<noteq> t)"
| "fpv_div eb mb (FFin s _ _) (FInf t) = fp_sign eb mb (s \<noteq> t)"
| "fpv_div eb mb (FFin s m e) (FFin t n f) =
     (if n = 0 then (if m = 0 then fp_nan eb mb else fp_inf eb mb (s \<noteq> t))
      else let w = bitlen n + mb + 3; x = m * 2 ^ w
           in fp_round eb mb (s \<noteq> t) (2 * (x div n) + (if x mod n = 0 then 0 else 1))
                (e - f - int w - 1))"

text \<open>The comparisons \<^verbatim>\<open><\<close>, \<^verbatim>\<open>==\<close> and \<^verbatim>\<open><=\<close>: false when a side is a NaN, and blind to the sign of zero.\<close>

fun fpv_lt :: "fpv \<Rightarrow> fpv \<Rightarrow> bool" where
  "fpv_lt FNan _ = False"
| "fpv_lt _ FNan = False"
| "fpv_lt (FInf s) (FInf t) = (s \<and> \<not> t)"
| "fpv_lt (FInf s) (FFin _ _ _) = s"
| "fpv_lt (FFin _ _ _) (FInf t) = (\<not> t)"
| "fpv_lt (FFin s m e) (FFin t n f) =
     (let g = min e f
      in signed_int s (m * 2 ^ nat (e - g)) < signed_int t (n * 2 ^ nat (f - g)))"

fun fpv_eq :: "fpv \<Rightarrow> fpv \<Rightarrow> bool" where
  "fpv_eq FNan _ = False"
| "fpv_eq _ FNan = False"
| "fpv_eq (FInf s) (FInf t) = (s = t)"
| "fpv_eq (FInf s) (FFin _ _ _) = False"
| "fpv_eq (FFin _ _ _) (FInf t) = False"
| "fpv_eq (FFin s m e) (FFin t n f) =
     (let g = min e f
      in signed_int s (m * 2 ^ nat (e - g)) = signed_int t (n * 2 ^ nat (f - g)))"

section \<open>binary32: the type \<^verbatim>\<open>float\<close>\<close>

type_synonym f32 = u32

definition f32_val :: "f32 \<Rightarrow> fpv" where
  "f32_val a = fp_unpack 8 23 (uint a)"

definition f32_add :: "f32 \<Rightarrow> f32 \<Rightarrow> f32" where
  "f32_add a b = word_of_int (fpv_add 8 23 (f32_val a) (f32_val b))"

definition f32_mul :: "f32 \<Rightarrow> f32 \<Rightarrow> f32" where
  "f32_mul a b = word_of_int (fpv_mul 8 23 (f32_val a) (f32_val b))"

definition f32_div :: "f32 \<Rightarrow> f32 \<Rightarrow> f32" where
  "f32_div a b = word_of_int (fpv_div 8 23 (f32_val a) (f32_val b))"

definition f32_lt :: "f32 \<Rightarrow> f32 \<Rightarrow> bool" where
  "f32_lt a b = fpv_lt (f32_val a) (f32_val b)"

definition f32_eq :: "f32 \<Rightarrow> f32 \<Rightarrow> bool" where
  "f32_eq a b = fpv_eq (f32_val a) (f32_val b)"

definition f32_le :: "f32 \<Rightarrow> f32 \<Rightarrow> bool" where
  "f32_le a b = (f32_lt a b \<or> f32_eq a b)"

definition f32_of_nat :: "nat \<Rightarrow> f32" where
  "f32_of_nat n = word_of_int (fp_round 8 23 False (int n) 0)"

text \<open>\<^verbatim>\<open>std::max(a, b)\<close> returns its first argument unless it is smaller than the second.\<close>

definition f32_max :: "f32 \<Rightarrow> f32 \<Rightarrow> f32" where
  "f32_max a b = (if f32_lt a b then b else a)"

definition f32_is_nan :: "f32 \<Rightarrow> bool" where
  "f32_is_nan a = (f32_val a = FNan)"

definition f32_finite :: "f32 \<Rightarrow> bool" where
  "f32_finite a = (case f32_val a of FFin _ _ _ \<Rightarrow> True | _ \<Rightarrow> False)"

definition f32_nan :: f32 where
  "f32_nan = word_of_int (fp_nan 8 23)"

definition f32_neg_zero :: f32 where
  "f32_neg_zero = word_of_int (2 ^ 31)"

section \<open>binary64: the type \<^verbatim>\<open>double\<close>\<close>

type_synonym f64 = u64

definition f64_val :: "f64 \<Rightarrow> fpv" where
  "f64_val a = fp_unpack 11 52 (uint a)"

definition f64_add :: "f64 \<Rightarrow> f64 \<Rightarrow> f64" where
  "f64_add a b = word_of_int (fpv_add 11 52 (f64_val a) (f64_val b))"

definition f64_mul :: "f64 \<Rightarrow> f64 \<Rightarrow> f64" where
  "f64_mul a b = word_of_int (fpv_mul 11 52 (f64_val a) (f64_val b))"

definition f64_div :: "f64 \<Rightarrow> f64 \<Rightarrow> f64" where
  "f64_div a b = word_of_int (fpv_div 11 52 (f64_val a) (f64_val b))"

definition f64_lt :: "f64 \<Rightarrow> f64 \<Rightarrow> bool" where
  "f64_lt a b = fpv_lt (f64_val a) (f64_val b)"

definition f64_of_nat :: "nat \<Rightarrow> f64" where
  "f64_of_nat n = word_of_int (fp_round 11 52 False (int n) 0)"

section \<open>Rounding is exact on representable values\<close>

lemma bitlen_pos: "0 < n \<Longrightarrow> 0 < bitlen n"
  by (subst bitlen.simps) simp

lemma bitlen_upper: "0 \<le> n \<Longrightarrow> n < 2 ^ bitlen n"
proof (induction n rule: bitlen.induct)
  case (1 n)
  show ?case
  proof (cases "n \<le> 0")
    case True
    with 1 show ?thesis by (subst bitlen.simps) simp
  next
    case False
    with 1 have "n div 2 < 2 ^ bitlen (n div 2)" by simp
    then have "n < 2 * 2 ^ bitlen (n div 2)" by simp
    with False show ?thesis by (subst bitlen.simps) simp
  qed
qed

lemma bitlen_lower: "0 < n \<Longrightarrow> 2 ^ (bitlen n - 1) \<le> n"
proof (induction n rule: bitlen.induct)
  case (1 n)
  show ?case
  proof (cases "n = 1")
    case True
    then show ?thesis by (simp add: bitlen.simps [of 1] bitlen.simps [of 0])
  next
    case False
    with 1 have h: "0 < n div 2" "2 ^ (bitlen (n div 2) - 1) \<le> n div 2" by simp_all
    from bitlen_pos [OF h(1)] obtain k where k: "bitlen (n div 2) = Suc k"
      by (auto simp: gr0_conv_Suc)
    with h have "2 * 2 ^ k \<le> n" by simp
    with 1 k show ?thesis by (subst bitlen.simps) simp
  qed
qed

lemma bitlen_le:
  assumes "0 \<le> n" "n < 2 ^ k"
  shows "bitlen n \<le> k"
proof (cases "n = 0")
  case False
  with assms have "2 ^ (bitlen n - 1) < (2 :: int) ^ k"
    using bitlen_lower [of n] by linarith
  then have "bitlen n - 1 < k" by (rule power_less_imp_less_exp [rotated]) simp
  with False assms bitlen_pos [of n] show ?thesis by simp
qed (simp add: bitlen.simps)

lemma bitlen_ge:
  assumes "2 ^ k \<le> n"
  shows "k < bitlen n"
proof -
  have "0 \<le> n" using assms by (smt (verit) zero_le_power)
  with assms bitlen_upper [of n] have "(2 :: int) ^ k < 2 ^ bitlen n" by linarith
  then show ?thesis by simp
qed

lemma bitlen_eq: "2 ^ k \<le> n \<Longrightarrow> n < 2 ^ Suc k \<Longrightarrow> bitlen n = Suc k"
  using bitlen_ge [of k n] bitlen_le [of n "Suc k"] by (smt (verit) Suc_leI le_antisym zero_le_power)

lemma fp_pattern_split:
  fixes n :: int
  assumes "0 \<le> n" "n < 2 ^ (eb + mb + 1)"
  shows "n = (if odd (n div 2 ^ (eb + mb)) then 2 ^ (eb + mb) else 0)
            + (n div 2 ^ mb mod 2 ^ eb) * 2 ^ mb + n mod 2 ^ mb"
proof -
  let ?s = "n div 2 ^ (eb + mb)"
  have "0 \<le> ?s" using assms by (simp add: pos_imp_zdiv_nonneg_iff)
  moreover have "?s < 2"
  proof -
    have "?s * 2 ^ (eb + mb) \<le> n" by (simp add: minus_mod_eq_div_mult [symmetric])
    also have "\<dots> < 2 * 2 ^ (eb + mb)" using assms by simp
    finally show ?thesis by (simp add: mult_less_cancel_right)
  qed
  ultimately have s01: "?s = 0 \<or> ?s = 1" by linarith
  have "n div (2 ^ mb * 2 ^ eb) = n div 2 ^ mb div 2 ^ eb"
    by (rule zdiv_zmult2_eq) simp
  then have "?s = n div 2 ^ mb div 2 ^ eb"
    by (simp add: power_add mult.commute)
  then have "n div 2 ^ mb = ?s * 2 ^ eb + n div 2 ^ mb mod 2 ^ eb"
    using div_mult_mod_eq [of "n div 2 ^ mb" "2 ^ eb"] by simp
  moreover have "n = n div 2 ^ mb * 2 ^ mb + n mod 2 ^ mb"
    by (rule div_mult_mod_eq [symmetric])
  ultimately have "n = ?s * 2 ^ (eb + mb) + (n div 2 ^ mb mod 2 ^ eb) * 2 ^ mb + n mod 2 ^ mb"
    by (metis (no_types, lifting) distrib_right mult.assoc power_add)
  with s01 show ?thesis by auto
qed

text \<open>Packing what was unpacked gives the pattern back: no value of the format is rounded away.\<close>

lemma fp_emin_unpack:
  assumes "fp_unpack eb mb n = FFin s m e"
  shows "fp_emin eb mb \<le> e"
proof -
  define ex where "ex = n div 2 ^ mb mod 2 ^ eb"
  have "0 \<le> ex" by (simp add: ex_def)
  with assms show ?thesis
    by (auto simp: fp_unpack_def Let_def ex_def [symmetric] split: if_splits)
qed

lemma fp_unpack_nonneg: "fp_unpack eb mb n = FFin s m e \<Longrightarrow> 0 \<le> m"
  by (auto simp: fp_unpack_def Let_def split: if_splits)

lemma fp_round_unpack:
  assumes "0 < mb" "fp_unpack eb mb n = FFin s m e" "0 \<le> n" "n < 2 ^ (eb + mb + 1)"
  shows "fp_round eb mb s m e = n"
proof -
  define ex fr where "ex = n div 2 ^ mb mod 2 ^ eb" and "fr = n mod 2 ^ mb"
  have n: "n = fp_sign eb mb s + ex * 2 ^ mb + fr"
    and s: "s = odd (n div 2 ^ (eb + mb))"
    using fp_pattern_split [OF assms(3,4)] assms(2)
    by (auto simp: fp_sign_def ex_def fr_def fp_unpack_def Let_def split: if_splits)
  have fr: "0 \<le> fr" "fr < 2 ^ mb" and ex: "0 \<le> ex" "ex < 2 ^ eb"
    by (simp_all add: fr_def ex_def)
  have cases: "(ex = 0 \<and> ex < 2 ^ eb - 1 \<and> m = fr \<and> e = fp_emin eb mb) \<or>
      (0 < ex \<and> ex < 2 ^ eb - 1 \<and> m = 2 ^ mb + fr \<and> e = ex - 1 + fp_emin eb mb)"
    using assms(2) ex by (auto simp: fp_unpack_def Let_def ex_def [symmetric] fr_def [symmetric] split: if_splits)
  show ?thesis
  proof (cases "m = 0")
    case True
    with cases fr n show ?thesis by (auto simp: fp_round_def)
  next
    case False
    have sub: "(2 ^ eb - 1) * (2 :: int) ^ mb > ex * 2 ^ mb + fr" if "ex < 2 ^ eb - 1"
    proof -
      have "(ex + 1) * 2 ^ mb \<le> (2 ^ eb - 1) * (2 :: int) ^ mb"
        using that by (intro mult_right_mono) auto
      with fr show ?thesis by (simp add: distrib_right)
    qed
    from cases show ?thesis
    proof
      assume h: "ex = 0 \<and> ex < 2 ^ eb - 1 \<and> m = fr \<and> e = fp_emin eb mb"
      then have "bitlen m \<le> mb" using fr by (intro bitlen_le) auto
      then show ?thesis using h sub False n
        by (simp add: fp_round_def Let_def max_def)
    next
      assume h: "0 < ex \<and> ex < 2 ^ eb - 1 \<and> m = 2 ^ mb + fr \<and> e = ex - 1 + fp_emin eb mb"
      then have "bitlen m = Suc mb" using fr by (intro bitlen_eq) auto
      with h have q: "max (e + int (bitlen m) - int mb - 1) (fp_emin eb mb) = e" by simp
      have "(e - fp_emin eb mb) * 2 ^ mb + m = ex * 2 ^ mb + fr"
      proof -
        have "e - fp_emin eb mb = ex - 1" using h by simp
        then show ?thesis using h by (simp add: left_diff_distrib)
      qed
      then show ?thesis unfolding fp_round_def Let_def q
        using h sub False n by simp
    qed
  qed
qed

section \<open>The facts the kernels rest on\<close>

lemma f32_bounds: "0 \<le> uint (a :: f32)" "uint (a :: f32) < 2 ^ (8 + 23 + 1)"
  using unsigned_less [of a, where ?'a = int] by simp_all

lemma f32_round_val: "f32_val a = FFin s m e \<Longrightarrow> fp_round 8 23 s m e = uint a"
  using fp_round_unpack [of 23 8 "uint a"] f32_bounds [of a] by (simp add: f32_val_def)

lemma f32_val_emin: "f32_val a = FFin s m e \<Longrightarrow> fp_emin 8 23 \<le> e"
  by (auto simp: f32_val_def dest: fp_emin_unpack)

lemma f32_val_nonneg: "f32_val a = FFin s m e \<Longrightarrow> 0 \<le> m"
  by (auto simp: f32_val_def dest: fp_unpack_nonneg)

lemma f32_val_zero: "f32_val 0 = FFin False 0 (fp_emin 8 23)"
  by (simp add: f32_val_def fp_unpack_def)

lemma f32_val_neg_zero: "f32_val f32_neg_zero = FFin True 0 (fp_emin 8 23)"
  by (simp add: f32_val_def fp_unpack_def f32_neg_zero_def)

lemma f32_val_nan: "f32_val f32_nan = FNan"
  by (simp add: f32_val_def fp_unpack_def f32_nan_def fp_nan_def)

lemma f32_zero_cases:
  assumes "f32_val a = FFin s 0 e"
  shows "a = (if s then f32_neg_zero else 0)"
proof -
  have "uint a = fp_sign 8 23 s"
    using f32_round_val [OF assms] by (simp add: fp_round_def)
  then have "a = word_of_int (fp_sign 8 23 s)"
    by (metis word_of_int_uint)
  then show ?thesis by (auto simp: fp_sign_def f32_neg_zero_def)
qed

text \<open>\<^verbatim>\<open>a == 0.0f\<close> holds for the two zeros only.\<close>

lemma f32_eq_zero: "f32_eq a 0 \<longleftrightarrow> a = 0 \<or> a = f32_neg_zero"
proof
  assume h: "f32_eq a 0"
  then obtain s m e where v: "f32_val a = FFin s m e"
    by (cases "f32_val a") (auto simp: f32_eq_def f32_val_zero)
  with h f32_val_nonneg [OF v] have "m = 0"
    by (auto simp: f32_eq_def f32_val_zero Let_def signed_int_def split: if_splits)
  with v f32_zero_cases [of a s e] show "a = 0 \<or> a = f32_neg_zero"
    by (auto split: if_splits)
next
  assume "a = 0 \<or> a = f32_neg_zero"
  then show "f32_eq a 0"
    by (auto simp: f32_eq_def f32_val_zero f32_val_neg_zero signed_int_def)
qed

lemma f32_mul_zero:
  assumes "f32_eq a 0" "f32_finite b"
  shows "f32_eq (f32_mul a b) 0"
proof -
  obtain s where a: "f32_val a = FFin s 0 (fp_emin 8 23)"
    using assms(1) f32_val_zero f32_val_neg_zero unfolding f32_eq_zero by blast
  obtain t n f where b: "f32_val b = FFin t n f"
    using assms(2) by (auto simp: f32_finite_def split: fpv.splits)
  have "f32_mul a b = word_of_int (fp_sign 8 23 (s \<noteq> t))"
    by (simp add: f32_mul_def a b fp_round_def)
  then show ?thesis
    by (auto simp: f32_eq_zero fp_sign_def f32_neg_zero_def)
qed

text \<open>Rounding depends on the number, not on how it is scaled.\<close>

lemma bitlen_shift: "0 < m \<Longrightarrow> bitlen (m * 2 ^ k) = bitlen m + k"
proof (induction k)
  case (Suc k)
  have "bitlen (m * 2 ^ Suc k) = Suc (bitlen (m * 2 ^ Suc k div 2))"
    using mult_pos_pos [OF Suc.prems, of "2 ^ Suc k"]
    by (subst bitlen.simps) (simp del: power_Suc)
  with Suc show ?case by (simp add: mult.left_commute)
qed simp

lemma rne_shift: "rne (m * 2 ^ k) (d + k) = rne m d"
proof -
  have "m * 2 ^ k div 2 ^ (d + k) = m div 2 ^ d"
    by (simp add: power_add div_mult_mult1_if mult.commute)
  moreover have "m * 2 ^ k mod 2 ^ (d + k) = m mod 2 ^ d * 2 ^ k"
    by (simp add: power_add mod_mult_mult2)
  ultimately show ?thesis
    by (simp add: rne_def Let_def power_add mult.assoc [symmetric] mult_less_cancel_right)
qed

lemma rne_exact: "d \<le> k \<Longrightarrow> rne (m * 2 ^ k) d = m * 2 ^ (k - d)"
  using power_add [of "2 :: int" "k - d" d]
  by (simp add: rne_def Let_def mult.assoc [symmetric])

lemma fp_round_shift:
  assumes "0 \<le> m"
  shows "fp_round eb mb s (m * 2 ^ k) (e - int k) = fp_round eb mb s m e"
proof (cases "m = 0")
  case False
  define q where "q = max (e + int (bitlen m) - int mb - 1) (fp_emin eb mb)"
  have q': "max (e - int k + int (bitlen (m * 2 ^ k)) - int mb - 1) (fp_emin eb mb) = q"
    using False assms by (simp add: bitlen_shift q_def)
  have "(if q \<le> e - int k then m * 2 ^ k * 2 ^ nat (e - int k - q) else rne (m * 2 ^ k) (nat (q - (e - int k))))
      = (if q \<le> e then m * 2 ^ nat (e - q) else rne m (nat (q - e)))"
  proof -
    consider "q \<le> e - int k" | "e - int k < q" "q \<le> e" | "e < q" by linarith
    then show ?thesis
    proof cases
      case 1
      then have "nat (e - q) = k + nat (e - int k - q)" by simp
      with 1 show ?thesis by (simp add: power_add)
    next
      case 2
      then have "k - nat (q - (e - int k)) = nat (e - q)" "nat (q - (e - int k)) \<le> k" by simp_all
      with 2 show ?thesis by (simp add: rne_exact)
    next
      case 3
      then have "nat (q - (e - int k)) = nat (q - e) + k" by simp
      with 3 show ?thesis by (simp add: rne_shift)
    qed
  qed
  with False show ?thesis
    by (simp add: fp_round_def Let_def q' q_def [symmetric])
qed (simp add: fp_round_def)

text \<open>A value an accumulator can hold: not a negative zero, and a NaN only in its canonical form.\<close>

definition f32_acc_ok :: "f32 \<Rightarrow> bool" where
  "f32_acc_ok a = (a \<noteq> f32_neg_zero \<and> (f32_is_nan a \<longrightarrow> a = f32_nan))"

lemma f32_acc_ok_zero [simp]: "f32_acc_ok 0"
  by (simp add: f32_acc_ok_def f32_neg_zero_def f32_is_nan_def f32_val_zero)

lemma f32_inf_val:
  assumes "f32_val a = FInf s"
  shows "a = word_of_int (fp_inf 8 23 s)"
proof -
  from assms have h: "uint a div 2 ^ 23 mod 2 ^ 8 = 255" "uint a mod 2 ^ 23 = 0"
      "s = odd (uint a div 2 ^ 31)"
    by (auto simp: f32_val_def fp_unpack_def Let_def split: if_splits)
  have "uint a = fp_inf 8 23 s"
    using fp_pattern_split [of "uint a" 8 23] f32_bounds [of a] h
    by (simp add: fp_inf_def fp_sign_def)
  then show ?thesis by (metis word_of_int_uint)
qed

lemma f32_add_zero:
  assumes "f32_acc_ok a" "f32_eq z 0"
  shows "f32_add a z = a"
proof -
  obtain t where z: "f32_val z = FFin t 0 (fp_emin 8 23)"
    using assms(2) f32_val_zero f32_val_neg_zero unfolding f32_eq_zero by blast
  show ?thesis
  proof (cases "f32_val a")
    case FNan
    with assms(1) show ?thesis
      by (simp add: f32_add_def z f32_acc_ok_def f32_is_nan_def f32_nan_def)
  next
    case (FInf s)
    with f32_inf_val [OF FInf] show ?thesis by (simp add: f32_add_def z)
  next
    case (FFin s m e)
    note em = f32_val_emin [OF FFin] and m0 = f32_val_nonneg [OF FFin]
    show ?thesis
    proof (cases "m = 0")
      case True
      with FFin assms(1) f32_zero_cases [of a s e] have "a = 0" "\<not> s"
        by (auto simp: f32_acc_ok_def split: if_splits)
      with z show ?thesis
        by (simp add: f32_add_def f32_val_zero fp_sign_def signed_int_def)
    next
      case False
      have "fpv_add 8 23 (FFin s m e) (FFin t 0 (fp_emin 8 23)) = uint a"
      proof -
        have "signed_int s (m * 2 ^ nat (e - fp_emin 8 23)) \<noteq> 0"
          "(signed_int s (m * 2 ^ nat (e - fp_emin 8 23)) < 0) = s"
          "\<bar>signed_int s (m * 2 ^ nat (e - fp_emin 8 23))\<bar> = m * 2 ^ nat (e - fp_emin 8 23)"
          using False m0 by (auto simp: signed_int_def abs_mult mult_less_0_iff)
        moreover have "min e (fp_emin 8 23) = fp_emin 8 23" using em by simp
        ultimately show ?thesis
          using em fp_round_shift [OF m0, of 8 23 s "nat (e - fp_emin 8 23)" e]
          by (simp add: f32_round_val [OF FFin] signed_int_def [of t])
      qed
      then show ?thesis by (simp add: f32_add_def z FFin)
    qed
  qed
qed

lemma rne_nonneg: "0 \<le> m \<Longrightarrow> 0 \<le> rne m d"
  using pos_imp_zdiv_nonneg_iff [of "2 ^ d" m] by (auto simp: rne_def Let_def)

lemma f32_uint_of_int: "0 \<le> p \<Longrightarrow> p < 2 ^ 32 \<Longrightarrow> uint (word_of_int p :: f32) = p"
  by (simp add: unsigned_of_int take_bit_int_eq_self_iff)

lemma fp_round_cases:
  assumes "0 < m" "fp_emin eb mb \<le> e"
  obtains "fp_round eb mb s m e = fp_inf eb mb s"
  | b where "0 < b" "b < (2 ^ eb - 1) * 2 ^ mb" "fp_round eb mb s m e = fp_sign eb mb s + b"
proof -
  define q where "q = max (e + int (bitlen m) - int mb - 1) (fp_emin eb mb)"
  define k where "k = (if q \<le> e then m * 2 ^ nat (e - q) else rne m (nat (q - e)))"
  have q: "fp_emin eb mb \<le> q" by (simp add: q_def)
  have "0 \<le> k" using assms(1) by (simp add: k_def rne_nonneg)
  have "0 < (q - fp_emin eb mb) * 2 ^ mb + k"
  proof (cases "q \<le> e")
    case True
    then have "0 < k" using assms(1) by (simp add: k_def)
    with q show ?thesis by (simp add: add_nonneg_pos)
  next
    case False
    with assms(2) have "0 < q - fp_emin eb mb" by linarith
    with \<open>0 \<le> k\<close> show ?thesis by (simp add: add_pos_nonneg)
  qed
  moreover have "fp_round eb mb s m e =
      (if (2 ^ eb - 1) * 2 ^ mb \<le> (q - fp_emin eb mb) * 2 ^ mb + k then fp_inf eb mb s
       else fp_sign eb mb s + ((q - fp_emin eb mb) * 2 ^ mb + k))"
    using assms(1) unfolding fp_round_def Let_def q_def [symmetric] k_def [symmetric] by simp
  ultimately show thesis using that by (auto split: if_splits)
qed

lemma f32_pattern_acc_ok:
  assumes "0 < b" "b \<le> 255 * 2 ^ 23"
  shows "f32_acc_ok (word_of_int (fp_sign 8 23 s + b))"
proof -
  let ?w = "word_of_int (fp_sign 8 23 s + b) :: f32"
  have u: "uint ?w = fp_sign 8 23 s + b"
    using assms by (intro f32_uint_of_int) (auto simp: fp_sign_def)
  have "?w \<noteq> f32_neg_zero"
  proof
    assume "?w = f32_neg_zero"
    then have "fp_sign 8 23 s + b = 2 ^ 31" using u by (simp add: f32_neg_zero_def)
    with assms show False by (auto simp: fp_sign_def split: if_splits)
  qed
  moreover have "f32_val ?w \<noteq> FNan"
  proof
    define p where "p = fp_sign 8 23 s + b"
    assume w: "f32_val ?w = FNan"
    have nan: "p div 8388608 mod 256 = 255" "p mod 8388608 \<noteq> 0"
      using w [unfolded f32_val_def u, folded p_def]
      by (auto simp: fp_unpack_def Let_def split: if_splits)
    have quot: "p div 8388608 mod 256 = b div 8388608" and rem: "p mod 8388608 = b mod 8388608"
    proof -
      have b: "0 \<le> b div 8388608" "b div 8388608 < 256"
        using assms zdiv_mono1 [of b "255 * 8388608" 8388608]
        by (simp_all add: pos_imp_zdiv_nonneg_iff)
      have p: "p = (if s then 256 else 0) * 8388608 + b" by (simp add: p_def fp_sign_def)
      then have "p div 8388608 = (if s then 256 else 0) + b div 8388608"
        by (simp only: div_mult_self3)
      with b show "p div 8388608 mod 256 = b div 8388608" by simp
      from p show "p mod 8388608 = b mod 8388608" by (simp only: mod_mult_self3)
    qed
    have "b mod 8388608 = 0"
      using nan(1) quot assms div_mult_mod_eq [of b 8388608] pos_mod_sign [of 8388608 b] by simp
    with nan(2) rem show False by simp
  qed
  ultimately show ?thesis by (simp add: f32_acc_ok_def f32_is_nan_def)
qed

lemma f32_sign_zero:
  "word_of_int (fp_sign 8 23 s) = (if s then f32_neg_zero else (0 :: f32))"
  by (simp add: fp_sign_def f32_neg_zero_def)

text \<open>An accumulator that starts at \<^verbatim>\<open>0.0f\<close> stays one whatever is added to it.\<close>

lemma f32_add_acc_ok:
  assumes "f32_acc_ok a"
  shows "f32_acc_ok (f32_add a b)"
proof -
  have nan: "f32_acc_ok f32_nan"
    by (simp add: f32_acc_ok_def f32_nan_def f32_neg_zero_def fp_nan_def)
  have inf: "f32_acc_ok (word_of_int (fp_inf 8 23 s))" for s
    using f32_pattern_acc_ok [of "255 * 2 ^ 23" s] by (simp add: fp_inf_def)
  show ?thesis
  proof (cases "f32_val a"; cases "f32_val b")
    fix s m e t n f
    assume v: "f32_val a = FFin s m e" "f32_val b = FFin t n f"
    define g where "g = min e f"
    define z where "z = signed_int s (m * 2 ^ nat (e - g)) + signed_int t (n * 2 ^ nat (f - g))"
    have sum: "f32_add a b = word_of_int (if z = 0 then fp_sign 8 23 (s \<and> t)
        else fp_round 8 23 (z < 0) \<bar>z\<bar> g)"
      by (simp add: f32_add_def v g_def [symmetric] z_def [symmetric])
    show ?thesis
    proof (cases "z = 0")
      case True
      have "\<not> (s \<and> t)"
      proof
        assume st: "s \<and> t"
        have "0 \<le> m * 2 ^ nat (e - g)" "0 \<le> n * 2 ^ nat (f - g)"
          using f32_val_nonneg [OF v(1)] f32_val_nonneg [OF v(2)] by simp_all
        moreover have "- (m * 2 ^ nat (e - g)) + - (n * 2 ^ nat (f - g)) = 0"
          using True st by (auto simp: z_def signed_int_def)
        ultimately have "m * 2 ^ nat (e - g) = 0" by linarith
        then have "m = 0" by simp
        with v(1) st f32_zero_cases [of a s e] assms show False by (simp add: f32_acc_ok_def)
      qed
      with True sum show ?thesis by (simp add: f32_sign_zero)
    next
      case False
      have ge: "fp_emin 8 23 \<le> g"
        using f32_val_emin [OF v(1)] f32_val_emin [OF v(2)] by (simp add: g_def)
      have pos: "0 < \<bar>z\<bar>" using False by simp
      show ?thesis
        by (rule fp_round_cases [OF pos ge, of "z < 0"])
           (auto simp: sum inf f32_pattern_acc_ok False simp del: of_int_add)
    qed
  qed (auto simp: f32_add_def inf nan f32_nan_def [symmetric])
qed

end
