(* ===== verification/Tensor.thy ===== *)
theory Tensor
  imports Floats
begin

text \<open>
  \<^verbatim>\<open>Tensor<float>\<close> of ie/core/tensor.h: a row-major buffer with a shape of 64-bit extents. The
  record carries the four fields of the class; \<open>t_data\<close> is the content of the buffer \<^verbatim>\<open>data_\<close>
  points to and \<open>t_alloc\<close> says which allocator owns it. Element counts are products of
  \<^verbatim>\<open>uint64_t\<close> and wrap around. A buffer of \<^verbatim>\<open>size_ * sizeof(float)\<close> bytes whose byte count wraps is
  smaller than the elements written into it, so constructing it is undefined behaviour.
  Running out of memory and who owns a buffer are the subject of Tensor_Memory.
\<close>

section \<open>The class and its constructors\<close>

datatype alloc_kind = CpuAlloc | PoolAlloc

record 'a tensor =
  t_shape :: "u64 list"
  t_data :: "'a list"
  t_size :: u64
  t_alloc :: alloc_kind

definition computeSize :: "u64 list \<Rightarrow> u64" where
  "computeSize shp = (if shp = [] then 0 else foldl (*) 1 shp)"

text \<open>\<^verbatim>\<open>static_cast<std::size_t>(size_) * sizeof(T)\<close> does not wrap.\<close>

definition buffer_fits :: "u64 \<Rightarrow> bool" where
  "buffer_fits n = (unat n * 4 < 2 ^ 64)"

text \<open>\<^verbatim>\<open>allocateBuffer\<close> followed by a write of all \<open>size_\<close> elements.\<close>

definition alloc_fill :: "u64 list \<Rightarrow> u64 \<Rightarrow> alloc_kind \<Rightarrow> 'a list \<Rightarrow> 'a tensor res" where
  "alloc_fill shp n al xs =
     (if buffer_fits n
      then Inr \<lparr>t_shape = shp, t_data = xs, t_size = n, t_alloc = al\<rparr>
      else Inl (Undefined ''tensor buffer smaller than its element count''))"

definition tensor_zeros :: "'a \<Rightarrow> u64 list \<Rightarrow> alloc_kind \<Rightarrow> 'a tensor res" where
  "tensor_zeros z shp al =
     (let n = computeSize shp in alloc_fill shp n al (replicate (unat n) z))"

definition tensor_of :: "u64 list \<Rightarrow> 'a list \<Rightarrow> alloc_kind \<Rightarrow> 'a tensor res" where
  "tensor_of shp vs al =
     (let n = computeSize shp
      in if length vs \<noteq> unat n
         then Inl (InvalidArgument ''Tensor data size does not match shape'')
         else alloc_fill shp n al vs)"

text \<open>A default-constructed tensor, and what a move leaves behind.\<close>

definition tensor_default :: "'a tensor" where
  "tensor_default = \<lparr>t_shape = [], t_data = [], t_size = 0, t_alloc = CpuAlloc\<rparr>"

definition tensor_copy :: "'a tensor \<Rightarrow> 'a tensor res" where
  "tensor_copy t = alloc_fill (t_shape t) (t_size t) (t_alloc t) (t_data t)"

text \<open>\<^verbatim>\<open>operator=(const Tensor&)\<close>: the old buffer goes, nothing of the target survives.\<close>

definition tensor_assign :: "'a tensor \<Rightarrow> 'a tensor \<Rightarrow> 'a tensor res" where
  "tensor_assign dst src = alloc_fill (t_shape src) (t_size src) (t_alloc src) (t_data src)"

text \<open>The move constructor and move assignment: the new object and the moved-from one.\<close>

definition tensor_move :: "'a tensor \<Rightarrow> 'a tensor \<times> 'a tensor" where
  "tensor_move t = (t, t\<lparr>t_shape := [], t_data := [], t_size := 0\<rparr>)"

section \<open>Operations\<close>

definition rank :: "'a tensor \<Rightarrow> nat" where
  "rank t = length (t_shape t)"

definition dim :: "'a tensor \<Rightarrow> nat \<Rightarrow> u64 res" where
  "dim t ax = (if ax < length (t_shape t) then Inr (t_shape t ! ax)
               else Inl (OutOfRange ''vector::_M_range_check''))"

definition tensor_at :: "'a tensor \<Rightarrow> u64 \<Rightarrow> 'a res" where
  "tensor_at t i = (if t_size t \<le> i then Inl (OutOfRange ''Tensor index out of range'')
                    else rd (t_data t) (unat i))"

definition reshape :: "'a tensor \<Rightarrow> u64 list \<Rightarrow> 'a tensor res" where
  "reshape t shp =
     (if computeSize shp \<noteq> t_size t
      then Inl (InvalidArgument ''Cannot reshape tensor: element count mismatch'')
      else Inr (t\<lparr>t_shape := shp\<rparr>))"

text \<open>\<^verbatim>\<open>operator==\<close> compares the elements with the element type's \<^verbatim>\<open>==\<close>, here \<open>eq\<close>.\<close>

definition tensor_eq :: "('a \<Rightarrow> 'a \<Rightarrow> bool) \<Rightarrow> 'a tensor \<Rightarrow> 'a tensor \<Rightarrow> bool" where
  "tensor_eq eq s t =
     (t_shape s = t_shape t \<and> t_size s = t_size t \<and> list_all2 eq (t_data s) (t_data t))"

text \<open>\<^verbatim>\<open>toString\<close>; \<open>pr\<close> prints an element as \<^verbatim>\<open>ostringstream\<close> does.\<close>

fun sep_by :: "string \<Rightarrow> string list \<Rightarrow> string" where
  "sep_by sep [] = ''''"
| "sep_by sep [x] = x"
| "sep_by sep (x # y # xs) = x @ sep @ sep_by sep (y # xs)"

definition tensor_toString :: "('a \<Rightarrow> string) \<Rightarrow> 'a tensor \<Rightarrow> string res" where
  "tensor_toString pr t =
     (let head = ''Tensor(('' @ sep_by '', '' (map (nat_to_string \<circ> unat) (t_shape t)) @ '')''
      in if length (t_shape t) = 2
         then let rows = unat (t_shape t ! 0); cols = unat (t_shape t ! 1)
              in if length (t_data t) < rows * cols then Inl (Undefined ''toString reads past the buffer'')
                 else Inr (head @ ''['' @ sep_by '', ''
                   (map (\<lambda>r. ''['' @ sep_by '', '' (map (\<lambda>c. pr (t_data t ! (r * cols + c))) [0..<cols]) @ '']'')
                     [0..<rows]) @ '']'' @ '')'')
         else Inr (head @ ''['' @ sep_by '', '' (map pr (t_data t)) @ '']'' @ '')''))"

section \<open>Well-formed tensors\<close>

text \<open>What every constructor establishes: as many elements as the (wrapped) size says.\<close>

definition wf_tensor :: "'a tensor \<Rightarrow> bool" where
  "wf_tensor t = (t_size t = computeSize (t_shape t) \<and> length (t_data t) = unat (t_size t)
                  \<and> buffer_fits (t_size t))"

text \<open>The extents multiply without wrapping: what a shape that describes memory satisfies.\<close>

definition shape_ok :: "u64 list \<Rightarrow> bool" where
  "shape_ok shp = (prod_list (map unat shp) < 2 ^ 64)"

lemma alloc_fill_eq_Inr:
  "alloc_fill shp n al xs = Inr t \<longleftrightarrow>
     buffer_fits n \<and> t = \<lparr>t_shape = shp, t_data = xs, t_size = n, t_alloc = al\<rparr>"
  by (auto simp: alloc_fill_def)

lemma computeSize_Nil [simp]: "computeSize [] = 0"
  by (simp add: computeSize_def)

lemma foldl_mult_unat:
  fixes a :: u64
  shows "unat a * prod_list (map unat shp) < 2 ^ 64 \<Longrightarrow>
    unat (foldl (*) a shp) = unat a * prod_list (map unat shp)"
proof (induction shp arbitrary: a)
  case (Cons d shp)
  show ?case
  proof (cases "prod_list (map unat shp) = 0")
    case True
    then have "0 \<in> set shp" by (auto simp: prod_list_zero_iff unat_eq_zero)
    moreover have "0 \<in> set xs \<Longrightarrow> foldl (*) b xs = 0" for b :: u64 and xs
    proof (induction xs arbitrary: b)
      case (Cons x xs)
      have "foldl (*) (0 :: u64) ys = 0" for ys by (induction ys) auto
      with Cons show ?case by auto
    qed simp
    ultimately show ?thesis using True by simp
  next
    case False
    then have "unat a * unat d * 1 \<le> unat a * unat d * prod_list (map unat shp)"
      by (intro mult_le_mono) auto
    also have "\<dots> < 2 ^ 64" using Cons.prems by (simp add: mult.assoc)
    finally have "unat a * unat d < 2 ^ 64" by simp
    then have ad: "unat (a * d) = unat a * unat d"
      by (simp add: unat_word_ariths)
    with Cons.prems have "unat (a * d) * prod_list (map unat shp) < 2 ^ 64" by (simp add: mult.assoc)
    from Cons.IH [OF this] ad show ?thesis by (simp add: mult.assoc)
  qed
qed simp

lemma computeSize_ok: "shape_ok shp \<Longrightarrow> shp \<noteq> [] \<Longrightarrow> unat (computeSize shp) = prod_list (map unat shp)"
  using foldl_mult_unat [of 1 shp] by (simp add: computeSize_def shape_ok_def)

lemma tensor_zeros_wf: "tensor_zeros z shp al = Inr t \<Longrightarrow>
    wf_tensor t \<and> t_shape t = shp \<and> t_alloc t = al \<and> t_data t = replicate (unat (computeSize shp)) z"
  by (auto simp: tensor_zeros_def Let_def alloc_fill_eq_Inr wf_tensor_def)

lemma tensor_of_wf: "tensor_of shp vs al = Inr t \<Longrightarrow>
    wf_tensor t \<and> t_shape t = shp \<and> t_data t = vs \<and> t_alloc t = al"
  by (auto simp: tensor_of_def Let_def alloc_fill_eq_Inr wf_tensor_def split: if_splits)

lemma reshape_wf: "wf_tensor t \<Longrightarrow> reshape t shp = Inr u \<Longrightarrow>
    wf_tensor u \<and> t_data u = t_data t \<and> t_shape u = shp"
  by (auto simp: reshape_def wf_tensor_def split: if_splits)

lemma tensor_copy_ok: "wf_tensor t \<Longrightarrow> tensor_copy t = Inr t"
  by (cases t) (simp add: tensor_copy_def alloc_fill_def wf_tensor_def)

lemma tensor_default_wf: "wf_tensor tensor_default"
  by (simp add: wf_tensor_def tensor_default_def buffer_fits_def)

lemma tensor_move_wf: "wf_tensor (snd (tensor_move t))"
  by (simp add: tensor_move_def wf_tensor_def buffer_fits_def)

end
