(* ===== verification/Allocator.thy ===== *)
theory Allocator
  imports Prelude
begin

text \<open>
  core/allocator.h and core/allocator.cpp: the aligned allocator and the pooled arena. Addresses
  are natural numbers, 0 is the null pointer, sizes are \<^verbatim>\<open>std::size_t\<close> words. The global
  \<^verbatim>\<open>operator new\<close> is a parameter \<open>new\<close>: given the blocks it has handed out and a size it
  returns a base address or fails (\<^verbatim>\<open>std::bad_alloc\<close>); \<open>new_ok\<close> is what the standard promises
  of it. The mutex makes every operation of the pool atomic, so a concurrent run is a sequence
  of operations. The locale \<open>block_allocator\<close> is the contract of the \<^verbatim>\<open>Allocator\<close> interface, and
  both allocators are interpretations of it.
\<close>

section \<open>Size classes\<close>

definition kAlignment :: u64 where "kAlignment = 64"

definition round_up :: "u64 \<Rightarrow> u64" where
  "round_up bytes = (bytes + kAlignment - 1) div kAlignment * kAlignment"

text \<open>The doubling loop; a run that does not end is \<open>None\<close>.\<close>

partial_function (option) size_loop :: "u64 \<Rightarrow> u64 \<Rightarrow> u64 option" where
  "size_loop cls rounded = (if cls < rounded then size_loop (push_bit 1 cls) rounded else Some cls)"

declare size_loop.simps [code]

definition sizeClass :: "u64 \<Rightarrow> u64 option" where
  "sizeClass bytes = size_loop kAlignment (round_up bytes)"

section \<open>The pool\<close>

record pool_stats =
  arenaBytes :: u64
  liveBytes :: u64
  peakLiveBytes :: u64
  hits :: u64
  misses :: u64

type_synonym block = "nat \<times> nat"

record pool =
  chunkBytes :: u64
  chunks :: "block list"
  cursor :: nat
  remaining :: u64
  freeLists :: "u64 \<rightharpoonup> nat list"
  stats :: pool_stats

type_synonym heap_new = "block list \<Rightarrow> nat \<Rightarrow> nat option"

definition pool_new :: "u64 \<Rightarrow> pool" where
  "pool_new n = \<lparr>chunkBytes = n, chunks = [], cursor = 0, remaining = 0, freeLists = Map.empty,
     stats = \<lparr>arenaBytes = 0, liveBytes = 0, peakLiveBytes = 0, hits = 0, misses = 0\<rparr>\<rparr>"

definition addChunk :: "heap_new \<Rightarrow> u64 \<Rightarrow> pool \<Rightarrow> pool option" where
  "addChunk new minimumBytes p =
     (let size = (if minimumBytes < chunkBytes p then chunkBytes p else minimumBytes)
      in case new (chunks p) (unat size) of
           None \<Rightarrow> None
         | Some chunk \<Rightarrow> Some (p\<lparr>chunks := chunks p @ [(chunk, unat size)], cursor := chunk,
             remaining := size, stats := (stats p)\<lparr>arenaBytes := arenaBytes (stats p) + size\<rparr>\<rparr>))"

definition note_live :: "u64 \<Rightarrow> pool_stats \<Rightarrow> pool_stats" where
  "note_live cls s =
     (let live = liveBytes s + cls
      in s\<lparr>liveBytes := live, peakLiveBytes := (if peakLiveBytes s < live then live else peakLiveBytes s)\<rparr>)"

text \<open>\<^verbatim>\<open>allocate\<close>: the pointer or the exception, and the state it leaves in either case. A call
  whose size-class loop does not end is \<open>OutOfFuel\<close>.\<close>

definition pool_allocate :: "heap_new \<Rightarrow> u64 \<Rightarrow> pool \<Rightarrow> nat res \<times> pool" where
  "pool_allocate new bytes p =
     (if bytes = 0 then (Inr 0, p)
      else case sizeClass bytes of
        None \<Rightarrow> (Inl OutOfFuel, p)
      | Some cls \<Rightarrow>
        (case freeLists p cls of
           Some (x # xs) \<Rightarrow>
             (let ptr = last (x # xs); s = (stats p)\<lparr>hits := hits (stats p) + 1\<rparr>
              in (Inr ptr, p\<lparr>freeLists := (freeLists p)(cls \<mapsto> butlast (x # xs)), stats := note_live cls s\<rparr>))
         | _ \<Rightarrow>
             (let p = p\<lparr>stats := (stats p)\<lparr>misses := misses (stats p) + 1\<rparr>\<rparr>
              in case (if remaining p < cls then addChunk new cls p else Some p) of
                   None \<Rightarrow> (Inl BadAlloc, p)
                 | Some p \<Rightarrow> (Inr (cursor p), p\<lparr>cursor := cursor p + unat cls,
                     remaining := remaining p - cls, stats := note_live cls (stats p)\<rparr>))))"

definition pool_deallocate :: "nat \<Rightarrow> u64 \<Rightarrow> pool \<Rightarrow> unit res \<times> pool" where
  "pool_deallocate ptr bytes p =
     (if ptr = 0 \<or> bytes = 0 then (Inr (), p)
      else case sizeClass bytes of
        None \<Rightarrow> (Inl OutOfFuel, p)
      | Some cls \<Rightarrow>
        (Inr (), p\<lparr>freeLists := (freeLists p)(cls \<mapsto> (case freeLists p cls of Some xs \<Rightarrow> xs | None \<Rightarrow> []) @ [ptr]),
           stats := (stats p)\<lparr>liveBytes := liveBytes (stats p) - cls\<rparr>\<rparr>))"

text \<open>The destructor gives every chunk back to the global heap. \<open>hs\<close> are the blocks outstanding there;
  deleting an address that is not outstanding is undefined behaviour.\<close>

definition heap_delete :: "nat \<Rightarrow> block list \<Rightarrow> block list res" where
  "heap_delete a hs = (if a \<in> fst ` set hs then Inr (filter (\<lambda>b. fst b \<noteq> a) hs)
     else Inl (Undefined ''operator delete of a block that is not outstanding''))"

definition pool_destroy :: "pool \<Rightarrow> block list \<Rightarrow> block list res" where
  "pool_destroy p hs = rfold (\<lambda>k. heap_delete (fst k)) (chunks p) hs"

section \<open>The plain aligned allocator\<close>

text \<open>Its state is what \<^verbatim>\<open>operator new\<close> has outstanding.\<close>

definition cpu_allocate :: "heap_new \<Rightarrow> u64 \<Rightarrow> block list \<Rightarrow> nat res \<times> block list" where
  "cpu_allocate new bytes bs =
     (if bytes = 0 then (Inr 0, bs)
      else let rounded = round_up bytes
           in case new bs (unat rounded) of
                None \<Rightarrow> (Inl BadAlloc, bs)
              | Some a \<Rightarrow> (Inr a, (a, unat rounded) # bs))"

definition cpu_deallocate :: "nat \<Rightarrow> u64 \<Rightarrow> block list \<Rightarrow> unit res \<times> block list" where
  "cpu_deallocate ptr bytes bs =
     (if ptr = 0 then (Inr (), bs) else (Inr (), remove1 (ptr, unat (round_up bytes)) bs))"

section \<open>What the size-class loop computes\<close>

lemma round_up_unat:
  "unat (round_up b) = (if unat b + 63 < 2 ^ 64 then (unat b + 63) div 64 * 64 else 0)"
proof (cases "unat b + 63 < 2 ^ 64")
  case True
  then have "unat (b + 63) = unat b + 63" by (simp add: unat_word_ariths)
  moreover have "(unat b + 63) div 64 * 64 \<le> unat b + 63" by simp
  ultimately show ?thesis
    using True unfolding round_up_def kAlignment_def
    by (simp add: unat_word_ariths unat_div)
next
  case False
  have "unat b < 2 ^ 64" using unsigned_less [of b, where ?'a = nat] by simp
  moreover have "(unat b + 63) mod 2 ^ 64 = (unat b + 63 - 2 ^ 64) mod 2 ^ 64"
    using False by (intro le_mod_geq) simp
  ultimately have "(unat b + 63) mod 2 ^ 64 < 63"
    using False by (simp add: mod_less)
  moreover have "unat (b + 63) = (unat b + 63) mod 2 ^ 64" by (simp add: unat_word_ariths)
  ultimately have "unat (b + 63) div 64 = 0" by simp
  then show ?thesis
    using False unfolding round_up_def kAlignment_def
    by (simp add: unat_word_ariths unat_div add.commute [of 63])
qed

lemma size_loop_not_zero:
  assumes "size_loop c r = Some y"
  shows "c = 0 \<longrightarrow> r = 0"
proof (rule size_loop.raw_induct [where P = "\<lambda>c r y. c = 0 \<longrightarrow> r = 0", OF _ assms])
  fix f :: "u64 \<Rightarrow> u64 \<Rightarrow> u64 option" and c r y
  assume IH: "\<And>c r y. f c r = Some y \<Longrightarrow> c = 0 \<longrightarrow> r = 0"
    and eq: "(if c < r then f (push_bit 1 c) r else Some c) = Some y"
  show "c = 0 \<longrightarrow> r = 0"
  proof
    assume c: "c = 0"
    show "r = 0"
    proof (cases "0 < r")
      case True
      with eq c have "f 0 r = Some y" by simp
      with IH show ?thesis by blast
    qed (simp add: word_gt_0)
  qed
qed

lemma size_loop_zero: "0 < r \<Longrightarrow> size_loop 0 r = None"
  using size_loop_not_zero [of 0 r] by (cases "size_loop 0 r") auto

lemma unat_pow2: "k < 64 \<Longrightarrow> unat (2 ^ k :: u64) = 2 ^ k"
  using unat_word_of_nat [of "2 ^ k"] power_strict_increasing [of k 64 "2 :: nat"] by simp

lemma double_pow2: "push_bit 1 (2 ^ k :: u64) = 2 ^ Suc k"
  by (simp add: push_bit_eq_mult)

lemma size_loop_pow:
  assumes "k \<le> 63"
  shows "if unat r \<le> 2 ^ 63
    then \<exists>j. k \<le> j \<and> j \<le> 63 \<and> size_loop (2 ^ k) r = Some (2 ^ j) \<and> unat r \<le> 2 ^ j \<and> (j = k \<or> 2 ^ (j - 1) < unat r)
    else size_loop (2 ^ k) r = None"
  using assms
proof (induction "63 - k" arbitrary: k)
  case 0
  then have k: "k = 63" by simp
  have less: "(2 ^ 63 :: u64) < r \<longleftrightarrow> 2 ^ 63 < unat r"
    by (simp only: word_less_nat_alt unat_pow2)
  have "push_bit 1 (2 ^ 63 :: u64) = 0" by simp
  moreover have "2 ^ 63 < unat r \<Longrightarrow> 0 < r" by (cases "r = 0") (auto simp: word_gt_0)
  ultimately show ?case
    using size_loop_zero [of r] k less by (auto simp: size_loop.simps [of "2 ^ 63"] simp del: power_numeral)
next
  case (Suc n)
  have "(2 ^ k :: u64) < r \<longleftrightarrow> 2 ^ k < unat r"
    using Suc.prems by (simp add: word_less_nat_alt unat_pow2)
  note step = size_loop.simps [of "2 ^ k" r, unfolded double_pow2 this]
  have IH: "if unat r \<le> 2 ^ 63
    then \<exists>j. Suc k \<le> j \<and> j \<le> 63 \<and> size_loop (2 ^ Suc k) r = Some (2 ^ j) \<and> unat r \<le> 2 ^ j \<and> (j = Suc k \<or> 2 ^ (j - 1) < unat r)
    else size_loop (2 ^ Suc k) r = None"
    using Suc.hyps(2) by (intro Suc.hyps(1)) auto
  have mono: "(2 :: nat) ^ k \<le> 2 ^ 63" using Suc.prems by (intro power_increasing) auto
  show ?case
  proof (cases "2 ^ k < unat r")
    case True
    then have eq: "size_loop (2 ^ k) r = size_loop (2 ^ Suc k) r" by (simp add: step)
    show ?thesis
    proof (cases "unat r \<le> 2 ^ 63")
      case le: True
      with IH obtain j where j: "Suc k \<le> j" "j \<le> 63" "size_loop (2 ^ Suc k) r = Some (2 ^ j)"
        "unat r \<le> 2 ^ j" "j = Suc k \<or> 2 ^ (j - 1) < unat r" by auto
      with True have "2 ^ (j - 1) < unat r" by auto
      with le j eq show ?thesis by (auto intro!: exI [of _ j])
    qed (use IH eq in simp)
  next
    case False
    then show ?thesis using mono Suc.prems by (auto simp: step)
  qed
qed

text \<open>The size class of a request, as a decision: the least power of two that holds it, from 64 on;
  no answer at all just above \<open>2^63\<close>; and 64 for the requests whose rounding wraps.\<close>

lemma round_up_bounds:
  assumes "unat b \<le> 2 ^ 63"
  obtains m where "unat (round_up b) = m * 64" "unat b \<le> m * 64" "m * 64 < unat b + 64"
proof
  show "unat (round_up b) = (unat b + 63) div 64 * 64" using assms by (simp add: round_up_unat)
  show "unat b \<le> (unat b + 63) div 64 * 64" "(unat b + 63) div 64 * 64 < unat b + 64" by simp_all
qed

lemma mult64_le:
  fixes m :: nat
  assumes "m * 64 < n + 64" "n \<le> k * 64"
  shows "m * 64 \<le> k * 64"
  using assms by simp

lemma pow2_below:
  fixes m n :: nat
  assumes "6 < j" "2 ^ (j - 1) < m * 64" "m * 64 < n + 64"
  shows "2 ^ (j - 1) < n"
proof -
  have "j - 1 = 6 + (j - 7)" using assms(1) by simp
  then have e: "(2 :: nat) ^ (j - 1) = 2 ^ (j - 7) * 64" by (simp only: power_add) simp
  with assms(2) have "2 ^ (j - 7) < m" by simp
  then have "Suc (2 ^ (j - 7)) * 64 \<le> m * 64" by (intro mult_right_mono) auto
  with e assms(3) show ?thesis by simp
qed

lemma sizeClass_fits:
  assumes "unat b \<le> 2 ^ 63"
  obtains j where "6 \<le> j" "j \<le> 63" "sizeClass b = Some (2 ^ j)" "unat b \<le> 2 ^ j" "j = 6 \<or> 2 ^ (j - 1) < unat b"
proof -
  obtain m where m: "unat (round_up b) = m * 64" and bm: "unat b \<le> m * 64" "m * 64 < unat b + 64"
    by (rule round_up_bounds [OF assms])
  have "m * 64 \<le> 2 ^ 57 * 64" by (rule mult64_le [OF bm(2)]) (use assms in simp)
  then have le: "unat (round_up b) \<le> 2 ^ 63" unfolding m by simp
  have "(6 :: nat) \<le> 63" by simp
  from size_loop_pow [OF this, of "round_up b", unfolded if_P [OF le]]
  obtain j where j: "6 \<le> j" "j \<le> 63" "size_loop (2 ^ 6) (round_up b) = Some (2 ^ j)"
      "unat (round_up b) \<le> 2 ^ j" "j = 6 \<or> 2 ^ (j - 1) < unat (round_up b)"
    by blast
  have "sizeClass b = Some (2 ^ j)" using j(3) by (simp add: sizeClass_def kAlignment_def)
  moreover have "unat b \<le> 2 ^ j" using bm(1) j(4) unfolding m by (rule order_trans)
  moreover have "j = 6 \<or> 2 ^ (j - 1) < unat b"
    using j(1,5) pow2_below [of j m "unat b"] bm(2) unfolding m by fastforce
  ultimately show ?thesis using that j(1,2) by blast
qed

lemma sizeClass_diverges: "2 ^ 63 < unat b \<Longrightarrow> unat b \<le> 2 ^ 64 - 64 \<Longrightarrow> sizeClass b = None"
proof -
  assume b: "2 ^ 63 < unat b" "unat b \<le> 2 ^ 64 - 64"
  have "unat b \<le> (unat b + 63) div 64 * 64" by simp
  then have "\<not> unat (round_up b) \<le> 2 ^ 63" using b by (simp add: round_up_unat)
  then show ?thesis
    using size_loop_pow [of 6 "round_up b"] by (simp add: sizeClass_def kAlignment_def)
qed

lemma sizeClass_wraps: "2 ^ 64 - 64 < unat b \<Longrightarrow> sizeClass b = Some 64"
proof -
  assume "2 ^ 64 - 64 < unat b"
  then have "unat (round_up b) = 0" by (simp add: round_up_unat)
  then have "round_up b = 0" by (simp add: unat_eq_zero)
  then show ?thesis by (simp add: sizeClass_def kAlignment_def size_loop.simps)
qed

section \<open>The contract of the interface\<close>

text \<open>Two address ranges that do not overlap.\<close>

definition sep_block :: "block \<Rightarrow> block \<Rightarrow> bool" where
  "sep_block x y = (fst x + snd x \<le> fst y \<or> fst y + snd y \<le> fst x)"

lemma sep_block_sym: "sep_block x y \<longleftrightarrow> sep_block y x"
  by (auto simp: sep_block_def)

lemma sep_block_sub:
  "sep_block (a, n) y \<Longrightarrow> a \<le> b \<Longrightarrow> b + m \<le> a + n \<Longrightarrow> sep_block (b, m) y"
  by (auto simp: sep_block_def)

text \<open>The memory a client holds: the pointer and the size it asked for.\<close>

type_synonym live = "(nat \<times> u64) list"

definition asked :: "nat \<times> u64 \<Rightarrow> block" where
  "asked x = (fst x, unat (snd x))"

text \<open>A client: it asks for memory, or gives back one of the buffers it holds, with its size.\<close>

datatype request = Get u64 | Put nat

definition client_step :: "(u64 \<Rightarrow> 's \<Rightarrow> nat res \<times> 's) \<Rightarrow> (nat \<Rightarrow> u64 \<Rightarrow> 's \<Rightarrow> unit res \<times> 's) \<Rightarrow>
    request \<Rightarrow> 's \<times> live \<Rightarrow> ('s \<times> live) res" where
  "client_step alloc dealloc r sl = (case r of
     Get b \<Rightarrow> (case alloc b (fst sl) of
         (Inr a, s) \<Rightarrow> Inr (s, if b = 0 then snd sl else (a, b) # snd sl)
       | (Inl BadAlloc, s) \<Rightarrow> Inr (s, snd sl)
       | (Inl e, s) \<Rightarrow> Inl e)
   | Put i \<Rightarrow> (if i < length (snd sl)
       then case dealloc (fst (snd sl ! i)) (snd (snd sl ! i)) (fst sl) of
           (Inr u, s) \<Rightarrow> Inr (s, remove1 (snd sl ! i) (snd sl))
         | (Inl e, s) \<Rightarrow> Inl e
       else Inr sl))"

definition client_run :: "(u64 \<Rightarrow> 's \<Rightarrow> nat res \<times> 's) \<Rightarrow> (nat \<Rightarrow> u64 \<Rightarrow> 's \<Rightarrow> unit res \<times> 's) \<Rightarrow>
    request list \<Rightarrow> 's \<times> live \<Rightarrow> ('s \<times> live) res" where
  "client_run alloc dealloc = rfold (client_step alloc dealloc)"

fun request_ok :: "(u64 \<Rightarrow> bool) \<Rightarrow> request \<Rightarrow> bool" where
  "request_ok usable (Get b) = usable b"
| "request_ok usable (Put i) = True"

locale block_allocator =
  fixes alloc :: "u64 \<Rightarrow> 's \<Rightarrow> nat res \<times> 's"
    and dealloc :: "nat \<Rightarrow> u64 \<Rightarrow> 's \<Rightarrow> unit res \<times> 's"
    and usable :: "u64 \<Rightarrow> bool"
    and inv :: "'s \<Rightarrow> live \<Rightarrow> bool"
  assumes alloc_null: "alloc 0 s = (Inr 0, s)"
    and alloc_some: "inv s L \<Longrightarrow> b \<noteq> 0 \<Longrightarrow> usable b \<Longrightarrow> alloc b s = (Inr a, s') \<Longrightarrow> inv s' ((a, b) # L)"
    and alloc_fail: "inv s L \<Longrightarrow> usable b \<Longrightarrow> alloc b s = (Inl e, s') \<Longrightarrow> e = BadAlloc \<and> inv s' L"
    and dealloc_live: "inv s L \<Longrightarrow> x \<in> set L \<Longrightarrow>
      \<exists>s'. dealloc (fst x) (snd x) s = (Inr (), s') \<and> inv s' (remove1 x L)"
    and live_aligned: "inv s L \<Longrightarrow> x \<in> set L \<Longrightarrow> 0 < fst x \<and> 64 dvd fst x"
    and live_sep: "inv s L \<Longrightarrow> sorted_wrt (\<lambda>x y. sep_block (asked x) (asked y)) L"
begin

lemma client_step_inv:
  assumes "inv s L" "request_ok usable r"
  shows "\<exists>s' L'. client_step alloc dealloc r (s, L) = Inr (s', L') \<and> inv s' L'"
proof (cases r)
  case (Get b)
  show ?thesis
  proof (cases "b = 0")
    case True
    then show ?thesis using assms(1) Get by (simp add: client_step_def alloc_null)
  next
    case False
    have u: "usable b" using assms(2) Get by simp
    obtain x s' where a: "alloc b s = (x, s')" by (cases "alloc b s")
    show ?thesis
    proof (cases x)
      case (Inl e)
      then have "e = BadAlloc \<and> inv s' L" using alloc_fail [OF assms(1) u] a by simp
      then show ?thesis using a Get Inl by (simp add: client_step_def)
    next
      case (Inr p)
      then show ?thesis using alloc_some [OF assms(1) False u] a Get False by (simp add: client_step_def)
    qed
  qed
next
  case (Put i)
  then show ?thesis
    using assms(1) dealloc_live [OF assms(1), of "L ! i"] by (auto simp: client_step_def)
qed

lemma client_safe:
  "inv s L \<Longrightarrow> list_all (request_ok usable) rs \<Longrightarrow>
   \<exists>s' L'. client_run alloc dealloc rs (s, L) = Inr (s', L') \<and> inv s' L'"
proof (induction rs arbitrary: s L)
  case Nil
  then show ?case by (simp add: client_run_def)
next
  case (Cons r rs)
  obtain s1 L1 where 1: "client_step alloc dealloc r (s, L) = Inr (s1, L1)" "inv s1 L1"
    using client_step_inv [of s L r] Cons.prems by auto
  with Cons.IH [OF 1(2)] Cons.prems show ?case by (simp add: client_run_def)
qed

end

section \<open>The pool keeps its blocks apart\<close>

text \<open>What the standard promises of the aligned \<^verbatim>\<open>operator new\<close>: a non-null, aligned range of the
  address space, apart from the ranges already handed out.\<close>

definition new_ok :: "heap_new \<Rightarrow> bool" where
  "new_ok new = (\<forall>bs n a. new bs n = Some a \<longrightarrow>
     0 < a \<and> 64 dvd a \<and> a + n \<le> 2 ^ 64 \<and> (\<forall>c\<in>set bs. sep_block (a, n) c))"

text \<open>The block a live buffer occupies, and the blocks on the free list of a class.\<close>

definition live_block :: "nat \<times> u64 \<Rightarrow> nat \<times> u64" where
  "live_block x = (fst x, case sizeClass (snd x) of Some c \<Rightarrow> c | None \<Rightarrow> 0)"

definition free_of :: "pool \<Rightarrow> u64 \<Rightarrow> nat list" where
  "free_of p c = (case freeLists p c of Some xs \<Rightarrow> xs | None \<Rightarrow> [])"

definition sized :: "nat \<times> u64 \<Rightarrow> block" where
  "sized x = (fst x, unat (snd x))"

definition chunk_ok :: "block \<Rightarrow> bool" where
  "chunk_ok x = (0 < fst x \<and> 64 dvd fst x \<and> fst x + snd x \<le> 2 ^ 64)"

definition carved_ok :: "pool \<Rightarrow> nat \<times> u64 \<Rightarrow> bool" where
  "carved_ok p x = (0 < fst x \<and> 64 dvd fst x \<and> 64 \<le> unat (snd x) \<and>
     (\<exists>k\<in>set (chunks p). fst k \<le> fst x \<and> fst x + unat (snd x) \<le> fst k + snd k) \<and>
     sep_block (sized x) (cursor p, unat (remaining p)))"

definition cursor_ok :: "pool \<Rightarrow> bool" where
  "cursor_ok p = (remaining p = 0 \<or>
     (\<exists>k\<in>set (chunks p). fst k \<le> cursor p \<and> cursor p + unat (remaining p) \<le> fst k + snd k) \<and>
     64 dvd cursor p)"

text \<open>\<open>bs\<close> are the blocks cut from the chunks so far; each is live or on the free list of its
  class, exactly once.\<close>

definition pool_inv :: "pool \<Rightarrow> live \<Rightarrow> (nat \<times> u64) list \<Rightarrow> bool" where
  "pool_inv p L bs = (
     list_all chunk_ok (chunks p) \<and> list_all (\<lambda>k. 0 < snd k) (chunks p) \<and> sorted_wrt sep_block (chunks p) \<and> cursor_ok p \<and>
     list_all (carved_ok p) bs \<and> sorted_wrt (\<lambda>x y. sep_block (sized x) (sized y)) bs \<and>
     list_all (\<lambda>x. snd x \<noteq> 0 \<and> unat (snd x) \<le> 2 ^ 63) L \<and>
     (\<forall>a c. count_list (map live_block L) (a, c) + count_list (free_of p c) a = (if (a, c) \<in> set bs then 1 else 0)))"

lemma pool_inv_new: "pool_inv (pool_new n) [] []"
  by (simp add: pool_inv_def pool_new_def cursor_ok_def free_of_def)

lemma class_facts:
  assumes "sizeClass b = Some c" "unat b \<le> 2 ^ 63"
  shows "64 \<le> unat c" "64 dvd unat c" "unat b \<le> unat c"
proof -
  obtain j where j: "6 \<le> j" "j \<le> 63" "sizeClass b = Some (2 ^ j)" "unat b \<le> 2 ^ j"
    using sizeClass_fits [OF assms(2)] by metis
  have c: "unat c = 2 ^ j" using j assms(1) by (simp add: unat_pow2)
  have "(2 :: nat) ^ 6 dvd 2 ^ j" using j by (intro le_imp_power_dvd)
  then show d: "64 dvd unat c" using c by simp
  show "64 \<le> unat c" using d c dvd_imp_le [of 64 "2 ^ j"] by simp
  show "unat b \<le> unat c" using j c by simp
qed

lemma not_sep_same: "0 < n \<Longrightarrow> 0 < m \<Longrightarrow> \<not> sep_block (a, n) (a, m)"
  by (simp add: sep_block_def)

lemma pool_carve:
  assumes inv: "pool_inv p L bs" and fits: "cls \<le> remaining p"
    and cls: "64 \<le> unat cls" "64 dvd unat cls"
    and b: "b \<noteq> 0" "unat b \<le> 2 ^ 63" "live_block (cursor p, b) = (cursor p, cls)"
    and p': "chunks p' = chunks p" "cursor p' = cursor p + unat cls" "remaining p' = remaining p - cls"
      "freeLists p' = freeLists p"
  shows "pool_inv p' ((cursor p, b) # L) ((cursor p, cls) # bs)"
proof -
  have le: "unat cls \<le> unat (remaining p)" using fits by (simp add: word_le_nat_alt)
  then have rem: "unat (remaining p') = unat (remaining p) - unat cls"
    using p'(3) fits by (simp add: unat_sub)
  have "remaining p \<noteq> 0" using le cls by auto
  then obtain k where k: "k \<in> set (chunks p)" "fst k \<le> cursor p"
      "cursor p + unat (remaining p) \<le> fst k + snd k" and dvd: "64 dvd cursor p"
    using inv by (auto simp: pool_inv_def cursor_ok_def)
  have pos: "0 < cursor p" using inv k by (auto simp: pool_inv_def list_all_iff chunk_ok_def)
  have sep: "sep_block (sized x) (cursor p, unat (remaining p))" and big: "64 \<le> unat (snd x)" if "x \<in> set bs" for x
    using inv that by (auto simp: pool_inv_def list_all_iff carved_ok_def)
  have fresh: "(cursor p, cls) \<notin> set bs"
    using sep [of "(cursor p, cls)"] cls le by (auto simp: sep_block_def sized_def)
  have "carved_ok p' (cursor p, cls)"
    using pos dvd cls k le by (auto simp: carved_ok_def p' sep_block_def sized_def)
  moreover have "carved_ok p' x" if "x \<in> set bs" for x
    using inv that sep [OF that] le
    by (auto simp: pool_inv_def list_all_iff carved_ok_def p'(1,2) rem sep_block_def)
  moreover have "sep_block (sized (cursor p, cls)) (sized x)" if "x \<in> set bs" for x
    using sep [OF that] le by (auto simp: sep_block_def sized_def)
  moreover have "cursor_ok p'"
    using k le dvd cls by (auto simp: cursor_ok_def p'(1,2) rem)
  moreover have "count_list (map live_block ((cursor p, b) # L)) (a, c) + count_list (free_of p' c) a
      = (if (a, c) \<in> set ((cursor p, cls) # bs) then 1 else 0)" for a c
  proof -
    have "count_list (map live_block L) (a, c) + count_list (free_of p c) a = (if (a, c) \<in> set bs then 1 else 0)"
      using inv by (simp add: pool_inv_def)
    moreover have "free_of p' = free_of p" by (simp add: free_of_def p' fun_eq_iff)
    ultimately show ?thesis using fresh b(3) by auto
  qed
  ultimately show ?thesis
    using inv b(1,2) unfolding pool_inv_def by (simp add: list_all_iff p'(1))
qed

lemma pool_addChunk:
  assumes inv: "pool_inv p L bs" and new: "new_ok new" and m: "0 < m" and add: "addChunk new m p = Some p'"
  shows "pool_inv p' L bs" "m \<le> remaining p'" "freeLists p' = freeLists p"
proof -
  define n where "n = (if m < chunkBytes p then chunkBytes p else m)"
  obtain a where a: "new (chunks p) (unat n) = Some a"
    and p': "p' = p\<lparr>chunks := chunks p @ [(a, unat n)], cursor := a, remaining := n,
      stats := (stats p)\<lparr>arenaBytes := arenaBytes (stats p) + n\<rparr>\<rparr>"
    using add by (auto simp: addChunk_def n_def Let_def split: option.splits)
  have ok: "0 < a" "64 dvd a" "a + unat n \<le> 2 ^ 64" "\<And>c. c \<in> set (chunks p) \<Longrightarrow> sep_block (a, unat n) c"
    using new a unfolding new_ok_def by blast+
  have "carved_ok p' x" if x: "x \<in> set bs" for x
  proof -
    obtain k where k: "k \<in> set (chunks p)" "fst k \<le> fst x" "fst x + unat (snd x) \<le> fst k + snd k"
      using inv x by (auto simp: pool_inv_def list_all_iff carved_ok_def)
    have "sep_block (sized x) (a, unat n)"
      using ok(4) [OF k(1)] k(2,3) by (auto simp: sep_block_def sized_def)
    then show ?thesis
      using inv x by (auto simp: pool_inv_def list_all_iff carved_ok_def p')
  qed
  moreover have "sep_block c (a, unat n)" if "c \<in> set (chunks p)" for c
    using ok(4) [OF that] by (simp add: sep_block_sym)
  moreover have "0 < unat n" using m by (auto simp: n_def unat_gt_0)
  ultimately show "pool_inv p' L bs"
    using inv ok(1-3) by (auto simp: pool_inv_def list_all_iff p' chunk_ok_def cursor_ok_def free_of_def sorted_wrt_append)
  show "m \<le> remaining p'" by (auto simp: p' n_def)
  show "freeLists p' = freeLists p" by (simp add: p')
qed

lemma pool_inv_cong:
  assumes "chunks p' = chunks p" "cursor p' = cursor p" "remaining p' = remaining p" "free_of p' = free_of p"
  shows "pool_inv p' L bs = pool_inv p L bs"
  by (simp add: pool_inv_def carved_ok_def [abs_def] cursor_ok_def assms)

lemma count_list_snoc: "count_list (xs @ [x]) y = count_list xs y + (if x = y then 1 else 0)"
  by simp

lemma count_map_remove1:
  "x \<in> set L \<Longrightarrow> count_list (map f L) y = count_list (map f (remove1 x L)) y + (if f x = y then 1 else 0)"
  by (induction L) auto

lemma pool_reuse:
  assumes inv: "pool_inv p L bs" and free: "freeLists p cls = Some xs" "xs \<noteq> []"
    and b: "b \<noteq> 0" "unat b \<le> 2 ^ 63" "sizeClass b = Some cls"
    and p': "chunks p' = chunks p" "cursor p' = cursor p" "remaining p' = remaining p"
      "freeLists p' = (freeLists p)(cls \<mapsto> butlast xs)"
  shows "pool_inv p' ((last xs, b) # L) bs"
proof -
  have xs: "count_list xs a = count_list (butlast xs) a + (if last xs = a then 1 else 0)" for a
    using count_list_snoc [of "butlast xs" "last xs" a] free(2) by simp
  have cnt: "count_list (map live_block L) (a, c) + count_list (free_of p c) a = (if (a, c) \<in> set bs then 1 else 0)" for a c
    using inv by (simp add: pool_inv_def)
  have "count_list (map live_block ((last xs, b) # L)) (a, c) + count_list (free_of p' c) a
      = (if (a, c) \<in> set bs then 1 else 0)" for a c
    using cnt [of a c] xs [of a] b(3) free(1)
    by (auto simp: free_of_def p' live_block_def split: if_splits)
  moreover have "carved_ok p' = carved_ok p" "cursor_ok p' = cursor_ok p"
    by (auto simp: carved_ok_def cursor_ok_def p' fun_eq_iff)
  ultimately show ?thesis
    using inv b p'(1) unfolding pool_inv_def by simp
qed

lemma pool_give_back:
  assumes inv: "pool_inv p L bs" and x: "x \<in> set L" and cls: "sizeClass (snd x) = Some cls"
    and p': "chunks p' = chunks p" "cursor p' = cursor p" "remaining p' = remaining p"
      "freeLists p' = (freeLists p)(cls \<mapsto> free_of p cls @ [fst x])"
  shows "pool_inv p' (remove1 x L) bs"
proof -
  have cnt: "count_list (map live_block L) (a, c) + count_list (free_of p c) a = (if (a, c) \<in> set bs then 1 else 0)" for a c
    using inv by (simp add: pool_inv_def)
  have "count_list (map live_block (remove1 x L)) (a, c) + count_list (free_of p' c) a
      = (if (a, c) \<in> set bs then 1 else 0)" for a c
    using cnt [of a c] count_map_remove1 [OF x, of live_block "(a, c)"] cls
    by (auto simp: free_of_def p' live_block_def split: if_splits)
  moreover have "carved_ok p' = carved_ok p" "cursor_ok p' = cursor_ok p"
    by (auto simp: carved_ok_def cursor_ok_def p' fun_eq_iff)
  moreover have "list_all Q (remove1 x L)" if "list_all Q L" for Q :: "nat \<times> u64 \<Rightarrow> bool"
    using that by (metis list_all_iff notin_set_remove1)
  ultimately show ?thesis
    using inv p'(1) unfolding pool_inv_def by simp
qed

lemma pool_live_in:
  assumes "pool_inv p L bs" "x \<in> set L"
  shows "live_block x \<in> set bs"
proof -
  obtain a c where y: "live_block x = (a, c)" by (cases "live_block x")
  have "(a, c) \<in> set (map live_block L)" using assms(2) y by force
  then have "count_list (map live_block L) (a, c) \<noteq> 0" by (simp only: count_list_0_iff not_not)
  moreover have "count_list (map live_block L) (a, c) + count_list (free_of p c) a = (if (a, c) \<in> set bs then 1 else 0)"
    using assms(1) by (simp add: pool_inv_def)
  ultimately show ?thesis unfolding y by (simp split: if_splits)
qed

lemma count_distinct: "(\<And>x. count_list xs x \<le> 1) \<Longrightarrow> distinct xs"
proof (induction xs)
  case (Cons a xs)
  have "count_list xs x \<le> 1" for x using Cons.prems [of x] by (simp split: if_splits)
  moreover have "count_list xs a = 0" using Cons.prems [of a] by simp
  ultimately show ?case using Cons.IH by (simp add: count_list_0_iff)
qed simp

lemma sorted_wrt_pair:
  assumes "sorted_wrt R xs" "\<And>x y. R x y \<Longrightarrow> R y x" "x \<in> set xs" "y \<in> set xs" "x \<noteq> y"
  shows "R x y"
  using assms by (induction xs) auto

lemma sorted_wrt_distinct_map:
  assumes "distinct (map f M)" "\<And>x y. x \<in> set M \<Longrightarrow> y \<in> set M \<Longrightarrow> f x \<noteq> f y \<Longrightarrow> R x y"
  shows "sorted_wrt R M"
  using assms
proof (induction M)
  case (Cons x M)
  have "R x y" if "y \<in> set M" for y
    using Cons.prems(1) that by (intro Cons.prems(2)) (auto simp: image_iff)
  with Cons show ?case by simp
qed simp

lemma pool_live_distinct:
  assumes inv: "pool_inv p L bs"
  shows "distinct (map live_block L)"
proof (rule count_distinct)
  fix y
  have "count_list (map live_block L) (fst y, snd y) + count_list (free_of p (snd y)) (fst y)
      = (if (fst y, snd y) \<in> set bs then 1 else 0)"
    using inv unfolding pool_inv_def by blast
  then show "count_list (map live_block L) y \<le> 1" by (simp split: if_splits)
qed

lemma pool_live_class:
  assumes inv: "pool_inv p L bs" and x: "x \<in> set L"
  obtains c where "sizeClass (snd x) = Some c" "unat (snd x) \<le> unat c" "live_block x = (fst x, c)"
proof -
  have le: "unat (snd x) \<le> 2 ^ 63" using inv x by (auto simp: pool_inv_def list_all_iff)
  then obtain c where c: "sizeClass (snd x) = Some c" using sizeClass_fits by metis
  with class_facts [OF c le] that show ?thesis by (simp add: live_block_def)
qed

lemma pool_live_sep:
  assumes inv: "pool_inv p L bs"
  shows "sorted_wrt (\<lambda>x y. sep_block (asked x) (asked y)) L"
proof -
  have pair: "sep_block (asked x) (asked y)" if x: "x \<in> set L" and y: "y \<in> set L" and ne: "live_block x \<noteq> live_block y" for x y
  proof -
    have "sep_block (sized (live_block x)) (sized (live_block y))"
      using sorted_wrt_pair [of "\<lambda>x y. sep_block (sized x) (sized y)" bs] inv
        pool_live_in [OF inv x] pool_live_in [OF inv y] ne sep_block_sym
      unfolding pool_inv_def by blast
    moreover obtain c where "live_block x = (fst x, c)" "unat (snd x) \<le> unat c"
      using pool_live_class [OF inv x] by blast
    moreover obtain d where "live_block y = (fst y, d)" "unat (snd y) \<le> unat d"
      using pool_live_class [OF inv y] by blast
    ultimately show ?thesis by (auto simp: sep_block_def sized_def asked_def)
  qed
  then show ?thesis by (rule sorted_wrt_distinct_map [OF pool_live_distinct [OF inv]])
qed

section \<open>Both allocators keep the contract\<close>

text \<open>Disjoint ranges below \<open>N\<close> have a total size of at most \<open>N\<close>: the byte counters cannot wrap.\<close>

lemma sep_total:
  assumes "sorted_wrt sep_block xs" "\<forall>x\<in>set xs. fst x + snd x \<le> N"
  shows "sum_list (map snd xs) \<le> N"
proof -
  let ?I = "\<lambda>x. {fst x..<fst x + snd x}"
  have "sorted_wrt sep_block xs \<Longrightarrow> card (\<Union>x\<in>set xs. ?I x) = sum_list (map snd xs)"
  proof (induction xs)
    case (Cons x xs)
    have "?I x \<inter> (\<Union>y\<in>set xs. ?I y) = {}"
      using Cons.prems by (fastforce simp: sep_block_def)
    then have "card (?I x \<union> (\<Union>y\<in>set xs. ?I y)) = snd x + card (\<Union>y\<in>set xs. ?I y)"
      by (subst card_Un_disjoint) auto
    with Cons show ?case by simp
  qed simp
  moreover have "(\<Union>x\<in>set xs. ?I x) \<subseteq> {..<N}" using assms(2) by fastforce
  then have "card (\<Union>x\<in>set xs. ?I x) \<le> N" using card_mono [of "{..<N}"] by fastforce
  ultimately show ?thesis using assms(1) by simp
qed

definition live_total :: "live \<Rightarrow> nat" where
  "live_total L = sum_list (map (\<lambda>x. unat (snd (live_block x))) L)"

lemma pool_live_total:
  assumes inv: "pool_inv p L bs"
  shows "live_total L < 2 ^ 64"
proof -
  let ?bs = "map (sized \<circ> live_block) L"
  have "sep_block (sized (live_block x)) (sized (live_block y))"
    if "x \<in> set L" "y \<in> set L" "live_block x \<noteq> live_block y" for x y
    using sorted_wrt_pair [of "\<lambda>x y. sep_block (sized x) (sized y)" bs] inv
        pool_live_in [OF inv that(1)] pool_live_in [OF inv that(2)] that(3) sep_block_sym
    unfolding pool_inv_def by blast
  then have sep: "sorted_wrt sep_block ?bs"
    unfolding sorted_wrt_map comp_def by (rule sorted_wrt_distinct_map [OF pool_live_distinct [OF inv]])
  have b: "0 < fst x \<and> fst x + snd x \<le> 2 ^ 64" if x: "x \<in> set ?bs" for x
  proof -
    obtain y where y: "y \<in> set L" "x = sized (live_block y)"
      using x unfolding set_map comp_def by blast
    with pool_live_in [OF inv y(1)] have "carved_ok p (live_block y)"
      using inv by (simp add: pool_inv_def list_all_iff)
    then obtain k where "k \<in> set (chunks p)" "0 < fst x" "fst x + snd x \<le> fst k + snd k"
      by (auto simp: carved_ok_def y(2) sized_def)
    moreover from this have "fst k + snd k \<le> 2 ^ 64"
      using inv unfolding pool_inv_def list_all_iff chunk_ok_def by blast
    ultimately show ?thesis by linarith
  qed
  have "sorted_wrt sep_block ((0, 1) # ?bs)"
    using sep b by (auto simp: sep_block_def Suc_le_eq)
  then have "sum_list (map snd ((0, 1) # ?bs)) \<le> 2 ^ 64"
    using b by (intro sep_total) auto
  moreover have "map (snd \<circ> (sized \<circ> live_block)) L = map (\<lambda>x. unat (snd (live_block x))) L"
    by (simp add: sized_def)
  ultimately show ?thesis by (simp add: live_total_def)
qed

text \<open>The invariant of the pool as its client sees it, with its statistics.\<close>

definition stats_ok :: "pool \<Rightarrow> live \<Rightarrow> bool" where
  "stats_ok p L = (unat (liveBytes (stats p)) = live_total L \<and> liveBytes (stats p) \<le> peakLiveBytes (stats p) \<and>
     arenaBytes (stats p) = sum_list (map (\<lambda>k. word_of_nat (snd k)) (chunks p)))"

definition pool_ok :: "heap_new \<Rightarrow> pool \<Rightarrow> live \<Rightarrow> bool" where
  "pool_ok new p L = (new_ok new \<and> (\<exists>bs. pool_inv p L bs) \<and> stats_ok p L)"

definition pool_usable :: "u64 \<Rightarrow> bool" where
  "pool_usable b = (unat b \<le> 2 ^ 63)"

lemma live_total_Cons: "live_total (x # L) = unat (snd (live_block x)) + live_total L"
  by (simp add: live_total_def)

lemma live_total_remove1: "x \<in> set L \<Longrightarrow> live_total L = unat (snd (live_block x)) + live_total (remove1 x L)"
  by (simp add: live_total_def sum_list_map_remove1)

lemma stats_note_live:
  assumes inv: "pool_inv p' ((a, b) # L) bs" and cls: "sizeClass b = Some cls"
    and old: "unat (liveBytes s) = live_total L" "liveBytes s \<le> peakLiveBytes s"
    and p': "stats p' = note_live cls s" "arenaBytes s = sum_list (map (\<lambda>k. word_of_nat (snd k)) (chunks p'))"
  shows "stats_ok p' ((a, b) # L)"
proof -
  have "unat cls + live_total L < 2 ^ 64"
    using pool_live_total [OF inv] cls by (simp add: live_total_Cons live_block_def)
  moreover have "unat (liveBytes s + cls) = (unat (liveBytes s) + unat cls) mod 2 ^ 64"
    by (simp add: unat_word_ariths)
  ultimately have "unat (liveBytes s + cls) = live_total L + unat cls"
    using old(1) by (simp only: add.commute mod_less)
  then have "unat (liveBytes s + cls) = live_total ((a, b) # L)"
    using cls by (simp add: live_total_Cons live_block_def)
  then show ?thesis
    using p' by (auto simp: stats_ok_def note_live_def Let_def)
qed

lemma pool_allocate_hit:
  assumes "b \<noteq> 0" "sizeClass b = Some cls" "freeLists p cls = Some xs" "xs \<noteq> []"
  shows "pool_allocate new b p = (Inr (last xs), p\<lparr>freeLists := (freeLists p)(cls \<mapsto> butlast xs),
    stats := note_live cls ((stats p)\<lparr>hits := hits (stats p) + 1\<rparr>)\<rparr>)"
  using assms by (cases xs) (simp_all add: pool_allocate_def Let_def)

lemma pool_allocate_miss:
  assumes "b \<noteq> 0" "sizeClass b = Some cls" "free_of p cls = []"
  shows "pool_allocate new b p =
    (let q = p\<lparr>stats := (stats p)\<lparr>misses := misses (stats p) + 1\<rparr>\<rparr>
     in case (if remaining q < cls then addChunk new cls q else Some q) of
        None \<Rightarrow> (Inl BadAlloc, q)
      | Some r \<Rightarrow> (Inr (cursor r), r\<lparr>cursor := cursor r + unat cls,
           remaining := remaining r - cls, stats := note_live cls (stats r)\<rparr>))"
proof -
  have "(case freeLists p cls of Some (x # xs) \<Rightarrow> f x xs | _ \<Rightarrow> g) = g" for f and g :: "nat res \<times> pool"
    using assms(3) by (auto simp: free_of_def split: option.splits list.splits)
  then show ?thesis
    unfolding pool_allocate_def assms(2) option.case if_not_P [OF assms(1)] by (simp only: Let_def)
qed

lemma pool_allocate_some:
  assumes ok: "pool_ok new p L" and b: "b \<noteq> 0" "pool_usable b" and a: "pool_allocate new b p = (Inr a, p')"
  shows "pool_ok new p' ((a, b) # L)"
proof -
  obtain bs where inv: "pool_inv p L bs" and new: "new_ok new" and st: "stats_ok p L"
    using ok by (auto simp: pool_ok_def)
  have b63: "unat b \<le> 2 ^ 63" using b by (simp add: pool_usable_def)
  then obtain cls where cls: "sizeClass b = Some cls" using sizeClass_fits by metis
  note cf = class_facts [OF cls b63]
  show ?thesis
  proof (cases "free_of p cls = []")
    case False
    then obtain xs where xs: "freeLists p cls = Some xs" "xs \<noteq> []"
      by (auto simp: free_of_def split: option.splits)
    define s where "s = (stats p)\<lparr>hits := hits (stats p) + 1\<rparr>"
    have r: "a = last xs" "p' = p\<lparr>freeLists := (freeLists p)(cls \<mapsto> butlast xs), stats := note_live cls s\<rparr>"
      using a pool_allocate_hit [OF b(1) cls xs, of new] by (simp_all add: s_def)
    have "pool_inv p' ((last xs, b) # L) bs"
      by (rule pool_reuse [OF inv xs b(1) b63 cls]) (simp_all add: r)
    then have "pool_inv p' ((a, b) # L) bs" by (simp add: r)
    moreover from stats_note_live [OF this cls, of s] have "stats_ok p' ((a, b) # L)"
      using st by (simp add: r s_def stats_ok_def)
    ultimately show ?thesis using new by (auto simp: pool_ok_def)
  next
    case True
    define q where "q = p\<lparr>stats := (stats p)\<lparr>misses := misses (stats p) + 1\<rparr>\<rparr>"
    have q: "pool_inv q L bs" using inv pool_inv_cong [of q p] by (simp add: q_def free_of_def [abs_def])
    have "pool_allocate new b p = (case (if remaining q < cls then addChunk new cls q else Some q) of
        None \<Rightarrow> (Inl BadAlloc, q)
      | Some r \<Rightarrow> (Inr (cursor r), r\<lparr>cursor := cursor r + unat cls,
           remaining := remaining r - cls, stats := note_live cls (stats r)\<rparr>))"
      unfolding pool_allocate_miss [OF b(1) cls True] Let_def q_def ..
    with a obtain r where r: "(if remaining q < cls then addChunk new cls q else Some q) = Some r"
        "a = cursor r" "p' = r\<lparr>cursor := cursor r + unat cls, remaining := remaining r - cls,
           stats := note_live cls (stats r)\<rparr>"
      by (auto split: option.splits)
    have cpos: "0 < cls" using cf(1) by (simp add: word_gt_0) (auto simp: unat_eq_0)
    have ri: "pool_inv r L bs" "cls \<le> remaining r"
      using r(1) q pool_addChunk [OF q new cpos, of r] by (auto split: if_splits)
    have rs: "unat (liveBytes (stats r)) = live_total L" "liveBytes (stats r) \<le> peakLiveBytes (stats r)"
        "arenaBytes (stats r) = sum_list (map (\<lambda>k. word_of_nat (snd k)) (chunks r))"
      using r(1) st by (auto simp: stats_ok_def addChunk_def q_def Let_def split: if_splits option.splits)
    have "pool_inv p' ((a, b) # L) ((a, cls) # bs)"
      unfolding r(2) by (rule pool_carve [OF ri cf(1,2) b(1) b63]) (simp_all add: r(3) live_block_def cls)
    moreover from stats_note_live [OF this cls rs(1,2)] have "stats_ok p' ((a, b) # L)"
      using rs(3) by (simp add: r(3))
    ultimately show ?thesis using new by (auto simp: pool_ok_def)
  qed
qed

lemma pool_allocate_fail:
  assumes ok: "pool_ok new p L" and b: "pool_usable b" and a: "pool_allocate new b p = (Inl e, p')"
  shows "e = BadAlloc \<and> pool_ok new p' L"
proof -
  obtain cls where cls: "sizeClass b = Some cls"
    using b sizeClass_fits [of b] by (metis pool_usable_def)
  with a have e: "e = BadAlloc \<and> p' = p\<lparr>stats := (stats p)\<lparr>misses := misses (stats p) + 1\<rparr>\<rparr>"
    by (auto simp: pool_allocate_def Let_def split: if_splits option.splits list.splits)
  then have "pool_inv p' L bs = pool_inv p L bs" for bs
    by (intro pool_inv_cong) (simp_all add: free_of_def [abs_def])
  with e ok show ?thesis by (auto simp: pool_ok_def stats_ok_def)
qed

lemma pool_deallocate_live:
  assumes ok: "pool_ok new p L" and x: "x \<in> set L"
  shows "\<exists>p'. pool_deallocate (fst x) (snd x) p = (Inr (), p') \<and> pool_ok new p' (remove1 x L)"
proof -
  obtain bs where inv: "pool_inv p L bs" and new: "new_ok new" and st: "stats_ok p L"
    using ok by (auto simp: pool_ok_def)
  obtain cls where cls: "sizeClass (snd x) = Some cls" "live_block x = (fst x, cls)"
    using pool_live_class [OF inv x] by blast
  have nz: "snd x \<noteq> 0" using inv x by (auto simp: pool_inv_def list_all_iff)
  have "carved_ok p (live_block x)"
    using pool_live_in [OF inv x] inv by (auto simp: pool_inv_def list_all_iff)
  then have ptr: "fst x \<noteq> 0" by (simp add: carved_ok_def cls(2))
  define p' where "p' = p\<lparr>freeLists := (freeLists p)(cls \<mapsto> free_of p cls @ [fst x]),
      stats := (stats p)\<lparr>liveBytes := liveBytes (stats p) - cls\<rparr>\<rparr>"
  have d: "pool_deallocate (fst x) (snd x) p = (Inr (), p')"
    using nz ptr cls by (simp add: pool_deallocate_def p'_def free_of_def)
  have "pool_inv p' (remove1 x L) bs"
    by (rule pool_give_back [OF inv x cls(1)]) (simp_all add: p'_def)
  moreover have "stats_ok p' (remove1 x L)"
  proof -
    have t: "live_total L = unat cls + live_total (remove1 x L)"
      using live_total_remove1 [OF x] cls(2) by simp
    then have "cls \<le> liveBytes (stats p)" using st by (simp add: stats_ok_def word_le_nat_alt)
    then show ?thesis
      using st t by (auto simp: stats_ok_def p'_def unat_sub word_le_nat_alt)
  qed
  ultimately show ?thesis using d new by (auto simp: pool_ok_def)
qed

interpretation pool: block_allocator "pool_allocate new" pool_deallocate pool_usable "pool_ok new" for new
proof unfold_locales
  show "pool_allocate new 0 p = (Inr 0, p)" for p by (simp add: pool_allocate_def)
  show "0 < fst x \<and> 64 dvd fst x" if "pool_ok new p L" "x \<in> set L" for p L x
  proof -
    obtain bs where inv: "pool_inv p L bs" using \<open>pool_ok new p L\<close> by (auto simp: pool_ok_def)
    have "carved_ok p (live_block x)"
      using pool_live_in [OF inv \<open>x \<in> set L\<close>] inv by (auto simp: pool_inv_def list_all_iff)
    then show ?thesis by (simp add: carved_ok_def live_block_def)
  qed
  show "sorted_wrt (\<lambda>x y. sep_block (asked x) (asked y)) L" if "pool_ok new p L" for p L
    using that pool_live_sep by (auto simp: pool_ok_def)
qed (fact pool_allocate_some pool_allocate_fail pool_deallocate_live)+

text \<open>The plain allocator: its outstanding ranges are exactly the live buffers, rounded up.\<close>

definition rounded :: "nat \<times> u64 \<Rightarrow> block" where
  "rounded x = (fst x, unat (round_up (snd x)))"

definition cpu_usable :: "u64 \<Rightarrow> bool" where
  "cpu_usable b = (unat b \<le> 2 ^ 64 - 64)"

definition cpu_ok :: "heap_new \<Rightarrow> block list \<Rightarrow> live \<Rightarrow> bool" where
  "cpu_ok new bs L = (new_ok new \<and> bs = map rounded L \<and> list_all (chunk_ok \<circ> rounded) L \<and>
     sorted_wrt sep_block (map rounded L) \<and>
     list_all (\<lambda>x. snd x \<noteq> 0 \<and> cpu_usable (snd x)) L)"

lemma round_up_ge:
  assumes "cpu_usable b"
  shows "unat b \<le> unat (round_up b)"
proof -
  have "unat b \<le> (unat b + 63) div 64 * 64" by simp
  moreover have "unat b + 63 < 2 ^ 64" using assms by (simp add: cpu_usable_def)
  ultimately show ?thesis by (simp add: round_up_unat)
qed

lemma map_remove1_eq:
  "distinct (map f L) \<Longrightarrow> x \<in> set L \<Longrightarrow> remove1 (f x) (map f L) = map f (remove1 x L)"
  by (induction L) (auto simp: image_iff)

lemma sep_distinct:
  "sorted_wrt sep_block xs \<Longrightarrow> (\<And>x. x \<in> set xs \<Longrightarrow> 0 < snd x) \<Longrightarrow> distinct xs"
proof (induction xs)
  case (Cons x xs)
  have "x \<notin> set xs"
  proof
    assume "x \<in> set xs"
    with Cons.prems(1) have "sep_block x x" by simp
    with Cons.prems(2) [of x] show False by (simp add: sep_block_def)
  qed
  with Cons show ?case by simp
qed simp

lemma sorted_wrt_remove1: "sorted_wrt R xs \<Longrightarrow> sorted_wrt R (remove1 x xs)"
  by (induction xs) (auto dest: notin_set_remove1)

lemma cpu_allocate_some:
  assumes ok: "cpu_ok new bs L" and b: "b \<noteq> 0" "cpu_usable b" and a: "cpu_allocate new b bs = (Inr a, bs')"
  shows "cpu_ok new bs' ((a, b) # L)"
proof -
  have new: "new bs (unat (round_up b)) = Some a" "bs' = (a, unat (round_up b)) # bs"
    using a b(1) by (auto simp: cpu_allocate_def Let_def split: option.splits)
  then have "chunk_ok (rounded (a, b))" "\<forall>c\<in>set bs. sep_block (rounded (a, b)) c"
    using ok unfolding cpu_ok_def new_ok_def chunk_ok_def rounded_def by fastforce+
  moreover have "bs' = map rounded ((a, b) # L)" using ok new(2) by (simp add: cpu_ok_def rounded_def)
  ultimately show ?thesis using ok b unfolding cpu_ok_def by (simp add: list_all_iff)
qed

lemma cpu_allocate_fail:
  assumes ok: "cpu_ok new bs L" and "cpu_usable b" and a: "cpu_allocate new b bs = (Inl e, bs')"
  shows "e = BadAlloc \<and> cpu_ok new bs' L"
  using ok a by (auto simp: cpu_allocate_def Let_def split: if_splits option.splits)

lemma cpu_rounded_pos: "cpu_ok new bs L \<Longrightarrow> x \<in> set bs \<Longrightarrow> 0 < snd x"
proof -
  assume ok: "cpu_ok new bs L" and x: "x \<in> set bs"
  then obtain y where y: "y \<in> set L" "x = rounded y" by (auto simp: cpu_ok_def)
  with ok have "0 < unat (snd y)" "cpu_usable (snd y)" by (auto simp: cpu_ok_def list_all_iff unat_gt_0)
  with round_up_ge [of "snd y"] show "0 < snd x" by (simp add: y rounded_def)
qed

lemma cpu_deallocate_live:
  assumes ok: "cpu_ok new bs L" and x: "x \<in> set L"
  shows "\<exists>bs'. cpu_deallocate (fst x) (snd x) bs = (Inr (), bs') \<and> cpu_ok new bs' (remove1 x L)"
proof -
  have "fst x \<noteq> 0"
    using ok x by (auto simp: cpu_ok_def list_all_iff chunk_ok_def rounded_def)
  then have d: "cpu_deallocate (fst x) (snd x) bs = (Inr (), remove1 (rounded x) bs)"
    by (simp add: cpu_deallocate_def rounded_def)
  have "distinct bs"
    using ok cpu_rounded_pos [OF ok] by (intro sep_distinct) (auto simp: cpu_ok_def)
  then have "remove1 (rounded x) bs = map rounded (remove1 x L)"
    using ok x by (simp add: cpu_ok_def map_remove1_eq)
  moreover have "set (remove1 y ys) \<subseteq> set ys" for y :: 'z and ys by (rule set_remove1_subset)
  ultimately have m: "set (map rounded (remove1 x L)) \<subseteq> set bs" "set (remove1 x L) \<subseteq> set L"
    "remove1 (rounded x) bs = map rounded (remove1 x L)"
    using set_remove1_subset [of "rounded x" bs] set_remove1_subset [of x L] by simp_all
  have "sorted_wrt sep_block (remove1 (rounded x) bs)"
    using ok by (auto simp: cpu_ok_def intro: sorted_wrt_remove1)
  then have "cpu_ok new (map rounded (remove1 x L)) (remove1 x L)"
    using ok m(2,3) unfolding cpu_ok_def list_all_iff by auto
  then show ?thesis using d m(3) by simp
qed

interpretation cpu: block_allocator "cpu_allocate new" cpu_deallocate cpu_usable "cpu_ok new" for new
proof unfold_locales
  show "cpu_allocate new 0 bs = (Inr 0, bs)" for bs by (simp add: cpu_allocate_def)
  show "0 < fst x \<and> 64 dvd fst x" if "cpu_ok new bs L" "x \<in> set L" for bs L x
    using that by (auto simp: cpu_ok_def list_all_iff chunk_ok_def rounded_def)
  show "sorted_wrt (\<lambda>x y. sep_block (asked x) (asked y)) L" if ok: "cpu_ok new bs L" for bs L
  proof -
    have "sorted_wrt (\<lambda>x y. sep_block (rounded x) (rounded y)) L"
      using ok unfolding cpu_ok_def sorted_wrt_map [symmetric] by simp
    moreover have "unat (snd x) \<le> snd (rounded x)" "fst (rounded x) = fst x" if "x \<in> set L" for x
      using ok that round_up_ge [of "snd x"] by (auto simp: cpu_ok_def list_all_iff rounded_def)
    ultimately show ?thesis
      by (elim sorted_wrt_mono_rel [rotated]) (fastforce simp: sep_block_def asked_def)
  qed
qed (fact cpu_allocate_some cpu_allocate_fail cpu_deallocate_live)+

section \<open>Giving the arena back\<close>

lemma heap_delete_head:
  assumes "sorted_wrt sep_block (b # hs)" "0 < snd b" "\<And>h. h \<in> set hs \<Longrightarrow> 0 < snd h"
  shows "heap_delete (fst b) (b # hs) = Inr hs"
proof -
  have "fst h \<noteq> fst b" if "h \<in> set hs" for h
  proof -
    have "sep_block b h" "0 < snd h" using assms(1,3) that by simp_all
    with assms(2) show ?thesis unfolding sep_block_def by linarith
  qed
  then have "filter (\<lambda>h. fst h \<noteq> fst b) hs = hs" by (simp add: filter_id_conv)
  then show ?thesis by (simp add: heap_delete_def)
qed

lemma delete_all:
  assumes "sorted_wrt sep_block (cs @ hs)" "\<And>h. h \<in> set (cs @ hs) \<Longrightarrow> 0 < snd h"
  shows "rfold (\<lambda>k. heap_delete (fst k)) cs (cs @ hs) = Inr hs"
  using assms
proof (induction cs)
  case (Cons c cs)
  then have "heap_delete (fst c) ((c # cs) @ hs) = Inr (cs @ hs)"
    using heap_delete_head [of c "cs @ hs"] by simp
  with Cons show ?case by simp
qed simp

text \<open>The destructor deletes every chunk once and nothing else.\<close>

lemma pool_destroy_chunks:
  assumes "pool_inv p L bs" "sorted_wrt sep_block hs" "\<And>h. h \<in> set hs \<Longrightarrow> 0 < snd h"
    and "\<And>c h. c \<in> set (chunks p) \<Longrightarrow> h \<in> set hs \<Longrightarrow> sep_block c h"
  shows "pool_destroy p (chunks p @ hs) = Inr hs"
  unfolding pool_destroy_def
  by (rule delete_all) (use assms in \<open>auto simp: sorted_wrt_append pool_inv_def list_all_iff chunk_ok_def\<close>)

section \<open>Properties\<close>

text \<open>An \<^verbatim>\<open>operator new\<close> for the examples: the first free multiple of 64 past everything.\<close>

definition bump_new :: heap_new where
  "bump_new bs n =
     (let a = 64 * (foldr (\<lambda>x. max (fst x + snd x)) bs 0 div 64 + 1)
      in if a + n \<le> 2 ^ 64 then Some a else None)"

lemma bump_new_ok: "new_ok bump_new"
proof -
  have m: "x \<in> set bs \<Longrightarrow> fst x + snd x \<le> foldr (\<lambda>x. max (fst x + snd x)) bs 0" for x :: block and bs
    by (induction bs) auto
  have d: "n \<le> 64 * (n div 64 + 1)" for n :: nat by simp
  have "sep_block (64 * (foldr (\<lambda>x. max (fst x + snd x)) bs 0 div 64 + 1), n) c" if "c \<in> set bs" for bs n c
    using order_trans [OF m [OF that] d] by (simp add: sep_block_def)
  then show ?thesis
    by (auto simp: new_ok_def bump_new_def Let_def split: if_splits)
qed

lemma pool_ok_new: "new_ok new \<Longrightarrow> pool_ok new (pool_new n) []"
  using pool_inv_new [of n] by (auto simp: pool_ok_def stats_ok_def pool_new_def live_total_def)

text \<open>C25. The pool allocator is memory safe: after any sequence of requests of up to \<open>2^63\<close> bytes
  and returns of held buffers, every call has returned, and the buffers held are non-null,
  64-byte aligned and pairwise disjoint, whatever \<^verbatim>\<open>operator new\<close> does within its contract.\<close>

theorem pool_buffers_apart:
  assumes "new_ok new" "list_all (request_ok pool_usable) rs"
  shows "\<exists>p L. client_run (pool_allocate new) pool_deallocate rs (pool_new n, []) = Inr (p, L) \<and>
    (\<forall>x\<in>set L. 0 < fst x \<and> 64 dvd fst x) \<and> sorted_wrt (\<lambda>x y. sep_block (asked x) (asked y)) L"
  using pool.client_safe [OF pool_ok_new [OF assms(1)] assms(2)] pool.live_aligned pool.live_sep by metis

theorem pool_buffers_apart_witness:
  "\<exists>p L. client_run (pool_allocate bump_new) pool_deallocate [Get 100, Get 64, Put 1, Get 65, Get 300]
      (pool_new 256, []) = Inr (p, L) \<and> sorted_wrt (\<lambda>x y. sep_block (asked x) (asked y)) L"
  using pool_buffers_apart [OF bump_new_ok, of "[Get 100, Get 64, Put 1, Get 65, Get 300]" 256]
  by (auto simp: pool_usable_def)

text \<open>C32. The statistics are exact: \<^verbatim>\<open>liveBytes\<close> is the total of the size classes of the buffers held
  (it cannot wrap), \<^verbatim>\<open>peakLiveBytes\<close> bounds it, and \<^verbatim>\<open>arenaBytes\<close> counts the chunks,
  after any requests of up to \<open>2 ^ 63\<close> bytes and returns of held buffers.\<close>

theorem pool_stats_exact:
  assumes "new_ok new" "list_all (request_ok pool_usable) rs"
    and "client_run (pool_allocate new) pool_deallocate rs (pool_new n, []) = Inr (p, L)"
  shows "unat (liveBytes (stats p)) = sum_list (map (\<lambda>x. unat (the (sizeClass (snd x)))) L) \<and>
    liveBytes (stats p) \<le> peakLiveBytes (stats p) \<and>
    arenaBytes (stats p) = sum_list (map (\<lambda>k. word_of_nat (snd k)) (chunks p))"
proof -
  have ok: "pool_ok new p L"
    using pool.client_safe [OF pool_ok_new [OF assms(1)] assms(2), of n] assms(3) by auto
  then obtain bs where inv: "pool_inv p L bs" by (auto simp: pool_ok_def)
  have "map (\<lambda>x. unat (snd (live_block x))) L = map (\<lambda>x. unat (the (sizeClass (snd x)))) L"
    using pool_live_class [OF inv] by (force simp: live_block_def)
  with ok show ?thesis by (simp add: pool_ok_def stats_ok_def live_total_def)
qed

lemma sizeClass_100: "sizeClass 100 = Some 128" "sizeClass 120 = Some 128"
  by (simp_all add: sizeClass_def round_up_def kAlignment_def size_loop.simps)

theorem pool_stats_exact_witness:
  "\<exists>p. client_run (pool_allocate bump_new) pool_deallocate [Get 100] (pool_new 256, []) = Inr (p, [(64, 100)]) \<and>
    unat (liveBytes (stats p)) = 128"
proof -
  let ?s = "\<lparr>arenaBytes = 256, liveBytes = 128, peakLiveBytes = 128, hits = 0, misses = 1\<rparr>"
  let ?p = "\<lparr>chunkBytes = 256, chunks = [(64, 256)], cursor = 192, remaining = 128, freeLists = Map.empty, stats = ?s\<rparr>"
  have run: "client_run (pool_allocate bump_new) pool_deallocate [Get 100] (pool_new 256, []) = Inr (?p, [(64, 100)])"
    by (simp add: client_run_def client_step_def pool_allocate_def sizeClass_100 pool_new_def Let_def
        addChunk_def bump_new_def note_live_def)
  from pool_stats_exact [OF bump_new_ok _ run] run show ?thesis
    by (simp add: pool_usable_def sizeClass_100)
qed

text \<open>C40. The size class of a request is decided completely: the least power of two from 64 on that
  holds it when the request is at most \<open>2^63\<close>; no result (the doubling loop runs forever)
  just above; and 64, far too small, when rounding up wraps around.\<close>

theorem sizeClass_decides:
  "if unat b \<le> 2 ^ 63
   then \<exists>j. 6 \<le> j \<and> j \<le> 63 \<and> sizeClass b = Some (2 ^ j) \<and> unat b \<le> 2 ^ j \<and> (j = 6 \<or> 2 ^ (j - 1) < unat b)
   else sizeClass b = (if unat b \<le> 2 ^ 64 - 64 then None else Some 64)"
proof (cases "unat b \<le> 2 ^ 63")
  case True
  from sizeClass_fits [OF True] show ?thesis unfolding if_P [OF True] by blast
next
  case False
  then show ?thesis
    unfolding if_not_P [OF False] using sizeClass_diverges [of b] sizeClass_wraps [of b] by (simp add: not_le)
qed

text \<open>A freed block is reused: the next request of the same size class gets exactly the block
  freed last, as a hit, and no chunk is added.\<close>

lemma pool_reuses_last_freed:
  assumes "a \<noteq> 0" "b \<noteq> 0" "b' \<noteq> 0" "sizeClass b = Some cls" "sizeClass b' = Some cls"
  shows "\<exists>p'. pool_allocate new b' (snd (pool_deallocate a b p)) = (Inr a, p') \<and>
    chunks p' = chunks p \<and> cursor p' = cursor p \<and> free_of p' cls = free_of p cls \<and>
    hits (stats p') = hits (stats p) + 1 \<and> liveBytes (stats p') = liveBytes (stats p)"
proof -
  define q where "q = snd (pool_deallocate a b p)"
  have q: "q = p\<lparr>freeLists := (freeLists p)(cls \<mapsto> free_of p cls @ [a]),
           stats := (stats p)\<lparr>liveBytes := liveBytes (stats p) - cls\<rparr>\<rparr>"
    using assms by (simp add: q_def pool_deallocate_def free_of_def)
  have "freeLists q cls = Some (free_of p cls @ [a])" by (simp add: q)
  from pool_allocate_hit [OF assms(3,5) this, of new] show ?thesis
    unfolding q_def [symmetric] by (simp add: q note_live_def Let_def free_of_def)
qed

end
