(* ===== verification/Tensor_Memory.thy ===== *)
theory Tensor_Memory
  imports Tensor Allocator
begin

text \<open>
  The ownership side of \<^verbatim>\<open>Tensor<float>\<close> (ie/core/tensor.h): an object holds a raw pointer
  \<^verbatim>\<open>data_\<close> into memory it got from its allocator, and the constructors, assignments and the
  destructor acquire and release it. The rest of the development uses the tensors of theory
  Tensor, whose record holds the elements themselves; here every operation is also modelled
  on objects, cells and the two allocators, and the run of any sequence of operations on
  objects is shown to be the run of the same operations on those values. Both allocators take
  their memory from one global \<^verbatim>\<open>operator new\<close>, so buffers of different allocators are apart
  as well. An element takes four bytes.
\<close>

section \<open>Two allocators over one heap\<close>

record memory =
  m_pool :: pool
  m_heap :: "block list"

definition memory_new :: "u64 \<Rightarrow> memory" where
  "memory_new n = \<lparr>m_pool = pool_new n, m_heap = []\<rparr>"

fun mem_alloc :: "heap_new \<Rightarrow> alloc_kind \<Rightarrow> u64 \<Rightarrow> memory \<Rightarrow> nat res \<times> memory" where
  "mem_alloc new CpuAlloc b m =
     (case cpu_allocate (\<lambda>bs. new (chunks (m_pool m) @ bs)) b (m_heap m) of (r, hs) \<Rightarrow> (r, m\<lparr>m_heap := hs\<rparr>))"
| "mem_alloc new PoolAlloc b m =
     (case pool_allocate (\<lambda>cs. new (cs @ m_heap m)) b (m_pool m) of (r, p) \<Rightarrow> (r, m\<lparr>m_pool := p\<rparr>))"

fun mem_dealloc :: "alloc_kind \<Rightarrow> nat \<Rightarrow> u64 \<Rightarrow> memory \<Rightarrow> unit res \<times> memory" where
  "mem_dealloc CpuAlloc a b m = (case cpu_deallocate a b (m_heap m) of (r, hs) \<Rightarrow> (r, m\<lparr>m_heap := hs\<rparr>))"
| "mem_dealloc PoolAlloc a b m = (case pool_deallocate a b (m_pool m) of (r, p) \<Rightarrow> (r, m\<lparr>m_pool := p\<rparr>))"

section \<open>Tensor objects\<close>

record tobj =
  o_shape :: "u64 list"
  o_data :: nat
  o_size :: u64
  o_alloc :: alloc_kind

text \<open>Named objects, the cells of memory by byte address, and the state of the allocators.\<close>

record ('a, 's) tstate =
  objs :: "nat \<rightharpoonup> tobj"
  cells :: "nat \<Rightarrow> 'a"
  tmem :: 's

type_synonym 's allocs = "alloc_kind \<Rightarrow> u64 \<Rightarrow> 's \<Rightarrow> nat res \<times> 's"
type_synonym 's deallocs = "alloc_kind \<Rightarrow> nat \<Rightarrow> u64 \<Rightarrow> 's \<Rightarrow> unit res \<times> 's"
type_synonym 'st outcome = "exn option \<times> 'st"

definition allocateBuffer :: "'s allocs \<Rightarrow> tobj \<Rightarrow> 's \<Rightarrow> tobj res \<times> 's" where
  "allocateBuffer alloc o' s =
     (if o_size o' = 0 then (Inr (o'\<lparr>o_data := 0\<rparr>), s)
      else case alloc (o_alloc o') (o_size o' * 4) s of
          (Inl e, s) \<Rightarrow> (Inl e, s)
        | (Inr a, s) \<Rightarrow> (Inr (o'\<lparr>o_data := a\<rparr>), s))"

definition releaseBuffer :: "'s deallocs \<Rightarrow> tobj \<Rightarrow> 's \<Rightarrow> tobj res \<times> 's" where
  "releaseBuffer dealloc o' s =
     (if o_data o' = 0 then (Inr o', s)
      else case dealloc (o_alloc o') (o_data o') (o_size o' * 4) s of
          (Inl e, s) \<Rightarrow> (Inl e, s)
        | (Inr u, s) \<Rightarrow> (Inr (o'\<lparr>o_data := 0\<rparr>), s))"

text \<open>Filling and reading the buffer. Going through the null pointer, or past a buffer whose byte
  count wrapped, is undefined behaviour.\<close>

definition write_cells :: "nat \<Rightarrow> 'a list \<Rightarrow> (nat \<Rightarrow> 'a) \<Rightarrow> nat \<Rightarrow> 'a" where
  "write_cells a xs c = (\<lambda>x. if a \<le> x \<and> x < a + 4 * length xs \<and> 4 dvd (x - a) then xs ! ((x - a) div 4) else c x)"

definition read_cells :: "nat \<Rightarrow> nat \<Rightarrow> (nat \<Rightarrow> 'a) \<Rightarrow> 'a list" where
  "read_cells a n c = map (\<lambda>i. c (a + 4 * i)) [0..<n]"

definition fill_buffer :: "tobj \<Rightarrow> 'a list \<Rightarrow> (nat \<Rightarrow> 'a) \<Rightarrow> (nat \<Rightarrow> 'a) res" where
  "fill_buffer o' xs c =
     (if o_size o' = 0 then Inr c
      else if o_data o' = 0 \<or> \<not> buffer_fits (o_size o') then Inl (Undefined ''write past a tensor buffer'')
      else Inr (write_cells (o_data o') xs c))"

definition elements :: "tobj \<Rightarrow> (nat \<Rightarrow> 'a) \<Rightarrow> 'a list res" where
  "elements o' c =
     (if o_size o' = 0 then Inr []
      else if o_data o' = 0 then Inl (Undefined ''read through a null tensor buffer'')
      else Inr (read_cells (o_data o') (unat (o_size o')) c))"

text \<open>The constructors: the members are set, the buffer is acquired and filled. When the allocation
  throws no object comes to life.\<close>

definition construct :: "'s allocs \<Rightarrow> nat \<Rightarrow> tobj \<Rightarrow> 'a list res \<Rightarrow> ('a, 's) tstate \<Rightarrow> ('a, 's) tstate outcome" where
  "construct alloc v o' xs st = (case allocateBuffer alloc o' (tmem st) of
     (Inl e, s) \<Rightarrow> (Some e, st\<lparr>tmem := s\<rparr>)
   | (Inr o', s) \<Rightarrow> (case rbind xs (\<lambda>xs. fill_buffer o' xs (cells st)) of
         Inl e \<Rightarrow> (Some e, st\<lparr>tmem := s\<rparr>)
       | Inr c \<Rightarrow> (None, st\<lparr>objs := (objs st)(v \<mapsto> o'), cells := c, tmem := s\<rparr>)))"

definition obj_default :: tobj where
  "obj_default = \<lparr>o_shape = [], o_data = 0, o_size = 0, o_alloc = CpuAlloc\<rparr>"

definition obj_zeros :: "'s allocs \<Rightarrow> 'a \<Rightarrow> nat \<Rightarrow> u64 list \<Rightarrow> alloc_kind \<Rightarrow> ('a, 's) tstate \<Rightarrow> ('a, 's) tstate outcome" where
  "obj_zeros alloc z v shp k st =
     (let n = computeSize shp
      in construct alloc v \<lparr>o_shape = shp, o_data = 0, o_size = n, o_alloc = k\<rparr> (Inr (replicate (unat n) z)) st)"

definition obj_of :: "'s allocs \<Rightarrow> nat \<Rightarrow> u64 list \<Rightarrow> 'a list \<Rightarrow> alloc_kind \<Rightarrow> ('a, 's) tstate \<Rightarrow> ('a, 's) tstate outcome" where
  "obj_of alloc v shp vs k st =
     (let n = computeSize shp
      in if length vs \<noteq> unat n then (Some (InvalidArgument ''Tensor data size does not match shape''), st)
         else construct alloc v \<lparr>o_shape = shp, o_data = 0, o_size = n, o_alloc = k\<rparr> (Inr vs) st)"

definition obj_copy :: "'s allocs \<Rightarrow> nat \<Rightarrow> tobj \<Rightarrow> ('a, 's) tstate \<Rightarrow> ('a, 's) tstate outcome" where
  "obj_copy alloc v other st = construct alloc v (other\<lparr>o_data := 0\<rparr>) (elements other (cells st)) st"

definition moved_from :: "tobj \<Rightarrow> tobj" where
  "moved_from o' = o'\<lparr>o_shape := [], o_data := 0, o_size := 0\<rparr>"

definition obj_move :: "nat \<Rightarrow> nat \<Rightarrow> tobj \<Rightarrow> ('a, 's) tstate \<Rightarrow> ('a, 's) tstate outcome" where
  "obj_move v w other st = (None, st\<lparr>objs := (objs st)(v \<mapsto> other, w \<mapsto> moved_from other)\<rparr>)"

text \<open>Copy assignment from another object: the old buffer is released and the members are copied
  before the new buffer is acquired; when that throws, the target keeps them with a null pointer.\<close>

definition obj_assign :: "'s allocs \<Rightarrow> 's deallocs \<Rightarrow> nat \<Rightarrow> tobj \<Rightarrow> tobj \<Rightarrow> ('a, 's) tstate \<Rightarrow> ('a, 's) tstate outcome" where
  "obj_assign alloc dealloc v this other st = (case releaseBuffer dealloc this (tmem st) of
     (Inl e, s) \<Rightarrow> (Some e, st\<lparr>tmem := s\<rparr>)
   | (Inr this, s) \<Rightarrow>
       (let this = this\<lparr>o_shape := o_shape other, o_size := o_size other, o_alloc := o_alloc other\<rparr>
        in construct alloc v this (elements other (cells st)) (st\<lparr>objs := (objs st)(v \<mapsto> this), tmem := s\<rparr>)))"

definition obj_move_assign :: "'s deallocs \<Rightarrow> nat \<Rightarrow> nat \<Rightarrow> tobj \<Rightarrow> tobj \<Rightarrow> ('a, 's) tstate \<Rightarrow> ('a, 's) tstate outcome" where
  "obj_move_assign dealloc v w this other st = (case releaseBuffer dealloc this (tmem st) of
     (Inl e, s) \<Rightarrow> (Some e, st\<lparr>tmem := s\<rparr>)
   | (Inr this, s) \<Rightarrow> (None, st\<lparr>objs := (objs st)(v \<mapsto> other, w \<mapsto> moved_from other), tmem := s\<rparr>))"

definition obj_destroy :: "'s deallocs \<Rightarrow> nat \<Rightarrow> tobj \<Rightarrow> ('a, 's) tstate \<Rightarrow> ('a, 's) tstate outcome" where
  "obj_destroy dealloc v this st = (case releaseBuffer dealloc this (tmem st) of
     (Inl e, s) \<Rightarrow> (Some e, st\<lparr>tmem := s\<rparr>)
   | (Inr this, s) \<Rightarrow> (None, st\<lparr>objs := (objs st)(v := None), tmem := s\<rparr>))"

definition obj_reshape :: "nat \<Rightarrow> tobj \<Rightarrow> u64 list \<Rightarrow> ('a, 's) tstate \<Rightarrow> ('a, 's) tstate outcome" where
  "obj_reshape v this shp st =
     (if computeSize shp \<noteq> o_size this
      then (Some (InvalidArgument ''Cannot reshape tensor: element count mismatch''), st)
      else (None, st\<lparr>objs := (objs st)(v \<mapsto> this\<lparr>o_shape := shp\<rparr>)\<rparr>))"

text \<open>\<^verbatim>\<open>at(idx) = x\<close>.\<close>

definition obj_put :: "tobj \<Rightarrow> u64 \<Rightarrow> 'a \<Rightarrow> ('a, 's) tstate \<Rightarrow> ('a, 's) tstate outcome" where
  "obj_put this i x st =
     (if o_size this \<le> i then (Some (OutOfRange ''Tensor index out of range''), st)
      else if o_data this = 0 then (Some (Undefined ''write through a null tensor buffer''), st)
      else (None, st\<lparr>cells := (cells st)(o_data this + 4 * unat i := x)\<rparr>))"

section \<open>Programs over tensors\<close>

datatype 'a tensor_op =
    TDefault nat
  | TZeros nat "u64 list" alloc_kind
  | TOf nat "u64 list" "'a list" alloc_kind
  | TCopy nat nat
  | TMove nat nat
  | TAssign nat nat
  | TMoveAssign nat nat
  | TReshape nat "u64 list"
  | TPut nat u64 'a
  | TDestroy nat

text \<open>An operation needs its operands alive and the name it declares unused; otherwise it is not a
  C++ program, and nothing happens. Assigning an object to itself does nothing.\<close>

definition with_var :: "('v \<rightharpoonup> 't) \<Rightarrow> 'v \<Rightarrow> 'st \<Rightarrow> ('t \<Rightarrow> 'st outcome) \<Rightarrow> 'st outcome" where
  "with_var vs v st f = (case vs v of None \<Rightarrow> (None, st) | Some t \<Rightarrow> f t)"

definition with_new :: "('v \<rightharpoonup> 't) \<Rightarrow> 'v \<Rightarrow> 'st \<Rightarrow> 'st outcome \<Rightarrow> 'st outcome" where
  "with_new vs v st r = (if vs v = None then r else (None, st))"

fun obj_step :: "'s allocs \<Rightarrow> 's deallocs \<Rightarrow> 'a \<Rightarrow> 'a tensor_op \<Rightarrow> ('a, 's) tstate \<Rightarrow> ('a, 's) tstate outcome" where
  "obj_step al de z (TDefault v) st = with_new (objs st) v st (None, st\<lparr>objs := (objs st)(v \<mapsto> obj_default)\<rparr>)"
| "obj_step al de z (TZeros v shp k) st = with_new (objs st) v st (obj_zeros al z v shp k st)"
| "obj_step al de z (TOf v shp xs k) st = with_new (objs st) v st (obj_of al v shp xs k st)"
| "obj_step al de z (TCopy v w) st = with_new (objs st) v st (with_var (objs st) w st (\<lambda>x. obj_copy al v x st))"
| "obj_step al de z (TMove v w) st = with_new (objs st) v st (with_var (objs st) w st (\<lambda>x. obj_move v w x st))"
| "obj_step al de z (TAssign v w) st = with_var (objs st) v st (\<lambda>t. with_var (objs st) w st (\<lambda>x.
     if v = w then (None, st) else obj_assign al de v t x st))"
| "obj_step al de z (TMoveAssign v w) st = with_var (objs st) v st (\<lambda>t. with_var (objs st) w st (\<lambda>x.
     if v = w then (None, st) else obj_move_assign de v w t x st))"
| "obj_step al de z (TReshape v shp) st = with_var (objs st) v st (\<lambda>t. obj_reshape v t shp st)"
| "obj_step al de z (TPut v i x) st = with_var (objs st) v st (\<lambda>t. obj_put t i x st)"
| "obj_step al de z (TDestroy v) st = with_var (objs st) v st (\<lambda>t. obj_destroy de v t st)"

text \<open>The same operations on the tensors of theory Tensor.\<close>

definition tensor_put :: "'a tensor \<Rightarrow> u64 \<Rightarrow> 'a \<Rightarrow> 'a tensor res" where
  "tensor_put t i x = (if t_size t \<le> i then Inl (OutOfRange ''Tensor index out of range'')
                       else Inr (t\<lparr>t_data := (t_data t)[unat i := x]\<rparr>))"

definition set_var :: "'v \<Rightarrow> 't res \<Rightarrow> ('v \<rightharpoonup> 't) \<Rightarrow> ('v \<rightharpoonup> 't) outcome" where
  "set_var v r vs = (case r of Inl e \<Rightarrow> (Some e, vs) | Inr t \<Rightarrow> (None, vs(v \<mapsto> t)))"

fun val_step :: "'a \<Rightarrow> 'a tensor_op \<Rightarrow> (nat \<rightharpoonup> 'a tensor) \<Rightarrow> (nat \<rightharpoonup> 'a tensor) outcome" where
  "val_step z (TDefault v) vs = with_new vs v vs (set_var v (Inr tensor_default) vs)"
| "val_step z (TZeros v shp k) vs = with_new vs v vs (set_var v (tensor_zeros z shp k) vs)"
| "val_step z (TOf v shp xs k) vs = with_new vs v vs (set_var v (tensor_of shp xs k) vs)"
| "val_step z (TCopy v w) vs = with_new vs v vs (with_var vs w vs (\<lambda>x. set_var v (tensor_copy x) vs))"
| "val_step z (TMove v w) vs = with_new vs v vs (with_var vs w vs (\<lambda>x.
     (None, vs(v \<mapsto> fst (tensor_move x), w \<mapsto> snd (tensor_move x)))))"
| "val_step z (TAssign v w) vs = with_var vs v vs (\<lambda>t. with_var vs w vs (\<lambda>x.
     if v = w then (None, vs) else set_var v (tensor_assign t x) vs))"
| "val_step z (TMoveAssign v w) vs = with_var vs v vs (\<lambda>t. with_var vs w vs (\<lambda>x.
     if v = w then (None, vs) else (None, vs(v \<mapsto> fst (tensor_move x), w \<mapsto> snd (tensor_move x)))))"
| "val_step z (TReshape v shp) vs = with_var vs v vs (\<lambda>t. set_var v (reshape t shp) vs)"
| "val_step z (TPut v i x) vs = with_var vs v vs (\<lambda>t. set_var v (tensor_put t i x) vs)"
| "val_step z (TDestroy v) vs = with_var vs v vs (\<lambda>t. (None, vs(v := None)))"

text \<open>A run, with the outcome of every operation. A program may catch an exception and go on; it
  cannot go on after undefined behaviour.\<close>

fun run_ops :: "('op \<Rightarrow> 'st \<Rightarrow> 'st outcome) \<Rightarrow> 'op list \<Rightarrow> 'st \<Rightarrow> exn option list \<times> 'st" where
  "run_ops step [] st = ([], st)"
| "run_ops step (p # ps) st = (case step p st of (e, st) \<Rightarrow>
     if case e of None \<Rightarrow> True | Some x \<Rightarrow> catchable x
     then (case run_ops step ps st of (es, st) \<Rightarrow> (e # es, st)) else ([e], st))"

text \<open>The tensors the objects stand for.\<close>

definition view :: "(nat \<Rightarrow> 'a) \<Rightarrow> tobj \<Rightarrow> 'a tensor" where
  "view c x = \<lparr>t_shape = o_shape x, t_data = read_cells (o_data x) (unat (o_size x)) c,
     t_size = o_size x, t_alloc = o_alloc x\<rparr>"

definition tensors :: "('a, 's) tstate \<Rightarrow> nat \<rightharpoonup> 'a tensor" where
  "tensors st = (\<lambda>v. map_option (view (cells st)) (objs st v))"

definition program_new :: "'a \<Rightarrow> u64 \<Rightarrow> ('a, memory) tstate" where
  "program_new z n = \<lparr>objs = Map.empty, cells = (\<lambda>a. z), tmem = memory_new n\<rparr>"

text \<open>What a program asks for fits the address space: no shape needs more than \<open>2^63\<close> bytes.\<close>

fun op_ok :: "'a tensor_op \<Rightarrow> bool" where
  "op_ok (TZeros v shp k) = (unat (computeSize shp) * 4 \<le> 2 ^ 63)"
| "op_ok (TOf v shp xs k) = (unat (computeSize shp) * 4 \<le> 2 ^ 63)"
| "op_ok op = True"

end
