(* ===== verification/Tensor_Ownership.thy ===== *)
theory Tensor_Ownership
  imports Tensor_Memory
begin

text \<open>
  Tensor objects own their buffers. The locale \<open>tensor_allocator\<close> is what \<^verbatim>\<open>Tensor\<close> relies on of
  its allocators; inside it, every operation keeps the ownership invariant (each live buffer
  belongs to exactly one object) and does to the tensors what the operation of theory Tensor
  does. Theory
  Tensor_Results interprets it with the two allocators.
\<close>

section \<open>Cells\<close>

lemma read_cells_write:
  "4 * length xs = 4 * n \<Longrightarrow> read_cells a n (write_cells a xs c) = xs"
  by (simp add: read_cells_def write_cells_def list_eq_iff_nth_eq)

lemma read_cells_cong:
  "(\<And>x. a \<le> x \<Longrightarrow> x < a + 4 * n \<Longrightarrow> c x = d x) \<Longrightarrow> read_cells a n c = read_cells a n d"
  by (simp add: read_cells_def)

lemma read_cells_apart:
  assumes "sep_block (a, 4 * length xs) (b, 4 * n)"
  shows "read_cells b n (write_cells a xs c) = read_cells b n c"
  using assms by (intro read_cells_cong) (auto simp: write_cells_def sep_block_def)

lemma read_cells_put:
  "i < n \<Longrightarrow> read_cells a n (c(a + 4 * i := x)) = (read_cells a n c)[i := x]"
  by (auto simp: read_cells_def list_eq_iff_nth_eq nth_list_update)

lemma read_cells_put_apart:
  assumes "sep_block (a, 4 * m) (b, 4 * n)" "i < m"
  shows "read_cells b n (c(a + 4 * i := x)) = read_cells b n c"
  using assms by (intro read_cells_cong) (auto simp: sep_block_def)

lemma read_cells_0 [simp]: "read_cells a 0 c = []"
  by (simp add: read_cells_def)

lemma length_read_cells [simp]: "length (read_cells a n c) = n"
  by (simp add: read_cells_def)

section \<open>Who owns what\<close>

type_synonym owned = "(alloc_kind \<times> nat \<times> u64) list"

definition buf :: "tobj \<Rightarrow> alloc_kind \<times> nat \<times> u64" where
  "buf x = (o_alloc x, o_data x, o_size x * 4)"

text \<open>The live buffers are those of the objects, and no two objects share one.\<close>

fun held :: "tobj option \<Rightarrow> (alloc_kind \<times> nat \<times> u64) option" where
  "held None = None"
| "held (Some x) = (if o_data x = 0 then None else Some (buf x))"

definition apart :: "(nat \<rightharpoonup> 'k \<times> nat \<times> 'b) \<Rightarrow> bool" where
  "apart m = (\<forall>v w b d. m v = Some b \<longrightarrow> m w = Some d \<longrightarrow> fst (snd b) = fst (snd d) \<longrightarrow> v = w)"

definition owns :: "(nat \<rightharpoonup> tobj) \<Rightarrow> owned \<Rightarrow> bool" where
  "owns vs L = (ran (held \<circ> vs) = set L \<and> apart (held \<circ> vs))"

lemma held_upd: "held \<circ> vs(v := r) = (held \<circ> vs)(v := held r)"
  by (simp add: fun_eq_iff)

lemma apart_drop: "apart m \<Longrightarrow> apart (m(v := None))"
  unfolding apart_def by auto

lemma apart_add:
  assumes "apart m" "\<And>d. d \<in> ran m \<Longrightarrow> fst (snd d) \<noteq> fst (snd b)"
  shows "apart (m(v \<mapsto> b))"
  using assms unfolding apart_def ran_def by (auto split: if_splits) metis+

lemma ran_drop:
  assumes "apart m" "m v = Some b"
  shows "ran (m(v := None)) = ran m - {b}"
proof -
  have "m w \<noteq> Some b" if "w \<noteq> v" for w
    using assms that unfolding apart_def by blast
  with assms(2) show ?thesis unfolding ran_def by (auto split: if_splits) (metis option.inject)
qed

lemma ran_add: "m v = None \<Longrightarrow> ran (m(v \<mapsto> b)) = insert b (ran m)"
  by simp

lemma owns_idle:
  assumes "owns vs L" "held (vs v) = None" "held r = None"
  shows "owns (vs(v := r)) L"
proof -
  have "held \<circ> vs(v := r) = held \<circ> vs" using assms(2,3) by (simp add: fun_eq_iff)
  with assms(1) show ?thesis by (simp add: owns_def)
qed

lemma owns_drop:
  assumes "owns vs L" "held (vs v) = Some b" "distinct L" "held r = None"
  shows "owns (vs(v := r)) (remove1 b L)"
  using assms ran_drop [of "held \<circ> vs" v b] apart_drop [of "held \<circ> vs" v]
  unfolding owns_def held_upd assms(4) by (simp add: set_remove1_eq)

lemma owns_add:
  assumes "owns vs L" "held (vs v) = None" "held r = Some b" "\<And>d. d \<in> set L \<Longrightarrow> fst (snd d) \<noteq> fst (snd b)"
  shows "owns (vs(v := r)) (b # L)"
  using assms ran_add [of "held \<circ> vs" v b] apart_add [of "held \<circ> vs" b v]
  unfolding owns_def held_upd assms(3) by simp

lemma owns_transfer:
  assumes "owns vs L" "held (vs v) = None" "v \<noteq> w" "held r = None"
  shows "owns (vs(v := vs w, w := r)) L"
proof (cases "held (vs w)")
  case None
  then show ?thesis using assms by (intro owns_idle) auto
next
  case (Some b)
  let ?m = "held \<circ> vs"
  have m: "held \<circ> vs(v := vs w, w := r) = (?m(w := None))(v \<mapsto> b)"
    using assms(3,4) Some by (auto simp: fun_eq_iff)
  have a: "apart ?m" "ran ?m = set L" using assms(1) by (simp_all add: owns_def)
  have r: "ran (?m(w := None)) = set L - {b}" using ran_drop [of ?m w b] a Some by simp
  have "fst (snd d) \<noteq> fst (snd b)" if "d \<in> set L - {b}" for d
  proof
    assume eq: "fst (snd d) = fst (snd b)"
    have "d \<in> ran ?m" using that a(2) by simp
    then obtain u where "?m u = Some d" unfolding ran_def by blast
    with eq a(1) Some have "u = w" unfolding apart_def comp_def by blast
    with \<open>?m u = Some d\<close> Some that show False by simp
  qed
  then have "apart ((?m(w := None))(v \<mapsto> b))"
    using a(1) r by (intro apart_add apart_drop) auto
  moreover have "ran ((?m(w := None))(v \<mapsto> b)) = set L"
  proof -
    have "b \<in> set L" using a(2) Some by (auto simp: ran_def)
    then show ?thesis using ran_add [of "?m(w := None)" v b] r assms(2,3) by auto
  qed
  ultimately show ?thesis unfolding owns_def m by simp
qed

lemma owns_same:
  assumes "owns vs L" "held (vs v) = held r"
  shows "owns (vs(v := r)) L"
proof -
  have "held \<circ> vs(v := r) = held \<circ> vs" using assms(2) by (simp add: fun_eq_iff)
  with assms(1) show ?thesis by (simp add: owns_def)
qed

lemma owns_new: "owns Map.empty []"
  by (simp add: owns_def apart_def comp_def)

lemma owns_held: "owns vs L \<Longrightarrow> vs v = Some x \<Longrightarrow> o_data x \<noteq> 0 \<Longrightarrow> buf x \<in> set L"
  unfolding owns_def ran_def by (metis (mono_tags, lifting) comp_apply held.simps(2) mem_Collect_eq)

lemma owns_apart:
  assumes "owns vs L" "vs v = Some x" "vs w = Some y" "o_data x \<noteq> 0" "o_data y = o_data x"
  shows "v = w"
proof -
  have "(held \<circ> vs) v = Some (buf x)" "(held \<circ> vs) w = Some (buf y)" using assms by simp_all
  then show ?thesis using assms(1,5) unfolding owns_def apart_def buf_def by fastforce
qed

text \<open>An object's size is that of its shape and its bytes can be asked for; without elements it has no
  buffer. A sound object has a buffer when it has elements.\<close>

definition obj_ok :: "tobj \<Rightarrow> bool" where
  "obj_ok x = (unat (o_size x) * 4 \<le> 2 ^ 63 \<and> (o_size x = 0 \<longrightarrow> o_data x = 0) \<and> o_size x = computeSize (o_shape x))"

definition sound :: "tobj \<Rightarrow> bool" where
  "sound x = (o_size x \<noteq> 0 \<longrightarrow> o_data x \<noteq> 0)"

lemma bytes_unat: "unat (n :: u64) * 4 \<le> 2 ^ 63 \<Longrightarrow> unat (n * 4) = 4 * unat n"
  by (simp add: unat_word_ariths)

lemma bytes_usable: "unat n * 4 \<le> 2 ^ 63 \<Longrightarrow> pool_usable (n * 4)"
  by (simp add: pool_usable_def bytes_unat)

lemma bytes_nonzero: "unat (n :: u64) * 4 \<le> 2 ^ 63 \<Longrightarrow> n \<noteq> 0 \<Longrightarrow> n * 4 \<noteq> 0"
  using bytes_unat [of n] by (metis mult_eq_0_iff unat_eq_0 unat_0 zero_neq_numeral)

lemma bytes_fit: "unat n * 4 \<le> 2 ^ 63 \<Longrightarrow> buffer_fits n"
  by (simp add: buffer_fits_def)

lemma obj_okD:
  "obj_ok x \<Longrightarrow> unat (o_size x) * 4 \<le> 2 ^ 63"
  "obj_ok x \<Longrightarrow> o_size x = 0 \<Longrightarrow> o_data x = 0"
  "obj_ok x \<Longrightarrow> o_size x = computeSize (o_shape x)"
  unfolding obj_ok_def by blast+

lemma obj_bytes: "obj_ok x \<Longrightarrow> unat (o_size x * 4) = 4 * unat (o_size x)"
  by (rule bytes_unat) (rule obj_okD)

lemma obj_data: "y = x\<lparr>o_data := a\<rparr> \<Longrightarrow> o_size y = o_size x \<and> o_shape y = o_shape x \<and> o_alloc y = o_alloc x"
  by simp

lemma tensors_upd:
  "tensors (st\<lparr>objs := (objs st)(v := r)\<rparr>) = (tensors st)(v := map_option (view (cells st)) r)"
  "tensors (st\<lparr>objs := vs, tmem := s\<rparr>) = tensors (st\<lparr>objs := vs\<rparr>)"
  "tensors (st\<lparr>tmem := s\<rparr>) = tensors st"
  by (auto simp: tensors_def fun_eq_iff)

lemma ran_upd: "x \<in> ran (m(v := r)) \<Longrightarrow> r = Some x \<or> (\<exists>w. w \<noteq> v \<and> m w = Some x)"
  by (auto simp: ran_def split: if_splits)

text \<open>The invariant of a state over allocators with invariant \<open>held_by\<close>, and what every operation
  guarantees of its outcome \<open>r\<close>: it keeps the invariant, and from sound objects it does to the
  tensors what \<open>vr\<close> says, unless memory runs out.\<close>

definition good :: "('s \<Rightarrow> owned \<Rightarrow> bool) \<Rightarrow> ('a, 's) tstate \<Rightarrow> owned \<Rightarrow> bool" where
  "good held_by st L = (held_by (tmem st) L \<and> owns (objs st) L \<and> (\<forall>x\<in>ran (objs st). obj_ok x))"

definition all_sound :: "('a, 's) tstate \<Rightarrow> bool" where
  "all_sound st = (\<forall>x\<in>ran (objs st). sound x)"

definition step_ok :: "('s \<Rightarrow> owned \<Rightarrow> bool) \<Rightarrow> ('a, 's) tstate \<Rightarrow> ('a, 's) tstate outcome \<Rightarrow>
    (nat \<rightharpoonup> 'a tensor) outcome \<Rightarrow> bool" where
  "step_ok held_by st r vr = (case r of (e, st') \<Rightarrow>
     e \<noteq> Some OutOfFuel \<and>
     ((case e of None \<Rightarrow> True | Some x \<Rightarrow> catchable x) \<longrightarrow> (\<exists>L. good held_by st' L)) \<and>
     (all_sound st \<longrightarrow> e \<noteq> Some BadAlloc \<longrightarrow> all_sound st' \<and> vr = (e, tensors st')))"

section \<open>What tensors rely on\<close>

locale tensor_allocator =
  fixes alloc :: "'s allocs"
    and dealloc :: "'s deallocs"
    and inv :: "'s \<Rightarrow> owned \<Rightarrow> bool"
  assumes alloc_some: "inv s L \<Longrightarrow> b \<noteq> 0 \<Longrightarrow> pool_usable b \<Longrightarrow> alloc k b s = (Inr a, s') \<Longrightarrow> inv s' ((k, a, b) # L)"
    and alloc_fail: "inv s L \<Longrightarrow> pool_usable b \<Longrightarrow> alloc k b s = (Inl e, s') \<Longrightarrow> e = BadAlloc \<and> inv s' L"
    and dealloc_live: "inv s L \<Longrightarrow> (k, a, b) \<in> set L \<Longrightarrow>
      \<exists>s'. dealloc k a b s = (Inr (), s') \<and> inv s' (remove1 (k, a, b) L)"
    and live_pos: "inv s L \<Longrightarrow> (k, a, b) \<in> set L \<Longrightarrow> 0 < a \<and> 64 dvd a \<and> b \<noteq> 0"
    and live_sep: "inv s L \<Longrightarrow> sorted_wrt (\<lambda>x y. sep_block (asked (snd x)) (asked (snd y))) L"
begin

lemma live_distinct:
  assumes "inv s L"
  shows "distinct L"
proof -
  have "\<not> sep_block (asked (snd x)) (asked (snd x))" if "x \<in> set L" for x
    using live_pos [OF assms, of "fst x"] that
    by (cases x) (auto simp: sep_block_def asked_def unat_eq_0)
  with live_sep [OF assms] show ?thesis by (induction L) auto
qed

lemma live_pair:
  assumes "inv s L" "d \<in> set L" "b \<in> set L" "b \<noteq> d"
  shows "sep_block (asked (snd d)) (asked (snd b))"
proof (rule sorted_wrt_pair [OF live_sep [OF assms(1)] _ assms(2,3)])
  show "sep_block (asked (snd y)) (asked (snd x))" if "sep_block (asked (snd x)) (asked (snd y))"
    for x y :: "alloc_kind \<times> nat \<times> u64"
    using that by (rule sep_block_sym [THEN iffD1])
qed (use assms in simp)

lemma fresh_apart:
  assumes "inv s ((k, a, b) # L)" "d \<in> set L"
  shows "sep_block (a, unat b) (asked (snd d))" "fst (snd d) \<noteq> a"
proof -
  show s: "sep_block (a, unat b) (asked (snd d))"
    using live_sep [OF assms(1)] assms(2) by (simp add: asked_def)
  obtain k' a' b' where d: "d = (k', a', b')" by (cases d)
  have "b \<noteq> 0" "b' \<noteq> 0" using live_pos [OF assms(1)] assms(2) d by auto
  then have "0 < unat b" "0 < unat b'" by (simp_all add: unat_gt_0)
  with s show "fst (snd d) \<noteq> a" by (auto simp: d asked_def sep_block_def)
qed

lemma held_None: "held r = None \<longleftrightarrow> (\<forall>x. r = Some x \<longrightarrow> o_data x = 0)"
  by (cases r) auto

lemma release_good:
  assumes g: "good inv st L" and v: "objs st v = Some x"
  shows "\<exists>s L'. releaseBuffer dealloc x (tmem st) = (Inr (x\<lparr>o_data := 0\<rparr>), s) \<and> inv s L' \<and>
    (\<forall>r. held r = None \<longrightarrow> owns ((objs st)(v := r)) L')"
proof (cases "o_data x = 0")
  case True
  then have "releaseBuffer dealloc x (tmem st) = (Inr (x\<lparr>o_data := 0\<rparr>), tmem st)"
    by (simp add: releaseBuffer_def)
  moreover have "owns ((objs st)(v := r)) L" if "held r = None" for r
    using g v True that by (intro owns_idle) (auto simp: good_def)
  ultimately show ?thesis using g by (auto simp: good_def)
next
  case False
  have "buf x \<in> set L" using g v False owns_held unfolding good_def by blast
  then obtain s where s: "dealloc (o_alloc x) (o_data x) (o_size x * 4) (tmem st) = (Inr (), s)"
      "inv s (remove1 (buf x) L)"
    using g dealloc_live [of "tmem st" L "o_alloc x"] unfolding good_def buf_def by blast
  have "owns ((objs st)(v := r)) (remove1 (buf x) L)" if "held r = None" for r
    using g v False that live_distinct by (intro owns_drop) (auto simp: good_def)
  then show ?thesis using s False by (auto simp: releaseBuffer_def)
qed

text \<open>Acquiring a buffer for an object that has none.\<close>

lemma acquire_good:
  assumes g: "inv s L" "owns vs L" "held (vs v) = None" and ok: "unat (o_size x) * 4 \<le> 2 ^ 63"
    and a: "allocateBuffer alloc x s = (r, s')"
  shows "case r of Inl e \<Rightarrow> e = BadAlloc \<and> inv s' L
    | Inr y \<Rightarrow> y = x\<lparr>o_data := o_data y\<rparr> \<and> (o_size x = 0 \<longleftrightarrow> o_data y = 0) \<and>
        (\<exists>L'. inv s' L' \<and> owns (vs(v \<mapsto> y)) L') \<and>
        (o_size x \<noteq> 0 \<longrightarrow> (\<forall>d\<in>set L. sep_block (o_data y, 4 * unat (o_size x)) (asked (snd d))))"
proof (cases "o_size x = 0")
  case True
  then have "r = Inr (x\<lparr>o_data := 0\<rparr>)" "s' = s" using a by (simp_all add: allocateBuffer_def)
  moreover have "owns (vs(v \<mapsto> x\<lparr>o_data := 0\<rparr>)) L" using g by (intro owns_idle) simp_all
  ultimately show ?thesis using g(1) True by auto
next
  case False
  note b = bytes_nonzero [OF ok False] bytes_usable [OF ok] bytes_unat [OF ok]
  obtain q t where q: "alloc (o_alloc x) (o_size x * 4) s = (q, t)" by fastforce
  show ?thesis
  proof (cases q)
    case (Inl e)
    then have "e = BadAlloc \<and> inv t L" using alloc_fail [OF g(1) b(2)] q by simp
    then show ?thesis using a q Inl False by (auto simp: allocateBuffer_def)
  next
    case (Inr p)
    define y where "y = x\<lparr>o_data := p\<rparr>"
    have i: "inv t ((o_alloc x, p, o_size x * 4) # L)" using alloc_some [OF g(1) b(1,2)] q Inr by simp
    then have p: "p \<noteq> 0" using live_pos [OF i, of "o_alloc x" p "o_size x * 4"] by simp
    have "owns (vs(v \<mapsto> y)) ((o_alloc x, p, o_size x * 4) # L)"
      using g(2,3) p fresh_apart(2) [OF i] by (intro owns_add) (auto simp: y_def buf_def)
    moreover have "r = Inr y" "s' = t" using a q Inr False by (auto simp: allocateBuffer_def y_def)
    ultimately show ?thesis using i p fresh_apart(1) [OF i] b(3) False by (auto simp: y_def)
  qed
qed

lemma construct_cases:
  assumes g: "inv (tmem st) L" "owns (objs st) L" "held (objs st v) = None"
    and ok: "unat (o_size x) * 4 \<le> 2 ^ 63"
    and len: "\<forall>ys. xs = Inr ys \<longrightarrow> length ys = unat (o_size x)"
    and c: "construct alloc v x xs st = (e, st')"
  obtains (bad) s where "e = Some BadAlloc" "st' = st\<lparr>tmem := s\<rparr>" "inv s L"
  | (undefined) u where "xs = Inl u" "e = Some u"
  | (made) ys c y s L' where "xs = Inr ys" "e = None" "st' = st\<lparr>objs := (objs st)(v \<mapsto> y), cells := c, tmem := s\<rparr>"
      "y = x\<lparr>o_data := o_data y\<rparr>" "o_size x = 0 \<longleftrightarrow> o_data y = 0" "inv s L'" "owns ((objs st)(v \<mapsto> y)) L'"
      "read_cells (o_data y) (unat (o_size x)) c = ys"
      "\<And>w u. objs st w = Some u \<Longrightarrow> w \<noteq> v \<Longrightarrow> obj_ok u \<Longrightarrow> sound u \<Longrightarrow> view c u = view (cells st) u"
proof -
  obtain r s where a: "allocateBuffer alloc x (tmem st) = (r, s)" by fastforce
  note ag = acquire_good [OF g ok a]
  show ?thesis
  proof (cases r)
    case (Inl u)
    then show ?thesis using ag a c by (intro bad) (auto simp: construct_def)
  next
    case (Inr y)
    then have y: "y = x\<lparr>o_data := o_data y\<rparr>" "o_size x = 0 \<longleftrightarrow> o_data y = 0"
      using ag by auto
    then have size: "o_size y = o_size x" by (metis tobj.select_convs(3) tobj.surjective tobj.update_convs(2))
    obtain L' where L': "inv s L'" "owns ((objs st)(v \<mapsto> y)) L'" using ag Inr by auto
    show ?thesis
    proof (cases xs)
      case (Inl u)
      then show ?thesis using a c \<open>r = Inr y\<close> by (intro undefined) (auto simp: construct_def)
    next
      case xs: (Inr ys)
      have len': "length ys = unat (o_size x)" using len xs by simp
      define d where "d = (if o_size x = 0 then cells st else write_cells (o_data y) ys (cells st))"
      have f: "fill_buffer y ys (cells st) = Inr d"
        using y(2) bytes_fit [OF ok] by (simp add: fill_buffer_def size d_def)
      have st': "e = None" "st' = st\<lparr>objs := (objs st)(v \<mapsto> y), cells := d, tmem := s\<rparr>"
        using c a Inr xs f by (auto simp: construct_def)
      have rd: "read_cells (o_data y) (unat (o_size x)) d = ys"
        using len' by (auto simp: d_def read_cells_write)
      have "view d u = view (cells st) u" if u: "objs st w = Some u" "obj_ok u" "sound u" for w u
      proof (cases "o_size x = 0 \<or> o_size u = 0")
        case False
        then have "buf u \<in> set L" using u owns_held [OF g(2)] by (auto simp: sound_def)
        then have "sep_block (o_data y, 4 * unat (o_size x)) (asked (snd (buf u)))"
          using ag Inr False by auto
        then have "sep_block (o_data y, 4 * length ys) (o_data u, 4 * unat (o_size u))"
          by (simp add: asked_def buf_def obj_bytes [OF u(2)] len')
        then show ?thesis using False by (simp add: view_def d_def read_cells_apart)
      qed (auto simp: view_def d_def)
      with xs st' y L' rd show ?thesis by (intro made [of ys s d y L']) auto
    qed
  qed
qed

lemma construct_step:
  assumes g: "inv (tmem s0) L" "owns (objs s0) L" "held (objs s0 v) = None" "\<forall>x\<in>ran (objs s0). obj_ok x"
    and ok: "unat (o_size x) * 4 \<le> 2 ^ 63" "o_size x = computeSize (o_shape x)"
    and len: "\<forall>ys. xs = Inr ys \<longrightarrow> length ys = unat (o_size x)"
    and undef: "\<And>u. xs = Inl u \<Longrightarrow> \<not> catchable u \<and> u \<noteq> OutOfFuel"
    and sound: "all_sound st \<Longrightarrow> \<exists>ys. xs = Inr ys" "\<And>w u. all_sound st \<Longrightarrow> objs s0 w = Some u \<Longrightarrow> w \<noteq> v \<Longrightarrow> sound u"
    and val: "\<And>ys. all_sound st \<Longrightarrow> xs = Inr ys \<Longrightarrow> vr = (None, (tensors s0)(v \<mapsto>
        \<lparr>t_shape = o_shape x, t_data = ys, t_size = o_size x, t_alloc = o_alloc x\<rparr>))"
  shows "step_ok inv st (construct alloc v x xs s0) vr"
proof -
  obtain e st' where c: "construct alloc v x xs s0 = (e, st')" by fastforce
  show ?thesis
  proof (cases rule: construct_cases [OF g(1-3) ok(1) len c, case_names bad undefined made])
    case (bad s)
    then show ?thesis using g c by (auto simp: step_ok_def good_def)
  next
    case (undefined u)
    then show ?thesis using undef sound(1) c by (auto simp: step_ok_def)
  next
    case (made ys d y s L')
    note y = obj_data [OF made(4)]
    have oks: "obj_ok z" if "z \<in> ran (objs st')" for z
      using ran_upd [of z "objs s0" v "Some y"] that g(4) ok made(5) y
      by (auto simp: made(3) obj_ok_def ran_def)
    then have "good inv st' L'" using made by (simp add: good_def)
    moreover have "all_sound st' \<and> vr = (None, tensors st')" if a: "all_sound st"
    proof
      have "sound z" if "z \<in> ran (objs st')" for z
        using ran_upd [of z "objs s0" v "Some y"] that sound(2) [OF a] made(5) y
        by (auto simp: made(3) sound_def)
      then show "all_sound st'" by (simp add: all_sound_def)
      have "map_option (view d) (objs s0 w) = map_option (view (cells s0)) (objs s0 w)" if "w \<noteq> v" for w
        using made(9) [of w] sound(2) [OF a, of w] g(4) that
        by (cases "objs s0 w") (auto simp: ran_def)
      moreover have "view d y = \<lparr>t_shape = o_shape x, t_data = ys, t_size = o_size x, t_alloc = o_alloc x\<rparr>"
        using made(8) y by (simp add: view_def)
      ultimately show "vr = (None, tensors st')"
        unfolding val [OF a made(1)] by (auto simp: made(3) tensors_def fun_eq_iff)
    qed
    ultimately show ?thesis using made(2) c by (auto simp: step_ok_def)
  qed
qed

lemma release_step:
  assumes g: "good inv st L" and v: "objs st v = Some x"
  obtains s L' where "releaseBuffer dealloc x (tmem st) = (Inr (x\<lparr>o_data := 0\<rparr>), s)" "inv s L'"
    "\<And>r. held r = None \<Longrightarrow> owns ((objs st)(v := r)) L'"
  using release_good [OF assms] by blast

lemma elements_ok:
  assumes "obj_ok x"
  shows "elements x c = Inr ys \<Longrightarrow> length ys = unat (o_size x) \<and> ys = t_data (view c x)"
    "elements x c = Inl u \<Longrightarrow> \<not> catchable u \<and> u \<noteq> OutOfFuel"
    "sound x \<Longrightarrow> \<exists>ys. elements x c = Inr ys"
  using assms by (auto simp: elements_def view_def sound_def split: if_splits)

lemma default_step:
  assumes "good inv st L" "objs st v = None"
  shows "step_ok inv st (None, st\<lparr>objs := (objs st)(v \<mapsto> obj_default)\<rparr>) (set_var v (Inr tensor_default) (tensors st))"
proof -
  have "view (cells st) obj_default = tensor_default"
    by (simp add: view_def obj_default_def tensor_default_def)
  moreover have "good inv (st\<lparr>objs := (objs st)(v \<mapsto> obj_default)\<rparr>) L"
    using assms by (auto simp: good_def obj_default_def obj_ok_def intro!: owns_idle dest!: ran_upd)
  moreover have "all_sound st \<Longrightarrow> all_sound (st\<lparr>objs := (objs st)(v \<mapsto> obj_default)\<rparr>)"
    by (auto simp: all_sound_def sound_def obj_default_def dest!: ran_upd) (auto simp: ran_def)
  ultimately show ?thesis by (auto simp: step_ok_def set_var_def tensors_upd)
qed

lemma zeros_step:
  assumes g: "good inv st L" "objs st v = None" and ok: "unat (computeSize shp) * 4 \<le> 2 ^ 63"
  shows "step_ok inv st (obj_zeros alloc z v shp k st) (set_var v (tensor_zeros z shp k) (tensors st))"
  unfolding obj_zeros_def Let_def
  by (rule construct_step [of st L])
    (use g ok in \<open>auto simp: good_def set_var_def tensor_zeros_def Let_def alloc_fill_def bytes_fit all_sound_def ran_def\<close>)

lemma of_step:
  assumes g: "good inv st L" "objs st v = None" and ok: "unat (computeSize shp) * 4 \<le> 2 ^ 63"
  shows "step_ok inv st (obj_of alloc v shp xs k st) (set_var v (tensor_of shp xs k) (tensors st))"
proof (cases "length xs = unat (computeSize shp)")
  case False
  then show ?thesis using g by (auto simp: obj_of_def tensor_of_def step_ok_def set_var_def)
next
  case True
  then have "obj_of alloc v shp xs k st =
      construct alloc v \<lparr>o_shape = shp, o_data = 0, o_size = computeSize shp, o_alloc = k\<rparr> (Inr xs) st"
    by (simp add: obj_of_def)
  then show ?thesis
    by (simp only:) (rule construct_step [of st L],
      use g ok True in \<open>auto simp: good_def set_var_def tensor_of_def Let_def alloc_fill_def bytes_fit all_sound_def ran_def\<close>)
qed

lemma copy_step:
  assumes g: "good inv st L" "objs st v = None" "objs st w = Some x"
  shows "step_ok inv st (obj_copy alloc v x st) (set_var v (tensor_copy (view (cells st) x)) (tensors st))"
proof -
  have x: "obj_ok x" "all_sound st \<Longrightarrow> sound x"
    using g by (auto simp: good_def all_sound_def ran_def)
  then have "unat (o_size x) * 4 \<le> 2 ^ 63" "o_size x = computeSize (o_shape x)"
    using obj_okD by blast+
  then show ?thesis
    unfolding obj_copy_def
    by (intro construct_step [of st L])
      (use g x elements_ok [of x] in \<open>auto simp: good_def set_var_def tensor_copy_def alloc_fill_def bytes_fit view_def all_sound_def ran_def\<close>)
qed

lemma moved_from_ok: "obj_ok (moved_from x)" "sound (moved_from x)" "held (Some (moved_from x)) = None"
  by (simp_all add: moved_from_def obj_ok_def sound_def)

lemma view_moved: "view c (moved_from x) = snd (tensor_move (view c x))"
  by (simp add: view_def moved_from_def tensor_move_def)

text \<open>Moving the buffer of \<open>w\<close> to \<open>v\<close>, which holds none.\<close>

lemma transfer_good:
  assumes "good inv st L" "inv s L'" "owns ((objs st)(v := None)) L'" "objs st w = Some x" "v \<noteq> w"
  shows "good inv (st\<lparr>objs := (objs st)(v \<mapsto> x, w \<mapsto> moved_from x), tmem := s\<rparr>) L'"
proof -
  have "owns ((objs st)(v \<mapsto> x, w \<mapsto> moved_from x)) L'"
    using owns_transfer [OF assms(3), of v w "Some (moved_from x)"] assms(4,5) moved_from_ok(3) by simp
  moreover have "obj_ok y" if "y \<in> ran ((objs st)(v \<mapsto> x, w \<mapsto> moved_from x))" for y
    using ran_upd [OF that] assms(1,4) moved_from_ok(1) by (auto simp: good_def ran_def split: if_splits)
  ultimately show ?thesis using assms(2) by (simp add: good_def)
qed

lemma transfer_step:
  assumes "good inv st L" "inv s L'" "owns ((objs st)(v := None)) L'" "objs st w = Some x" "v \<noteq> w"
  shows "step_ok inv st (None, st\<lparr>objs := (objs st)(v \<mapsto> x, w \<mapsto> moved_from x), tmem := s\<rparr>)
    (None, (tensors st)(v \<mapsto> fst (tensor_move (view (cells st) x)), w \<mapsto> snd (tensor_move (view (cells st) x))))"
proof -
  let ?st = "st\<lparr>objs := (objs st)(v \<mapsto> x, w \<mapsto> moved_from x), tmem := s\<rparr>"
  have "sound y" if "all_sound st" "y \<in> ran (objs ?st)" for y
    using ran_upd [of y "(objs st)(v \<mapsto> x)" w] that assms(4) moved_from_ok(2)
    by (auto simp: all_sound_def ran_def split: if_splits)
  then have "all_sound st \<Longrightarrow> all_sound ?st" by (simp add: all_sound_def)
  moreover have "tensors ?st = (tensors st)(v \<mapsto> view (cells st) x, w \<mapsto> view (cells st) (moved_from x))"
    by (auto simp: tensors_def fun_eq_iff)
  ultimately show ?thesis
    using transfer_good [OF assms] by (auto simp: step_ok_def view_moved) (simp add: tensor_move_def)
qed

lemma move_step:
  assumes "good inv st L" "objs st v = None" "objs st w = Some x"
  shows "step_ok inv st (obj_move v w x st)
    (None, (tensors st)(v \<mapsto> fst (tensor_move (view (cells st) x)), w \<mapsto> snd (tensor_move (view (cells st) x))))"
proof -
  have "(objs st)(v := None) = objs st" using assms(2) by (simp add: fun_eq_iff)
  then show ?thesis
    using transfer_step [OF assms(1), of "tmem st" L v w x] assms by (cases "v = w") (auto simp: obj_move_def good_def)
qed

lemma move_assign_step:
  assumes "good inv st L" "objs st v = Some t" "objs st w = Some x" "v \<noteq> w"
  shows "step_ok inv st (obj_move_assign dealloc v w t x st)
    (None, (tensors st)(v \<mapsto> fst (tensor_move (view (cells st) x)), w \<mapsto> snd (tensor_move (view (cells st) x))))"
proof -
  obtain s L' where r: "releaseBuffer dealloc t (tmem st) = (Inr (t\<lparr>o_data := 0\<rparr>), s)" "inv s L'"
    and o: "owns ((objs st)(v := None)) L'"
    using release_step [OF assms(1,2)] by (metis held.simps(1))
  show ?thesis using transfer_step [OF assms(1) r(2) o assms(3,4)] by (simp add: obj_move_assign_def r(1))
qed

lemma destroy_step:
  assumes g: "good inv st L" and v: "objs st v = Some t"
  shows "step_ok inv st (obj_destroy dealloc v t st) (None, (tensors st)(v := None))"
proof -
  obtain s L' where r: "releaseBuffer dealloc t (tmem st) = (Inr (t\<lparr>o_data := 0\<rparr>), s)" "inv s L'"
    and o: "owns ((objs st)(v := None)) L'"
    using release_step [OF g v] by (metis held.simps(1))
  have "good inv (st\<lparr>objs := (objs st)(v := None), tmem := s\<rparr>) L'"
    using g r(2) o by (auto simp: good_def ran_def)
  moreover have "all_sound st \<Longrightarrow> all_sound (st\<lparr>objs := (objs st)(v := None), tmem := s\<rparr>)"
    by (auto simp: all_sound_def ran_def)
  ultimately show ?thesis by (auto simp: step_ok_def obj_destroy_def r(1) tensors_upd)
qed

lemma reshape_step:
  assumes g: "good inv st L" and v: "objs st v = Some t"
  shows "step_ok inv st (obj_reshape v t shp st) (set_var v (reshape (view (cells st) t) shp) (tensors st))"
proof (cases "computeSize shp = o_size t")
  case False
  then show ?thesis using g by (auto simp: obj_reshape_def reshape_def view_def step_ok_def set_var_def)
next
  case True
  let ?t = "t\<lparr>o_shape := shp\<rparr>" and ?st = "st\<lparr>objs := (objs st)(v \<mapsto> t\<lparr>o_shape := shp\<rparr>)\<rparr>"
  have t: "obj_ok t" "all_sound st \<Longrightarrow> sound t" using g v by (auto simp: good_def all_sound_def ran_def)
  have "owns (objs ?st) L" using g v by (auto simp: good_def buf_def intro: owns_same)
  moreover have "obj_ok ?t" using obj_okD [OF t(1)] True by (simp add: obj_ok_def)
  ultimately have "good inv ?st L" using g by (auto simp: good_def dest!: ran_upd) (auto simp: ran_def)
  moreover have "sound y" if "all_sound st" "y \<in> ran (objs ?st)" for y
    using ran_upd [of y "objs st" v "Some ?t"] that t(2) by (auto simp: all_sound_def ran_def sound_def)
  then have "all_sound st \<Longrightarrow> all_sound ?st" by (simp add: all_sound_def)
  moreover have "reshape (view (cells st) t) shp = Inr (view (cells st) ?t)"
    using True by (simp add: reshape_def view_def)
  ultimately show ?thesis using True by (auto simp: obj_reshape_def step_ok_def set_var_def tensors_upd)
qed

lemma assign_step:
  assumes g: "good inv st L" and v: "objs st v = Some t" and w: "objs st w = Some x" and ne: "v \<noteq> w"
  shows "step_ok inv st (obj_assign alloc dealloc v t x st)
    (set_var v (tensor_assign (view (cells st) t) (view (cells st) x)) (tensors st))"
proof -
  define t' where "t' = t\<lparr>o_data := 0, o_shape := o_shape x, o_size := o_size x, o_alloc := o_alloc x\<rparr>"
  obtain s L' where r: "releaseBuffer dealloc t (tmem st) = (Inr (t\<lparr>o_data := 0\<rparr>), s)" "inv s L'"
    and o: "\<And>q. held q = None \<Longrightarrow> owns ((objs st)(v := q)) L'"
    using release_step [OF g v] by blast
  have x: "obj_ok x" "all_sound st \<Longrightarrow> sound x" using g w by (auto simp: good_def all_sound_def ran_def)
  note x1 = obj_okD(1,3) [OF x(1)]
  define st0 where "st0 = st\<lparr>objs := (objs st)(v \<mapsto> t'), tmem := s\<rparr>"
  have t': "o_data t' = 0" "o_size t' = o_size x" "o_shape t' = o_shape x" "o_alloc t' = o_alloc x"
    by (simp_all add: t'_def)
  have "obj_ok y" if "y \<in> ran (objs st0)" for y
    using ran_upd [of y "objs st" v "Some t'"] that g x1 t' by (auto simp: st0_def good_def obj_ok_def ran_def)
  moreover have "step_ok inv st (construct alloc v t' (elements x (cells st)) st0)
    (set_var v (tensor_assign (view (cells st) t) (view (cells st) x)) (tensors st))"
  proof (rule construct_step [of st0 L'])
    show "inv (tmem st0) L'" "owns (objs st0) L'" "held (objs st0 v) = None"
      using r(2) o [of "Some t'"] by (simp_all add: st0_def t')
    show "unat (o_size t') * 4 \<le> 2 ^ 63" "o_size t' = computeSize (o_shape t')" using x1 t' by simp_all
  qed (use calculation g x t' elements_ok [OF x(1), of "cells st"] bytes_fit [OF x1(1)] in
      \<open>auto simp: st0_def set_var_def tensor_assign_def alloc_fill_def view_def all_sound_def ran_def tensors_def\<close>)
  ultimately show ?thesis
    by (simp add: obj_assign_def r(1) Let_def st0_def t'_def)
qed

lemma put_step:
  assumes g: "good inv st L" and v: "objs st v = Some t"
  shows "step_ok inv st (obj_put t i x st) (set_var v (tensor_put (view (cells st) t) i x) (tensors st))"
proof (cases "o_size t \<le> i \<or> o_data t = 0")
  case True
  then show ?thesis
    using g v by (auto simp: obj_put_def tensor_put_def view_def step_ok_def set_var_def all_sound_def sound_def ran_def)
next
  case False
  let ?c = "(cells st)(o_data t + 4 * unat i := x)"
  have i: "unat i < unat (o_size t)" using False by (simp add: word_le_nat_alt)
  have t: "obj_ok t" "buf t \<in> set L" using g v False owns_held by (auto simp: good_def ran_def)
  have view: "view ?c u = view (cells st) u" if u: "objs st w = Some u" "w \<noteq> v" "sound u" for w u
  proof (cases "o_size u = 0")
    case False
    then have "o_data u \<noteq> 0" "obj_ok u" using u g by (auto simp: sound_def good_def ran_def)
    moreover have "buf u \<in> set L" using u calculation g owns_held by (auto simp: good_def)
    moreover have "buf u \<noteq> buf t"
      using owns_apart [of "objs st" L w u v t] g u v calculation(1) by (auto simp: good_def buf_def)
    ultimately have "sep_block (asked (snd (buf t))) (asked (snd (buf u)))"
      using g by (intro live_pair [of "tmem st" L] t(2)) (simp_all add: good_def)
    then have "sep_block (o_data t, 4 * unat (o_size t)) (o_data u, 4 * unat (o_size u))"
      by (simp add: asked_def buf_def obj_bytes [OF t(1)] obj_bytes [OF \<open>obj_ok u\<close>])
    with i show ?thesis by (simp add: view_def read_cells_put_apart)
  qed (simp add: view_def)
  have "view ?c t = (view (cells st) t)\<lparr>t_data := (t_data (view (cells st) t))[unat i := x]\<rparr>"
    using i by (simp add: view_def read_cells_put)
  moreover have "map_option (view ?c) (objs st w) = map_option (view (cells st)) (objs st w)"
    if "all_sound st" "w \<noteq> v" for w
    using view [of w] that by (cases "objs st w") (auto simp: all_sound_def ran_def)
  ultimately have "all_sound st \<Longrightarrow> tensors (st\<lparr>cells := ?c\<rparr>) =
      (tensors st)(v \<mapsto> (view (cells st) t)\<lparr>t_data := (t_data (view (cells st) t))[unat i := x]\<rparr>)"
    using v by (auto simp: tensors_def fun_eq_iff)
  then show ?thesis
    using False g by (auto simp: obj_put_def tensor_put_def step_ok_def set_var_def good_def all_sound_def view_def)
qed

lemma nothing_step: "good inv st L \<Longrightarrow> step_ok inv st (None, st) (None, tensors st)"
  by (auto simp: step_ok_def)

lemma op_step:
  assumes g: "good inv st L" and ok: "op_ok p"
  shows "step_ok inv st (obj_step alloc dealloc z p st) (val_step z p (tensors st))"
proof -
  have t: "tensors st v = map_option (view (cells st)) (objs st v)" for v by (simp add: tensors_def)
  note steps = nothing_step [OF g] default_step [OF g] zeros_step [OF g] of_step [OF g] copy_step [OF g] move_step [OF g]
    move_assign_step [OF g] assign_step [OF g] destroy_step [OF g] reshape_step [OF g] put_step [OF g]
  show ?thesis
    using ok by (cases p) (auto simp: with_new_def with_var_def t steps split: option.splits)
qed

text \<open>A run keeps the invariant, and is the run on values until memory runs out.\<close>

lemma run_ok:
  assumes "good inv st L" "list_all op_ok ps" "run_ops (obj_step alloc dealloc z) ps st = (es, st')"
  shows "Some OutOfFuel \<notin> set es \<and>
    ((\<forall>e\<in>set es. case e of None \<Rightarrow> True | Some x \<Rightarrow> catchable x) \<longrightarrow> (\<exists>L. good inv st' L)) \<and>
    (all_sound st \<longrightarrow> Some BadAlloc \<notin> set es \<longrightarrow> run_ops (val_step z) ps (tensors st) = (es, tensors st'))"
  using assms
proof (induction ps arbitrary: st L es)
  case (Cons p ps)
  obtain e st1 where 1: "obj_step alloc dealloc z p st = (e, st1)" by fastforce
  have ok: "step_ok inv st (e, st1) (val_step z p (tensors st))"
    using op_step [OF Cons.prems(1), of p z] Cons.prems(2) 1 by simp
  show ?case
  proof (cases "case e of None \<Rightarrow> True | Some x \<Rightarrow> catchable x")
    case False
    then have "es = [e]" "st' = st1" using Cons.prems(3) 1 by simp_all
    with ok False show ?thesis by (auto simp: step_ok_def)
  next
    case True
    obtain es' where r: "run_ops (obj_step alloc dealloc z) ps st1 = (es', st')" "es = e # es'"
      using Cons.prems(3) 1 True by (auto split: prod.splits)
    obtain L' where g: "good inv st1 L'" using ok True by (auto simp: step_ok_def)
    from Cons.IH [OF g _ r(1)] Cons.prems(2) ok True r(2) show ?thesis
      by (auto simp: step_ok_def)
  qed
qed auto

text \<open>Live buffers of different objects are apart and aligned.\<close>

lemma good_buffers:
  assumes g: "good inv st L" and x: "objs st v = Some x" "o_data x \<noteq> 0"
  shows "64 dvd o_data x"
    "\<And>w y. objs st w = Some y \<Longrightarrow> o_data y \<noteq> 0 \<Longrightarrow> v \<noteq> w \<Longrightarrow>
      sep_block (o_data x, 4 * unat (o_size x)) (o_data y, 4 * unat (o_size y))"
proof -
  have i: "inv (tmem st) L" "owns (objs st) L" and ok: "\<And>v x. objs st v = Some x \<Longrightarrow> obj_ok x"
    using g by (auto simp: good_def ran_def)
  have bx: "buf x \<in> set L" by (rule owns_held [OF i(2) x])
  then show "64 dvd o_data x" using live_pos [OF i(1), of "o_alloc x"] by (simp add: buf_def)
  fix w y assume y: "objs st w = Some y" "o_data y \<noteq> 0" "v \<noteq> w"
  have "buf y \<in> set L" by (rule owns_held [OF i(2) y(1,2)])
  moreover have "buf y \<noteq> buf x"
    using owns_apart [OF i(2) x(1) y(1) x(2)] y(3) by (auto simp: buf_def)
  ultimately have "sep_block (asked (snd (buf x))) (asked (snd (buf y)))" by (intro live_pair [OF i(1) bx])
  then show "sep_block (o_data x, 4 * unat (o_size x)) (o_data y, 4 * unat (o_size y))"
    by (simp add: asked_def buf_def obj_bytes [OF ok [OF x(1)]] obj_bytes [OF ok [OF y(1)]])
qed

end

end
