(* ===== verification/Tensor_Results.thy ===== *)
theory Tensor_Results
  imports Tensor_Ownership
begin

text \<open>
  The two allocators over one global heap keep the contract of \<open>tensor_allocator\<close>, and what follows
  for programs over tensors: they behave as the tensor values of theory Tensor do, and every
  buffer is owned by exactly one object and given back.
\<close>

section \<open>The two allocators\<close>

definition of_kind :: "alloc_kind \<Rightarrow> owned \<Rightarrow> live" where
  "of_kind k L = map snd (filter (\<lambda>x. fst x = k) L)"

definition mem_ok :: "heap_new \<Rightarrow> memory \<Rightarrow> owned \<Rightarrow> bool" where
  "mem_ok new m L = (pool_ok new (m_pool m) (of_kind PoolAlloc L) \<and> cpu_ok new (m_heap m) (of_kind CpuAlloc L) \<and>
     (\<forall>c\<in>set (chunks (m_pool m)). \<forall>h\<in>set (m_heap m). sep_block c h))"

lemma of_kind_Nil [simp]: "of_kind k [] = []"
  by (simp add: of_kind_def)

lemma of_kind_Cons: "of_kind k (x # L) = (if fst x = k then snd x # of_kind k L else of_kind k L)"
  by (simp add: of_kind_def)

lemma of_kind_remove1:
  "of_kind k (remove1 x L) = (if fst x = k then remove1 (snd x) (of_kind k L) else of_kind k L)"
  by (induction L) (auto simp: of_kind_Cons prod_eq_iff)

lemma of_kind_mem: "(k, y) \<in> set L \<Longrightarrow> y \<in> set (of_kind k L)"
  by (force simp: of_kind_def)

text \<open>Neither allocator is given memory the other holds.\<close>

lemma new_ok_shared: "new_ok new \<Longrightarrow> new_ok (\<lambda>bs. new (xs @ bs)) \<and> new_ok (\<lambda>bs. new (bs @ xs))"
  unfolding new_ok_def by fastforce

lemma new_apart: "new_ok new \<Longrightarrow> new bs n = Some a \<Longrightarrow> c \<in> set bs \<Longrightarrow> sep_block (a, n) c"
  unfolding new_ok_def by blast

lemma pool_ok_new_heap: "pool_ok new p L \<Longrightarrow> new_ok new' \<Longrightarrow> pool_ok new' p L"
  by (simp add: pool_ok_def)

lemma cpu_ok_new_heap: "cpu_ok new bs L \<Longrightarrow> new_ok new' \<Longrightarrow> cpu_ok new' bs L"
  by (simp add: cpu_ok_def)

lemma pool_allocate_chunks:
  assumes "pool_allocate new b p = (r, p')"
  shows "chunks p' = chunks p \<or> (\<exists>a n. new (chunks p) n = Some a \<and> chunks p' = chunks p @ [(a, n)])"
  using assms by (auto simp: pool_allocate_def addChunk_def Let_def split: if_splits option.splits list.splits)

lemma pool_deallocate_chunks: "pool_deallocate a b p = (r, p') \<Longrightarrow> chunks p' = chunks p"
  by (auto simp: pool_deallocate_def split: if_splits option.splits)

lemma mem_alloc_some:
  assumes ok: "mem_ok new m L" and b: "b \<noteq> 0" "pool_usable b" and a: "mem_alloc new k b m = (Inr a, m')"
  shows "mem_ok new m' ((k, a, b) # L)"
proof -
  have p: "pool_ok new (m_pool m) (of_kind PoolAlloc L)" and c: "cpu_ok new (m_heap m) (of_kind CpuAlloc L)"
    and sep: "\<And>c h. c \<in> set (chunks (m_pool m)) \<Longrightarrow> h \<in> set (m_heap m) \<Longrightarrow> sep_block c h"
    using ok by (auto simp: mem_ok_def)
  have new: "new_ok new" using p by (simp add: pool_ok_def)
  note shared = new_ok_shared [OF new]
  show ?thesis
  proof (cases k)
    case PoolAlloc
    let ?new = "\<lambda>cs. new (cs @ m_heap m)"
    obtain q where q: "pool_allocate ?new b (m_pool m) = (Inr a, q)" and m': "m' = m\<lparr>m_pool := q\<rparr>"
      using a PoolAlloc by (auto split: prod.splits)
    have "pool_ok ?new q ((a, b) # of_kind PoolAlloc L)"
      using pool_allocate_some [OF pool_ok_new_heap [OF p] b q] shared by blast
    then have "pool_ok new q ((a, b) # of_kind PoolAlloc L)" using new pool_ok_new_heap by blast
    moreover have "sep_block c h" if "c \<in> set (chunks q)" "h \<in> set (m_heap m)" for c h
      using pool_allocate_chunks [OF q]
    proof (elim disjE exE conjE)
      fix a' n assume a': "new (chunks (m_pool m) @ m_heap m) n = Some a'" "chunks q = chunks (m_pool m) @ [(a', n)]"
      show ?thesis
      proof (cases "c \<in> set (chunks (m_pool m))")
        case False
        then have "c = (a', n)" using that(1) a'(2) by simp
        then show ?thesis using new_apart [OF new a'(1)] that(2) by simp
      qed (rule sep [OF _ that(2)])
    qed (use sep that in metis)
    ultimately show ?thesis using c by (simp add: mem_ok_def m' of_kind_Cons PoolAlloc)
  next
    case CpuAlloc
    let ?new = "\<lambda>bs. new (chunks (m_pool m) @ bs)"
    obtain q where q: "cpu_allocate ?new b (m_heap m) = (Inr a, q)" and m': "m' = m\<lparr>m_heap := q\<rparr>"
      using a CpuAlloc by (auto split: prod.splits)
    have u: "cpu_usable b" using b(2) by (simp add: cpu_usable_def pool_usable_def)
    have "cpu_ok ?new q ((a, b) # of_kind CpuAlloc L)"
      using cpu_allocate_some [OF cpu_ok_new_heap [OF c] b(1) u q] shared by blast
    then have "cpu_ok new q ((a, b) # of_kind CpuAlloc L)" using new cpu_ok_new_heap by blast
    moreover have q': "q = (a, unat (round_up b)) # m_heap m" "new (chunks (m_pool m) @ m_heap m) (unat (round_up b)) = Some a"
      using q b(1) by (auto simp: cpu_allocate_def Let_def split: option.splits)
    moreover have "sep_block d (a, unat (round_up b))" if "d \<in> set (chunks (m_pool m))" for d
      using new_apart [OF new q'(2)] that by (subst sep_block_sym) simp
    ultimately show ?thesis using p sep by (auto simp: mem_ok_def m' of_kind_Cons CpuAlloc)
  qed
qed

lemma mem_alloc_fail:
  assumes ok: "mem_ok new m L" and b: "pool_usable b" and a: "mem_alloc new k b m = (Inl e, m')"
  shows "e = BadAlloc \<and> mem_ok new m' L"
proof -
  have p: "pool_ok new (m_pool m) (of_kind PoolAlloc L)" and c: "cpu_ok new (m_heap m) (of_kind CpuAlloc L)"
    using ok by (auto simp: mem_ok_def)
  have new: "new_ok new" using p by (simp add: pool_ok_def)
  note shared = new_ok_shared [OF new]
  show ?thesis
  proof (cases k)
    case PoolAlloc
    let ?new = "\<lambda>cs. new (cs @ m_heap m)"
    obtain q where q: "pool_allocate ?new b (m_pool m) = (Inl e, q)" and m': "m' = m\<lparr>m_pool := q\<rparr>"
      using a PoolAlloc by (auto split: prod.splits)
    have e: "e = BadAlloc" "pool_ok ?new q (of_kind PoolAlloc L)"
      using pool_allocate_fail [OF pool_ok_new_heap [OF p] b q] shared by blast+
    moreover have "chunks q = chunks (m_pool m)"
      using q by (auto simp: pool_allocate_def Let_def split: if_splits option.splits list.splits)
    ultimately show ?thesis using ok new pool_ok_new_heap by (auto simp: mem_ok_def m')
  next
    case CpuAlloc
    have "cpu_usable b" using b by (simp add: cpu_usable_def pool_usable_def)
    then show ?thesis
      using a CpuAlloc ok by (auto simp: cpu_allocate_def Let_def split: prod.splits if_splits option.splits)
  qed
qed

lemma mem_dealloc_live:
  assumes ok: "mem_ok new m L" and x: "(k, a, b) \<in> set L"
  shows "\<exists>m'. mem_dealloc k a b m = (Inr (), m') \<and> mem_ok new m' (remove1 (k, a, b) L)"
proof (cases k)
  case PoolAlloc
  have "pool_ok new (m_pool m) (of_kind PoolAlloc L)" "(a, b) \<in> set (of_kind PoolAlloc L)"
    using ok x PoolAlloc by (simp_all add: mem_ok_def of_kind_mem)
  from pool_deallocate_live [OF this] obtain q where q: "pool_deallocate a b (m_pool m) = (Inr (), q)"
      "pool_ok new q (remove1 (a, b) (of_kind PoolAlloc L))"
    by auto
  then show ?thesis
    using ok pool_deallocate_chunks [OF q(1)] PoolAlloc by (auto simp: mem_ok_def of_kind_remove1)
next
  case CpuAlloc
  have "cpu_ok new (m_heap m) (of_kind CpuAlloc L)" "(a, b) \<in> set (of_kind CpuAlloc L)"
    using ok x CpuAlloc by (simp_all add: mem_ok_def of_kind_mem)
  from cpu_deallocate_live [OF this] obtain q where q: "cpu_deallocate a b (m_heap m) = (Inr (), q)"
      "cpu_ok new q (remove1 (a, b) (of_kind CpuAlloc L))"
    by auto
  moreover have "h \<in> set (m_heap m)" if "h \<in> set q" for h
  proof -
    have "q = m_heap m \<or> q = remove1 (a, unat (round_up b)) (m_heap m)"
      using q(1) by (auto simp: cpu_deallocate_def split: if_splits)
    with that show ?thesis using set_remove1_subset [THEN subsetD, of h _ "m_heap m"] by metis
  qed
  ultimately show ?thesis
    using ok CpuAlloc by (auto simp: mem_ok_def of_kind_remove1)
qed

lemma pool_live_chunk:
  assumes "pool_ok new p L" "x \<in> set L"
  shows "snd x \<noteq> 0 \<and> 0 < fst x \<and> 64 dvd fst x \<and>
    (\<exists>k\<in>set (chunks p). fst k \<le> fst x \<and> fst x + unat (snd x) \<le> fst k + snd k)"
proof -
  obtain bs where inv: "pool_inv p L bs" using assms(1) by (auto simp: pool_ok_def)
  obtain c where c: "unat (snd x) \<le> unat c" "live_block x = (fst x, c)" using pool_live_class [OF inv assms(2)] .
  have "carved_ok p (fst x, c)" using pool_live_in [OF inv assms(2)] inv c(2) by (simp add: pool_inv_def list_all_iff)
  then have "0 < fst x" "64 dvd fst x" "\<exists>k\<in>set (chunks p). fst k \<le> fst x \<and> fst x + unat c \<le> fst k + snd k"
    by (simp_all add: carved_ok_def)
  moreover have "snd x \<noteq> 0" using inv assms(2) by (simp add: pool_inv_def list_all_iff)
  ultimately show ?thesis using c(1) by force
qed

lemma cpu_live_block:
  assumes "cpu_ok new bs L" "x \<in> set L"
  shows "snd x \<noteq> 0 \<and> 0 < fst x \<and> 64 dvd fst x \<and> (\<exists>h\<in>set bs. fst h = fst x \<and> unat (snd x) \<le> snd h)"
proof -
  have "rounded x \<in> set bs" "chunk_ok (rounded x)" "snd x \<noteq> 0" "cpu_usable (snd x)"
    using assms by (auto simp: cpu_ok_def list_all_iff)
  then show ?thesis using round_up_ge [of "snd x"] by (auto simp: rounded_def chunk_ok_def intro!: bexI [of _ "rounded x"])
qed

lemma sorted_wrt_split:
  assumes "sorted_wrt R (filter P xs)" "sorted_wrt R (filter (\<lambda>x. \<not> P x) xs)"
    and "\<And>x y. x \<in> set xs \<Longrightarrow> y \<in> set xs \<Longrightarrow> P x \<Longrightarrow> \<not> P y \<Longrightarrow> R x y \<and> R y x"
  shows "sorted_wrt R xs"
  using assms by (induction xs) (auto split: if_splits)

lemma mem_live_sep:
  assumes ok: "mem_ok new m L"
  shows "sorted_wrt (\<lambda>x y. sep_block (asked (snd x)) (asked (snd y))) L"
proof (rule sorted_wrt_split [where P = "\<lambda>x. fst x = PoolAlloc"])
  have p: "pool_ok new (m_pool m) (of_kind PoolAlloc L)" and c: "cpu_ok new (m_heap m) (of_kind CpuAlloc L)"
    and sep: "\<And>c h. c \<in> set (chunks (m_pool m)) \<Longrightarrow> h \<in> set (m_heap m) \<Longrightarrow> sep_block c h"
    using ok by (auto simp: mem_ok_def)
  show "sorted_wrt (\<lambda>x y. sep_block (asked (snd x)) (asked (snd y))) (filter (\<lambda>x. fst x = PoolAlloc) L)"
    using pool.live_sep [OF p] by (simp add: of_kind_def sorted_wrt_map)
  have k: "fst x \<noteq> PoolAlloc \<longleftrightarrow> fst x = CpuAlloc" for x :: "alloc_kind \<times> nat \<times> u64"
    by (cases "fst x") simp_all
  show "sorted_wrt (\<lambda>x y. sep_block (asked (snd x)) (asked (snd y))) (filter (\<lambda>x. fst x \<noteq> PoolAlloc) L)"
    using cpu.live_sep [OF c] unfolding k by (simp add: of_kind_def sorted_wrt_map)
  fix x y assume x: "x \<in> set L" "fst x = PoolAlloc" and y: "y \<in> set L" "fst y \<noteq> PoolAlloc"
  have "snd x \<in> set (of_kind PoolAlloc L)" "snd y \<in> set (of_kind CpuAlloc L)"
    using x y k by (auto simp: of_kind_def)
  from pool_live_chunk [OF p this(1)] cpu_live_block [OF c this(2)] obtain b h where
    b: "b \<in> set (chunks (m_pool m))" "fst b \<le> fst (snd x)" "fst (snd x) + unat (snd (snd x)) \<le> fst b + snd b" and
    h: "h \<in> set (m_heap m)" "fst h = fst (snd y)" "unat (snd (snd y)) \<le> snd h" by blast
  have "sep_block (asked (snd x)) (asked (snd y))"
    using sep [OF b(1) h(1)] b(2,3) h(2,3) by (auto simp: sep_block_def asked_def)
  moreover from this have "sep_block (asked (snd y)) (asked (snd x))" by (rule sep_block_sym [THEN iffD1])
  ultimately show "sep_block (asked (snd x)) (asked (snd y)) \<and> sep_block (asked (snd y)) (asked (snd x))" ..
qed

lemma mem_live_pos:
  assumes "mem_ok new m L" "(k, a, b) \<in> set L"
  shows "0 < a \<and> 64 dvd a \<and> b \<noteq> 0"
proof (cases k)
  case PoolAlloc
  then have "pool_ok new (m_pool m) (of_kind PoolAlloc L)" "(a, b) \<in> set (of_kind PoolAlloc L)"
    using assms by (simp_all add: mem_ok_def of_kind_mem)
  from pool_live_chunk [OF this] show ?thesis by simp
next
  case CpuAlloc
  then have "cpu_ok new (m_heap m) (of_kind CpuAlloc L)" "(a, b) \<in> set (of_kind CpuAlloc L)"
    using assms by (simp_all add: mem_ok_def of_kind_mem)
  from cpu_live_block [OF this] show ?thesis by simp
qed

interpretation mem: tensor_allocator "mem_alloc new" mem_dealloc "mem_ok new" for new
  by unfold_locales (fact mem_alloc_some mem_alloc_fail mem_dealloc_live mem_live_pos mem_live_sep)+

lemma program_good: "new_ok new \<Longrightarrow> good (mem_ok new) (program_new z n) []"
  using pool_ok_new [of new n]
  by (simp add: good_def program_new_def memory_new_def mem_ok_def of_kind_def cpu_ok_def owns_new)

lemma program_tensors: "tensors (program_new z n) = Map.empty" "all_sound (program_new z n)"
  by (simp_all add: tensors_def program_new_def all_sound_def fun_eq_iff)

section \<open>Values are well-formed\<close>

definition all_wf :: "(nat \<rightharpoonup> 'a tensor) \<Rightarrow> bool" where
  "all_wf vs = (\<forall>v t. vs v = Some t \<longrightarrow> wf_tensor t)"

lemma all_wf_upd: "all_wf vs \<Longrightarrow> (\<And>t. r = Some t \<Longrightarrow> wf_tensor t) \<Longrightarrow> all_wf (vs(v := r))"
  by (auto simp: all_wf_def)

lemma tensor_put_wf: "wf_tensor t \<Longrightarrow> tensor_put t i x = Inr u \<Longrightarrow> wf_tensor u"
  by (auto simp: tensor_put_def wf_tensor_def split: if_splits)

lemma move_wf: "wf_tensor t \<Longrightarrow> wf_tensor (fst (tensor_move t)) \<and> wf_tensor (snd (tensor_move t))"
  using tensor_move_wf by (simp add: tensor_move_def)

lemma assign_eq_copy: "tensor_assign t x = tensor_copy x"
  by (simp add: tensor_assign_def tensor_copy_def)

lemma value_errors:
  "unat (computeSize shp) * 4 \<le> 2 ^ 63 \<Longrightarrow> tensor_zeros z shp k = Inl e \<Longrightarrow> catchable e"
  "unat (computeSize shp) * 4 \<le> 2 ^ 63 \<Longrightarrow> tensor_of shp xs k = Inl e \<Longrightarrow> catchable e"
  "reshape t shp = Inl e \<Longrightarrow> catchable e"
  "tensor_put t i x = Inl e \<Longrightarrow> catchable e"
  by (auto simp: tensor_zeros_def tensor_of_def Let_def alloc_fill_def reshape_def tensor_put_def bytes_fit split: if_splits)

lemma val_step_wf:
  assumes wf: "all_wf vs" and ok: "op_ok p" and s: "val_step z p vs = (e, vs')"
  shows "(case e of None \<Rightarrow> True | Some x \<Rightarrow> catchable x) \<and> all_wf vs'"
proof -
  have w: "vs v = Some t \<Longrightarrow> wf_tensor t" for v t using wf by (simp add: all_wf_def)
  show ?thesis
    using ok s wf
    by (cases p)
      (auto simp: with_new_def with_var_def set_var_def assign_eq_copy tensor_copy_ok w move_wf value_errors tensor_default_wf
        dest: tensor_zeros_wf tensor_of_wf tensor_put_wf [OF w] reshape_wf [OF w]
        split: option.splits sum.splits if_splits intro!: all_wf_upd)
qed

lemma val_run_wf:
  "all_wf vs \<Longrightarrow> list_all op_ok ps \<Longrightarrow> run_ops (val_step z) ps vs = (es, vs') \<Longrightarrow>
    (\<forall>e\<in>set es. case e of None \<Rightarrow> True | Some x \<Rightarrow> catchable x) \<and> all_wf vs' \<and> length es = length ps"
proof (induction ps arbitrary: vs es)
  case (Cons p ps)
  obtain e vs1 where 1: "val_step z p vs = (e, vs1)" by fastforce
  have c: "case e of None \<Rightarrow> True | Some x \<Rightarrow> catchable x" "all_wf vs1"
    using val_step_wf [OF Cons.prems(1) _ 1] Cons.prems(2) by simp_all
  then obtain es' where "run_ops (val_step z) ps vs1 = (es', vs')" "es = e # es'"
    using Cons.prems(3) 1 by (auto split: prod.splits)
  with Cons.IH [OF c(2) _ this(1)] Cons.prems(2) c(1) show ?case by simp
qed simp

text \<open>Rules that run a small program over the plain allocator.\<close>

lemmas run_small = with_new_def with_var_def obj_of_def obj_copy_def obj_put_def obj_move_def obj_destroy_def Let_def
  computeSize_def construct_def allocateBuffer_def releaseBuffer_def cpu_allocate_def cpu_deallocate_def round_up_def
  kAlignment_def bump_new_def fill_buffer_def elements_def buffer_fits_def moved_from_def program_new_def memory_new_def
  pool_new_def

section \<open>Properties\<close>

text \<open>C14. Tensor objects are values: a program of constructions, copies, moves, assignments, reshapes,
  element writes and destructions over raw buffers of two allocators, every shape constructed in
  it of at most \<open>2 ^ 63\<close> bytes (\<open>op_ok\<close>: the source computes the byte count modulo \<open>2 ^ 64\<close> and does not check
  it, and a wrapped count makes a buffer that is too small), during which no memory ran out, has
  at every operation the outcome the same operations have on tensor values, every object then stands for the value of its variable (nothing is shared), and nothing undefined
  was executed.\<close>

theorem tensors_are_values:
  assumes "new_ok new" "list_all op_ok ps"
    and "run_ops (obj_step (mem_alloc new) mem_dealloc z) ps (program_new z n) = (es, st)"
    and "Some BadAlloc \<notin> set es"
  shows "run_ops (val_step z) ps Map.empty = (es, tensors st) \<and>
    (\<forall>e\<in>set es. case e of None \<Rightarrow> True | Some x \<Rightarrow> catchable x) \<and> length es = length ps \<and>
    (\<forall>v t. tensors st v = Some t \<longrightarrow> wf_tensor t)"
proof -
  have r: "run_ops (val_step z) ps Map.empty = (es, tensors st)"
    using mem.run_ok [OF program_good [OF assms(1)] assms(2,3)] assms(4) by (simp add: program_tensors)
  have "all_wf Map.empty" by (simp add: all_wf_def)
  from val_run_wf [OF this assms(2) r] have w: "\<forall>e\<in>set es. case e of None \<Rightarrow> True | Some x \<Rightarrow> catchable x"
    "all_wf (tensors st)" "length es = length ps" by simp_all
  from w(2) have "\<forall>v t. tensors st v = Some t \<longrightarrow> wf_tensor t" unfolding all_wf_def .
  with r w(1,3) show ?thesis by blast
qed

theorem tensors_are_values_witness:
  "\<exists>es st. run_ops (obj_step (mem_alloc bump_new) mem_dealloc (0 :: nat))
      [TOf 0 [2] [7, 8] CpuAlloc, TCopy 1 0, TPut 0 1 9, TDestroy 0] (program_new 0 256) = (es, st) \<and>
    tensors st 0 = None \<and> map_option t_data (tensors st 1) = Some [7, 8]"
proof -
  let ?ps = "[TOf 0 [2] [7, 8] CpuAlloc, TCopy 1 0, TPut 0 1 9, TDestroy 0]"
  obtain es st where r: "run_ops (obj_step (mem_alloc bump_new) mem_dealloc (0 :: nat)) ?ps (program_new 0 256) = (es, st)"
    by fastforce
  have "fst (run_ops (obj_step (mem_alloc bump_new) mem_dealloc (0 :: nat)) ?ps (program_new 0 256)) = [None, None, None, None]"
    by (simp add: run_small word_le_nat_alt)
  then have es: "es = [None, None, None, None]" using r by simp
  have ok: "list_all op_ok ?ps" by (simp add: computeSize_def)
  have "run_ops (val_step 0) ?ps Map.empty = (es, tensors st)"
    using tensors_are_values [OF bump_new_ok ok r] es by simp
  moreover have "map_option t_data (snd (run_ops (val_step 0) ?ps Map.empty) 1) = Some [7, 8 :: nat]"
    "snd (run_ops (val_step (0 :: nat)) ?ps Map.empty) 0 = None"
    by (simp_all add: with_new_def with_var_def set_var_def tensor_of_def computeSize_def alloc_fill_def buffer_fits_def
        tensor_copy_def tensor_put_def)
  ultimately show ?thesis using r by auto
qed

text \<open>C24. Tensors own their buffers: after any program without undefined behaviour whose shapes are of at
  most \<open>2 ^ 63\<close> bytes (\<open>op_ok\<close>), also one that caught \<^verbatim>\<open>std::bad_alloc\<close>, the buffers of different objects are aligned and disjoint whichever allocators
  they come from; and when every object has been destroyed nothing is left: the plain allocator
  has nothing outstanding, the pool counts no live byte, and its destructor deletes every chunk
  it took from the global heap exactly once.\<close>

theorem tensors_own_buffers:
  assumes "new_ok new" "list_all op_ok ps"
    and "run_ops (obj_step (mem_alloc new) mem_dealloc z) ps (program_new z n) = (es, st)"
    and "\<forall>w. Some (Undefined w) \<notin> set es"
  shows "(\<forall>v x. objs st v = Some x \<longrightarrow> o_data x \<noteq> 0 \<longrightarrow> 64 dvd o_data x) \<and>
    (\<forall>v w x y. objs st v = Some x \<longrightarrow> objs st w = Some y \<longrightarrow> v \<noteq> w \<longrightarrow> o_data x \<noteq> 0 \<longrightarrow> o_data y \<noteq> 0 \<longrightarrow>
      sep_block (o_data x, 4 * unat (o_size x)) (o_data y, 4 * unat (o_size y))) \<and>
    (objs st = Map.empty \<longrightarrow> m_heap (tmem st) = [] \<and> liveBytes (stats (m_pool (tmem st))) = 0 \<and>
      pool_destroy (m_pool (tmem st)) (chunks (m_pool (tmem st)) @ m_heap (tmem st)) = Inr [])"
proof -
  have run: "Some OutOfFuel \<notin> set es"
    "(\<forall>e\<in>set es. case e of None \<Rightarrow> True | Some x \<Rightarrow> catchable x) \<longrightarrow> (\<exists>L. good (mem_ok new) st L)"
    using mem.run_ok [OF program_good [OF assms(1)] assms(2,3)] by blast+
  have "catchable x" if "Some x \<in> set es" for x
    using run(1) assms(4) that by (cases x) auto
  then have "\<forall>e\<in>set es. case e of None \<Rightarrow> True | Some x \<Rightarrow> catchable x"
    by (auto split: option.splits)
  with run(2) obtain L where g: "good (mem_ok new) st L" by blast
  have "m_heap (tmem st) = [] \<and> liveBytes (stats (m_pool (tmem st))) = 0 \<and>
      pool_destroy (m_pool (tmem st)) (chunks (m_pool (tmem st)) @ m_heap (tmem st)) = Inr []" if e: "objs st = Map.empty"
  proof -
    have "L = []" using g e by (simp add: good_def owns_def comp_def)
    then have p: "pool_ok new (m_pool (tmem st)) []" and c: "m_heap (tmem st) = []"
      using g by (simp_all add: good_def mem_ok_def of_kind_def cpu_ok_def)
    obtain bs where "pool_inv (m_pool (tmem st)) [] bs" using p by (auto simp: pool_ok_def)
    then have "pool_destroy (m_pool (tmem st)) (chunks (m_pool (tmem st)) @ []) = Inr []"
      by (rule pool_destroy_chunks) simp_all
    moreover have "liveBytes (stats (m_pool (tmem st))) = 0"
      using p by (simp add: pool_ok_def stats_ok_def live_total_def unat_eq_0)
    ultimately show ?thesis using c by simp
  qed
  then show ?thesis using mem.good_buffers [OF g] by blast
qed

theorem tensors_own_buffers_witness:
  "\<exists>es st. run_ops (obj_step (mem_alloc bump_new) mem_dealloc (0 :: nat))
      [TOf 0 [2] [7, 8] CpuAlloc, TMove 1 0, TDestroy 0, TDestroy 1] (program_new 0 256) = (es, st) \<and>
    m_heap (tmem st) = [] \<and> liveBytes (stats (m_pool (tmem st))) = 0"
proof -
  let ?ps = "[TOf 0 [2] [7, 8] CpuAlloc, TMove 1 0, TDestroy 0, TDestroy 1]"
  let ?run = "run_ops (obj_step (mem_alloc bump_new) mem_dealloc (0 :: nat)) ?ps (program_new 0 256)"
  obtain es st where r: "?run = (es, st)" by fastforce
  have "fst ?run = [None, None, None, None]" by (simp add: run_small word_le_nat_alt)
  then have es: "es = [None, None, None, None]" using r by simp
  have ok: "list_all op_ok ?ps" by (simp add: computeSize_def)
  have "tensors st = snd (run_ops (val_step 0) ?ps Map.empty)"
    using mem.run_ok [OF program_good [OF bump_new_ok] ok r] es by (simp only: program_tensors) simp
  also have "\<dots> = Map.empty"
    by (simp add: with_new_def with_var_def set_var_def tensor_of_def computeSize_def alloc_fill_def buffer_fits_def
        tensor_move_def fun_eq_iff)
  finally have "objs st = Map.empty" by (auto simp: tensors_def fun_eq_iff)
  with tensors_own_buffers [OF bump_new_ok ok r] es r show ?thesis by auto
qed

text \<open>A copy assignment that runs out of memory leaves its target with the size of the source and a
  null buffer: the next read of it is undefined behaviour.\<close>

lemma assign_failure_breaks_target:
  assumes "objs st v = Some t" "objs st w = Some x" "v \<noteq> w" "o_data t = 0" "o_size x \<noteq> 0"
    and "alloc (o_alloc x) (o_size x * 4) (tmem st) = (Inl BadAlloc, s)" "elements x (cells st) = Inr ys"
  shows "\<exists>st'. obj_step alloc dealloc z (TAssign v w) st = (Some BadAlloc, st') \<and>
    (\<exists>y u. objs st' v = Some y \<and> o_size y = o_size x \<and> elements y (cells st') = Inl (Undefined u))"
  using assms by (simp add: with_var_def obj_assign_def releaseBuffer_def Let_def construct_def allocateBuffer_def elements_def)

end
