(* ===== verification/Thread_Pool.thy ===== *)
theory Thread_Pool
  imports Prelude
begin

text \<open>
  core/thread_pool.h and core/thread_pool.cpp. The split of \<^verbatim>\<open>parallelFor\<close> is a function of the
  counts. Running tasks is a step relation: every critical section, every notification and every
  task body is one step, and the scheduler may pick any enabled one. A thread that waits on a
  condition variable sleeps until it is notified, so a notification that were missing would leave
  it asleep. A task of the caller may call \<^verbatim>\<open>runAll\<close> again, as \<^verbatim>\<open>parallelFor\<close> does inside an operator
  of a level; then several groups share the queue.
\<close>

section \<open>Splitting a range\<close>

text \<open>The loop over the shards, with its \<^verbatim>\<open>break\<close>; sizes are 64-bit.\<close>

function shard_ranges :: "nat \<Rightarrow> nat \<Rightarrow> nat \<Rightarrow> nat \<Rightarrow> (nat \<times> nat) list" where
  "shard_ranges cnt chunk shards s =
     (if s < shards
      then let beg = s * chunk mod 2 ^ 64
           in if cnt \<le> beg then []
              else let en = (beg + chunk) mod 2 ^ 64
                   in (beg, if cnt < en then cnt else en) # shard_ranges cnt chunk shards (s + 1)
      else [])"
  by pat_completeness auto
termination
  by (relation "measure (\<lambda>(cnt, chunk, shards, s). shards - s)") auto

declare shard_ranges.simps [simp del]

definition parallelFor_shards :: "nat \<Rightarrow> bool \<Rightarrow> nat \<Rightarrow> nat \<Rightarrow> (nat \<times> nat) list" where
  "parallelFor_shards workers insidePool minChunk cnt =
     (if cnt = 0 then []
      else let minChunk = (if minChunk = 0 then 1 else minChunk);
               maxShards = (cnt + minChunk - 1) mod 2 ^ 64 div minChunk;
               shards = (if maxShards < workers + 1 then maxShards else workers + 1)
           in if shards \<le> 1 \<or> workers = 0 \<or> insidePool then [(0, cnt)]
              else shard_ranges cnt ((cnt + shards - 1) mod 2 ^ 64 div shards) shards 0)"

section \<open>Tasks\<close>

text \<open>A task is a list of parts: code that acts on a store shared by all and may throw, and calls of
  \<^verbatim>\<open>runAll\<close> with further tasks. What code returns beside the store is the exception it throws; code
  that does something undefined is not a task here.\<close>

datatype 's part = Do "'s \<Rightarrow> exn option \<times> 's" | Par "'s part list list"

type_synonym 's task = "'s part list"

text \<open>Inline: no workers, one task, or a call from a worker. The first exception ends the loop.\<close>

fun run_part :: "'s part \<Rightarrow> 's \<Rightarrow> exn option \<times> 's"
  and run_task :: "'s task \<Rightarrow> 's \<Rightarrow> exn option \<times> 's"
  and run_tasks :: "'s task list \<Rightarrow> 's \<Rightarrow> exn option \<times> 's" where
  "run_part (Do f) s = f s"
| "run_part (Par ts) s = run_tasks ts s"
| "run_task [] s = (None, s)"
| "run_task (p # ps) s = (case run_part p s of (None, s) \<Rightarrow> run_task ps s | (Some e, s) \<Rightarrow> (Some e, s))"
| "run_tasks [] s = (None, s)"
| "run_tasks (t # ts) s = (case run_task t s of (None, s) \<Rightarrow> run_tasks ts s | (Some e, s) \<Rightarrow> (Some e, s))"

section \<open>State\<close>

text \<open>A job is task \<open>i > 0\<close> of group \<open>g\<close>, as \<open>(g, i)\<close>. Where a worker is in \<^verbatim>\<open>workerLoop\<close> and the wrapped task:
  about to lock the queue, asleep on \<^verbatim>\<open>condition_\<close>, running a job, about to record its exception,
  about to count it as done, or gone.\<close>

datatype worker = Idle | Asleep | Exec nat nat | Caught nat nat exn | Dec nat nat | Exited

text \<open>A call of \<^verbatim>\<open>runAll\<close> that opened group \<open>g\<close>: the jobs are queued and \<^verbatim>\<open>condition_.notify_all\<close> comes next; in
  \<^verbatim>\<open>tasks[0]\<close>, with the parts left of it; about to lock the group, with the exception of \<^verbatim>\<open>tasks[0]\<close>; asleep on
  \<^verbatim>\<open>group.done\<close>. The caller has a stack of these calls.\<close>

datatype 's frame = Notify nat "'s task" | Own nat "'s task" | Check nat "exn option" | Blocked nat "exn option"

text \<open>The destructor: not called, \<^verbatim>\<open>stopping_\<close> set, workers notified.\<close>

datatype stage = Up | Stopped | Joining

text \<open>What happened, in order; not part of the program. A job ran, the caller ran a piece of code, the
  own task of a group ended, an exception of a job was kept or dropped, a call returned.\<close>

datatype 's event =
    Ran nat nat "exn option"
  | Did "'s \<Rightarrow> exn option \<times> 's"
  | OwnEnd nat "exn option"
  | Recorded nat nat exn
  | Returned nat "exn option"

record 's pool_state =
  queue :: "(nat \<times> nat) list"
  wks :: "worker list"
  groups :: "'s task list list"
  todo :: "nat \<Rightarrow> nat"
  gerror :: "nat \<Rightarrow> exn option"
  stack :: "'s frame list"
  stage :: stage
  store :: 's
  hist :: "'s event list"

section \<open>Operations\<close>

text \<open>The constructor starts the workers.\<close>

definition pool_threads :: "nat \<Rightarrow> worker list" where
  [simp]: "pool_threads n = replicate n Idle"

text \<open>\<open>detected\<close> is what \<^verbatim>\<open>hardware_concurrency\<close> reports; 0 means unknown.\<close>

definition hardwareThreads :: "nat \<Rightarrow> nat" where
  "hardwareThreads detected = (if detected = 0 then 1 else detected)"

text \<open>The thread that owns the pool, about to run \<open>main\<close>. Group 0 stands for this code; it has no jobs.\<close>

definition pool_start :: "nat \<Rightarrow> 's task \<Rightarrow> 's \<Rightarrow> 's pool_state" where
  "pool_start workers main s =
     \<lparr>queue = [], wks = pool_threads workers, groups = [[main]], todo = (\<lambda>_. 0), gerror = (\<lambda>_. None),
      stack = [Own 0 main], stage = Up, store = s, hist = []\<rparr>"

text \<open>\<^verbatim>\<open>condition_.notify_all\<close>.\<close>

definition wake_all :: "worker list \<Rightarrow> worker list" where
  "wake_all = map (\<lambda>w. if w = Asleep then Idle else w)"

text \<open>\<^verbatim>\<open>group.done.notify_all\<close>: only the call that opened the group waits on it.\<close>

definition wake_caller :: "nat \<Rightarrow> 's frame list \<Rightarrow> 's frame list" where
  "wake_caller g fs = (case fs of Blocked h e # fs' \<Rightarrow> if h = g then Check h e # fs' else fs | _ \<Rightarrow> fs)"

text \<open>\<^verbatim>\<open>runAll\<close> up to the notification: a fresh group, all tasks but the first in the queue.\<close>

definition open_group :: "'s task list \<Rightarrow> 's frame list \<Rightarrow> 's pool_state \<Rightarrow> 's pool_state" where
  "open_group ts fs r =
     (let g = length (groups r)
      in r\<lparr>queue := queue r @ map (Pair g) [1..<length ts], groups := groups r @ [ts], todo := (todo r)(g := length ts - 1),
           stack := Notify g (hd ts) # fs\<rparr>)"

text \<open>What \<^verbatim>\<open>runAll\<close> rethrows, and what an exception does to the task that called it.\<close>

definition first_error :: "exn option \<Rightarrow> exn option \<Rightarrow> exn option" where
  "first_error callerError groupError = (case callerError of Some e \<Rightarrow> Some e | None \<Rightarrow> groupError)"

fun unwind :: "exn option \<Rightarrow> 's frame list \<Rightarrow> 's frame list" where
  "unwind (Some e) (Own h ps # fs) = Check h (Some e) # fs"
| "unwind _ fs = fs"

fun unwound :: "exn option \<Rightarrow> 's frame list \<Rightarrow> 's event list" where
  "unwound (Some e) (Own h ps # fs) = [OwnEnd h (Some e)]"
| "unwound _ fs = []"

definition pool_joined :: "'s pool_state \<Rightarrow> bool" where
  "pool_joined r = (stage r = Joining \<and> (\<forall>w\<in>set (wks r). w = Exited))"

section \<open>Steps\<close>

text \<open>A worker: \<^verbatim>\<open>workerLoop\<close> and the lambda around a task.\<close>

inductive worker_move :: "nat \<Rightarrow> 's pool_state \<Rightarrow> 's pool_state \<Rightarrow> bool" for i r where
  take: "wks r ! i = Idle \<Longrightarrow> queue r = (g, t) # q \<Longrightarrow> worker_move i r (r\<lparr>queue := q, wks := (wks r)[i := Exec g t]\<rparr>)"
| sleep: "wks r ! i = Idle \<Longrightarrow> queue r = [] \<Longrightarrow> stage r = Up \<Longrightarrow> worker_move i r (r\<lparr>wks := (wks r)[i := Asleep]\<rparr>)"
| leave: "wks r ! i = Idle \<Longrightarrow> queue r = [] \<Longrightarrow> stage r \<noteq> Up \<Longrightarrow> worker_move i r (r\<lparr>wks := (wks r)[i := Exited]\<rparr>)"
| exec: "wks r ! i = Exec g t \<Longrightarrow> run_task (groups r ! g ! t) (store r) = (e, s) \<Longrightarrow>
    worker_move i r (r\<lparr>wks := (wks r)[i := (case e of None \<Rightarrow> Dec g t | Some x \<Rightarrow> Caught g t x)], store := s, hist := hist r @ [Ran g t e]\<rparr>)"
| record_error: "wks r ! i = Caught g t x \<Longrightarrow>
    worker_move i r (r\<lparr>wks := (wks r)[i := Dec g t], gerror := (if gerror r g = None then (gerror r)(g := Some x) else gerror r),
      hist := hist r @ [Recorded g t x]\<rparr>)"
| finish_task: "wks r ! i = Dec g t \<Longrightarrow>
    worker_move i r (r\<lparr>wks := (wks r)[i := Idle], todo := (todo r)(g := todo r g - 1),
      stack := (if todo r g - 1 = 0 then wake_caller g (stack r) else stack r)\<rparr>)"

text \<open>The caller: code, \<^verbatim>\<open>runAll\<close>, and the destructor when its code has ended.\<close>

inductive caller_move :: "'s pool_state \<Rightarrow> 's pool_state \<Rightarrow> bool" for r where
  do_ok: "stack r = Own g (Do f # ps) # fs \<Longrightarrow> f (store r) = (None, s) \<Longrightarrow>
    caller_move r (r\<lparr>stack := Own g ps # fs, store := s, hist := hist r @ [Did f]\<rparr>)"
| do_throw: "stack r = Own g (Do f # ps) # fs \<Longrightarrow> f (store r) = (Some x, s) \<Longrightarrow>
    caller_move r (r\<lparr>stack := Check g (Some x) # fs, store := s, hist := hist r @ [Did f, OwnEnd g (Some x)]\<rparr>)"
| inline: "stack r = Own g (Par ts # ps) # fs \<Longrightarrow> length ts \<le> 1 \<or> wks r = [] \<Longrightarrow>
    caller_move r (r\<lparr>stack := Own g (concat ts @ ps) # fs\<rparr>)"
| spawn: "stack r = Own g (Par ts # ps) # fs \<Longrightarrow> 1 < length ts \<Longrightarrow> wks r \<noteq> [] \<Longrightarrow>
    caller_move r (open_group ts (Own g ps # fs) r)"
| notify: "stack r = Notify g ps # fs \<Longrightarrow> caller_move r (r\<lparr>stack := Own g ps # fs, wks := wake_all (wks r)\<rparr>)"
| own_end: "stack r = Own g [] # fs \<Longrightarrow> caller_move r (r\<lparr>stack := Check g None # fs, hist := hist r @ [OwnEnd g None]\<rparr>)"
| block: "stack r = Check g e # fs \<Longrightarrow> todo r g \<noteq> 0 \<Longrightarrow> caller_move r (r\<lparr>stack := Blocked g e # fs\<rparr>)"
| return: "stack r = Check g e # fs \<Longrightarrow> todo r g = 0 \<Longrightarrow> x = first_error e (gerror r g) \<Longrightarrow>
    caller_move r (r\<lparr>stack := unwind x fs, hist := hist r @ Returned g x # unwound x fs\<rparr>)"
| stop: "stack r = [] \<Longrightarrow> stage r = Up \<Longrightarrow> caller_move r (r\<lparr>stage := Stopped\<rparr>)"
| notify_stop: "stage r = Stopped \<Longrightarrow> caller_move r (r\<lparr>stage := Joining, wks := wake_all (wks r)\<rparr>)"

definition pool_step :: "'s pool_state \<Rightarrow> 's pool_state \<Rightarrow> bool" where
  "pool_step r r' = (caller_move r r' \<or> (\<exists>i<length (wks r). worker_move i r r'))"

abbreviation pool_steps :: "'s pool_state \<Rightarrow> 's pool_state \<Rightarrow> bool" where
  "pool_steps \<equiv> pool_step\<^sup>*\<^sup>*"

text \<open>An inline call runs the tasks one after the other and an exception ends the caller's task as well,
  so the parts of the tasks take the place of the call.\<close>

lemma run_task_append: "run_task (ps @ qs) s = (case run_task ps s of (None, s) \<Rightarrow> run_task qs s | (Some e, s) \<Rightarrow> (Some e, s))"
  by (induction ps arbitrary: s) (auto split: prod.split option.split)

lemma run_task_inline: "run_task (Par ts # ps) s = run_task (concat ts @ ps) s"
proof -
  have "run_tasks ts s = run_task (concat ts) s" for s
    by (induction ts arbitrary: s) (auto simp: run_task_append split: prod.split option.split)
  then show ?thesis by (simp add: run_task_append)
qed

section \<open>The split is a partition\<close>

lemma shard_ranges_partition:
  assumes "0 < chunk" "chunk \<le> cnt" "2 * cnt < 2 ^ 64" "cnt \<le> shards * chunk" "s * chunk < cnt + chunk"
  shows "concat (map (\<lambda>r. [fst r..<snd r]) (shard_ranges cnt chunk shards s)) = [s * chunk..<cnt]
    \<and> (\<forall>r\<in>set (shard_ranges cnt chunk shards s). fst r < snd r \<and> snd r \<le> cnt)
    \<and> length (shard_ranges cnt chunk shards s) \<le> shards - s"
  using assms
proof (induction cnt chunk shards s rule: shard_ranges.induct)
  case (1 cnt chunk shards s)
  have lt: "s * chunk + chunk < 2 ^ 64 \<or> cnt \<le> s * chunk" using "1.prems"(2,3) by linarith
  have m: "s * chunk mod 2 ^ 64 = s * chunk" using "1.prems"(2,3,5) by (intro mod_less) linarith
  show ?case
  proof (cases "s < shards \<and> s * chunk < cnt")
    case False
    have "cnt \<le> s * chunk"
    proof (cases "s < shards")
      case True
      with False show ?thesis by simp
    next
      case False
      then have "shards * chunk \<le> s * chunk" by simp
      with "1.prems"(4) show ?thesis by linarith
    qed
    moreover from this have "shard_ranges cnt chunk shards s = []"
      by (subst shard_ranges.simps) (simp only: m Let_def, simp)
    ultimately show ?thesis by simp
  next
    case True
    then have e: "(s * chunk + chunk) mod 2 ^ 64 = s * chunk + chunk" using lt by (intro mod_less) linarith
    define en where "en = (if cnt < s * chunk + chunk then cnt else s * chunk + chunk)"
    have eq: "shard_ranges cnt chunk shards s = (s * chunk, en) # shard_ranges cnt chunk shards (s + 1)"
      using True by (subst shard_ranges.simps) (simp only: m e Let_def en_def not_le [symmetric] if_True if_False simp_thms)
    have next_beg: "(s + 1) * chunk = s * chunk + chunk" by simp
    have IH: "concat (map (\<lambda>r. [fst r..<snd r]) (shard_ranges cnt chunk shards (s + 1))) = [s * chunk + chunk..<cnt]
      \<and> (\<forall>r\<in>set (shard_ranges cnt chunk shards (s + 1)). fst r < snd r \<and> snd r \<le> cnt)
      \<and> length (shard_ranges cnt chunk shards (s + 1)) \<le> shards - (s + 1)"
      using "1.IH" [of "s * chunk"] True "1.prems" m unfolding next_beg by simp
    have "[s * chunk..<en] @ [s * chunk + chunk..<cnt] = [s * chunk..<cnt]"
    proof (cases "cnt < s * chunk + chunk")
      case True
      then show ?thesis by (simp add: en_def)
    next
      case False
      then show ?thesis using upt_split [of "s * chunk" "s * chunk + chunk" cnt] by (simp add: en_def)
    qed
    moreover have "s * chunk < en" "en \<le> cnt" using True "1.prems"(1) by (auto simp: en_def)
    ultimately show ?thesis using IH True unfolding eq by auto
  qed
qed

text \<open>What \<^verbatim>\<open>parallelFor\<close> hands out: consecutive non-empty ranges that make up the whole, at most one
  per thread.\<close>

definition is_partition :: "nat \<Rightarrow> (nat \<times> nat) list \<Rightarrow> bool" where
  "is_partition cnt rs = (concat (map (\<lambda>r. [fst r..<snd r]) rs) = [0..<cnt] \<and>
     list_all (\<lambda>r. fst r < snd r \<and> snd r \<le> cnt) rs)"

lemma parallelFor_partition:
  assumes "2 * cnt < 2 ^ 64" "cnt + minChunk \<le> 2 ^ 64" "workers < 2 ^ 63"
  shows "is_partition cnt (parallelFor_shards workers inside minChunk cnt) \<and>
    length (parallelFor_shards workers inside minChunk cnt) \<le> workers + 1"
proof (cases "cnt = 0")
  case True
  then show ?thesis by (simp add: parallelFor_shards_def is_partition_def)
next
  case False
  define mc where "mc = (if minChunk = 0 then 1 else minChunk)"
  define ms where "ms = (cnt + mc - 1) mod 2 ^ 64 div mc"
  define sh where "sh = (if ms < workers + 1 then ms else workers + 1)"
  define ch where "ch = (cnt + sh - 1) mod 2 ^ 64 div sh"
  have eq: "parallelFor_shards workers inside minChunk cnt =
      (if sh \<le> 1 \<or> workers = 0 \<or> inside then [(0, cnt)] else shard_ranges cnt ch sh 0)"
    using False by (simp only: parallelFor_shards_def Let_def mc_def ms_def sh_def ch_def if_False)
  show ?thesis
  proof (cases "sh \<le> 1 \<or> workers = 0 \<or> inside")
    case True
    then show ?thesis unfolding eq if_P [OF True] using False by (simp add: is_partition_def)
  next
    case False': False
    then have sh: "1 < sh" "sh \<le> workers + 1" by (auto simp: sh_def)
    have "mc \<ge> 1" "cnt + mc \<le> 2 ^ 64" using assms(1,2) by (auto simp: mc_def)
    then have "(cnt + mc - 1) mod 2 ^ 64 = cnt + mc - 1" using False by (intro mod_less) linarith
    moreover have "(cnt + mc - 1) div mc \<le> cnt"
    proof -
      have "cnt + mc - 1 \<le> cnt * mc + (mc - 1)" using \<open>mc \<ge> 1\<close> by (cases mc) auto
      then have "(cnt + mc - 1) div mc \<le> (cnt * mc + (mc - 1)) div mc" by (rule div_le_mono)
      also have "\<dots> = cnt" using \<open>mc \<ge> 1\<close> by (subst div_mult_self3) auto
      finally show ?thesis .
    qed
    ultimately have "ms \<le> cnt" by (simp add: ms_def)
    then have "sh \<le> cnt" using sh(1) by (auto simp: sh_def split: if_splits)
    have m: "(cnt + sh - 1) mod 2 ^ 64 = cnt + sh - 1" using \<open>sh \<le> cnt\<close> assms(1) sh(1) by (intro mod_less) linarith
    then have ch: "ch = (cnt + sh - 1) div sh" by (simp add: ch_def)
    have c1: "cnt \<le> sh * ch"
    proof -
      have "cnt + sh - 1 < sh * ((cnt + sh - 1) div sh) + sh"
        using sh(1) by (metis add.commute add_less_cancel_left less_trans mod_less_divisor mult_div_mod_eq
            nat_neq_iff not_less_zero zero_less_one)
      then show ?thesis unfolding ch using sh(1) by linarith
    qed
    have c2: "ch \<le> cnt"
    proof -
      have "cnt + sh - 1 \<le> cnt * sh" using sh(1) False by (cases cnt; cases sh) auto
      then have "(cnt + sh - 1) div sh \<le> cnt * sh div sh" by (rule div_le_mono)
      then show ?thesis using sh(1) by (simp add: ch)
    qed
    have c0: "0 < ch" using c1 False by (cases ch) auto
    have P: "concat (map (\<lambda>r. [fst r..<snd r]) (shard_ranges cnt ch sh 0)) = [0..<cnt]
        \<and> (\<forall>r\<in>set (shard_ranges cnt ch sh 0). fst r < snd r \<and> snd r \<le> cnt)
        \<and> length (shard_ranges cnt ch sh 0) \<le> sh"
      using shard_ranges_partition [OF c0 c2 assms(1) c1, of 0] c0 by simp
    show ?thesis
      unfolding eq if_not_P [OF False'] using P sh(2) by (auto simp: is_partition_def list_all_iff)
  qed
qed

section \<open>Property\<close>

text \<open>C33. \<^verbatim>\<open>parallelFor\<close> splits the range into consecutive, non-empty, disjoint pieces that make it
  up exactly, at most one per thread, for every worker count and minimal chunk (the sizes stay
  below the point where the 64-bit additions would wrap).\<close>

theorem parallelFor_splits_exactly:
  assumes "2 * cnt < 2 ^ 64" "cnt + minChunk \<le> 2 ^ 64" "workers < 2 ^ 63"
  shows "concat (map (\<lambda>r. [fst r..<snd r]) (parallelFor_shards workers inside minChunk cnt)) = [0..<cnt] \<and>
    (\<forall>r\<in>set (parallelFor_shards workers inside minChunk cnt). fst r < snd r) \<and>
    length (parallelFor_shards workers inside minChunk cnt) \<le> workers + 1"
  using parallelFor_partition [OF assms] by (auto simp: is_partition_def list_all_iff)

theorem parallelFor_splits_exactly_witness:
  "concat (map (\<lambda>r. [fst r..<snd r]) (parallelFor_shards 3 False 1 10)) = [0..<10]"
  using parallelFor_splits_exactly [of 10 1 3 False] by simp

end
