(* ===== verification/Pool_Correct.thy ===== *)
theory Pool_Correct
  imports Thread_Pool
begin

text \<open>
  What no scheduling of the pool can break: every job is in one place, the counters of the groups are
  exact, a call returns when its group is done and not before, nobody sleeps through a notification;
  and every step uses up a finite amount of work.
\<close>

section \<open>Reading the history\<close>

definition ran_jobs :: "'s event list \<Rightarrow> (nat \<times> nat) list" where
  "ran_jobs h = [(g, i). Ran g i e \<leftarrow> h]"

definition ran_of :: "nat \<Rightarrow> 's event list \<Rightarrow> nat list" where
  "ran_of g h = [i. (k, i) \<leftarrow> ran_jobs h, k = g]"

definition own_ends :: "nat \<Rightarrow> 's event list \<Rightarrow> exn option list" where
  "own_ends g h = [e. OwnEnd k e \<leftarrow> h, k = g]"

fun first_recorded :: "nat \<Rightarrow> 's event list \<Rightarrow> exn option" where
  "first_recorded k [] = None"
| "first_recorded k (Recorded g i x # h) = (if g = k then Some x else first_recorded k h)"
| "first_recorded k (_ # h) = first_recorded k h"

lemma ran_jobs_simps [simp]:
  "ran_jobs [] = []" "ran_jobs (Ran g i e # h) = (g, i) # ran_jobs h" "ran_jobs (Did f # h) = ran_jobs h"
  "ran_jobs (OwnEnd g e # h) = ran_jobs h" "ran_jobs (Recorded g i x # h) = ran_jobs h" "ran_jobs (Returned g e # h) = ran_jobs h"
  "ran_jobs (h @ h') = ran_jobs h @ ran_jobs h'"
  by (simp_all add: ran_jobs_def)

lemma ran_of_simps [simp]: "ran_of g [] = []" "ran_of g (h @ h') = ran_of g h @ ran_of g h'"
  by (simp_all add: ran_of_def)

lemma own_ends_simps [simp]:
  "own_ends k [] = []" "own_ends k (Ran g i e # h) = own_ends k h" "own_ends k (Did f # h) = own_ends k h"
  "own_ends k (OwnEnd g e # h) = (if g = k then e # own_ends k h else own_ends k h)"
  "own_ends k (Recorded g i x # h) = own_ends k h" "own_ends k (Returned g e # h) = own_ends k h"
  "own_ends k (h @ h') = own_ends k h @ own_ends k h'"
  by (simp_all add: own_ends_def)

lemma first_recorded_append [simp]:
  "first_recorded k (h @ h') = (case first_recorded k h of None \<Rightarrow> first_recorded k h' | Some x \<Rightarrow> Some x)"
  by (induction k h rule: first_recorded.induct) auto

lemma ran_of_mem: "i \<in> set (ran_of g h) \<longleftrightarrow> (g, i) \<in> set (ran_jobs h)"
  by (auto simp: ran_of_def)

lemma ran_jobs_mem: "(g, i) \<in> set (ran_jobs h) \<longleftrightarrow> (\<exists>e. Ran g i e \<in> set h)"
  by (induction h) (auto simp: ran_jobs_def split: event.splits)

lemma own_ends_mem: "e \<in> set (own_ends g h) \<longleftrightarrow> OwnEnd g e \<in> set h"
  by (induction h) (auto simp: own_ends_def split: event.splits)

section \<open>Invariants\<close>

text \<open>All jobs of the groups opened so far, and where they are.\<close>

definition all_jobs :: "'s task list list \<Rightarrow> (nat \<times> nat) list" where
  "all_jobs gs = [(g, i). g \<leftarrow> [0..<length gs], i \<leftarrow> [1..<length (gs ! g)]]"

fun executing :: "worker \<Rightarrow> (nat \<times> nat) list" where
  "executing (Exec g i) = [(g, i)]"
| "executing _ = []"

fun busy :: "nat \<Rightarrow> worker \<Rightarrow> nat" where
  "busy k (Exec g i) = (if g = k then 1 else 0)"
| "busy k (Caught g i x) = (if g = k then 1 else 0)"
| "busy k (Dec g i) = (if g = k then 1 else 0)"
| "busy k _ = 0"

definition queued :: "nat \<Rightarrow> (nat \<times> nat) list \<Rightarrow> nat" where
  "queued g q = length (filter (\<lambda>j. fst j = g) q)"

definition inv_jobs :: "'s pool_state \<Rightarrow> bool" where
  "inv_jobs r = (mset (queue r) + mset (concat (map executing (wks r))) + mset (ran_jobs (hist r)) = mset (all_jobs (groups r)) \<and>
     (\<forall>g. todo r g = queued g (queue r) + sum_list (map (busy g) (wks r))) \<and> (queue r \<noteq> [] \<longrightarrow> wks r \<noteq> []) \<and>
     (\<forall>w\<in>set (wks r). \<forall>g. busy g w \<noteq> 0 \<longrightarrow> g < length (groups r)))"

text \<open>The calls on the stack are the groups that have not returned.\<close>

fun fid :: "'s frame \<Rightarrow> nat" where
  "fid (Notify g ps) = g" | "fid (Own g ps) = g" | "fid (Check g e) = g" | "fid (Blocked g e) = g"

fun own_done :: "'s frame \<Rightarrow> exn option list" where
  "own_done (Check g e) = [e]" | "own_done (Blocked g e) = [e]" | "own_done _ = []"

definition inv_stack :: "'s pool_state \<Rightarrow> bool" where
  "inv_stack r = (distinct (map fid (stack r)) \<and>
     (\<forall>f\<in>set (stack r). fid f < length (groups r) \<and> own_ends (fid f) (hist r) = own_done f) \<and>
     (\<forall>f\<in>set (tl (stack r)). \<exists>g ps. f = Own g ps) \<and>
     (\<forall>g<length (groups r). g \<in> fid ` set (stack r) \<or> (\<exists>x. Returned g x \<in> set (hist r))) \<and>
     (\<forall>g x. Returned g x \<in> set (hist r) \<longrightarrow> g < length (groups r) \<and> g \<notin> fid ` set (stack r) \<and> todo r g = 0 \<and>
        length (own_ends g (hist r)) = 1) \<and>
     (\<forall>g e fs. stack r = Blocked g e # fs \<longrightarrow> todo r g \<noteq> 0) \<and>
     (\<forall>g e. OwnEnd g e \<in> set (hist r) \<longrightarrow> g < length (groups r)))"

definition inv_errors :: "'s pool_state \<Rightarrow> bool" where
  "inv_errors r = (
     (\<forall>g i x. Recorded g i x \<in> set (hist r) \<longrightarrow> Ran g i (Some x) \<in> set (hist r)) \<and>
     (\<forall>g i x. Ran g i (Some x) \<in> set (hist r) \<longrightarrow> Recorded g i x \<in> set (hist r) \<or> Caught g i x \<in> set (wks r)) \<and>
     (\<forall>g i x. Caught g i x \<in> set (wks r) \<longrightarrow> Ran g i (Some x) \<in> set (hist r)) \<and>
     (\<forall>g. gerror r g = first_recorded g (hist r)))"

text \<open>What had happened when a call returned.\<close>

definition returned_ok :: "'s task list list \<Rightarrow> 's event list \<Rightarrow> nat \<Rightarrow> exn option \<Rightarrow> bool" where
  "returned_ok gs h g x = (g < length gs \<and> mset (ran_of g h) = mset [1..<length (gs ! g)] \<and>
     (\<exists>own. own_ends g h = [own] \<and> x = first_error own (first_recorded g h)) \<and>
     (\<forall>i e. Recorded g i e \<in> set h \<longleftrightarrow> Ran g i (Some e) \<in> set h))"

definition inv_returned :: "'s pool_state \<Rightarrow> bool" where
  "inv_returned r = (\<forall>pre g x post. hist r = pre @ Returned g x # post \<longrightarrow> returned_ok (groups r) pre g x)"

text \<open>A worker asleep while there is something to do is about to be notified.\<close>

definition inv_wake :: "'s pool_state \<Rightarrow> bool" where
  "inv_wake r = ((Asleep \<in> set (wks r) \<longrightarrow>
       (queue r \<noteq> [] \<longrightarrow> (\<exists>g ps fs. stack r = Notify g ps # fs)) \<and> stage r \<noteq> Joining) \<and>
     (stage r \<noteq> Up \<longrightarrow> stack r = []) \<and> (Exited \<in> set (wks r) \<longrightarrow> stage r \<noteq> Up))"

text \<open>The store is what the jobs and the caller's code did, in the order they ran.\<close>

fun replay :: "'s task list list \<Rightarrow> 's event list \<Rightarrow> 's \<Rightarrow> 's option" where
  "replay gs [] s = Some s"
| "replay gs (Ran g i e # h) s = (case run_task (gs ! g ! i) s of (e', s') \<Rightarrow> if e' = e then replay gs h s' else None)"
| "replay gs (Did f # h) s = replay gs h (snd (f s))"
| "replay gs (_ # h) s = replay gs h s"

definition pool_inv :: "'s \<Rightarrow> 's pool_state \<Rightarrow> bool" where
  "pool_inv s0 r = (inv_jobs r \<and> inv_stack r \<and> inv_errors r \<and> inv_returned r \<and> inv_wake r \<and>
     replay (groups r) (hist r) s0 = Some (store r))"

section \<open>Lists of workers\<close>

lemma sum_list_update: "i < length xs \<Longrightarrow> sum_list (map f (xs[i := x])) + f (xs ! i) = sum_list (map f xs) + (f x :: nat)"
  by (induction xs arbitrary: i) (auto split: nat.splits)

lemma mset_concat_update:
  "i < length xs \<Longrightarrow> mset (concat (map f (xs[i := x]))) + mset (f (xs ! i)) = mset (concat (map f xs)) + mset (f x)"
  by (induction xs arbitrary: i) (auto split: nat.splits)

lemma set_update_cases: "y \<in> set (xs[i := x]) \<Longrightarrow> y = x \<or> y \<in> set xs"
  by (metis insertE set_update_subset_insert subsetD)

lemma update_keeps: "y \<in> set xs \<Longrightarrow> xs ! i \<noteq> y \<Longrightarrow> y \<in> set (xs[i := x])"
  by (metis in_set_conv_nth length_list_update nth_list_update_neq)

lemma set_update_other: "xs ! i \<noteq> y \<Longrightarrow> x \<noteq> y \<Longrightarrow> y \<in> set (xs[i := x]) \<longleftrightarrow> y \<in> set xs"
  using set_update_cases [of y xs i x] update_keeps [of y xs i x] by blast

lemma wake_all_simps [simp]:
  "map executing (wake_all ws) = map executing ws" "map (busy g) (wake_all ws) = map (busy g) ws"
  "wake_all ws = [] \<longleftrightarrow> ws = []" "[] = wake_all ws \<longleftrightarrow> ws = []" "length (wake_all ws) = length ws" "Asleep \<notin> set (wake_all ws)"
  "Caught g i x \<in> set (wake_all ws) \<longleftrightarrow> Caught g i x \<in> set ws" "Exited \<in> set (wake_all ws) \<longleftrightarrow> Exited \<in> set ws"
  by (auto simp: wake_all_def image_iff)

lemma queued_simps [simp]:
  "queued g [] = 0" "queued g (j # q) = (if fst j = g then 1 else 0) + queued g q" "queued g (q @ q') = queued g q + queued g q'"
  by (simp_all add: queued_def)

lemma queued_map [simp]: "queued g (map (Pair k) xs) = (if k = g then length xs else 0)"
  by (induction xs) auto

lemma queued_pos: "(g, i) \<in> set q \<Longrightarrow> 0 < queued g q"
  by (induction q) auto

lemma busy_pos: "w \<in> set ws \<Longrightarrow> busy g w \<noteq> 0 \<Longrightarrow> 0 < sum_list (map (busy g) ws)"
  by (induction ws) auto

section \<open>Jobs are in one place\<close>

lemma jobs_groups:
  assumes "inv_jobs r"
  shows "set (queue r) \<union> set (ran_jobs (hist r)) \<subseteq> set (all_jobs (groups r))"
proof -
  have "set (queue r) \<union> set (concat (map executing (wks r))) \<union> set (ran_jobs (hist r)) = set (all_jobs (groups r))"
    using assms unfolding inv_jobs_def by (metis set_mset_mset set_mset_union)
  then show ?thesis by blast
qed

lemma all_jobs_mem: "(g, i) \<in> set (all_jobs gs) \<longleftrightarrow> g < length gs \<and> 0 < i \<and> i < length (gs ! g)"
  by (force simp: all_jobs_def)

lemma jobs_move:
  assumes inv: "inv_jobs r" and i: "i < length (wks r)" and r': "wks r' = (wks r)[i := w]" "groups r' = groups r"
    and places: "mset (queue r') + mset (executing w) + mset (ran_jobs (hist r')) =
      mset (queue r) + mset (executing (wks r ! i)) + mset (ran_jobs (hist r))"
    and todo: "\<And>g. todo r' g + queued g (queue r) + busy g (wks r ! i) = todo r g + queued g (queue r') + busy g w"
    and busy: "\<And>g. busy g w \<noteq> 0 \<Longrightarrow> busy g (wks r ! i) \<noteq> 0 \<or> g < length (groups r)"
  shows "inv_jobs r'"
proof -
  have "todo r' g = queued g (queue r') + sum_list (map (busy g) (wks r'))" for g
  proof -
    have "todo r g = queued g (queue r) + sum_list (map (busy g) (wks r))" using inv by (simp add: inv_jobs_def)
    then show ?thesis using todo [of g] sum_list_update [OF i, of "busy g" w] by (simp add: r'(1))
  qed
  moreover have "mset (queue r') + mset (concat (map executing (wks r'))) + mset (ran_jobs (hist r')) = mset (all_jobs (groups r'))"
  proof -
    have "mset (queue r') + mset (concat (map executing (wks r'))) + mset (ran_jobs (hist r')) + mset (executing (wks r ! i)) =
        mset (queue r') + mset (ran_jobs (hist r')) + (mset (concat (map executing ((wks r)[i := w]))) + mset (executing (wks r ! i)))"
      by (simp add: r' ac_simps)
    also have "\<dots> = (mset (queue r') + mset (executing w) + mset (ran_jobs (hist r'))) + mset (concat (map executing (wks r)))"
      unfolding mset_concat_update [OF i] by (simp add: ac_simps)
    also have "\<dots> = mset (all_jobs (groups r)) + mset (executing (wks r ! i))"
      using inv unfolding places inv_jobs_def by (simp add: ac_simps)
    finally show ?thesis by (simp add: r'(2))
  qed
  moreover have "wks r' \<noteq> []" using i r'(1) by auto
  moreover have "\<forall>w\<in>set (wks r'). \<forall>g. busy g w \<noteq> 0 \<longrightarrow> g < length (groups r')"
  proof (intro ballI allI impI)
    fix v g assume v: "v \<in> set (wks r')" "busy g v \<noteq> 0"
    have old: "u \<in> set (wks r) \<Longrightarrow> busy g u \<noteq> 0 \<Longrightarrow> g < length (groups r)" for u using inv by (simp add: inv_jobs_def)
    from v(1) have "v = w \<or> v \<in> set (wks r)" unfolding r'(1) by (rule set_update_cases)
    then show "g < length (groups r')" using busy [of g] old v(2) nth_mem [OF i] r'(2) by auto
  qed
  ultimately show ?thesis by (simp add: inv_jobs_def)
qed

lemma worker_inv_jobs:
  assumes "worker_move i r r'" "i < length (wks r)" "inv_jobs r"
  shows "inv_jobs r'"
  using assms(1)
proof cases
  case (take g t q)
  then have "(g, t) \<in> set (all_jobs (groups r))" using jobs_groups [OF assms(3)] by simp
  with take show ?thesis by (intro jobs_move [OF assms(3,2)]) (auto simp: all_jobs_mem split: if_splits)
next
  case (finish_task g t)
  have "Dec g t \<in> set (wks r)" using finish_task(2) assms(2) by (metis nth_mem)
  from busy_pos [OF this, of g] have "0 < todo r g" using assms(3) by (simp add: inv_jobs_def)
  with finish_task show ?thesis by (intro jobs_move [OF assms(3,2)]) auto
next
  case (exec g t e s)
  then show ?thesis by (intro jobs_move [OF assms(3,2)]) (auto split: option.splits)
next
  case (record_error g t x)
  then show ?thesis by (intro jobs_move [OF assms(3,2)]) auto
qed (auto intro!: jobs_move [OF assms(3,2)])

lemma all_jobs_snoc: "all_jobs (gs @ [ts]) = all_jobs gs @ map (Pair (length gs)) [1..<length ts]"
proof -
  have "concat (map (\<lambda>g. map (Pair g) [1..<length ((gs @ [ts]) ! g)]) [0..<length gs]) = concat (map (\<lambda>g. map (Pair g) [1..<length (gs ! g)]) [0..<length gs])"
    by (intro arg_cong [where f = concat] map_cong) (auto simp: nth_append)
  then show ?thesis by (simp add: all_jobs_def nth_append)
qed

lemma jobs_same:
  assumes "inv_jobs r" "queue r' = queue r" "wks r' = wks r \<or> wks r' = wake_all (wks r)" "groups r' = groups r" "todo r' = todo r"
    "ran_jobs (hist r') = ran_jobs (hist r)"
  shows "inv_jobs r'"
proof -
  have b: "w \<in> set (wake_all ws) \<Longrightarrow> 0 < busy g w \<Longrightarrow> w \<in> set ws" for w g ws by (auto simp: wake_all_def split: if_splits)
  have e: "map executing (wks r') = map executing (wks r)" "map (busy g) (wks r') = map (busy g) (wks r)"
      "wks r' = [] \<longleftrightarrow> wks r = []" "w \<in> set (wks r') \<Longrightarrow> 0 < busy g w \<Longrightarrow> w \<in> set (wks r)" for g w
    using assms(3) b by auto
  have "g < length (groups r)" if "w \<in> set (wks r')" "0 < busy g w" for g w
    using e(4) [OF that] that(2) assms(1) by (simp add: inv_jobs_def)
  then show ?thesis using assms(1) unfolding inv_jobs_def assms(2,4-6) e(1-3) by simp
qed

lemma no_jobs_yet:
  assumes "inv_jobs r"
  shows "todo r (length (groups r)) = 0"
proof -
  let ?g = "length (groups r)"
  have "queued ?g (queue r) = 0"
    using jobs_groups [OF assms] by (auto simp: queued_def filter_empty_conv all_jobs_mem)
  moreover have "sum_list (map (busy ?g) (wks r)) = 0" using assms by (auto simp: inv_jobs_def)
  ultimately show ?thesis using assms by (simp add: inv_jobs_def)
qed

lemma unwound_simps [simp]:
  "ran_jobs (unwound x fs) = []" "first_recorded g (unwound x fs) = None" "Returned g y \<notin> set (unwound x fs)"
  "Recorded g i z \<notin> set (unwound x fs)" "Ran g i e \<notin> set (unwound x fs)"
  by (cases "(x, fs)" rule: unwound.cases; simp)+

lemma caller_inv_jobs:
  assumes "caller_move r r'" "inv_jobs r"
  shows "inv_jobs r'"
  using assms(1)
proof cases
  case (spawn g ts ps fs)
  let ?k = "length (groups r)"
  have f: "queue r' = queue r @ map (Pair ?k) [1..<length ts]" "wks r' = wks r" "groups r' = groups r @ [ts]"
    "todo r' = (todo r)(?k := length ts - 1)" "hist r' = hist r"
    using spawn(1) by (simp_all add: open_group_def Let_def)
  have "todo r' g = queued g (queue r') + sum_list (map (busy g) (wks r'))" for g
    using assms(2) no_jobs_yet [OF assms(2)] unfolding inv_jobs_def f by (auto simp del: queued_map simp add: queued_map [of g ?k])
  moreover have "mset (queue r') + mset (concat (map executing (wks r'))) + mset (ran_jobs (hist r')) = mset (all_jobs (groups r'))"
    using assms(2) unfolding inv_jobs_def f all_jobs_snoc by (simp add: ac_simps)
  ultimately show ?thesis using assms(2) spawn(4) unfolding inv_jobs_def f by (auto intro: less_SucI)
qed (auto intro: jobs_same [OF assms(2)])

section \<open>The stack of calls\<close>

lemma stack_frame:
  assumes "inv_stack r" "groups r' = groups r" "stack r' = stack r" "\<And>g. own_ends g (hist r') = own_ends g (hist r)"
    and "\<And>g x. Returned g x \<in> set (hist r') \<longleftrightarrow> Returned g x \<in> set (hist r)"
    and "\<And>g. todo r g = 0 \<Longrightarrow> todo r' g = 0" "\<And>g e fs. stack r = Blocked g e # fs \<Longrightarrow> todo r' g \<noteq> 0"
  shows "inv_stack r'"
proof -
  have o: "OwnEnd g e \<in> set (hist r') \<longleftrightarrow> OwnEnd g e \<in> set (hist r)" for g e
    using own_ends_mem [of e g "hist r"] own_ends_mem [of e g "hist r'"] assms(4) by simp
  show ?thesis using assms(1,6,7) unfolding inv_stack_def assms(2-5) o by blast
qed

lemma wake_caller_fids [simp]: "map fid (wake_caller g fs) = map fid fs" "tl (wake_caller g fs) = tl fs"
  by (simp_all add: wake_caller_def split: list.split frame.split)

lemma wake_caller_done [simp]: "map own_done (wake_caller g fs) = map own_done fs"
  by (simp add: wake_caller_def split: list.split frame.split)

lemma wake_caller_Blocked: "wake_caller g fs = Blocked h e # gs \<longleftrightarrow> fs = Blocked h e # gs \<and> g \<noteq> h"
  by (auto simp: wake_caller_def split: list.split frame.split)

lemma wake_caller_set: "f \<in> set (wake_caller g fs) \<Longrightarrow> \<exists>f'\<in>set fs. fid f = fid f' \<and> own_done f = own_done f'"
  by (auto simp: wake_caller_def split: list.splits frame.splits if_splits)

lemma worker_inv_stack:
  assumes "worker_move i r r'" "inv_stack r"
  shows "inv_stack r'"
  using assms(1)
proof cases
  case (finish_task g t)
  have f: "groups r' = groups r" "hist r' = hist r" "todo r' = (todo r)(g := todo r g - 1)"
    "stack r' = (if todo r g - 1 = 0 then wake_caller g (stack r) else stack r)" using finish_task(1) by simp_all
  have fids: "map fid (stack r') = map fid (stack r)" "tl (stack r') = tl (stack r)" by (simp_all add: f)
  have img: "fid ` set (stack r') = fid ` set (stack r)" using arg_cong [OF fids(1), of set] by simp
  have frames: "\<exists>f'\<in>set (stack r). fid f = fid f' \<and> own_done f = own_done f'" if "f \<in> set (stack r')" for f
    using that wake_caller_set [of f g "stack r"] by (auto simp: f(4) split: if_splits)
  have a: "\<forall>f\<in>set (stack r'). fid f < length (groups r') \<and> own_ends (fid f) (hist r') = own_done f"
    using assms(2) frames unfolding inv_stack_def f(1,2) by metis
  have b: "todo r' h \<noteq> 0" if "stack r' = Blocked h e # fs" for h e fs
    using that assms(2) unfolding inv_stack_def f(3,4) by (auto simp: wake_caller_Blocked split: if_splits)
  have c: "todo r' h = 0" if "todo r h = 0" for h using that by (auto simp: f(3))
  show ?thesis using assms(2) a b c unfolding inv_stack_def fids img f(1,2) by blast
qed (use assms(2) in \<open>auto intro!: stack_frame [OF assms(2)] simp: inv_stack_def\<close>)

lemma stack_same_top:
  assumes "inv_stack r" "stack r = f # fs" "stack r' = f' # fs" "fid f' = fid f" "groups r' = groups r" "todo r' = todo r"
    and "hist r' = hist r @ evs" "own_done f' = own_done f @ own_ends (fid f) evs" "\<And>g. g \<noteq> fid f \<Longrightarrow> own_ends g evs = []"
    and "\<And>g x. Returned g x \<notin> set evs" "\<And>g e. f' = Blocked g e \<Longrightarrow> todo r g \<noteq> 0"
  shows "inv_stack r'"
proof -
  have o: "OwnEnd g e \<in> set (hist r') \<Longrightarrow> OwnEnd g e \<in> set (hist r) \<or> g = fid f" for g e
    using own_ends_mem [of e g evs] assms(9) [of g] by (auto simp: assms(7))
  have "own_ends (fid h) (hist r') = own_done h" if "h \<in> set fs" for h
  proof -
    have "fid f \<notin> fid ` set fs" "own_ends (fid h) (hist r) = own_done h" using assms(1,2) that by (auto simp: inv_stack_def)
    moreover then have "fid h \<noteq> fid f" using that by (metis imageI)
    ultimately have "fid h \<noteq> fid f" "own_ends (fid h) (hist r) = own_done h" by simp_all
    then show ?thesis using assms(7,9) by simp
  qed
  moreover have "own_ends (fid f') (hist r') = own_done f'" using assms(1,2,4,7,8) by (auto simp: inv_stack_def)
  moreover have "length (own_ends g (hist r')) = 1" if "Returned g x \<in> set (hist r)" for g x
  proof -
    have "g \<noteq> fid f" "length (own_ends g (hist r)) = 1" using assms(1,2) that unfolding inv_stack_def by force+
    then show ?thesis using assms(7,9) by simp
  qed
  moreover have "Returned g x \<in> set (hist r') \<longleftrightarrow> Returned g x \<in> set (hist r)" for g x using assms(7,10) by simp
  moreover have "g < length (groups r)" if "OwnEnd g e \<in> set (hist r')" for g e
    using o [OF that] assms(1,2) by (auto simp: inv_stack_def)
  ultimately show ?thesis
    using assms(1,11) unfolding inv_stack_def assms(2,3,5,6) by (auto simp: assms(4))
qed

text \<open>A new group, and a call that returns.\<close>

lemma spawn_inv_stack:
  assumes inv: "inv_jobs r" "inv_stack r" and r: "stack r = Own h (Par ts # ps) # fs" "1 < length ts"
  shows "inv_stack (open_group ts (Own h ps # fs) r)"
proof -
  let ?k = "length (groups r)" and ?r = "open_group ts (Own h ps # fs) r"
  have f: "groups ?r = groups r @ [ts]" "stack ?r = Notify ?k (hd ts) # Own h ps # fs" "hist ?r = hist r"
      "todo ?r = (todo r)(?k := length ts - 1)" by (simp_all add: open_group_def Let_def)
  have old: "\<forall>f\<in>set (stack r). fid f < ?k \<and> own_ends (fid f) (hist r) = own_done f" using inv(2) by (simp add: inv_stack_def)
  have fresh: "own_ends ?k (hist r) = []"
  proof -
    have "e \<notin> set (own_ends ?k (hist r))" for e unfolding own_ends_mem using inv(2) by (auto simp: inv_stack_def)
    then show ?thesis by (cases "own_ends ?k (hist r)") auto
  qed
  have k: "?k \<notin> fid ` set fs" "?k \<noteq> h" using old r(1) by auto
  show ?thesis
    using inv(2) fresh k unfolding inv_stack_def f r(1) by (auto intro: less_SucI simp: less_Suc_eq)
qed

lemma unwind_ids:
  assumes "\<forall>f\<in>set fs. \<exists>g ps. f = Own g ps"
  shows "map fid (unwind x fs) = map fid fs" "tl (unwind x fs) = tl fs" "unwind x fs \<noteq> Blocked g e # gs"
    "own_ends g (unwound x fs) \<noteq> [] \<Longrightarrow> fs \<noteq> [] \<and> g = fid (hd fs)"
    "OwnEnd g e \<in> set (unwound x fs) \<Longrightarrow> fs \<noteq> [] \<and> g = fid (hd fs)"
  using assms by (cases "(x, fs)" rule: unwind.cases; auto split: if_splits)+

lemma return_inv_stack:
  assumes inv: "inv_stack r" and r: "stack r = Check g e # fs" "todo r g = 0"
    and r': "stack r' = unwind x fs" "groups r' = groups r" "todo r' = todo r" "hist r' = hist r @ Returned g x # unwound x fs"
  shows "inv_stack r'"
proof -
  have I: "distinct (map fid (Check g e # fs))" "\<forall>f\<in>set (Check g e # fs). fid f < length (groups r) \<and> own_ends (fid f) (hist r) = own_done f"
    "\<forall>f\<in>set fs. \<exists>g ps. f = Own g ps" "\<forall>k<length (groups r). k \<in> fid ` set (Check g e # fs) \<or> (\<exists>x. Returned k x \<in> set (hist r))"
    "\<And>k x. Returned k x \<in> set (hist r) \<Longrightarrow> k < length (groups r) \<and> k \<notin> fid ` set (Check g e # fs) \<and> todo r k = 0 \<and> length (own_ends k (hist r)) = 1"
    "\<And>k e. OwnEnd k e \<in> set (hist r) \<Longrightarrow> k < length (groups r)"
    using inv unfolding inv_stack_def r(1) by (simp_all, blast+)
  note u = unwind_ids [where x = x, OF I(3)]
  have img: "fid ` set (unwind x fs) = fid ` set fs" using arg_cong [OF u(1), of set] by simp
  have out: "own_ends k (hist r') = own_ends k (hist r)" if "k \<notin> fid ` set fs" for k
    using u(4) [where g = k] that by (cases "own_ends k (unwound x fs) = []") (auto simp: r'(4))
  have frames: "fid f < length (groups r) \<and> own_ends (fid f) (hist r') = own_done f" if f: "f \<in> set (unwind x fs)" for f
  proof (cases "(x, fs)" rule: unwind.cases)
    case (1 y h ps gs)
    then show ?thesis using f I(1,2) by (auto simp: r'(4) image_iff)
  qed (use f I(2) in \<open>auto simp: r'(4)\<close>)
  have ret: "Returned k y \<in> set (hist r') \<longleftrightarrow> Returned k y \<in> set (hist r) \<or> k = g \<and> y = x" for k y by (auto simp: r'(4))
  have g: "g < length (groups r)" "g \<notin> fid ` set fs" "own_ends g (hist r) = [e]" using I(1,2) by simp_all
  have "\<forall>f\<in>set (tl (unwind x fs)). \<exists>g ps. f = Own g ps" using I(3) u(2) by (metis list.set_sel(2) tl_Nil)
  moreover have "k < length (groups r)" if "OwnEnd k d \<in> set (hist r')" for k d
    using that I(2,6) u(5) [where g = k and e = d] by (auto simp: r'(4))
  ultimately show ?thesis
    unfolding inv_stack_def r'(1-3) u(1) img ret
    using I(1,4,5) g r(2) frames out u(3) by auto
qed

lemma caller_inv_stack:
  assumes "caller_move r r'" "inv_jobs r" "inv_stack r"
  shows "inv_stack r'"
  using assms(1)
proof cases
  case (spawn g ts ps fs)
  then show ?thesis using spawn_inv_stack [OF assms(2,3)] by simp
next
  case (return g e fs x)
  then show ?thesis by (intro return_inv_stack [OF assms(3)]) simp_all
next
  case stop
  then show ?thesis by (intro stack_frame [OF assms(3)]) simp_all
next
  case notify_stop
  then show ?thesis using assms(3) by (intro stack_frame [OF assms(3)]) (auto simp: inv_stack_def)
qed (auto intro!: stack_same_top [OF assms(3)])

section \<open>Exceptions\<close>

lemma errors_frame:
  assumes "inv_errors r" "\<And>g i x. Caught g i x \<in> set (wks r') \<longleftrightarrow> Caught g i x \<in> set (wks r)" "gerror r' = gerror r"
    and "hist r' = hist r @ evs" "\<And>g i x. Ran g i (Some x) \<notin> set evs \<and> Recorded g i x \<notin> set evs" "\<And>g. first_recorded g evs = None"
  shows "inv_errors r'"
  using assms(1,5,6) unfolding inv_errors_def assms(2-4) by (simp split: option.split)

lemma worker_inv_errors:
  assumes "worker_move i r r'" "i < length (wks r)" "inv_errors r"
  shows "inv_errors r'"
  using assms(1)
proof cases
  case (take g t q)
  then show ?thesis by (intro errors_frame [OF assms(3), of _ "[]"]) (auto simp: set_update_other)
next
  case sleep
  then show ?thesis by (intro errors_frame [OF assms(3), of _ "[]"]) (auto simp: set_update_other)
next
  case leave
  then show ?thesis by (intro errors_frame [OF assms(3), of _ "[]"]) (auto simp: set_update_other)
next
  case (finish_task g t)
  then show ?thesis by (intro errors_frame [OF assms(3), of _ "[]"]) (auto simp: set_update_other)
next
  case (exec g t e s)
  show ?thesis
  proof (cases e)
    case None
    then show ?thesis using exec by (intro errors_frame [OF assms(3), of _ "[Ran g t None]"]) (auto simp: set_update_other)
  next
    case (Some x)
    have f: "wks r' = (wks r)[i := Caught g t x]" "gerror r' = gerror r" "hist r' = hist r @ [Ran g t (Some x)]"
      using exec(1) Some by simp_all
    have keep: "Caught h j y \<in> set (wks r') \<longleftrightarrow> Caught h j y \<in> set (wks r) \<or> (h, j, y) = (g, t, x)" for h j y
      using set_update_cases [of "Caught h j y" "wks r" i "Caught g t x"] update_keeps [of "Caught h j y" "wks r" i "Caught g t x"]
        exec(2) assms(2) by (auto simp: f(1) set_update_memI)
    show ?thesis using assms(3) unfolding inv_errors_def keep f(2,3) by (simp split: option.split) blast
  qed
next
  case (record_error g t x)
  have f: "wks r' = (wks r)[i := Dec g t]" "gerror r' = (if gerror r g = None then (gerror r)(g := Some x) else gerror r)"
    "hist r' = hist r @ [Recorded g t x]" using record_error(1) by simp_all
  have "Caught g t x \<in> set (wks r)" using record_error(2) assms(2) by (metis nth_mem)
  then have ran: "Ran g t (Some x) \<in> set (hist r)" using assms(3) by (simp add: inv_errors_def)
  have keep: "Caught h j y \<in> set (wks r') \<Longrightarrow> Caught h j y \<in> set (wks r)"
    "Caught h j y \<in> set (wks r) \<Longrightarrow> (h, j, y) \<noteq> (g, t, x) \<Longrightarrow> Caught h j y \<in> set (wks r')" for h j y
    using set_update_cases [of "Caught h j y" "wks r" i "Dec g t"] update_keeps [of "Caught h j y" "wks r" i "Dec g t"]
      record_error(2) by (auto simp: f(1))
  have g: "gerror r' k = first_recorded k (hist r')" for k
    using assms(3) by (simp add: f inv_errors_def split: option.split)
  have "Ran h j (Some y) \<in> set (hist r') \<longrightarrow> Recorded h j y \<in> set (hist r') \<or> Caught h j y \<in> set (wks r')" for h j y
  proof
    assume "Ran h j (Some y) \<in> set (hist r')"
    then have "Ran h j (Some y) \<in> set (hist r)" by (simp add: f(3))
    then have "Recorded h j y \<in> set (hist r) \<or> Caught h j y \<in> set (wks r)" using assms(3) by (simp add: inv_errors_def)
    then show "Recorded h j y \<in> set (hist r') \<or> Caught h j y \<in> set (wks r')" using keep(2) [of h j y] by (auto simp: f(3))
  qed
  then show ?thesis using assms(3) g ran keep(1) unfolding inv_errors_def f(3) by auto
qed

lemma caller_inv_errors:
  assumes "caller_move r r'" "inv_errors r"
  shows "inv_errors r'"
  using assms(1)
proof cases
  case (spawn g ts ps fs)
  then show ?thesis by (intro errors_frame [OF assms(2), of _ "[]"]) (simp_all add: open_group_def Let_def)
next
  case (return g e fs x)
  then show ?thesis by (intro errors_frame [OF assms(2), of _ "Returned g x # unwound x fs"]) simp_all
qed (auto intro: errors_frame [OF assms(2), of _ "[]"] errors_frame [OF assms(2)])

section \<open>Calls that return\<close>

lemma filter_all_jobs: "g < length gs \<Longrightarrow> filter (\<lambda>j. fst j = g) (all_jobs gs) = map (Pair g) [1..<length (gs ! g)]"
proof (induction gs rule: rev_induct)
  case (snoc ts gs)
  have "filter (\<lambda>j. fst j = length gs) (all_jobs gs) = []" by (auto simp: filter_empty_conv all_jobs_mem)
  moreover have "filter (\<lambda>j. fst j = g) (map (Pair (length gs)) xs) = (if g = length gs then map (Pair g) xs else [])" for xs :: "nat list"
    by (induction xs) auto
  ultimately show ?case using snoc by (auto simp: all_jobs_snoc nth_append less_Suc_eq)
qed simp

lemma ran_of_filter: "ran_of g h = map snd (filter (\<lambda>j. fst j = g) (ran_jobs h))"
proof -
  have "[i. (k, i) \<leftarrow> js, k = g] = map snd (filter (\<lambda>j. fst j = g) js)" for js :: "(nat \<times> nat) list" by (induction js) auto
  then show ?thesis by (simp add: ran_of_def)
qed

lemma group_done:
  assumes inv: "inv_jobs r" and g: "todo r g = 0" "g < length (groups r)"
  shows "mset (ran_of g (hist r)) = mset [1..<length (groups r ! g)]" "(g, i) \<notin> set (queue r)"
    "w \<in> set (wks r) \<Longrightarrow> busy g w = 0"
proof -
  let ?P = "\<lambda>j :: nat \<times> nat. fst j = g"
  have z: "queued g (queue r) = 0" "sum_list (map (busy g) (wks r)) = 0" using inv g(1) by (simp_all add: inv_jobs_def)
  show b: "w \<in> set (wks r) \<Longrightarrow> busy g w = 0" for w using z(2) by auto
  show "(g, i) \<notin> set (queue r)" using queued_pos [of g i "queue r"] z(1) by auto
  have "filter ?P (queue r) = []" using z(1) by (simp add: queued_def)
  moreover have "filter ?P (concat (map executing (wks r))) = []"
  proof -
    have "fst j \<noteq> g" if w: "w \<in> set (wks r)" "j \<in> set (executing w)" for w j
      using b [OF w(1)] w(2) by (cases w) auto
    then show ?thesis by (auto simp: filter_empty_conv)
  qed
  moreover have "mset (filter ?P (queue r)) + mset (filter ?P (concat (map executing (wks r)))) + mset (filter ?P (ran_jobs (hist r))) =
      mset (filter ?P (all_jobs (groups r)))"
    using inv unfolding inv_jobs_def by (metis filter_union_mset mset_filter)
  ultimately have "mset (filter ?P (ran_jobs (hist r))) = mset (map (Pair g) [1..<length (groups r ! g)])"
    by (simp add: filter_all_jobs [OF g(2)])
  then have "image_mset snd (mset (filter ?P (ran_jobs (hist r)))) = image_mset snd (mset (map (Pair g) [1..<length (groups r ! g)]))"
    by (rule arg_cong)
  then show "mset (ran_of g (hist r)) = mset [1..<length (groups r ! g)]"
    unfolding ran_of_filter mset_map [symmetric] map_map comp_def snd_conv by simp
qed

lemma returned_frame:
  assumes "inv_returned r" "hist r' = hist r @ evs" "\<And>g x. Returned g x \<notin> set evs" "groups r' = groups r @ gs"
  shows "inv_returned r'"
  unfolding inv_returned_def
proof (intro allI impI)
  fix pre g x post assume h: "hist r' = pre @ Returned g x # post"
  have "\<exists>post'. hist r = pre @ Returned g x # post'"
    using h assms(3) [of g x] unfolding assms(2) by (auto simp: append_eq_append_conv2 append_eq_Cons_conv)
  then have "returned_ok (groups r) pre g x" using assms(1) by (auto simp: inv_returned_def)
  then show "returned_ok (groups r') pre g x" by (auto simp: returned_ok_def assms(4) nth_append)
qed

lemma worker_inv_returned:
  assumes "worker_move i r r'" "inv_returned r"
  shows "inv_returned r'"
  using assms(1)
proof cases
  case (exec g t e s)
  then show ?thesis by (intro returned_frame [OF assms(2), of _ "[Ran g t e]" "[]"]) simp_all
next
  case (record_error g t x)
  then show ?thesis by (intro returned_frame [OF assms(2), of _ "[Recorded g t x]" "[]"]) simp_all
qed (auto intro: returned_frame [OF assms(2), of _ "[]" "[]"])

lemma caller_inv_returned:
  assumes "caller_move r r'" "inv_returned r" and inv: "inv_jobs r" "inv_stack r" "inv_errors r"
  shows "inv_returned r'"
  using assms(1)
proof cases
  case (return g e fs x)
  have g: "g < length (groups r)" "own_ends g (hist r) = [e]" using inv(2) return(2) by (auto simp: inv_stack_def)
  note d = group_done [OF inv(1) return(3) g(1)]
  have "Caught g i y \<notin> set (wks r)" for i y using d(3) [of "Caught g i y"] by auto
  then have "Recorded g i y \<in> set (hist r) \<longleftrightarrow> Ran g i (Some y) \<in> set (hist r)" for i y
    using inv(3) unfolding inv_errors_def by blast
  then have ok: "returned_ok (groups r) (hist r) g x"
    using g d(1) return(4) inv(3) by (simp add: returned_ok_def inv_errors_def)
  have f: "hist r' = hist r @ Returned g x # unwound x fs" "groups r' = groups r" using return(1) by simp_all
  show ?thesis
    unfolding inv_returned_def
  proof (intro allI impI)
    fix pre h y post assume h: "hist r' = pre @ Returned h y # post"
    have "unwound x fs \<noteq> zs @ Returned h y # post" for zs using unwound_simps(3) [of h y x fs] by (metis in_set_conv_decomp)
    then have "(\<exists>post'. hist r = pre @ Returned h y # post') \<or> (pre = hist r \<and> h = g \<and> y = x)"
      using h unfolding f(1) by (auto simp: append_eq_append_conv2 append_eq_Cons_conv Cons_eq_append_conv)
    then show "returned_ok (groups r') pre h y" using ok assms(2) unfolding inv_returned_def f(2) by blast
  qed
next
  case (spawn g ts ps fs)
  then show ?thesis by (intro returned_frame [OF assms(2), of _ "[]" "[ts]"]) (simp_all add: open_group_def Let_def)
next
  case (do_ok g f ps fs s)
  then show ?thesis by (intro returned_frame [OF assms(2), of _ "[Did f]" "[]"]) simp_all
next
  case (do_throw g f ps fs x s)
  then show ?thesis by (intro returned_frame [OF assms(2), of _ "[Did f, OwnEnd g (Some x)]" "[]"]) simp_all
next
  case (own_end g fs)
  then show ?thesis by (intro returned_frame [OF assms(2), of _ "[OwnEnd g None]" "[]"]) simp_all
qed (auto intro: returned_frame [OF assms(2), of _ "[]" "[]"])

section \<open>Notifications\<close>

lemma asleep_update: "Asleep \<in> set (ws[i := w]) \<Longrightarrow> w \<noteq> Asleep \<Longrightarrow> Asleep \<in> set ws"
  by (auto dest: set_update_cases)

lemma exited_update: "Exited \<in> set (ws[i := w]) \<Longrightarrow> w \<noteq> Exited \<Longrightarrow> Exited \<in> set ws"
  by (auto dest: set_update_cases)

lemma wake_caller_Notify [simp]: "wake_caller g (Notify h ps # fs) = Notify h ps # fs" "wake_caller g [] = []"
  by (simp_all add: wake_caller_def)

lemma worker_inv_wake:
  assumes "worker_move i r r'" "inv_wake r"
  shows "inv_wake r'"
  using assms(1)
proof cases
  case (exec g t e s)
  then show ?thesis using assms(2) by (auto simp: inv_wake_def dest!: set_update_cases split: option.splits)
next
  case (finish_task g t)
  then show ?thesis using assms(2) by (auto simp: inv_wake_def dest!: set_update_cases)
qed (use assms(2) in \<open>auto simp: inv_wake_def dest!: set_update_cases\<close>)

lemma caller_inv_wake:
  assumes "caller_move r r'" "inv_wake r"
  shows "inv_wake r'"
  using assms(1)
proof cases
  case (spawn g ts ps fs)
  then show ?thesis using assms(2) by (auto simp: inv_wake_def open_group_def Let_def)
next
  case (return g e fs x)
  then show ?thesis using assms(2) by (auto simp: inv_wake_def)
qed (use assms(2) in \<open>auto simp: inv_wake_def\<close>)

section \<open>The store\<close>

lemma replay_append: "replay gs (h @ h') s = (case replay gs h s of None \<Rightarrow> None | Some s' \<Rightarrow> replay gs h' s')"
  by (induction gs h s rule: replay.induct) (auto split: prod.split)

lemma replay_unwound [simp]: "replay gs (unwound x fs) s = Some s"
  by (cases "(x, fs)" rule: unwound.cases) auto

lemma replay_groups: "\<forall>(g, i)\<in>set (ran_jobs h). g < length gs \<Longrightarrow> replay (gs @ gs') h s = replay gs h s"
  by (induction gs h s rule: replay.induct) (auto simp: nth_append split: prod.split)

lemma step_replay:
  assumes "pool_step r r'" "inv_jobs r" "replay (groups r) (hist r) s0 = Some (store r)"
  shows "replay (groups r') (hist r') s0 = Some (store r')"
proof -
  have w: ?thesis if "worker_move i r r'" for i
    using that assms(3) by cases (auto simp: replay_append)
  have c: ?thesis if "caller_move r r'"
    using that
  proof cases
    case (spawn g ts ps fs)
    have "\<forall>(g, i)\<in>set (ran_jobs (hist r)). g < length (groups r)" using jobs_groups [OF assms(2)] by (auto simp: all_jobs_mem)
    then show ?thesis using spawn assms(3) by (simp add: open_group_def Let_def replay_groups)
  qed (use assms(3) in \<open>simp_all add: replay_append\<close>)
  show ?thesis using assms(1) w c by (auto simp: pool_step_def)
qed

section \<open>Reachable states\<close>

lemma pool_inv_start: "pool_inv s (pool_start W main s)"
proof -
  have "concat (map executing (replicate W Idle)) = []" by (induction W) auto
  moreover have "sum_list (map (busy g) (replicate W Idle)) = 0" for g by (induction W) auto
  ultimately show ?thesis
    by (simp add: pool_inv_def pool_start_def inv_jobs_def inv_stack_def inv_errors_def inv_returned_def inv_wake_def all_jobs_def)
qed

lemma pool_inv_step:
  assumes "pool_inv s0 r" "pool_step r r'"
  shows "pool_inv s0 r'"
proof -
  have inv: "inv_jobs r" "inv_stack r" "inv_errors r" "inv_returned r" "inv_wake r" "replay (groups r) (hist r) s0 = Some (store r)"
    using assms(1) by (simp_all add: pool_inv_def)
  consider "caller_move r r'" | i where "i < length (wks r)" "worker_move i r r'" using assms(2) by (auto simp: pool_step_def)
  then show ?thesis
  proof cases
    case 1
    then show ?thesis
      using caller_inv_jobs caller_inv_stack caller_inv_errors caller_inv_returned caller_inv_wake step_replay [OF assms(2)] inv
      unfolding pool_inv_def by blast
  next
    case 2
    then show ?thesis
      using worker_inv_jobs worker_inv_stack worker_inv_errors worker_inv_returned worker_inv_wake step_replay [OF assms(2)] inv
      unfolding pool_inv_def by blast
  qed
qed

lemma pool_inv_steps: "pool_steps r r' \<Longrightarrow> pool_inv s0 r \<Longrightarrow> pool_inv s0 r'"
  by (induction rule: rtranclp_induct) (auto intro: pool_inv_step)

end
