(* ===== verification/Pool_Results.thy ===== *)
theory Pool_Results
  imports Pool_Correct
begin

text \<open>
  What callers of the pool can rely on, however its threads are scheduled and however calls of
  \<^verbatim>\<open>runAll\<close> nest on the calling thread: every task of a call runs once before the call returns,
  with the right exception, and the whole program and its shutdown come to an end.
\<close>

section \<open>The work that is left\<close>

fun worker_left :: "worker \<Rightarrow> nat" where
  "worker_left Exited = 0"
| "worker_left Asleep = 1"
| "worker_left Idle = 2"
| "worker_left (Dec g i) = 4"
| "worker_left (Caught g i x) = 5"
| "worker_left (Exec g i) = 6"

text \<open>Code of the caller, with \<open>W\<close> workers: a call may queue its tasks, wake everybody and wait once.\<close>

fun part_left :: "nat \<Rightarrow> 's part \<Rightarrow> nat" where
  "part_left W (Do f) = 1"
| "part_left W (Par ts) = W + 5 + sum_list (map (\<lambda>t. 5 + sum_list (map (part_left W) t)) ts)"

definition task_left :: "nat \<Rightarrow> 's task \<Rightarrow> nat" where
  "task_left W t = sum_list (map (part_left W) t)"

fun frame_left :: "nat \<Rightarrow> 's frame \<Rightarrow> nat" where
  "frame_left W (Notify g ps) = W + 4 + task_left W ps"
| "frame_left W (Own g ps) = 3 + task_left W ps"
| "frame_left W (Check g e) = 2"
| "frame_left W (Blocked g e) = 1"

fun stage_left :: "nat \<Rightarrow> stage \<Rightarrow> nat" where
  "stage_left W Up = W + 2"
| "stage_left W Stopped = W + 1"
| "stage_left W Joining = 0"

text \<open>Every step uses up some of this.\<close>

definition steps_left :: "nat \<Rightarrow> 's pool_state \<Rightarrow> nat" where
  "steps_left W r = 5 * length (queue r) + sum_list (map worker_left (wks r)) + sum_list (map (frame_left W) (stack r)) +
     stage_left W (stage r)"

lemma task_left_simps [simp]:
  "task_left W [] = 0" "task_left W (p # ps) = part_left W p + task_left W ps" "task_left W (ps @ qs) = task_left W ps + task_left W qs"
  by (simp_all add: task_left_def)

lemma part_left_Par: "part_left W (Par ts) = W + 5 + sum_list (map (\<lambda>t. 5 + task_left W t) ts)"
  by (simp add: task_left_def)

lemma task_left_concat: "task_left W (concat ts) \<le> sum_list (map (\<lambda>t. 5 + task_left W t) ts)"
  by (induction ts) auto

lemma task_left_tasks: "ts \<noteq> [] \<Longrightarrow> task_left W (hd ts) + 5 * length ts \<le> sum_list (map (\<lambda>t. 5 + task_left W t) ts)"
proof (induction ts)
  case (Cons t ts)
  have "5 * length us \<le> sum_list (map (\<lambda>t. 5 + task_left W t) us)" for us :: "'a task list" by (induction us) auto
  then show ?case by simp
qed simp

lemma wake_all_left: "sum_list (map worker_left (wake_all ws)) \<le> sum_list (map worker_left ws) + length ws"
  by (induction ws) (auto simp: wake_all_def)

lemma wake_caller_left: "sum_list (map (frame_left W) (wake_caller g fs)) \<le> sum_list (map (frame_left W) fs) + 1"
  by (auto simp: wake_caller_def split: list.split frame.split)

lemma worker_left_update:
  "i < length ws \<Longrightarrow> sum_list (map worker_left (ws[i := w])) + worker_left (ws ! i) = sum_list (map worker_left ws) + worker_left w"
  by (rule sum_list_update)

lemma worker_decreases:
  assumes "worker_move i r r'" "i < length (wks r)"
  shows "steps_left W r' < steps_left W r"
  using assms(1)
proof cases
  case (take g t q)
  then show ?thesis using worker_left_update [OF assms(2), of "Exec g t"] by (simp add: steps_left_def)
next
  case sleep
  then show ?thesis using worker_left_update [OF assms(2), of Asleep] by (simp add: steps_left_def)
next
  case leave
  then show ?thesis using worker_left_update [OF assms(2), of Exited] by (simp add: steps_left_def)
next
  case (exec g t e s)
  then show ?thesis
    using worker_left_update [OF assms(2), of "case e of None \<Rightarrow> Dec g t | Some x \<Rightarrow> Caught g t x"] by (simp add: steps_left_def split: option.splits)
next
  case (record_error g t x)
  then show ?thesis using worker_left_update [OF assms(2), of "Dec g t"] by (simp add: steps_left_def)
next
  case (finish_task g t)
  then show ?thesis
    using worker_left_update [OF assms(2), of Idle] wake_caller_left [of W g "stack r"] by (simp add: steps_left_def)
qed

lemma unwind_left: "sum_list (map (frame_left W) (unwind x fs)) \<le> sum_list (map (frame_left W) fs)"
  by (cases "(x, fs)" rule: unwind.cases) auto

lemma caller_decreases:
  assumes "caller_move r r'" "length (wks r) = W"
  shows "steps_left W r' < steps_left W r"
  using assms(1)
proof cases
  case (inline g ts ps fs)
  then show ?thesis using task_left_concat [of W ts] by (simp add: steps_left_def part_left_Par del: part_left.simps)
next
  case (spawn g ts ps fs)
  then have "ts \<noteq> []" "5 * (length ts - 1) + 5 = 5 * length ts" by auto
  with spawn task_left_tasks [of ts W] show ?thesis
    by (simp add: steps_left_def open_group_def Let_def part_left_Par del: part_left.simps)
next
  case (notify g ps fs)
  then show ?thesis using wake_all_left [of "wks r"] assms(2) by (simp add: steps_left_def)
next
  case (return g e fs x)
  then show ?thesis using unwind_left [of W x fs] by (simp add: steps_left_def)
next
  case notify_stop
  then show ?thesis using wake_all_left [of "wks r"] assms(2) by (simp add: steps_left_def)
qed (simp_all add: steps_left_def)

lemma step_workers:
  assumes "pool_step r r'"
  shows "length (wks r') = length (wks r)"
proof -
  have "length (wks r') = length (wks r)" if "caller_move r r'" using that by cases (simp_all add: open_group_def Let_def)
  moreover have "length (wks r') = length (wks r)" if "worker_move i r r'" for i using that by cases simp_all
  ultimately show ?thesis using assms by (auto simp: pool_step_def)
qed

lemma steps_bound: "(pool_step ^^ k) r r' \<Longrightarrow> length (wks r') = length (wks r) \<and> k + steps_left (length (wks r)) r' \<le> steps_left (length (wks r)) r"
proof (induction k arbitrary: r')
  case (Suc k)
  then obtain y where y: "(pool_step ^^ k) r y" "pool_step y r'" by auto
  from Suc.IH [OF y(1)] have ih: "length (wks y) = length (wks r)" "k + steps_left (length (wks r)) y \<le> steps_left (length (wks r)) r" by simp_all
  have "steps_left (length (wks r)) r' < steps_left (length (wks r)) y"
    using y(2) worker_decreases caller_decreases [OF _ ih(1)] by (auto simp: pool_step_def)
  then show ?case using ih step_workers [OF y(2)] by simp
qed simp

section \<open>Nobody waits for ever\<close>

lemma caller_progress:
  assumes "inv_stack r" "\<nexists>r'. caller_move r r'"
  shows "(stack r = [] \<and> stage r = Joining) \<or> (\<exists>g e fs. stack r = Blocked g e # fs \<and> todo r g \<noteq> 0)"
proof (cases "stack r")
  case Nil
  have "stage r = Joining" using assms(2) stop [OF Nil] notify_stop [of r] by (cases "stage r") blast+
  then show ?thesis using Nil by simp
next
  case (Cons f fs)
  show ?thesis
  proof (cases f)
    case (Notify g ps)
    then show ?thesis using assms(2) notify [of r g ps fs] Cons by blast
  next
    case (Own g ps)
    show ?thesis
    proof (cases ps)
      case Nil
      then show ?thesis using assms(2) own_end [of r g fs] Cons Own by blast
    next
      case p: (Cons p qs)
      show ?thesis
      proof (cases p)
        case (Do f)
        obtain e s where "f (store r) = (e, s)" by (cases "f (store r)")
        then show ?thesis using assms(2) do_ok [of r g f qs fs s] do_throw [of r g f qs fs _ s] Cons Own p Do by (cases e) blast+
      next
        case (Par ts)
        have "length ts \<le> 1 \<or> wks r = [] \<or> 1 < length ts \<and> wks r \<noteq> []" by linarith
        then show ?thesis using assms(2) inline [of r g ts qs fs] spawn [of r g ts qs fs] Cons Own p Par by blast
      qed
    qed
  next
    case (Check g e)
    then show ?thesis
      using assms(2) block [of r g e fs] return [of r g e fs "first_error e (gerror r g)"] Cons by (cases "todo r g = 0") blast+
  next
    case (Blocked g e)
    then show ?thesis using assms(1) Cons by (auto simp: inv_stack_def)
  qed
qed

lemma worker_progress:
  assumes "\<nexists>r'. worker_move i r r'"
  shows "wks r ! i = Asleep \<or> wks r ! i = Exited"
proof (cases "wks r ! i")
  case Idle
  show ?thesis
  proof (cases "queue r")
    case Nil
    then show ?thesis using assms sleep [OF Idle] leave [OF Idle] by blast
  next
    case (Cons j q)
    obtain g t where "j = (g, t)" by (cases j)
    then show ?thesis using assms take [OF Idle] Cons by blast
  qed
next
  case (Exec g t)
  obtain e s where "run_task (groups r ! g ! t) (store r) = (e, s)" by (cases "run_task (groups r ! g ! t) (store r)")
  then show ?thesis using assms exec [OF Exec] by blast
next
  case (Caught g t x)
  then show ?thesis using assms record_error [OF Caught] by blast
next
  case (Dec g t)
  then show ?thesis using assms finish_task [OF Dec] by blast
qed simp_all

lemma pool_progress:
  assumes inv: "pool_inv s0 r" and stuck: "\<nexists>r'. pool_step r r'"
  shows "pool_joined r \<and> stack r = [] \<and> queue r = []"
proof -
  have I: "inv_jobs r" "inv_stack r" "inv_wake r" using inv by (simp_all add: pool_inv_def)
  have w: "w = Asleep \<or> w = Exited" if "w \<in> set (wks r)" for w
    using that worker_progress stuck unfolding pool_step_def in_set_conv_nth by metis
  have idle: "sum_list (map (busy g) (wks r)) = 0" for g using w by fastforce
  have c: "(stack r = [] \<and> stage r = Joining) \<or> (\<exists>g e fs. stack r = Blocked g e # fs \<and> todo r g \<noteq> 0)"
    using caller_progress [OF I(2)] stuck by (auto simp: pool_step_def)
  have "\<not> (\<exists>g e fs. stack r = Blocked g e # fs \<and> todo r g \<noteq> 0)"
  proof
    assume "\<exists>g e fs. stack r = Blocked g e # fs \<and> todo r g \<noteq> 0"
    then obtain g e fs where b: "stack r = Blocked g e # fs" "todo r g \<noteq> 0" by blast
    then have "queue r \<noteq> []" using I(1) idle by (auto simp: inv_jobs_def)
    then have "wks r \<noteq> []" using I(1) by (simp add: inv_jobs_def)
    then obtain v where v: "v \<in> set (wks r)" by (cases "wks r") auto
    have "Exited \<notin> set (wks r)" using I(3) b(1) by (auto simp: inv_wake_def)
    then have "Asleep \<in> set (wks r)" using w v by blast
    then show False using I(3) b(1) \<open>queue r \<noteq> []\<close> by (auto simp: inv_wake_def)
  qed
  then have s: "stack r = []" "stage r = Joining" using c by blast+
  then have "Asleep \<notin> set (wks r)" using I(3) by (auto simp: inv_wake_def)
  then have "\<forall>v\<in>set (wks r). v = Exited" using w by blast
  moreover have "queue r = []"
  proof -
    have "todo r g = 0" if "g < length (groups r)" for g using I(2) that s(1) by (auto simp: inv_stack_def)
    then have "(g, i) \<notin> set (queue r)" for g i
      using jobs_groups [OF I(1)] group_done(2) [OF I(1)] by (metis UnI1 all_jobs_mem subsetD)
    then show ?thesis by (cases "queue r") auto
  qed
  ultimately show ?thesis using s by (simp add: pool_joined_def)
qed

section \<open>Running a schedule\<close>

text \<open>The one move a thread can make, if any; a schedule says which thread moves, \<open>None\<close> for the caller.\<close>

definition worker_do :: "nat \<Rightarrow> 's pool_state \<Rightarrow> 's pool_state option" where
  "worker_do i r = (case wks r ! i of
     Idle \<Rightarrow> (case queue r of
         (g, t) # q \<Rightarrow> Some (r\<lparr>queue := q, wks := (wks r)[i := Exec g t]\<rparr>)
       | [] \<Rightarrow> Some (r\<lparr>wks := (wks r)[i := (if stage r = Up then Asleep else Exited)]\<rparr>))
   | Exec g t \<Rightarrow> (case run_task (groups r ! g ! t) (store r) of (e, s) \<Rightarrow>
       Some (r\<lparr>wks := (wks r)[i := (case e of None \<Rightarrow> Dec g t | Some x \<Rightarrow> Caught g t x)], store := s, hist := hist r @ [Ran g t e]\<rparr>))
   | Caught g t x \<Rightarrow> Some (r\<lparr>wks := (wks r)[i := Dec g t],
       gerror := (if gerror r g = None then (gerror r)(g := Some x) else gerror r), hist := hist r @ [Recorded g t x]\<rparr>)
   | Dec g t \<Rightarrow> Some (r\<lparr>wks := (wks r)[i := Idle], todo := (todo r)(g := todo r g - 1),
       stack := (if todo r g - 1 = 0 then wake_caller g (stack r) else stack r)\<rparr>)
   | _ \<Rightarrow> None)"

definition caller_do :: "'s pool_state \<Rightarrow> 's pool_state option" where
  "caller_do r = (case stack r of
     Own g (Do f # ps) # fs \<Rightarrow> (case f (store r) of
         (None, s) \<Rightarrow> Some (r\<lparr>stack := Own g ps # fs, store := s, hist := hist r @ [Did f]\<rparr>)
       | (Some x, s) \<Rightarrow> Some (r\<lparr>stack := Check g (Some x) # fs, store := s, hist := hist r @ [Did f, OwnEnd g (Some x)]\<rparr>))
   | Own g (Par ts # ps) # fs \<Rightarrow>
       if length ts \<le> 1 \<or> wks r = [] then Some (r\<lparr>stack := Own g (concat ts @ ps) # fs\<rparr>) else Some (open_group ts (Own g ps # fs) r)
   | Own g [] # fs \<Rightarrow> Some (r\<lparr>stack := Check g None # fs, hist := hist r @ [OwnEnd g None]\<rparr>)
   | Notify g ps # fs \<Rightarrow> Some (r\<lparr>stack := Own g ps # fs, wks := wake_all (wks r)\<rparr>)
   | Check g e # fs \<Rightarrow>
       if todo r g \<noteq> 0 then Some (r\<lparr>stack := Blocked g e # fs\<rparr>)
       else (let x = first_error e (gerror r g) in Some (r\<lparr>stack := unwind x fs, hist := hist r @ Returned g x # unwound x fs\<rparr>))
   | Blocked g e # fs \<Rightarrow> None
   | [] \<Rightarrow> (case stage r of
         Up \<Rightarrow> Some (r\<lparr>stage := Stopped\<rparr>)
       | Stopped \<Rightarrow> Some (r\<lparr>stage := Joining, wks := wake_all (wks r)\<rparr>)
       | Joining \<Rightarrow> None))"

fun play :: "nat option list \<Rightarrow> 's pool_state \<Rightarrow> 's pool_state option" where
  "play [] r = Some r"
| "play (None # ms) r = (case caller_do r of None \<Rightarrow> None | Some r \<Rightarrow> play ms r)"
| "play (Some i # ms) r = (if i < length (wks r) then (case worker_do i r of None \<Rightarrow> None | Some r \<Rightarrow> play ms r) else None)"

lemma worker_do_move:
  assumes "worker_do i r = Some r'"
  shows "worker_move i r r'"
proof (cases "wks r ! i")
  case Idle
  show ?thesis
  proof (cases "queue r")
    case Nil
    then show ?thesis using assms sleep [OF Idle] leave [OF Idle] by (auto simp: worker_do_def Idle split: if_splits)
  next
    case (Cons j q)
    then show ?thesis using assms take [OF Idle] by (cases j) (auto simp: worker_do_def Idle)
  qed
next
  case (Exec g t)
  then show ?thesis using assms exec [OF Exec] by (auto simp: worker_do_def split: prod.splits)
next
  case (Caught g t x)
  then show ?thesis using assms record_error [OF Caught] by (simp add: worker_do_def)
next
  case (Dec g t)
  then show ?thesis using assms finish_task [OF Dec] by (simp add: worker_do_def)
qed (use assms in \<open>simp_all add: worker_do_def\<close>)

lemma caller_do_move: "caller_do r = Some r' \<Longrightarrow> caller_move r r'"
  by (auto simp: caller_do_def caller_move.simps Let_def split: list.splits frame.splits part.splits prod.splits option.splits stage.splits if_splits)

lemma play_steps: "play ms r = Some r' \<Longrightarrow> (pool_step ^^ length ms) r r'"
proof (induction ms r rule: play.induct)
  case (2 ms r)
  then obtain r1 where r1: "caller_do r = Some r1" "play ms r1 = Some r'" by (auto split: option.splits)
  then have "pool_step r r1" by (simp add: pool_step_def caller_do_move)
  then have "(pool_step ^^ Suc (length ms)) r r'" using "2.IH" [OF r1] by (rule relpowp_Suc_I2)
  then show ?case by (simp only: length_Cons)
next
  case (3 i ms r)
  then obtain r1 where r1: "i < length (wks r)" "worker_do i r = Some r1" "play ms r1 = Some r'" by (auto split: option.splits if_splits)
  then have "pool_step r r1" unfolding pool_step_def using worker_do_move by blast
  then have "(pool_step ^^ Suc (length ms)) r r'" using "3.IH" [OF r1] by (rule relpowp_Suc_I2)
  then show ?case by (simp only: length_Cons)
qed simp

text \<open>Two tasks on one worker, the first of which calls \<^verbatim>\<open>runAll\<close> again on the calling thread; the other
  throws, and is run while the caller is in its own task.\<close>

definition ex_add :: "nat \<Rightarrow> nat part" where
  "ex_add n = Do (\<lambda>s. (None, s + n))"

definition ex_boom :: "nat part" where
  "ex_boom = Do (\<lambda>s. (Some (RuntimeError ''boom''), s + 1))"

definition ex_main :: "nat task" where
  "ex_main = [Par [[Par [[ex_add 10], [ex_add 100]]], [ex_boom]], ex_add 1000]"

definition ex_moves :: "nat option list" where
  "ex_moves = [Some 0, None, None, Some 0, Some 0, None, None, None, None, None, Some 0, Some 0, Some 0, Some 0, Some 0,
     None, None, None, None, Some 0, None, None, Some 0]"

lemmas play_eval = pool_start_def caller_do_def worker_do_def open_group_def wake_all_def wake_caller_def first_error_def
  pool_joined_def Let_def upt_rec

lemma ex_played:
  "\<exists>r pre post. play ex_moves (pool_start 1 ex_main 0) = Some r \<and> pool_joined r \<and> store r = 111 \<and>
     hist r = pre @ Returned 1 (Some (RuntimeError ''boom'')) # post \<and> length (groups r ! 1) = 2 \<and>
     Returned 0 (Some (RuntimeError ''boom'')) \<in> set post"
proof -
  let ?e = "RuntimeError ''boom''"
  let ?pre = "[Ran 1 1 (Some ?e), Did (\<lambda>s. (None, s + 10)), OwnEnd 2 None, Recorded 1 1 ?e, Ran 2 1 None, Returned 2 None, OwnEnd 1 None]"
  let ?post = "[OwnEnd 0 (Some ?e), Returned 0 (Some ?e)]"
  have "\<exists>r. play ex_moves (pool_start 1 ex_main 0) = Some r \<and> pool_joined r \<and> store r = 111 \<and>
      hist r = ?pre @ Returned 1 (Some ?e) # ?post \<and> length (groups r ! 1) = 2"
    by (simp add: ex_moves_def ex_main_def ex_add_def ex_boom_def play_eval)
  moreover have "Returned 0 (Some ?e) \<in> set ?post" by simp
  ultimately show ?thesis by blast
qed

section \<open>What the comments say\<close>

text \<open>The exception of the caller's own task wins even when a worker threw, and recorded, its own first.\<close>

lemma caller_error_first:
  "\<exists>r pre. play [None, None, Some 0, Some 0, Some 0, None, Some 0, None] (pool_start 1 [Par [[Do (\<lambda>s. (Some BadAlloc, s))], [ex_boom]]] 0) = Some r \<and>
     hist r = pre @ [Returned 1 (Some BadAlloc), OwnEnd 0 (Some BadAlloc)] \<and> first_recorded 1 pre = Some (RuntimeError ''boom'') \<and>
     pre = [Ran 1 1 (Some (RuntimeError ''boom'')), Recorded 1 1 (RuntimeError ''boom''), Did (\<lambda>s. (Some BadAlloc, s)), OwnEnd 1 (Some BadAlloc)]"
  by (simp add: ex_boom_def play_eval)

text \<open>A call from the caller's share of the work is not inline: its jobs queue up behind those of the call around it.\<close>

lemma nested_call_queues:
  "\<exists>r. play [None, None, None] (pool_start 1 ex_main 0) = Some r \<and> map fid (stack r) = [2, 1, 0] \<and> queue r = [(1, 1), (2, 1)]"
  by (simp add: ex_main_def ex_add_def ex_boom_def play_eval)

section \<open>Properties\<close>



text \<open>C18. No deadlock, no endless run, no lost wake-up. A thread asleep on a condition variable moves again only
  when it is notified. Still, on any number of workers and however calls nest, a program that uses the pool
  and then destroys it takes at most \<open>3 W + 5\<close> steps more than its tasks account for, and if no thread can
  move then its code has returned, every call in it too, no job is left and every worker has been joined.\<close>

theorem runAll_ends:
  assumes "(pool_step ^^ k) (pool_start W main s) r"
  shows "k \<le> task_left W main + 3 * W + 5 \<and>
    ((\<nexists>r'. pool_step r r') \<longrightarrow> pool_joined r \<and> queue r = [] \<and> (\<forall>g<length (groups r). \<exists>x. Returned g x \<in> set (hist r)))"
proof -
  have inv: "pool_inv s r" by (rule pool_inv_steps [OF relpowp_imp_rtranclp [OF assms] pool_inv_start])
  have "steps_left W (pool_start W main s) = task_left W main + 3 * W + 5"
    by (simp add: steps_left_def pool_start_def sum_list_replicate)
  moreover have "length (wks (pool_start W main s)) = W" by (simp add: pool_start_def)
  ultimately have "k \<le> task_left W main + 3 * W + 5" using steps_bound [OF assms] by simp
  moreover have "pool_joined r \<and> queue r = [] \<and> (\<forall>g<length (groups r). \<exists>x. Returned g x \<in> set (hist r))" if "\<nexists>r'. pool_step r r'"
  proof -
    note p = pool_progress [OF inv that]
    then show ?thesis using inv by (auto simp: pool_inv_def inv_stack_def)
  qed
  ultimately show ?thesis by blast
qed

theorem runAll_ends_witness:
  "\<exists>r. (pool_step ^^ 23) (pool_start 1 ex_main 0) r \<and> (\<nexists>r'. pool_step r r') \<and> Returned 0 (Some (RuntimeError ''boom'')) \<in> set (hist r) \<and>
     23 \<le> task_left 1 ex_main + 3 * 1 + 5"
proof -
  obtain r pre post where r: "play ex_moves (pool_start 1 ex_main 0) = Some r" "pool_joined r"
      "hist r = pre @ Returned 1 (Some (RuntimeError ''boom'')) # post" "Returned 0 (Some (RuntimeError ''boom'')) \<in> set post"
    using ex_played by blast
  have "length ex_moves = 23" by (simp add: ex_moves_def)
  then have s: "(pool_step ^^ 23) (pool_start 1 ex_main 0) r" using play_steps [OF r(1)] by simp
  have "pool_inv 0 r" by (rule pool_inv_steps [OF relpowp_imp_rtranclp [OF s] pool_inv_start])
  then have "stack r = []" using r(2) by (simp add: pool_inv_def inv_wake_def pool_joined_def)
  then have "\<not> caller_move r r'" for r' using r(2) by (simp add: pool_joined_def caller_move.simps)
  moreover have "\<not> worker_move i r r'" if "i < length (wks r)" for r' i
  proof -
    have "wks r ! i = Exited" using r(2) that by (simp add: pool_joined_def)
    then show ?thesis by (simp add: worker_move.simps)
  qed
  ultimately have "\<nexists>r'. pool_step r r'" by (auto simp: pool_step_def)
  with runAll_ends [OF s] s r(3,4) show ?thesis by auto
qed

end
