(* ===== verification/Node.thy ===== *)
theory Node
  imports Tensor
begin

text \<open>
  graph/attribute.h, graph/node.h and graph/node.cpp: attribute values, operator types, and the
  nodes of a computation graph. An attribute table is a map; the order in which the
  \<^verbatim>\<open>unordered_map\<close> would enumerate it is an argument of the one function that depends on it
  (saving a model).
\<close>

section \<open>Attributes\<close>

type_synonym i64 = "64 word"

datatype attribute = AInt i64 | AFloat f32 | AInts "i64 list"

definition attr_default :: attribute where "attr_default = AInt 0"

fun asInt :: "attribute \<Rightarrow> i64 res" where
  "asInt (AInt v) = Inr v"
| "asInt _ = Inl (RuntimeError ''Attribute is not an Int'')"

fun asFloat :: "attribute \<Rightarrow> f32 res" where
  "asFloat (AFloat v) = Inr v"
| "asFloat _ = Inl (RuntimeError ''Attribute is not a Float'')"

fun asInts :: "attribute \<Rightarrow> i64 list res" where
  "asInts (AInts v) = Inr v"
| "asInts _ = Inl (RuntimeError ''Attribute is not an Ints list'')"

section \<open>Operator types\<close>

datatype op_type = OpFlatten | OpGemm | OpRelu | OpAdd | OpGemmRelu | OpUnknown

definition opTypeFromString :: "string \<Rightarrow> op_type" where
  "opTypeFromString name =
     (if name = ''Flatten'' then OpFlatten
      else if name = ''Gemm'' then OpGemm
      else if name = ''Relu'' then OpRelu
      else if name = ''Add'' then OpAdd
      else if name = ''GemmRelu'' then OpGemmRelu
      else OpUnknown)"

fun opTypeToString :: "op_type \<Rightarrow> string" where
  "opTypeToString OpFlatten = ''Flatten''"
| "opTypeToString OpGemm = ''Gemm''"
| "opTypeToString OpRelu = ''Relu''"
| "opTypeToString OpAdd = ''Add''"
| "opTypeToString OpGemmRelu = ''GemmRelu''"
| "opTypeToString OpUnknown = ''Unknown''"

lemma op_type_string [simp]: "opTypeFromString (opTypeToString op) = op"
  by (cases op) (simp_all add: opTypeFromString_def)

section \<open>Nodes\<close>

record node =
  n_name :: string
  n_opTypeStr :: string
  n_opType :: op_type
  n_inputs :: "string list"
  n_outputs :: "string list"
  n_attrs :: "string \<rightharpoonup> attribute"

definition mk_node :: "string \<Rightarrow> string \<Rightarrow> string list \<Rightarrow> string list \<Rightarrow> (string \<rightharpoonup> attribute) \<Rightarrow> node" where
  "mk_node name op ins outs attrs =
     \<lparr>n_name = name, n_opTypeStr = op, n_opType = opTypeFromString op, n_inputs = ins,
      n_outputs = outs, n_attrs = attrs\<rparr>"

definition setOpType :: "op_type \<Rightarrow> node \<Rightarrow> node" where
  "setOpType op n = n\<lparr>n_opType := op, n_opTypeStr := opTypeToString op\<rparr>"

definition node_setOutputs :: "string list \<Rightarrow> node \<Rightarrow> node" where
  "node_setOutputs outs n = n\<lparr>n_outputs := outs\<rparr>"

definition setAttr :: "string \<Rightarrow> attribute \<Rightarrow> node \<Rightarrow> node" where
  "setAttr key v n = n\<lparr>n_attrs := (n_attrs n)(key \<mapsto> v)\<rparr>"

definition getAttrInt :: "node \<Rightarrow> string \<Rightarrow> i64 \<Rightarrow> i64 res" where
  "getAttrInt n key d = (case n_attrs n key of None \<Rightarrow> Inr d | Some a \<Rightarrow> asInt a)"

definition getAttrFloat :: "node \<Rightarrow> string \<Rightarrow> f32 \<Rightarrow> f32 res" where
  "getAttrFloat n key d = (case n_attrs n key of None \<Rightarrow> Inr d | Some a \<Rightarrow> asFloat a)"

definition getAttrInts :: "node \<Rightarrow> string \<Rightarrow> i64 list \<Rightarrow> i64 list res" where
  "getAttrInts n key d = (case n_attrs n key of None \<Rightarrow> Inr d | Some a \<Rightarrow> asInts a)"

text \<open>The constructor and \<^verbatim>\<open>setOpType\<close> keep the type and its spelling in step.\<close>

definition node_ok :: "node \<Rightarrow> bool" where
  "node_ok n = (n_opType n = opTypeFromString (n_opTypeStr n))"

lemma mk_node_ok [simp]: "node_ok (mk_node name op ins outs attrs)"
  by (simp add: node_ok_def mk_node_def)

lemma setOpType_ok [simp]: "node_ok (setOpType op n)"
  by (simp add: node_ok_def setOpType_def)

lemma setter_frames [simp]:
  "n_name (setOpType op n) = n_name n" "n_inputs (setOpType op n) = n_inputs n"
  "n_outputs (setOpType op n) = n_outputs n" "n_attrs (setOpType op n) = n_attrs n"
  "n_opType (setOpType op n) = op"
  "n_name (node_setOutputs outs n) = n_name n" "n_inputs (node_setOutputs outs n) = n_inputs n"
  "n_outputs (node_setOutputs outs n) = outs" "n_attrs (node_setOutputs outs n) = n_attrs n"
  "n_opType (node_setOutputs outs n) = n_opType n"
  "n_opTypeStr (node_setOutputs outs n) = n_opTypeStr n"
  by (simp_all add: setOpType_def node_setOutputs_def)

end
