(* ===== verification/Graph.thy ===== *)
theory Graph
  imports Node
begin

text \<open>
  graph/graph.h and graph/graph.cpp. A \<^verbatim>\<open>Node*\<close> is a number; every node added gets a fresh one, so a
  pointer to a destroyed node never coincides with a live one, and dereferencing it is
  \<open>Undefined\<close>. The \<^verbatim>\<open>unordered_map\<close> of entries is a map together with the order in which a loop
  over it enumerates the keys (\<open>hashOrder\<close>). Erasing keeps the order of the others; where an
  insertion puts the new key, and how a rehash shuffles the rest, is the parameter \<open>ins\<close>.
\<close>

section \<open>State\<close>

type_synonym ptr = nat

record entry =
  e_ptr :: ptr
  e_node :: node
  e_parents :: "ptr list"
  e_children :: "ptr list"

record graph =
  nodeMap :: "string \<rightharpoonup> entry"
  hashOrder :: "string list"
  insertionOrder :: "string list"
  g_inputs :: "string list"
  g_outputs :: "string list"
  nextPtr :: ptr

type_synonym insert_order = "string list \<Rightarrow> string \<Rightarrow> string list"

definition graph_new :: graph where
  "graph_new = \<lparr>nodeMap = Map.empty, hashOrder = [], insertionOrder = [], g_inputs = [], g_outputs = [], nextPtr = 1\<rparr>"

text \<open>\<^verbatim>\<open>nodeMap_.at(name)\<close>, and reading the node behind a pointer.\<close>

definition node_at :: "graph \<Rightarrow> string \<Rightarrow> entry res" where
  "node_at g name = (case nodeMap g name of Some e \<Rightarrow> Inr e | None \<Rightarrow> Inl (OutOfRange ''unordered_map::at''))"

definition live_entries :: "graph \<Rightarrow> entry list" where
  "live_entries g = map (\<lambda>n. the (nodeMap g n)) (filter (\<lambda>n. nodeMap g n \<noteq> None) (hashOrder g))"

definition deref :: "graph \<Rightarrow> ptr \<Rightarrow> node res" where
  "deref g p = (case List.find (\<lambda>e. e_ptr e = p) (live_entries g) of
     Some e \<Rightarrow> Inr (e_node e) | None \<Rightarrow> Inl (Undefined ''dangling node pointer''))"

definition upd_entry :: "string \<Rightarrow> (entry \<Rightarrow> entry) \<Rightarrow> (string \<rightharpoonup> entry) \<Rightarrow> (string \<rightharpoonup> entry)" where
  "upd_entry k f m = m(k := map_option f (m k))"

section \<open>Edges\<close>

text \<open>The outputs of one node that feed another.\<close>

definition feeds :: "node \<Rightarrow> node \<Rightarrow> string list" where
  "feeds a b = filter (\<lambda>x. x \<in> set (n_inputs b)) (n_outputs a)"

definition push_children :: "ptr list \<Rightarrow> entry \<Rightarrow> entry" where
  "push_children ps e = e\<lparr>e_children := e_children e @ ps\<rparr>"

definition push_parents :: "ptr list \<Rightarrow> entry \<Rightarrow> entry" where
  "push_parents ps e = e\<lparr>e_parents := e_parents e @ ps\<rparr>"

text \<open>\<^verbatim>\<open>updateEdges\<close>: the loop over all entries, both directions of each pair.\<close>

definition updateEdges :: "ptr \<Rightarrow> node \<Rightarrow> string list \<Rightarrow> (string \<rightharpoonup> entry) \<Rightarrow> (string \<rightharpoonup> entry)" where
  "updateEdges p node = fold (\<lambda>otherName m. case m otherName of
     None \<Rightarrow> m
   | Some entry \<Rightarrow>
      let other = e_ptr entry
      in if other = p then m
         else let m = upd_entry otherName (push_children (map (\<lambda>_. p) (feeds (e_node entry) node))) m;
                  m = upd_entry (n_name node) (push_parents (map (\<lambda>_. other) (feeds (e_node entry) node))) m;
                  m = upd_entry (n_name node) (push_children (map (\<lambda>_. other) (feeds node (e_node entry)))) m
              in upd_entry otherName (push_parents (map (\<lambda>_. p) (feeds node (e_node entry)))) m)"

definition addNode :: "insert_order \<Rightarrow> node \<Rightarrow> graph \<Rightarrow> graph" where
  "addNode ins node g =
     (let p = nextPtr g; name = n_name node;
          entry = (case nodeMap g name of
              Some e \<Rightarrow> e\<lparr>e_ptr := p, e_node := node\<rparr>
            | None \<Rightarrow> \<lparr>e_ptr = p, e_node = node, e_parents = [], e_children = []\<rparr>);
          ho = (if nodeMap g name = None then ins (hashOrder g) name else hashOrder g);
          m = (nodeMap g)(name \<mapsto> entry)
      in g\<lparr>nodeMap := updateEdges p node ho m, hashOrder := ho,
           insertionOrder := insertionOrder g @ [name], nextPtr := p + 1\<rparr>)"

definition rebuildEdges :: "graph \<Rightarrow> graph res" where
  "rebuildEdges g =
     (let m0 = (\<lambda>k. map_option (\<lambda>e. e\<lparr>e_parents := [], e_children := []\<rparr>) (nodeMap g k))
      in rbind (rfold (\<lambda>name m. case m name of
           None \<Rightarrow> Inl (OutOfRange ''unordered_map::at'')
         | Some entry \<Rightarrow>
             Inr (fold (\<lambda>otherName m. case m otherName of
                 None \<Rightarrow> m
               | Some other \<Rightarrow>
                   if e_ptr other = e_ptr entry then m
                   else let m = upd_entry name (push_children (map (\<lambda>_. e_ptr other) (feeds (e_node entry) (e_node other)))) m
                        in upd_entry otherName (push_parents (map (\<lambda>_. e_ptr entry) (feeds (e_node entry) (e_node other)))) m)
               (hashOrder g) m)) (insertionOrder g) m0)
         (\<lambda>m. Inr (g\<lparr>nodeMap := m\<rparr>)))"

definition removeNode :: "string \<Rightarrow> graph \<Rightarrow> graph res" where
  "removeNode name g =
     (if nodeMap g name = None then Inr g
      else rebuildEdges (g\<lparr>nodeMap := (nodeMap g)(name := None), hashOrder := removeAll name (hashOrder g),
             insertionOrder := removeAll name (insertionOrder g)\<rparr>))"

section \<open>Accessors\<close>

definition setInputs :: "string list \<Rightarrow> graph \<Rightarrow> graph" where
  "setInputs xs g = g\<lparr>g_inputs := xs\<rparr>"

definition setOutputs :: "string list \<Rightarrow> graph \<Rightarrow> graph" where
  "setOutputs xs g = g\<lparr>g_outputs := xs\<rparr>"

definition getNode :: "graph \<Rightarrow> string \<Rightarrow> ptr" where
  "getNode g name = (case nodeMap g name of None \<Rightarrow> 0 | Some e \<Rightarrow> e_ptr e)"

definition g_size :: "graph \<Rightarrow> nat" where
  "g_size g = length (hashOrder g)"

text \<open>A list comprehension whose body may throw.\<close>

fun rmap :: "('a \<Rightarrow> 'b res) \<Rightarrow> 'a list \<Rightarrow> 'b list res" where
  "rmap f [] = Inr []"
| "rmap f (x # xs) = rbind (f x) (\<lambda>y. rbind (rmap f xs) (\<lambda>ys. Inr (y # ys)))"

definition nodesInInsertionOrder :: "graph \<Rightarrow> ptr list res" where
  "nodesInInsertionOrder g = rmap (\<lambda>name. rbind (node_at g name) (\<lambda>e. Inr (e_ptr e))) (insertionOrder g)"

definition parentsOf :: "graph \<Rightarrow> string \<Rightarrow> ptr list res" where
  "parentsOf g name = rbind (node_at g name) (\<lambda>e. Inr (e_parents e))"

definition childrenOf :: "graph \<Rightarrow> string \<Rightarrow> ptr list res" where
  "childrenOf g name = rbind (node_at g name) (\<lambda>e. Inr (e_children e))"

section \<open>Topological order\<close>

record visit_state =
  visited :: "ptr set"
  onStack :: "ptr set"
  v_order :: "ptr list"

text \<open>The recursion of \<^verbatim>\<open>visit\<close> is bounded by fuel; \<open>length (hashOrder g) + 1\<close> is always enough,
  because the nodes on the stack are distinct live nodes.\<close>

fun visit :: "nat \<Rightarrow> graph \<Rightarrow> ptr \<Rightarrow> visit_state \<Rightarrow> visit_state res" where
  "visit 0 g p s = Inl OutOfFuel"
| "visit (Suc f) g p s =
     (if p \<in> visited s then Inr s
      else if p \<in> onStack s
      then rbind (deref g p) (\<lambda>n. Inl (RuntimeError (''Graph contains a cycle at node: '' @ n_name n)))
      else rbind (deref g p) (\<lambda>n.
           rbind (childrenOf g (n_name n)) (\<lambda>children.
           rbind (rfold (visit f g) children (s\<lparr>onStack := insert p (onStack s)\<rparr>)) (\<lambda>s.
             Inr (s\<lparr>onStack := onStack s - {p}, visited := insert p (visited s), v_order := v_order s @ [p]\<rparr>)))))"

definition topologicalSort :: "graph \<Rightarrow> ptr list res" where
  "topologicalSort g =
     rbind (rfold (\<lambda>name s. rbind (node_at g name) (\<lambda>e.
         if e_ptr e \<in> visited s then Inr s else visit (length (hashOrder g) + 1) g (e_ptr e) s))
       (insertionOrder g) \<lparr>visited = {}, onStack = {}, v_order = []\<rparr>)
     (\<lambda>s. Inr (rev (v_order s)))"

section \<open>Wavefront levels\<close>

definition node_level :: "(ptr \<rightharpoonup> nat) \<Rightarrow> ptr list \<Rightarrow> nat" where
  "node_level level parents = fold (\<lambda>q current. case level q of
     Some l \<Rightarrow> if current < l + 1 then l + 1 else current | None \<Rightarrow> current) parents 0"

definition assign_levels :: "graph \<Rightarrow> ptr list \<Rightarrow> ((ptr \<rightharpoonup> nat) \<times> nat) res" where
  "assign_levels g order = rfold (\<lambda>p (level, maxLevel).
     rbind (deref g p) (\<lambda>n. rbind (parentsOf g (n_name n)) (\<lambda>parents.
       let current = node_level level parents
       in Inr (level(p \<mapsto> current), if maxLevel < current then current else maxLevel)))) order (Map.empty, 0)"

definition executionLevels :: "graph \<Rightarrow> ptr list list res" where
  "executionLevels g =
     rbind (topologicalSort g) (\<lambda>order.
     rbind (assign_levels g order) (\<lambda>(level, maxLevel).
       rfold (\<lambda>p levels. case level p of
           None \<Rightarrow> Inl (OutOfRange ''unordered_map::at'')
         | Some l \<Rightarrow> rbind (rd levels l) (\<lambda>xs. wr levels l (xs @ [p])))
         order (replicate (if order = [] then 0 else maxLevel + 1) [])))"

end
