(* ===== verification/Graph_Edges.thy ===== *)
theory Graph_Edges
  imports Graph
begin

text \<open>
  The edge invariant of the graph: the parent and child lists hold, for every ordered pair of
  distinct nodes, as many edges as outputs of the one feed the other, and only pointers to live
  nodes. Both edge builders are shown to be the same elementary step \<open>link\<close>, run over
  different lists of pairs; the invariant then follows by counting pairs.
\<close>

section \<open>Linking one pair\<close>

abbreviation nd :: "(string \<rightharpoonup> entry) \<Rightarrow> string \<Rightarrow> node" where
  "nd m k \<equiv> e_node (the (m k))"

abbreviation pt :: "(string \<rightharpoonup> entry) \<Rightarrow> string \<Rightarrow> ptr" where
  "pt m k \<equiv> e_ptr (the (m k))"

definition link :: "string \<times> string \<Rightarrow> (string \<rightharpoonup> entry) \<Rightarrow> (string \<rightharpoonup> entry)" where
  "link ab m = (let a = fst ab; b = snd ab; fs = feeds (nd m a) (nd m b)
     in upd_entry b (push_parents (map (\<lambda>_. pt m a) fs)) (upd_entry a (push_children (map (\<lambda>_. pt m b) fs)) m))"

definition link_all :: "(string \<times> string) list \<Rightarrow> (string \<rightharpoonup> entry) \<Rightarrow> (string \<rightharpoonup> entry)" where
  "link_all = fold link"

text \<open>What linking never changes: which names exist, their pointers and their nodes.\<close>

definition skel :: "(string \<rightharpoonup> entry) \<Rightarrow> string \<Rightarrow> (ptr \<times> node) option" where
  "skel m k = map_option (\<lambda>e. (e_ptr e, e_node e)) (m k)"

lemma skel_upd [simp]:
  "skel (upd_entry k (push_parents ps) m) = skel m" "skel (upd_entry k (push_children ps) m) = skel m"
  by (auto simp: skel_def upd_entry_def push_parents_def push_children_def fun_eq_iff option.map_comp comp_def)

lemma skel_link [simp]: "skel (link ab m) = skel m"
  by (simp add: link_def Let_def)

lemma skel_link_all [simp]: "skel (link_all ps m) = skel m"
  unfolding link_all_def by (induction ps arbitrary: m) auto

lemma skel_dom: "skel m = skel m' \<Longrightarrow> dom m = dom m'"
proof -
  have "dom n = {k. skel n k \<noteq> None}" for n by (auto simp: skel_def)
  then show "skel m = skel m' \<Longrightarrow> dom m = dom m'" by simp
qed

lemma skel_pt_nd: "skel m = skel m' \<Longrightarrow> k \<in> dom m \<Longrightarrow> pt m k = pt m' k \<and> nd m k = nd m' k"
proof -
  assume s: "skel m = skel m'" and k: "k \<in> dom m"
  then obtain e e' where e: "m k = Some e" "m' k = Some e'" using skel_dom [OF s] by blast
  have "skel m k = skel m' k" using s by simp
  with e show ?thesis by (simp add: skel_def)
qed

definition inj_ptr :: "(string \<rightharpoonup> entry) \<Rightarrow> bool" where
  "inj_ptr m = (\<forall>a\<in>dom m. \<forall>b\<in>dom m. pt m a = pt m b \<longrightarrow> a = b)"

lemma inj_ptr_skel: "skel m = skel m' \<Longrightarrow> inj_ptr m = inj_ptr m'"
proof -
  assume s: "skel m = skel m'"
  note d = skel_dom [OF s]
  have "pt m a = pt m' a" if "a \<in> dom m'" for a
    using skel_pt_nd [OF s] that d by simp
  then show ?thesis by (simp add: inj_ptr_def d)
qed

section \<open>Counting edges\<close>

definition kids :: "(string \<rightharpoonup> entry) \<Rightarrow> string \<Rightarrow> string \<Rightarrow> nat" where
  "kids m a b = count_list (e_children (the (m a))) (pt m b)"

definition pars :: "(string \<rightharpoonup> entry) \<Rightarrow> string \<Rightarrow> string \<Rightarrow> nat" where
  "pars m a b = count_list (e_parents (the (m b))) (pt m a)"

definition edges_live :: "(string \<rightharpoonup> entry) \<Rightarrow> bool" where
  "edges_live m = (\<forall>a\<in>dom m. set (e_children (the (m a))) \<union> set (e_parents (the (m a))) \<subseteq> pt m ` dom m)"

lemma count_const: "count_list (map (\<lambda>_. p) xs) q = (if p = q then length xs else 0)"
  by (induction xs) auto

lemma link_entries:
  assumes "a \<in> dom m" "b \<in> dom m" "a \<noteq> b"
  shows "e_children (the (link (a, b) m x)) = (if x = a then e_children (the (m a)) @ map (\<lambda>_. pt m b) (feeds (nd m a) (nd m b))
      else e_children (the (m x)))"
    and "e_parents (the (link (a, b) m x)) = (if x = b then e_parents (the (m b)) @ map (\<lambda>_. pt m a) (feeds (nd m a) (nd m b))
      else e_parents (the (m x)))"
  using assms by (auto simp: link_def Let_def upd_entry_def push_children_def push_parents_def)

lemma link_counts:
  assumes "a \<in> dom m" "b \<in> dom m" "a \<noteq> b" "inj_ptr m" "x \<in> dom m" "y \<in> dom m"
  shows "kids (link (a, b) m) x y = kids m x y + (if x = a \<and> y = b then length (feeds (nd m x) (nd m y)) else 0)"
    and "pars (link (a, b) m) x y = pars m x y + (if x = a \<and> y = b then length (feeds (nd m x) (nd m y)) else 0)"
proof -
  have pt: "pt (link (a, b) m) z = pt m z" if "z \<in> dom m" for z
    using skel_pt_nd [of m "link (a, b) m" z] that by simp
  have inj: "pt m u = pt m v \<longleftrightarrow> u = v" if "u \<in> dom m" "v \<in> dom m" for u v
    using assms(4) that by (auto simp: inj_ptr_def)
  show "kids (link (a, b) m) x y = kids m x y + (if x = a \<and> y = b then length (feeds (nd m x) (nd m y)) else 0)"
    unfolding kids_def link_entries(1) [OF assms(1-3)] pt [OF assms(6)]
    using assms by (auto simp: count_const inj)
  show "pars (link (a, b) m) x y = pars m x y + (if x = a \<and> y = b then length (feeds (nd m x) (nd m y)) else 0)"
    unfolding pars_def link_entries(2) [OF assms(1-3)] pt [OF assms(5)]
    using assms by (auto simp: count_const inj)
qed

lemma link_live:
  assumes "a \<in> dom m" "b \<in> dom m" "a \<noteq> b" "edges_live m"
  shows "edges_live (link (a, b) m)"
proof -
  have d: "dom (link (a, b) m) = dom m" by (rule skel_dom) simp
  have pt: "pt (link (a, b) m) z = pt m z" if "z \<in> dom m" for z
    using skel_pt_nd [of m "link (a, b) m" z] that by simp
  have im: "pt (link (a, b) m) ` dom m = pt m ` dom m" using pt by (rule image_cong [OF refl])
  have sub: "set (e_children (the (m x))) \<subseteq> pt m ` dom m" "set (e_parents (the (m x))) \<subseteq> pt m ` dom m"
    if "x \<in> dom m" for x
    using assms(4) that by (auto simp: edges_live_def)
  show ?thesis
    unfolding edges_live_def d im link_entries [OF assms(1-3)]
    using sub assms(1,2) by auto
qed

definition pairs_ok :: "(string \<rightharpoonup> entry) \<Rightarrow> (string \<times> string) list \<Rightarrow> bool" where
  "pairs_ok m ps = (\<forall>(a, b)\<in>set ps. a \<in> dom m \<and> b \<in> dom m \<and> a \<noteq> b)"

lemma link_all_counts:
  assumes "pairs_ok m ps" "inj_ptr m" "x \<in> dom m" "y \<in> dom m"
  shows "kids (link_all ps m) x y = kids m x y + count_list ps (x, y) * length (feeds (nd m x) (nd m y))
    \<and> pars (link_all ps m) x y = pars m x y + count_list ps (x, y) * length (feeds (nd m x) (nd m y))"
  using assms
proof (induction ps arbitrary: m)
  case Nil
  then show ?case by (simp add: link_all_def)
next
  case (Cons ab ps)
  obtain a b where ab: "ab = (a, b)" by (cases ab)
  have d: "dom (link ab m) = dom m" by (rule skel_dom) simp
  have ok: "a \<in> dom m" "b \<in> dom m" "a \<noteq> b" using Cons.prems(1) by (auto simp: pairs_ok_def ab)
  have nd: "nd (link ab m) z = nd m z" if "z \<in> dom m" for z
    using skel_pt_nd [of m "link ab m" z] that by simp
  have "kids (link_all ps (link ab m)) x y
      = kids (link ab m) x y + count_list ps (x, y) * length (feeds (nd m x) (nd m y))
    \<and> pars (link_all ps (link ab m)) x y
      = pars (link ab m) x y + count_list ps (x, y) * length (feeds (nd m x) (nd m y))"
    using Cons.IH [of "link ab m"] Cons.prems inj_ptr_skel [of "link ab m" m] nd
    by (simp add: pairs_ok_def d)
  then show ?case
    using link_counts [OF ok Cons.prems(2-4)] by (auto simp: ab link_all_def)
qed

lemma link_all_live: "pairs_ok m ps \<Longrightarrow> edges_live m \<Longrightarrow> edges_live (link_all ps m)"
proof (induction ps arbitrary: m)
  case (Cons ab ps)
  obtain a b where ab: "ab = (a, b)" by (cases ab)
  have d: "dom (link ab m) = dom m" by (rule skel_dom) simp
  have "edges_live (link ab m)" unfolding ab by (rule link_live) (use Cons.prems in \<open>auto simp: pairs_ok_def ab\<close>)
  with Cons show ?case by (simp add: link_all_def pairs_ok_def d)
qed (simp add: link_all_def)

section \<open>The two edge builders are lists of links\<close>

definition new_pairs :: "string \<Rightarrow> string list \<Rightarrow> (string \<times> string) list" where
  "new_pairs self xs = concat (map (\<lambda>x. if x = self then [] else [(x, self), (self, x)]) xs)"

definition all_pairs :: "string list \<Rightarrow> string list \<Rightarrow> (string \<times> string) list" where
  "all_pairs xs ys = concat (map (\<lambda>a. map (Pair a) (filter (\<lambda>b. b \<noteq> a) ys)) xs)"

lemma link_all_append: "link_all (ps @ qs) m = link_all qs (link_all ps m)"
  by (simp add: link_all_def)

lemma updateEdges_links:
  assumes "n_name node \<in> dom m" "pt m (n_name node) = p" "nd m (n_name node) = node" "inj_ptr m" "set xs \<subseteq> dom m"
  shows "updateEdges p node xs m = link_all (new_pairs (n_name node) xs) m"
  using assms
proof (induction xs arbitrary: m)
  case Nil
  then show ?case by (simp add: updateEdges_def link_all_def new_pairs_def)
next
  case (Cons x xs)
  define self where "self = n_name node"
  obtain e where e: "m x = Some e" using Cons.prems(5) by auto
  show ?case
  proof (cases "x = self")
    case True
    with e Cons.prems have "e_ptr e = p" by (simp add: self_def)
    with e True have "updateEdges p node (x # xs) m = updateEdges p node xs m"
      by (simp add: updateEdges_def Let_def)
    then show ?thesis using True Cons by (simp add: new_pairs_def self_def)
  next
    case False
    let ?m = "link (self, x) (link (x, self) m)"
    have sd: "self \<in> dom m" "x \<in> dom m" using Cons.prems e by (auto simp: self_def)
    then have ne: "e_ptr e \<noteq> p"
      using Cons.prems(2,4) False e unfolding inj_ptr_def self_def by (metis option.sel)
    have k: "skel (link (x, self) m) = skel m" "skel ?m = skel m" by simp_all
    have d: "dom ?m = dom m" by (rule skel_dom) simp
    have eq: "pt (link (x, self) m) z = pt m z" "nd (link (x, self) m) z = nd m z"
        "pt ?m z = pt m z" "nd ?m z = nd m z" if "z \<in> dom m" for z
      using skel_pt_nd [OF k(1) [symmetric] that] skel_pt_nd [OF k(2) [symmetric] that] by simp_all
    have L1: "link (x, self) m = upd_entry self (push_parents (map (\<lambda>_. e_ptr e) (feeds (e_node e) node)))
        (upd_entry x (push_children (map (\<lambda>_. p) (feeds (e_node e) node))) m)"
      using e Cons.prems(2,3) by (simp add: link_def Let_def self_def)
    have L2: "?m = upd_entry x (push_parents (map (\<lambda>_. p) (feeds node (e_node e))))
        (upd_entry self (push_children (map (\<lambda>_. e_ptr e) (feeds node (e_node e)))) (link (x, self) m))"
      using e Cons.prems(2,3) [folded self_def] eq(1,2) [OF sd(1)] eq(1,2) [OF sd(2)]
      by (simp add: link_def [of "(self, x)"] Let_def)
    have "updateEdges p node (x # xs) m = updateEdges p node xs ?m"
      unfolding L2 unfolding L1 using e ne by (simp add: updateEdges_def Let_def self_def)
    also have "\<dots> = link_all (new_pairs self xs) ?m"
      unfolding self_def
      by (rule Cons.IH) (use Cons.prems sd eq inj_ptr_skel [OF k(2)] in \<open>simp_all add: self_def [symmetric] d\<close>)
    finally show ?thesis using False by (simp add: new_pairs_def self_def link_all_def)
  qed
qed

lemma rebuild_inner_links:
  assumes "a \<in> dom m" "pt m a = e_ptr entry" "nd m a = e_node entry" "inj_ptr m" "set ys \<subseteq> dom m"
  shows "fold (\<lambda>otherName m. case m otherName of
                 None \<Rightarrow> m
               | Some other \<Rightarrow>
                   if e_ptr other = e_ptr entry then m
                   else let m = upd_entry a (push_children (map (\<lambda>_. e_ptr other) (feeds (e_node entry) (e_node other)))) m
                        in upd_entry otherName (push_parents (map (\<lambda>_. e_ptr entry) (feeds (e_node entry) (e_node other)))) m)
           ys m = link_all (map (Pair a) (filter (\<lambda>b. b \<noteq> a) ys)) m"
  using assms
proof (induction ys arbitrary: m)
  case Nil
  then show ?case by (simp add: link_all_def)
next
  case (Cons y ys)
  obtain e where e: "m y = Some e" using Cons.prems(5) by auto
  have same: "e_ptr e = e_ptr entry \<longleftrightarrow> y = a"
    using Cons.prems(1,2,4) e unfolding inj_ptr_def by (metis domI option.sel)
  show ?case
  proof (cases "y = a")
    case True
    with same e Cons show ?thesis by simp
  next
    case False
    let ?m = "link (a, y) m"
    have k: "skel ?m = skel m" by simp
    have d: "dom ?m = dom m" by (rule skel_dom) simp
    note eq = skel_pt_nd [OF k [symmetric] Cons.prems(1)]
    from Cons.IH [of ?m] Cons.prems eq inj_ptr_skel [OF k] False same e show ?thesis
      by (simp add: d link_all_def) (simp add: link_def Let_def)
  qed
qed

definition cleared :: "(string \<rightharpoonup> entry) \<Rightarrow> (string \<rightharpoonup> entry)" where
  "cleared m = (\<lambda>k. map_option (\<lambda>e. e\<lparr>e_parents := [], e_children := []\<rparr>) (m k))"

lemma skel_cleared [simp]: "skel (cleared m) = skel m"
  by (auto simp: skel_def cleared_def fun_eq_iff option.map_comp comp_def)

lemma rebuildEdges_links:
  assumes "inj_ptr (nodeMap g)" "set (hashOrder g) \<subseteq> dom (nodeMap g)" "set (insertionOrder g) \<subseteq> dom (nodeMap g)"
  shows "rebuildEdges g = Inr (g\<lparr>nodeMap := link_all (all_pairs (insertionOrder g) (hashOrder g)) (cleared (nodeMap g))\<rparr>)"
proof -
  let ?body = "\<lambda>name m. case m name of
           None \<Rightarrow> Inl (OutOfRange ''unordered_map::at'')
         | Some entry \<Rightarrow>
             Inr (fold (\<lambda>otherName m. case m otherName of
                 None \<Rightarrow> m
               | Some other \<Rightarrow>
                   if e_ptr other = e_ptr entry then m
                   else let m = upd_entry name (push_children (map (\<lambda>_. e_ptr other) (feeds (e_node entry) (e_node other)))) m
                        in upd_entry otherName (push_parents (map (\<lambda>_. e_ptr entry) (feeds (e_node entry) (e_node other)))) m)
               (hashOrder g) m)"
  let ?step = "\<lambda>a. link_all (map (Pair a) (filter (\<lambda>b. b \<noteq> a) (hashOrder g)))"
  have step: "?body a m = Inr (?step a m) \<and> skel (?step a m) = skel (nodeMap g)"
    if a: "a \<in> set (insertionOrder g)" and m: "skel m = skel (nodeMap g)" for a m
  proof -
    have d: "dom m = dom (nodeMap g)" using m by (rule skel_dom)
    then obtain e where e: "m a = Some e" using a assms(3) by blast
    have "a \<in> dom m" "pt m a = e_ptr e" "nd m a = e_node e" "inj_ptr m" "set (hashOrder g) \<subseteq> dom m"
      using e assms(1,2) d inj_ptr_skel [OF m] by auto
    from rebuild_inner_links [OF this] show ?thesis using e m by simp
  qed
  have "rfold ?body (insertionOrder g) (cleared (nodeMap g)) = Inr (fold ?step (insertionOrder g) (cleared (nodeMap g)))"
    by (rule rfold_pure [where P = "\<lambda>m. skel m = skel (nodeMap g)", THEN conjunct1])
       (use step in auto)
  moreover have "fold ?step xs m = link_all (all_pairs xs (hashOrder g)) m" for xs m
    by (induction xs arbitrary: m) (simp_all add: all_pairs_def link_all_def)
  ultimately show ?thesis by (simp add: rebuildEdges_def cleared_def Let_def)
qed

section \<open>The invariant of the graph\<close>

definition edges_exact :: "(string \<rightharpoonup> entry) \<Rightarrow> bool" where
  "edges_exact m = (\<forall>a\<in>dom m. \<forall>b\<in>dom m.
     kids m a b = (if a = b then 0 else length (feeds (nd m a) (nd m b))) \<and> pars m a b = kids m a b)"

definition graph_ok :: "graph \<Rightarrow> bool" where
  "graph_ok g =
     (distinct (hashOrder g) \<and> set (hashOrder g) = dom (nodeMap g) \<and>
      distinct (insertionOrder g) \<and> set (insertionOrder g) = dom (nodeMap g) \<and>
      inj_ptr (nodeMap g) \<and> (\<forall>a\<in>dom (nodeMap g). n_name (nd (nodeMap g) a) = a \<and>
        0 < pt (nodeMap g) a \<and> pt (nodeMap g) a < nextPtr g) \<and> 0 < nextPtr g \<and>
      edges_live (nodeMap g) \<and> edges_exact (nodeMap g))"

text \<open>Where an insertion may put a key: anywhere, with the other keys in any order.\<close>

definition ins_ok :: "insert_order \<Rightarrow> bool" where
  "ins_ok ins = (\<forall>xs k. distinct xs \<longrightarrow> k \<notin> set xs \<longrightarrow> distinct (ins xs k) \<and> set (ins xs k) = insert k (set xs))"

lemma graph_ok_new: "graph_ok graph_new"
  by (simp add: graph_ok_def graph_new_def inj_ptr_def edges_live_def edges_exact_def)

lemma count_new_pairs:
  "distinct xs \<Longrightarrow> count_list (new_pairs self xs) (a, b) =
     (if a \<noteq> b \<and> (a = self \<and> b \<in> set xs \<or> b = self \<and> a \<in> set xs) then 1 else 0)"
  by (induction xs) (auto simp: new_pairs_def)

lemma count_all_pairs:
  "distinct xs \<Longrightarrow> distinct ys \<Longrightarrow> count_list (all_pairs xs ys) (a, b) =
     (if a \<noteq> b \<and> a \<in> set xs \<and> b \<in> set ys then 1 else 0)"
proof (induction xs)
  case Nil
  then show ?case by (simp add: all_pairs_def)
next
  case (Cons x xs)
  have "count_list (map (Pair x) zs) (a, b) = (if a = x then count_list zs b else 0)" for zs
    by (induction zs) auto
  moreover have "count_list (filter (\<lambda>b. b \<noteq> x) ys) b = (if b \<noteq> x \<and> b \<in> set ys then 1 else 0)"
    using Cons.prems(2) by (induction ys) (auto simp: count_list_0_iff)
  ultimately show ?case using Cons by (auto simp: all_pairs_def)
qed

text \<open>Linking a complete list of pairs establishes exactness.\<close>

lemma edges_exact_links:
  assumes ok: "pairs_ok m ps" and inj: "inj_ptr m"
    and cnt: "\<And>a b. a \<in> dom m \<Longrightarrow> b \<in> dom m \<Longrightarrow>
      kids m a b + count_list ps (a, b) * length (feeds (nd m a) (nd m b)) = (if a = b then 0 else length (feeds (nd m a) (nd m b)))
      \<and> pars m a b = kids m a b"
  shows "edges_exact (link_all ps m)"
proof -
  have k: "skel (link_all ps m) = skel m" by simp
  have d: "dom (link_all ps m) = dom m" by (rule skel_dom) simp
  have nd: "nd (link_all ps m) z = nd m z" if "z \<in> dom m" for z
    using skel_pt_nd [OF k [symmetric] that] by simp
  show ?thesis
    unfolding edges_exact_def d
  proof (intro ballI)
    fix a b
    assume ab: "a \<in> dom m" "b \<in> dom m"
    show "kids (link_all ps m) a b = (if a = b then 0 else length (feeds (nd (link_all ps m) a) (nd (link_all ps m) b)))
        \<and> pars (link_all ps m) a b = kids (link_all ps m) a b"
      using link_all_counts [OF ok inj ab] cnt [OF ab] unfolding nd [OF ab(1)] nd [OF ab(2)] by simp
  qed
qed

lemma addNode_ok:
  assumes g: "graph_ok g" and new: "nodeMap g (n_name node) = None" and ins: "ins_ok ins"
  shows "graph_ok (addNode ins node g)"
proof -
  define self where "self = n_name node"
  define p where "p = nextPtr g"
  define ho where "ho = ins (hashOrder g) self"
  define m where "m = (nodeMap g)(self \<mapsto> \<lparr>e_ptr = p, e_node = node, e_parents = [], e_children = []\<rparr>)"
  let ?ps = "new_pairs self ho"
  have G: "distinct (hashOrder g)" "set (hashOrder g) = dom (nodeMap g)" "distinct (insertionOrder g)"
      "set (insertionOrder g) = dom (nodeMap g)" "inj_ptr (nodeMap g)" "edges_live (nodeMap g)"
      "edges_exact (nodeMap g)"
      "\<And>a. a \<in> dom (nodeMap g) \<Longrightarrow> n_name (nd (nodeMap g) a) = a \<and> 0 < pt (nodeMap g) a \<and> pt (nodeMap g) a < p"
      "0 < p"
    using g by (auto simp: graph_ok_def p_def)
  have self: "self \<notin> dom (nodeMap g)" using new by (auto simp: self_def)
  have ho: "distinct ho" "set ho = insert self (dom (nodeMap g))"
    using ins G(1,2) self unfolding ins_ok_def ho_def by auto
  have dm: "dom m = insert self (dom (nodeMap g))" by (simp add: m_def)
  have old: "m a = nodeMap g a" "a \<noteq> self" if "a \<in> dom (nodeMap g)" for a
    using that self by (auto simp: m_def)
  have new_e: "pt m self = p" "nd m self = node" "e_children (the (m self)) = []" "e_parents (the (m self)) = []"
    by (simp_all add: m_def)
  have inj: "inj_ptr m"
    unfolding inj_ptr_def
  proof (intro ballI impI)
    fix a b
    assume ab: "a \<in> dom m" "b \<in> dom m" and eq: "pt m a = pt m b"
    have lt: "pt m c < p" if "c \<in> dom (nodeMap g)" for c using G(8) [OF that] old(1) [OF that] by simp
    show "a = b"
    proof (cases "a = self \<or> b = self")
      case True
      then show ?thesis
        using ab eq lt [of a] lt [of b] new_e(1) unfolding dm by (metis insertE less_irrefl)
    next
      case False
      then have "a \<in> dom (nodeMap g)" "b \<in> dom (nodeMap g)" using ab dm by auto
      then show ?thesis using eq G(5) old(1) unfolding inj_ptr_def by metis
    qed
  qed
  have live: "edges_live m"
    unfolding edges_live_def dm
  proof
    fix a
    assume "a \<in> insert self (dom (nodeMap g))"
    then show "set (e_children (the (m a))) \<union> set (e_parents (the (m a))) \<subseteq> pt m ` insert self (dom (nodeMap g))"
    proof
      assume a: "a \<in> dom (nodeMap g)"
      have "pt m ` dom (nodeMap g) = pt (nodeMap g) ` dom (nodeMap g)"
        by (rule image_cong [OF refl]) (simp add: old(1))
      moreover have "set (e_children (the (m a))) \<union> set (e_parents (the (m a))) \<subseteq> pt (nodeMap g) ` dom (nodeMap g)"
        using G(6) a old(1) [OF a] by (simp add: edges_live_def)
      ultimately show ?thesis by auto
    qed (simp add: new_e)
  qed
  have add: "addNode ins node g = g\<lparr>nodeMap := link_all ?ps m, hashOrder := ho,
      insertionOrder := insertionOrder g @ [self], nextPtr := p + 1\<rparr>"
    using updateEdges_links [of node m p ho] new inj ho dm new_e
    by (simp add: addNode_def Let_def self_def p_def ho_def m_def)
  have ok: "pairs_ok m ?ps"
    using ho dm by (auto simp: pairs_ok_def new_pairs_def)
  have fresh: "count_list (e_children (the (m a))) p = 0" "count_list (e_parents (the (m a))) p = 0"
    if "a \<in> dom (nodeMap g)" for a
  proof -
    have "set (e_children (the (m a))) \<union> set (e_parents (the (m a))) \<subseteq> pt (nodeMap g) ` dom (nodeMap g)"
      using G(6) that old(1) [OF that] by (simp add: edges_live_def)
    moreover have "p \<notin> pt (nodeMap g) ` dom (nodeMap g)" using G(8) by fastforce
    ultimately show "count_list (e_children (the (m a))) p = 0" "count_list (e_parents (the (m a))) p = 0"
      by (auto simp: count_list_0_iff)
  qed
  have "edges_exact (link_all ?ps m)"
  proof (rule edges_exact_links [OF ok inj])
    fix a b
    assume ab: "a \<in> dom m" "b \<in> dom m"
    show "kids m a b + count_list ?ps (a, b) * length (feeds (nd m a) (nd m b))
        = (if a = b then 0 else length (feeds (nd m a) (nd m b))) \<and> pars m a b = kids m a b"
    proof (cases "a = self \<or> b = self")
      case True
      then have "kids m a b = 0" "pars m a b = 0"
        using fresh ab dm new_e by (auto simp: kids_def pars_def)
      then show ?thesis using True ab dm ho by (auto simp: count_new_pairs)
    next
      case False
      then have o: "a \<in> dom (nodeMap g)" "b \<in> dom (nodeMap g)" using ab dm by auto
      then have "kids (nodeMap g) a b = (if a = b then 0 else length (feeds (nd (nodeMap g) a) (nd (nodeMap g) b)))"
          "pars (nodeMap g) a b = kids (nodeMap g) a b"
        using G(7) unfolding edges_exact_def by blast+
      then show ?thesis
        using False ho old [OF o(1)] old [OF o(2)] by (simp add: kids_def pars_def count_new_pairs)
    qed
  qed
  moreover have k: "skel (link_all ?ps m) = skel m" by simp
  note d = skel_dom [OF k] and eq = skel_pt_nd [OF k [symmetric]]
  have "n_name (nd (link_all ?ps m) a) = a \<and> 0 < pt (link_all ?ps m) a \<and> pt (link_all ?ps m) a < p + 1"
    if a: "a \<in> dom m" for a
  proof (cases "a = self")
    case True
    then show ?thesis using eq [OF a] new_e(1,2) G(9) by (simp add: self_def)
  next
    case False
    then have "a \<in> dom (nodeMap g)" using a dm by auto
    from G(8) [OF this] old(1) [OF this] eq [OF a] show ?thesis by simp
  qed
  moreover have "inj_ptr (link_all ?ps m)" using inj_ptr_skel [OF k] inj by simp
  moreover have "edges_live (link_all ?ps m)" by (rule link_all_live [OF ok live])
  moreover have "distinct (insertionOrder g @ [self])" "set (insertionOrder g @ [self]) = dom m"
    using G(3,4) self dm by auto
  ultimately show ?thesis
    unfolding add graph_ok_def using ho dm d by simp
qed

text \<open>Removing a node rebuilds every edge, so it needs only that names and pointers are in order.\<close>

definition graph_skel_ok :: "graph \<Rightarrow> bool" where
  "graph_skel_ok g =
     (distinct (hashOrder g) \<and> set (hashOrder g) = dom (nodeMap g) \<and>
      distinct (insertionOrder g) \<and> set (insertionOrder g) = dom (nodeMap g) \<and>
      inj_ptr (nodeMap g) \<and> (\<forall>a\<in>dom (nodeMap g). n_name (nd (nodeMap g) a) = a \<and>
        0 < pt (nodeMap g) a \<and> pt (nodeMap g) a < nextPtr g) \<and> 0 < nextPtr g)"

lemma graph_ok_skel: "graph_ok g \<Longrightarrow> graph_skel_ok g"
  by (simp add: graph_ok_def graph_skel_ok_def)

lemma removeNode_rebuilds:
  assumes g: "graph_skel_ok g" and False: "nodeMap g name \<noteq> None"
  obtains g' where "removeNode name g = Inr g'" "graph_ok g'"
    "skel (nodeMap g') = (skel (nodeMap g))(name := None)" "g_inputs g' = g_inputs g" "g_outputs g' = g_outputs g"
    "insertionOrder g' = removeAll name (insertionOrder g)" "hashOrder g' = removeAll name (hashOrder g)"
proof -
  define m where "m = (nodeMap g)(name := None)"
  define h where "h = g\<lparr>nodeMap := m, hashOrder := removeAll name (hashOrder g), insertionOrder := removeAll name (insertionOrder g)\<rparr>"
  let ?ps = "all_pairs (insertionOrder h) (hashOrder h)"
  let ?m = "link_all ?ps (cleared m)"
  have h: "distinct (hashOrder h)" "set (hashOrder h) = dom m" "distinct (insertionOrder h)" "set (insertionOrder h) = dom m"
    using g by (auto simp: h_def graph_skel_ok_def m_def distinct_removeAll)
  have inj: "inj_ptr m" using g by (auto simp: graph_skel_ok_def inj_ptr_def m_def)
  have "removeNode name g = rebuildEdges h" unfolding removeNode_def if_not_P [OF False] h_def m_def ..
  also have "\<dots> = Inr (h\<lparr>nodeMap := ?m\<rparr>)"
    using rebuildEdges_links [of h] inj h by (simp add: h_def)
  finally have rm: "removeNode name g = Inr (h\<lparr>nodeMap := ?m\<rparr>)" .
  have k: "skel ?m = skel m" by simp
  have kc: "skel (cleared m) = skel m" by simp
  have dc: "dom (cleared m) = dom m" using kc by (rule skel_dom)
  have ok: "pairs_ok (cleared m) ?ps" using h dc by (auto simp: pairs_ok_def all_pairs_def)
  have injc: "inj_ptr (cleared m)" using inj_ptr_skel [OF kc] inj by simp
  have empty: "e_children (the (cleared m a)) = []" "e_parents (the (cleared m a)) = []" if "a \<in> dom m" for a
    using that by (auto simp: cleared_def)
  have "edges_exact ?m"
  proof (rule edges_exact_links [OF ok injc])
    fix a b
    assume "a \<in> dom (cleared m)" "b \<in> dom (cleared m)"
    then show "kids (cleared m) a b + count_list ?ps (a, b) * length (feeds (nd (cleared m) a) (nd (cleared m) b))
        = (if a = b then 0 else length (feeds (nd (cleared m) a) (nd (cleared m) b)))
        \<and> pars (cleared m) a b = kids (cleared m) a b"
      using h dc empty by (auto simp: kids_def pars_def count_all_pairs)
  qed
  moreover have "edges_live ?m"
    by (rule link_all_live [OF ok]) (use empty dc in \<open>auto simp: edges_live_def\<close>)
  moreover have "inj_ptr ?m" using inj_ptr_skel [OF k] inj by simp
  moreover have "n_name (nd ?m a) = a \<and> 0 < pt ?m a \<and> pt ?m a < nextPtr g" if "a \<in> dom m" for a
  proof -
    have "n_name (nd m a) = a \<and> 0 < pt m a \<and> pt m a < nextPtr g"
      using g that by (auto simp: graph_skel_ok_def m_def)
    then show ?thesis using skel_pt_nd [OF k [symmetric] that] by simp
  qed
  ultimately have "graph_ok (h\<lparr>nodeMap := ?m\<rparr>)"
    using h skel_dom [OF k] g by (simp add: graph_ok_def graph_skel_ok_def h_def)
  moreover have "skel m = (skel (nodeMap g))(name := None)" by (auto simp: skel_def m_def)
  ultimately show ?thesis using that rm k by (simp add: h_def)
qed

lemma removeNode_ok:
  assumes g: "graph_ok g"
  obtains g' where "removeNode name g = Inr g'" "graph_ok g'"
    "skel (nodeMap g') = (skel (nodeMap g))(name := None)" "g_inputs g' = g_inputs g" "g_outputs g' = g_outputs g"
    "insertionOrder g' = removeAll name (insertionOrder g)" "hashOrder g' = removeAll name (hashOrder g)"
proof (cases "nodeMap g name = None")
  case True
  then have "(skel (nodeMap g))(name := None) = skel (nodeMap g)" by (auto simp: skel_def)
  moreover have "removeAll name (insertionOrder g) = insertionOrder g" "removeAll name (hashOrder g) = hashOrder g"
    using g True by (auto simp: graph_ok_def intro!: removeAll_id)
  ultimately show ?thesis using that [of g] g True by (simp add: removeNode_def)
next
  case False
  show ?thesis by (rule removeNode_rebuilds [OF graph_ok_skel [OF g] False]) (rule that)
qed

end
