(* ===== verification/Graph_Topo.thy ===== *)
theory Graph_Topo
  imports Graph_Edges
begin

text \<open>
  The depth-first topological sort and the wavefront levels. On a graph that satisfies the edge
  invariant no pointer dangles and the fuel is enough; the sort returns exactly when the edges are
  acyclic, and then every edge goes forward; a level is the length of the longest path into
  the node.
\<close>

section \<open>Pointers of a well-formed graph\<close>

definition ptrs :: "graph \<Rightarrow> ptr set" where
  "ptrs g = pt (nodeMap g) ` dom (nodeMap g)"

definition succs :: "graph \<Rightarrow> ptr \<Rightarrow> ptr list" where
  "succs g p = (case rbind (deref g p) (\<lambda>n. childrenOf g (n_name n)) of Inr cs \<Rightarrow> cs | Inl _ \<Rightarrow> [])"

definition preds :: "graph \<Rightarrow> ptr \<Rightarrow> ptr list" where
  "preds g p = (case rbind (deref g p) (\<lambda>n. parentsOf g (n_name n)) of Inr cs \<Rightarrow> cs | Inl _ \<Rightarrow> [])"

definition edge_rel :: "graph \<Rightarrow> (ptr \<times> ptr) set" where
  "edge_rel g = {(p, q). p \<in> ptrs g \<and> q \<in> set (succs g p)}"

lemma find_unique:
  "x \<in> set xs \<Longrightarrow> P x \<Longrightarrow> (\<And>y. y \<in> set xs \<Longrightarrow> P y \<Longrightarrow> y = x) \<Longrightarrow> List.find P xs = Some x"
proof (induction xs)
  case (Cons a xs)
  show ?case
  proof (cases "P a")
    case True
    with Cons.prems(3) [of a] show ?thesis by simp
  next
    case False
    with Cons.prems(1,2) have "x \<in> set xs" by auto
    from Cons.IH [OF this Cons.prems(2)] Cons.prems(3) False show ?thesis by simp
  qed
qed simp

lemma live_entries_eq: "graph_ok g \<Longrightarrow> live_entries g = map (\<lambda>a. the (nodeMap g a)) (hashOrder g)"
proof -
  assume "graph_ok g"
  then have "filter (\<lambda>n. nodeMap g n \<noteq> None) (hashOrder g) = hashOrder g"
    by (auto simp: graph_ok_def filter_id_conv)
  then show ?thesis by (simp add: live_entries_def)
qed

lemma deref_pt:
  assumes g: "graph_ok g" and a: "a \<in> dom (nodeMap g)"
  shows "deref g (pt (nodeMap g) a) = Inr (nd (nodeMap g) a)"
proof -
  have "List.find (\<lambda>e. e_ptr e = pt (nodeMap g) a) (live_entries g) = Some (the (nodeMap g a))"
    unfolding live_entries_eq [OF g]
  proof (rule find_unique)
    show "the (nodeMap g a) \<in> set (map (\<lambda>a. the (nodeMap g a)) (hashOrder g))"
      using g a by (auto simp: graph_ok_def)
    fix e
    assume "e \<in> set (map (\<lambda>a. the (nodeMap g a)) (hashOrder g))" "e_ptr e = pt (nodeMap g) a"
    then obtain b where b: "b \<in> dom (nodeMap g)" "e = the (nodeMap g b)" "pt (nodeMap g) b = pt (nodeMap g) a"
      using g unfolding graph_ok_def set_map by blast
    then have "b = a" using g a unfolding graph_ok_def inj_ptr_def by blast
    with b show "e = the (nodeMap g a)" by simp
  qed simp
  then show ?thesis by (simp add: deref_def)
qed

lemma lists_pt:
  assumes g: "graph_ok g" and a: "a \<in> dom (nodeMap g)"
  shows "childrenOf g a = Inr (e_children (the (nodeMap g a)))" "parentsOf g a = Inr (e_parents (the (nodeMap g a)))"
    "succs g (pt (nodeMap g) a) = e_children (the (nodeMap g a))"
    "preds g (pt (nodeMap g) a) = e_parents (the (nodeMap g a))"
proof -
  show c: "childrenOf g a = Inr (e_children (the (nodeMap g a)))" "parentsOf g a = Inr (e_parents (the (nodeMap g a)))"
    using a by (auto simp: childrenOf_def parentsOf_def node_at_def)
  have "n_name (nd (nodeMap g) a) = a" using g a by (auto simp: graph_ok_def)
  then show "succs g (pt (nodeMap g) a) = e_children (the (nodeMap g a))"
      "preds g (pt (nodeMap g) a) = e_parents (the (nodeMap g a))"
    using deref_pt [OF g a] c by (simp_all add: succs_def preds_def)
qed

lemma succs_ok:
  assumes g: "graph_ok g" and p: "p \<in> ptrs g"
  obtains n where "deref g p = Inr n" "childrenOf g (n_name n) = Inr (succs g p)"
    "parentsOf g (n_name n) = Inr (preds g p)" "set (succs g p) \<subseteq> ptrs g" "set (preds g p) \<subseteq> ptrs g"
proof -
  obtain a where a: "a \<in> dom (nodeMap g)" "p = pt (nodeMap g) a" using p by (auto simp: ptrs_def)
  have "n_name (nd (nodeMap g) a) = a" using g a by (auto simp: graph_ok_def)
  moreover have "set (e_children (the (nodeMap g a))) \<subseteq> ptrs g" "set (e_parents (the (nodeMap g a))) \<subseteq> ptrs g"
    using g a by (auto simp: graph_ok_def edges_live_def ptrs_def)
  ultimately show ?thesis
    using that [of "nd (nodeMap g) a"] deref_pt [OF g a(1)] lists_pt [OF g a(1)] a(2) by simp
qed

lemma preds_succs:
  assumes g: "graph_ok g" and "p \<in> ptrs g" "q \<in> ptrs g"
  shows "p \<in> set (preds g q) \<longleftrightarrow> q \<in> set (succs g p)"
proof -
  obtain a b where a: "a \<in> dom (nodeMap g)" "p = pt (nodeMap g) a" and b: "b \<in> dom (nodeMap g)" "q = pt (nodeMap g) b"
    using assms(2,3) by (auto simp: ptrs_def)
  have "pars (nodeMap g) a b = kids (nodeMap g) a b"
    using g a b unfolding graph_ok_def edges_exact_def by blast
  then have "count_list (preds g q) p = count_list (succs g p) q"
    using lists_pt [OF g a(1)] lists_pt [OF g b(1)] a b by (simp add: pars_def kids_def)
  then show ?thesis by (metis count_list_0_iff)
qed

lemma finite_ptrs: "graph_ok g \<Longrightarrow> finite (ptrs g) \<and> card (ptrs g) \<le> length (hashOrder g)"
proof -
  assume g: "graph_ok g"
  then have "ptrs g = set (map (pt (nodeMap g)) (hashOrder g))" by (auto simp: graph_ok_def ptrs_def)
  moreover have "card (set (map (pt (nodeMap g)) (hashOrder g))) \<le> length (hashOrder g)"
    using card_length [of "map (pt (nodeMap g)) (hashOrder g)"] by simp
  ultimately show ?thesis by simp
qed

section \<open>The depth-first search\<close>

definition dfs_inv :: "graph \<Rightarrow> visit_state \<Rightarrow> bool" where
  "dfs_inv g s = (visited s = set (v_order s) \<and> distinct (v_order s) \<and> visited s \<inter> onStack s = {} \<and>
     visited s \<subseteq> ptrs g \<and> onStack s \<subseteq> ptrs g \<and>
     (\<forall>xs p ys. v_order s = xs @ p # ys \<longrightarrow> set (succs g p) \<subseteq> set xs))"

text \<open>The two ways a run can end: \<open>ps\<close> visited and the stack as before, or a cycle reported.\<close>

definition dfs_done :: "graph \<Rightarrow> visit_state \<Rightarrow> ptr set \<Rightarrow> visit_state res \<Rightarrow> bool" where
  "dfs_done g s ps r = (case r of
     Inr s' \<Rightarrow> dfs_inv g s' \<and> onStack s' = onStack s \<and> visited s \<union> ps \<subseteq> visited s'
   | Inl e \<Rightarrow> \<exists>q n. q \<in> ptrs g \<and> (q, q) \<in> (edge_rel g)\<^sup>+ \<and> deref g q = Inr n \<and>
       e = RuntimeError (''Graph contains a cycle at node: '' @ n_name n))"

lemma visit_list:
  assumes one: "\<And>p s. p \<in> set ps \<Longrightarrow> dfs_inv g s \<Longrightarrow> onStack s = st \<Longrightarrow> dfs_done g s {p} (f p s)"
    and "dfs_inv g s" "onStack s = st"
  shows "dfs_done g s (set ps) (rfold f ps s)"
  using assms
proof (induction ps arbitrary: s)
  case Nil
  then show ?case by (simp add: dfs_done_def)
next
  case (Cons p ps)
  have d: "dfs_done g s {p} (f p s)" using Cons.prems by simp
  show ?case
  proof (cases "f p s")
    case (Inl e)
    then show ?thesis using d by (simp add: dfs_done_def)
  next
    case (Inr s1)
    then have s1: "dfs_inv g s1" "onStack s1 = st" "visited s \<union> {p} \<subseteq> visited s1"
      using d Cons.prems(3) by (auto simp: dfs_done_def)
    have "dfs_done g s1 (set ps) (rfold f ps s1)"
      using Cons.IH [OF _ s1(1,2)] Cons.prems(1) by simp
    then show ?thesis
      using Inr s1 Cons.prems(3) by (auto simp: dfs_done_def split: sum.splits)
  qed
qed

lemma visit_spec:
  assumes g: "graph_ok g"
  shows "p \<in> ptrs g \<Longrightarrow> dfs_inv g s \<Longrightarrow> card (ptrs g - onStack s) < f \<Longrightarrow>
    (\<And>q. q \<in> onStack s \<Longrightarrow> (q, p) \<in> (edge_rel g)\<^sup>+) \<Longrightarrow> dfs_done g s {p} (visit f g p s)"
proof (induction f arbitrary: p s)
  case (Suc f)
  obtain n where n: "deref g p = Inr n" "childrenOf g (n_name n) = Inr (succs g p)" "set (succs g p) \<subseteq> ptrs g"
    by (rule succs_ok [OF g Suc.prems(1)]) blast
  show ?case
  proof (cases "p \<in> visited s \<or> p \<in> onStack s")
    case True
    then show ?thesis
      using Suc.prems n by (auto simp: dfs_done_def)
  next
    case False
    let ?s = "s\<lparr>onStack := insert p (onStack s)\<rparr>"
    have inv: "dfs_inv g ?s" using Suc.prems(1,2) False by (auto simp: dfs_inv_def)
    have "ptrs g - onStack ?s \<subset> ptrs g - onStack s" using Suc.prems(1) False by auto
    then have less: "card (ptrs g - onStack ?s) < f"
      using psubset_card_mono [of "ptrs g - onStack s"] finite_ptrs [OF g] Suc.prems(3) by fastforce
    have path: "(q, c) \<in> (edge_rel g)\<^sup>+" if "q \<in> insert p (onStack s)" "c \<in> set (succs g p)" for q c
    proof -
      have "(p, c) \<in> edge_rel g" using that Suc.prems(1) by (simp add: edge_rel_def)
      with that Suc.prems(4) show ?thesis by (auto intro: trancl_into_trancl)
    qed
    have "dfs_done g ?s (set (succs g p)) (rfold (visit f g) (succs g p) ?s)"
    proof (rule visit_list [where st = "insert p (onStack s)"])
      fix c t
      assume "c \<in> set (succs g p)" "dfs_inv g t" "onStack t = insert p (onStack s)"
      then show "dfs_done g t {c} (visit f g c t)"
        using n(3) less path by (intro Suc.IH) auto
    qed (use inv in simp_all)
    then show ?thesis
    proof (cases "rfold (visit f g) (succs g p) ?s")
      case (Inl e)
      with \<open>dfs_done g ?s (set (succs g p)) (rfold (visit f g) (succs g p) ?s)\<close> False n show ?thesis
        by (simp add: dfs_done_def)
    next
      case (Inr t)
      with \<open>dfs_done g ?s (set (succs g p)) (rfold (visit f g) (succs g p) ?s)\<close>
      have t: "dfs_inv g t" "onStack t = insert p (onStack s)" "visited s \<union> set (succs g p) \<subseteq> visited t"
        by (auto simp: dfs_done_def)
      let ?t = "t\<lparr>onStack := onStack t - {p}, visited := insert p (visited t), v_order := v_order t @ [p]\<rparr>"
      have "p \<notin> visited t" using t(1,2) by (auto simp: dfs_inv_def)
      moreover have "set (succs g q) \<subseteq> set xs" if "v_order t @ [p] = xs @ q # ys" for xs q ys
      proof (cases ys rule: rev_cases)
        case Nil
        then show ?thesis using that t(1,3) by (auto simp: dfs_inv_def)
      next
        case (snoc zs z)
        then have "v_order t = xs @ q # zs" using that by simp
        then show ?thesis using t(1) by (simp add: dfs_inv_def)
      qed
      ultimately have "dfs_inv g ?t"
        using t(1,2) Suc.prems(1) by (auto simp: dfs_inv_def)
      then show ?thesis using Inr t False n by (auto simp: dfs_done_def)
    qed
  qed
qed simp

section \<open>The order\<close>

definition before :: "'a list \<Rightarrow> 'a \<Rightarrow> 'a \<Rightarrow> bool" where
  "before xs p q = (\<exists>us vs. xs = us @ p # vs \<and> q \<in> set vs)"

definition topo_order :: "graph \<Rightarrow> ptr list \<Rightarrow> bool" where
  "topo_order g order = (distinct order \<and> set order = ptrs g \<and>
     (\<forall>(p, q)\<in>edge_rel g. before order p q))"

lemma takeWhile_until: "p \<notin> set vs \<Longrightarrow> takeWhile (\<lambda>x. x \<noteq> p) (vs @ p # us) = vs"
  by (induction vs) auto

lemma before_Cons: "before (a # xs) q p \<longleftrightarrow> (q = a \<and> p \<in> set xs) \<or> before xs q p"
proof
  assume "before (a # xs) q p"
  then obtain us vs where "a # xs = us @ q # vs" "p \<in> set vs" by (auto simp: before_def)
  then show "(q = a \<and> p \<in> set xs) \<or> before xs q p"
    by (cases us) (auto simp: before_def)
next
  assume "(q = a \<and> p \<in> set xs) \<or> before xs q p"
  then show "before (a # xs) q p"
    unfolding before_def by (metis append_Cons append_Nil)
qed

lemma before_last: "before xs q p \<Longrightarrow> p \<in> set xs"
  by (auto simp: before_def)

lemma before_split: "distinct (us @ p # ws) \<Longrightarrow> before (us @ p # ws) q p \<Longrightarrow> q \<in> set us"
  by (induction us) (auto simp: before_Cons dest: before_last)

lemma topo_order_acyclic: "topo_order g order \<Longrightarrow> acyclic (edge_rel g)"
proof (rule acyclicI_order [where f = "\<lambda>p. length (takeWhile (\<lambda>x. x \<noteq> p) (rev order))"])
  fix p q
  assume t: "topo_order g order" and "(p, q) \<in> edge_rel g"
  then obtain us vs where o: "order = us @ p # vs" "q \<in> set vs" "distinct order"
    by (auto simp: topo_order_def before_def)
  obtain as bs where vs: "vs = as @ q # bs" using o(2) by (auto simp: in_set_conv_decomp)
  have "takeWhile (\<lambda>x. x \<noteq> p) (rev order) = rev vs"
    using o takeWhile_until [of p "rev vs" "rev us"] by simp
  moreover have "takeWhile (\<lambda>x. x \<noteq> q) (rev order) = rev bs"
    using o takeWhile_until [of q "rev bs" "rev as @ p # rev us"] by (simp add: vs)
  ultimately show "length (takeWhile (\<lambda>x. x \<noteq> q) (rev order)) < length (takeWhile (\<lambda>x. x \<noteq> p) (rev order))"
    by (simp add: vs)
qed

lemma topologicalSort_spec:
  assumes g: "graph_ok g"
  shows "(\<exists>order. topologicalSort g = Inr order \<and> topo_order g order) \<or>
    (\<exists>q n. q \<in> ptrs g \<and> (q, q) \<in> (edge_rel g)\<^sup>+ \<and> deref g q = Inr n \<and>
      topologicalSort g = Inl (RuntimeError (''Graph contains a cycle at node: '' @ n_name n)))"
proof -
  let ?s0 = "\<lparr>visited = {}, onStack = {}, v_order = []\<rparr>"
  let ?body = "\<lambda>name s. rbind (node_at g name) (\<lambda>e. if e_ptr e \<in> visited s then Inr s
      else visit (length (hashOrder g) + 1) g (e_ptr e) s)"
  have names: "set (insertionOrder g) = dom (nodeMap g)" using g by (simp add: graph_ok_def)
  let ?f = "\<lambda>p s. if p \<in> visited s then Inr s else visit (length (hashOrder g) + 1) g p s"
  have "rfold ?body (insertionOrder g) s = rfold ?f (map (pt (nodeMap g)) (insertionOrder g)) s" for s
  proof -
    have "set xs \<subseteq> dom (nodeMap g) \<Longrightarrow> rfold ?body xs s = rfold ?f (map (pt (nodeMap g)) xs) s" for xs s
      by (induction xs arbitrary: s) (auto simp: node_at_def intro!: rbind_cong)
    then show ?thesis using names by simp
  qed
  moreover have "dfs_done g ?s0 (set (map (pt (nodeMap g)) (insertionOrder g)))
      (rfold ?f (map (pt (nodeMap g)) (insertionOrder g)) ?s0)"
  proof (rule visit_list [where st = "{}"])
    fix p s
    assume "p \<in> set (map (pt (nodeMap g)) (insertionOrder g))" and s: "dfs_inv g s" "onStack s = {}"
    then have p: "p \<in> ptrs g" using names by (auto simp: ptrs_def)
    show "dfs_done g s {p} (?f p s)"
    proof (cases "p \<in> visited s")
      case False
      then show ?thesis
        using visit_spec [OF g p s(1), of "length (hashOrder g) + 1"] finite_ptrs [OF g] s(2) by simp
    qed (use s in \<open>simp add: dfs_done_def\<close>)
  qed (simp_all add: dfs_inv_def)
  moreover have "set (map (pt (nodeMap g)) (insertionOrder g)) = ptrs g" using names by (simp add: ptrs_def)
  ultimately have d: "dfs_done g ?s0 (ptrs g) (rfold ?body (insertionOrder g) ?s0)" by simp
  show ?thesis
  proof (cases "rfold ?body (insertionOrder g) ?s0")
    case (Inl e)
    then show ?thesis using d by (auto simp: dfs_done_def topologicalSort_def)
  next
    case (Inr s)
    then have s: "dfs_inv g s" "ptrs g \<subseteq> visited s" using d by (auto simp: dfs_done_def)
    have "before (rev (v_order s)) p q" if "(p, q) \<in> edge_rel g" for p q
    proof -
      have "p \<in> set (v_order s)" "q \<in> set (succs g p)" using that s by (auto simp: edge_rel_def dfs_inv_def)
      then obtain xs ys where o: "v_order s = xs @ p # ys" by (auto simp: in_set_conv_decomp)
      then have "set (succs g p) \<subseteq> set xs" using s(1) unfolding dfs_inv_def by blast
      then have "q \<in> set xs" using \<open>q \<in> set (succs g p)\<close> by blast
      then show ?thesis unfolding before_def using o by (intro exI [of _ "rev ys"] exI [of _ "rev xs"]) simp
    qed
    then have "topo_order g (rev (v_order s))"
      using s by (auto simp: topo_order_def dfs_inv_def)
    then show ?thesis using Inr by (simp add: topologicalSort_def)
  qed
qed

lemma topologicalSort_iff:
  assumes g: "graph_ok g"
  shows "(\<exists>order. topologicalSort g = Inr order) \<longleftrightarrow> acyclic (edge_rel g)"
  using topologicalSort_spec [OF g] topo_order_acyclic [of g] by (auto simp: acyclic_def)

lemma topologicalSort_order:
  "graph_ok g \<Longrightarrow> topologicalSort g = Inr order \<Longrightarrow> topo_order g order"
  using topologicalSort_spec [of g] by auto

section \<open>Levels\<close>

definition level_ok :: "graph \<Rightarrow> (ptr \<rightharpoonup> nat) \<Rightarrow> ptr \<Rightarrow> bool" where
  "level_ok g level p = (\<exists>l. level p = Some l \<and> (\<forall>q\<in>set (preds g p). \<exists>k<l. level q = Some k) \<and>
     (0 < l \<longrightarrow> (\<exists>q\<in>set (preds g p). level q = Some (l - 1))))"

lemma node_level_spec:
  assumes "\<And>q. q \<in> set ps \<Longrightarrow> level q \<noteq> None"
  shows "(\<forall>q\<in>set ps. the (level q) < node_level level ps) \<and>
    (0 < node_level level ps \<longrightarrow> (\<exists>q\<in>set ps. level q = Some (node_level level ps - 1)))"
proof -
  let ?f = "\<lambda>q current. case level q of Some l \<Rightarrow> if current < l + 1 then l + 1 else current | None \<Rightarrow> current"
  have "(\<And>q. q \<in> set ps \<Longrightarrow> level q \<noteq> None) \<Longrightarrow>
    c \<le> fold ?f ps c \<and> (\<forall>q\<in>set ps. the (level q) < fold ?f ps c) \<and>
    (fold ?f ps c = c \<or> (\<exists>q\<in>set ps. level q = Some (fold ?f ps c - 1)))" for c
  proof (induction ps arbitrary: c)
    case (Cons q ps)
    obtain l where l: "level q = Some l" using Cons.prems by auto
    have IH: "c' \<le> fold ?f ps c' \<and> (\<forall>q\<in>set ps. the (level q) < fold ?f ps c') \<and>
      (fold ?f ps c' = c' \<or> (\<exists>q\<in>set ps. level q = Some (fold ?f ps c' - 1)))" for c'
      using Cons by simp
    have "fold ?f (q # ps) c = fold ?f ps (max (l + 1) c)" using l by (simp add: max_def)
    moreover have "max (l + 1) c = c \<or> max (l + 1) c = l + 1" by (simp add: max_def)
    ultimately show ?case using IH [of "max (l + 1) c"] l by fastforce
  qed simp
  from this [of 0] assms show ?thesis by (auto simp: node_level_def)
qed

lemma level_ok_mono:
  "level_ok g level p \<Longrightarrow> q \<notin> dom level \<Longrightarrow> level_ok g (level(q \<mapsto> l)) p"
proof -
  assume ok: "level_ok g level p" and q: "q \<notin> dom level"
  then have same: "level x = Some k \<Longrightarrow> (level(q \<mapsto> l)) x = Some k" for x k by auto
  from ok obtain i where i: "level p = Some i" "\<forall>x\<in>set (preds g p). \<exists>k<i. level x = Some k"
      "0 < i \<longrightarrow> (\<exists>x\<in>set (preds g p). level x = Some (i - 1))"
    unfolding level_ok_def by blast
  show ?thesis
    unfolding level_ok_def using i same by (intro exI [of _ i]) meson
qed

lemma assign_levels_spec:
  assumes g: "graph_ok g" and o: "topo_order g order"
  shows "us @ ws = order \<Longrightarrow> \<exists>level m. assign_levels g us = Inr (level, m) \<and> dom level = set us \<and>
    (\<forall>p\<in>set us. level_ok g level p) \<and> (\<forall>p\<in>set us. the (level p) \<le> m) \<and>
    (us = [] \<longrightarrow> m = 0) \<and> (us \<noteq> [] \<longrightarrow> (\<exists>p\<in>set us. level p = Some m))"
proof (induction us arbitrary: ws rule: rev_induct)
  case Nil
  then show ?case by (simp add: assign_levels_def)
next
  case (snoc p us)
  from snoc.IH [of "p # ws"] snoc.prems obtain level m where IH: "assign_levels g us = Inr (level, m)"
    "dom level = set us" "\<forall>p\<in>set us. level_ok g level p" "\<forall>p\<in>set us. the (level p) \<le> m"
    "us = [] \<longrightarrow> m = 0" "us \<noteq> [] \<longrightarrow> (\<exists>p\<in>set us. level p = Some m)" by auto
  have order: "order = us @ p # ws" using snoc.prems by simp
  have p: "p \<in> ptrs g" and new: "p \<notin> set us" using o order by (auto simp: topo_order_def)
  obtain n where n: "deref g p = Inr n" "parentsOf g (n_name n) = Inr (preds g p)" "set (preds g p) \<subseteq> ptrs g"
    by (rule succs_ok [OF g p]) blast
  have parents: "q \<in> set us" if q: "q \<in> set (preds g p)" for q
  proof -
    have "(q, p) \<in> edge_rel g" using q n(3) preds_succs [OF g _ p] by (auto simp: edge_rel_def)
    then have "before (us @ p # ws) q p" "distinct (us @ p # ws)" using o order by (auto simp: topo_order_def)
    then show ?thesis by (rule before_split [rotated])
  qed
  define l where "l = node_level level (preds g p)"
  have L: "\<forall>q\<in>set (preds g p). the (level q) < l" "0 < l \<longrightarrow> (\<exists>q\<in>set (preds g p). level q = Some (l - 1))"
    using node_level_spec [of "preds g p" level] parents IH(2) unfolding l_def by blast+
  let ?level = "level(p \<mapsto> l)"
  have "assign_levels g (us @ [p]) = Inr (?level, if m < l then l else m)"
    using IH(1) n by (simp add: assign_levels_def rfold_append l_def Let_def)
  moreover have "level_ok g ?level p"
  proof -
    have "\<exists>k<l. ?level q = Some k" if q: "q \<in> set (preds g p)" for q
    proof -
      obtain k where "level q = Some k" using parents [OF q] IH(2) by blast
      moreover have "q \<noteq> p" using parents [OF q] new by auto
      ultimately show ?thesis using L(1) q by auto
    qed
    moreover have "\<exists>q\<in>set (preds g p). ?level q = Some (l - 1)" if "0 < l"
      using L(2) that parents new by fastforce
    ultimately show ?thesis by (auto simp: level_ok_def)
  qed
  moreover have "level_ok g ?level q" if "q \<in> set us" for q
    using IH(2,3) that new by (intro level_ok_mono) auto
  moreover have "(\<exists>q\<in>set (us @ [p]). ?level q = Some (if m < l then l else m))"
  proof (cases "m < l \<or> us = []")
    case True
    then show ?thesis using IH(5) by auto
  next
    case False
    then obtain q where "q \<in> set us" "level q = Some m" using IH(6) by auto
    then show ?thesis using False new by (intro bexI [of _ q]) auto
  qed
  moreover have "the (?level q) \<le> (if m < l then l else m)" if "q \<in> set (us @ [p])" for q
    using IH(4) that by auto
  ultimately show ?case using IH(2) by auto
qed

lemma place_levels:
  "(\<And>p. p \<in> set us \<Longrightarrow> \<exists>l<n. level p = Some l) \<Longrightarrow>
   rfold (\<lambda>p levels. case level p of
           None \<Rightarrow> Inl (OutOfRange ''unordered_map::at'')
         | Some l \<Rightarrow> rbind (rd levels l) (\<lambda>xs. wr levels l (xs @ [p]))) us (replicate n [])
   = Inr (map (\<lambda>i. filter (\<lambda>p. level p = Some i) us) [0..<n])"
proof (induction us rule: rev_induct)
  case Nil
  then show ?case by (simp add: map_replicate_trivial)
next
  case (snoc p us)
  obtain l where l: "l < n" "level p = Some l" using snoc.prems [of p] by auto
  let ?f = "\<lambda>us i. filter (\<lambda>p. level p = Some i) us"
  have "(map (?f us) [0..<n])[l := ?f us l @ [p]] = map (?f (us @ [p])) [0..<n]"
    by (rule nth_equalityI) (auto simp: nth_list_update l)
  then show ?case using snoc l by (simp add: rfold_append)
qed

text \<open>The levels as a partition into a chain of layers.\<close>

definition layered :: "graph \<Rightarrow> ptr list list \<Rightarrow> bool" where
  "layered g Ls = (distinct (concat Ls) \<and> set (concat Ls) = ptrs g \<and>
     (\<forall>i<length Ls. Ls ! i \<noteq> [] \<and> (\<forall>p\<in>set (Ls ! i).
        (\<forall>q. (q, p) \<in> edge_rel g \<longrightarrow> (\<exists>j<i. q \<in> set (Ls ! j))) \<and>
        (0 < i \<longrightarrow> (\<exists>q\<in>set (Ls ! (i - 1)). (q, p) \<in> edge_rel g)))))"

lemma concat_filter_levels:
  assumes "distinct us" "\<And>p. p \<in> set us \<Longrightarrow> \<exists>l<n. level p = Some l"
  shows "distinct (concat (map (\<lambda>i. filter (\<lambda>p. level p = Some i) us) [0..<n]))"
    and "set (concat (map (\<lambda>i. filter (\<lambda>p. level p = Some i) us) [0..<n])) = set us"
proof -
  show "distinct (concat (map (\<lambda>i. filter (\<lambda>p. level p = Some i) us) [0..<n]))"
    using assms(1) by (induction n) auto
  show "set (concat (map (\<lambda>i. filter (\<lambda>p. level p = Some i) us) [0..<n])) = set us"
    using assms(2) by fastforce
qed

lemma executionLevels_spec:
  assumes g: "graph_ok g" and t: "topologicalSort g = Inr order"
  shows "\<exists>Ls. executionLevels g = Inr Ls \<and> layered g Ls"
proof -
  note o = topologicalSort_order [OF g t]
  obtain level m where A: "assign_levels g order = Inr (level, m)" "dom level = set order"
      "\<forall>p\<in>set order. level_ok g level p" "\<forall>p\<in>set order. the (level p) \<le> m"
      "order \<noteq> [] \<longrightarrow> (\<exists>p\<in>set order. level p = Some m)"
    using assign_levels_spec [OF g o, of order "[]"] by auto
  define n where "n = (if order = [] then 0 else m + 1)"
  have dist: "distinct order" and all: "set order = ptrs g" using o by (auto simp: topo_order_def)
  have bound: "\<exists>l<n. level p = Some l" if "p \<in> set order" for p
    using A(2,4) that by (cases "level p") (auto simp: n_def)
  let ?L = "\<lambda>i. filter (\<lambda>p. level p = Some i) order"
  let ?Ls = "map ?L [0..<n]"
  have "executionLevels g = Inr ?Ls"
    unfolding executionLevels_def t A(1) rbind.simps prod.case n_def [symmetric]
    by (rule place_levels [OF bound])
  moreover have "layered g ?Ls"
  proof -
    have mem: "q \<in> set (?Ls ! i) \<longleftrightarrow> q \<in> ptrs g \<and> level q = Some i" if "i < n" for q i
      using that all by auto
    have pred: "(q, p) \<in> edge_rel g \<longleftrightarrow> q \<in> set (preds g p)" if "p \<in> ptrs g" for q p
    proof -
      have "set (preds g p) \<subseteq> ptrs g" by (rule succs_ok [OF g that])
      then show ?thesis using preds_succs [OF g _ that] by (auto simp: edge_rel_def)
    qed
    have ex: "\<exists>p\<in>ptrs g. level p = Some (m - k)" if "order \<noteq> []" "k \<le> m" for k
      using that(2)
    proof (induction k)
      case 0
      then show ?case using A(5) that(1) all by auto
    next
      case (Suc k)
      then obtain p where p: "p \<in> ptrs g" "level p = Some (m - k)" by auto
      then obtain q where q: "q \<in> set (preds g p)" "level q = Some (m - k - 1)"
        using A(3) Suc.prems all by (fastforce simp: level_ok_def)
      have "set (preds g p) \<subseteq> ptrs g" by (rule succs_ok [OF g p(1)])
      with q show ?case by auto
    qed
    have "?Ls ! i \<noteq> []" if i: "i < n" for i
    proof -
      have "order \<noteq> []" "i \<le> m" using i by (auto simp: n_def split: if_splits)
      then obtain p where "p \<in> ptrs g" "level p = Some i" using ex [of "m - i"] by auto
      then have "p \<in> set (?Ls ! i)" using mem [OF i] by simp
      then show ?thesis by auto
    qed
    moreover have "(\<forall>q. (q, p) \<in> edge_rel g \<longrightarrow> (\<exists>j<i. q \<in> set (?Ls ! j))) \<and>
        (0 < i \<longrightarrow> (\<exists>q\<in>set (?Ls ! (i - 1)). (q, p) \<in> edge_rel g))"
      if i: "i < n" and p: "p \<in> set (?Ls ! i)" for i p
    proof -
      have pp: "p \<in> ptrs g" "level p = Some i" using p mem [OF i] by auto
      then have lo: "\<forall>q\<in>set (preds g p). \<exists>k<i. level q = Some k"
          "0 < i \<longrightarrow> (\<exists>q\<in>set (preds g p). level q = Some (i - 1))"
      proof -
        have "level_ok g level p" using A(3) all pp(1) by simp
        then obtain l where l: "level p = Some l" "\<forall>q\<in>set (preds g p). \<exists>k<l. level q = Some k"
          "0 < l \<longrightarrow> (\<exists>q\<in>set (preds g p). level q = Some (l - 1))"
          unfolding level_ok_def by blast
        then have "l = i" using pp(2) by simp
        then show "\<forall>q\<in>set (preds g p). \<exists>k<i. level q = Some k"
          "0 < i \<longrightarrow> (\<exists>q\<in>set (preds g p). level q = Some (i - 1))" using l by blast+
      qed
      have "\<exists>j<i. q \<in> set (?Ls ! j)" if "(q, p) \<in> edge_rel g" for q
      proof -
        have "q \<in> set (preds g p)" "q \<in> ptrs g" using that pred [OF pp(1)] by (auto simp: edge_rel_def)
        moreover obtain k where "k < i" "level q = Some k" using lo(1) calculation(1) by blast
        ultimately show ?thesis using mem [of k q] i by auto
      qed
      moreover have "\<exists>q\<in>set (?Ls ! (i - 1)). (q, p) \<in> edge_rel g" if pos: "0 < i"
      proof -
        obtain q where "q \<in> set (preds g p)" "level q = Some (i - 1)" using lo(2) pos by blast
        moreover from this have "(q, p) \<in> edge_rel g" using pred [OF pp(1)] by simp
        moreover from this have "q \<in> ptrs g" by (simp add: edge_rel_def)
        moreover have "i - 1 < n" using i by simp
        ultimately show ?thesis using mem [of "i - 1" q] by blast
      qed
      ultimately show ?thesis by blast
    qed
    ultimately show ?thesis
      unfolding layered_def using concat_filter_levels [OF dist bound] all by simp
  qed
  ultimately show ?thesis by blast
qed

section \<open>Graphs built by the API\<close>

text \<open>A client that adds and removes nodes, in any order. A node added under the name of another one
  replaces it and leaves the pointers to it behind (\<open>duplicate_name_dangles\<close> below), so what is
  shown is about sequences in which every node is added under a new name: \<open>N\<close> is the set of names
  in use.\<close>

datatype graph_op = AddNode node | RemoveNode string

definition graph_op_step :: "insert_order \<Rightarrow> graph_op \<Rightarrow> graph \<Rightarrow> graph res" where
  "graph_op_step ins op g = (case op of
     AddNode n \<Rightarrow> Inr (addNode ins n g)
   | RemoveNode name \<Rightarrow> removeNode name g)"

definition build_graph :: "insert_order \<Rightarrow> graph_op list \<Rightarrow> graph res" where
  "build_graph ins ops = rfold (graph_op_step ins) ops graph_new"

fun new_names :: "string set \<Rightarrow> graph_op list \<Rightarrow> bool" where
  "new_names N [] = True"
| "new_names N (AddNode n # ops) = (n_name n \<notin> N \<and> new_names (insert (n_name n) N) ops)"
| "new_names N (RemoveNode name # ops) = new_names (N - {name}) ops"

lemma graph_ops_ok:
  assumes "ins_ok ins" "graph_ok g" "new_names (set (insertionOrder g)) ops"
  shows "\<exists>g'. rfold (graph_op_step ins) ops g = Inr g' \<and> graph_ok g'"
  using assms(2,3)
proof (induction ops arbitrary: g)
  case (Cons op ops)
  show ?case
  proof (cases op)
    case (AddNode n)
    have "nodeMap g (n_name n) = None" using Cons.prems AddNode by (auto simp: graph_ok_def)
    then have "graph_ok (addNode ins n g)" by (rule addNode_ok [OF Cons.prems(1) _ assms(1)])
    moreover have "insertionOrder (addNode ins n g) = insertionOrder g @ [n_name n]"
      by (simp add: addNode_def Let_def)
    ultimately show ?thesis using Cons.IH [of "addNode ins n g"] Cons.prems(2) AddNode
      by (simp add: graph_op_step_def)
  next
    case (RemoveNode name)
    obtain g' where g': "removeNode name g = Inr g'" "graph_ok g'"
        "insertionOrder g' = removeAll name (insertionOrder g)"
      by (rule removeNode_ok [OF Cons.prems(1)]) (use that in blast)
    then show ?thesis using Cons.IH [OF g'(2)] Cons.prems(2) RemoveNode by (simp add: graph_op_step_def)
  qed
qed simp

lemma build_graph_ok:
  assumes "ins_ok ins" "new_names {} ops"
  shows "\<exists>g. build_graph ins ops = Inr g \<and> graph_ok g"
  using graph_ops_ok [OF assms(1) graph_ok_new] assms(2) by (simp add: build_graph_def graph_new_def)

text \<open>The edges the tensor names ask for: from a node to every other node that reads one of its
  outputs.\<close>

definition tensor_edges :: "graph \<Rightarrow> (ptr \<times> ptr) set" where
  "tensor_edges g = {(pt (nodeMap g) a, pt (nodeMap g) b) | a b.
     a \<in> dom (nodeMap g) \<and> b \<in> dom (nodeMap g) \<and> a \<noteq> b \<and>
     feeds (nd (nodeMap g) a) (nd (nodeMap g) b) \<noteq> []}"

lemma edge_rel_tensors:
  assumes g: "graph_ok g"
  shows "edge_rel g = tensor_edges g"
proof -
  let ?m = "nodeMap g"
  have s: "succs g (pt ?m a) = e_children (the (?m a))" if a: "a \<in> dom ?m" for a
  proof -
    have "n_name (nd ?m a) = a" using g a by (auto simp: graph_ok_def)
    then show ?thesis using deref_pt [OF g a] a by (auto simp: succs_def childrenOf_def node_at_def)
  qed
  have kids: "pt ?m b \<in> set (e_children (the (?m a))) \<longleftrightarrow> a \<noteq> b \<and> feeds (nd ?m a) (nd ?m b) \<noteq> []"
    if "a \<in> dom ?m" "b \<in> dom ?m" for a b
  proof -
    have "kids ?m a b = (if a = b then 0 else length (feeds (nd ?m a) (nd ?m b)))"
      using g that by (auto simp: graph_ok_def edges_exact_def)
    then show ?thesis using count_list_0_iff [of "e_children (the (?m a))" "pt ?m b"]
      by (auto simp: kids_def split: if_splits)
  qed
  have live: "set (e_children (the (?m a))) \<subseteq> pt ?m ` dom ?m" if "a \<in> dom ?m" for a
    using g that by (auto simp: graph_ok_def edges_live_def)
  show ?thesis
  proof (rule set_eqI, clarify)
    fix p q
    show "(p, q) \<in> edge_rel g \<longleftrightarrow> (p, q) \<in> tensor_edges g"
    proof
      assume "(p, q) \<in> edge_rel g"
      then obtain a where a: "a \<in> dom ?m" "p = pt ?m a" "q \<in> set (succs g (pt ?m a))"
        unfolding edge_rel_def ptrs_def by blast
      then have "q \<in> set (e_children (the (?m a)))" using s by simp
      then obtain b where "b \<in> dom ?m" "q = pt ?m b" using live a(1) by blast
      with a(1,2) kids [of a b] \<open>q \<in> set (e_children (the (?m a)))\<close> show "(p, q) \<in> tensor_edges g"
        unfolding tensor_edges_def by blast
    next
      assume "(p, q) \<in> tensor_edges g"
      then obtain a b where "a \<in> dom ?m" "b \<in> dom ?m" "p = pt ?m a" "q = pt ?m b"
          "pt ?m b \<in> set (e_children (the (?m a)))" using kids unfolding tensor_edges_def by blast
      then show "(p, q) \<in> edge_rel g" using s by (auto simp: edge_rel_def ptrs_def)
    qed
  qed
qed

section \<open>Properties\<close>

text \<open>C11. The adjacency lists are exact: after any sequence of removals and of additions under new
  names, whatever order the hash table enumerates in, the child list of a node holds a pointer
  to another node once per output of the first that is an input of the second, the parent list
  mirrors it, and no list holds a pointer to a node that is gone. A name is new when no node of the
  graph has it at that moment; an addition under the name of a live node breaks this, as
  \<open>duplicate_name_dangles\<close> shows.\<close>

theorem graph_edges_exact:
  assumes "ins_ok ins" "new_names {} ops"
  shows "\<exists>g. build_graph ins ops = Inr g \<and>
    (\<forall>a ea b eb. nodeMap g a = Some ea \<longrightarrow> nodeMap g b = Some eb \<longrightarrow>
       count_list (e_children ea) (e_ptr eb) = (if a = b then 0 else length (feeds (e_node ea) (e_node eb))) \<and>
       count_list (e_parents eb) (e_ptr ea) = (if a = b then 0 else length (feeds (e_node ea) (e_node eb)))) \<and>
    (\<forall>a ea. nodeMap g a = Some ea \<longrightarrow> (\<forall>p\<in>set (e_children ea) \<union> set (e_parents ea). \<exists>n. deref g p = Inr n))"
proof -
  obtain g where b: "build_graph ins ops = Inr g" and g: "graph_ok g" using build_graph_ok [OF assms] by blast
  have "kids (nodeMap g) a b = (if a = b then 0 else length (feeds (nd (nodeMap g) a) (nd (nodeMap g) b)))"
      "pars (nodeMap g) a b = kids (nodeMap g) a b"
    if "nodeMap g a = Some ea" "nodeMap g b = Some eb" for a ea b eb
    using g that unfolding graph_ok_def edges_exact_def by blast+
  moreover have "\<exists>n. deref g p = Inr n" if "nodeMap g a = Some ea" "p \<in> set (e_children ea) \<union> set (e_parents ea)" for a ea p
  proof -
    have "a \<in> dom (nodeMap g)" "ea = the (nodeMap g a)" using that(1) by auto
    then have "set (e_children ea) \<union> set (e_parents ea) \<subseteq> ptrs g"
      using g unfolding graph_ok_def edges_live_def ptrs_def by blast
    then have "p \<in> ptrs g" using that(2) by blast
    then show ?thesis using succs_ok [OF g] by metis
  qed
  ultimately show ?thesis using b by (fastforce simp: kids_def pars_def)
qed

definition ex_ins :: insert_order where "ex_ins xs k = k # xs"

lemma ex_ins_ok: "ins_ok ex_ins"
  by (simp add: ins_ok_def ex_ins_def)

definition ex_node :: "string \<Rightarrow> string list \<Rightarrow> string list \<Rightarrow> node" where
  "ex_node n i out = mk_node n ''Relu'' i out Map.empty"

definition ex_ops :: "graph_op list" where
  "ex_ops = [AddNode (ex_node ''c'' [''y''] [''z'']), AddNode (ex_node ''b'' [''x'', ''w''] [''y'']),
     AddNode (ex_node ''d'' [''x''] [''w'']), AddNode (ex_node ''a'' [''i''] [''x'']), RemoveNode ''d'']"

lemma ex_ops_new: "new_names {} ex_ops"
  by (simp add: ex_ops_def ex_node_def mk_node_def)

theorem graph_edges_exact_witness:
  "new_names {} ex_ops \<and> (\<exists>g. build_graph ex_ins ex_ops = Inr g \<and>
     (\<forall>a ea p. nodeMap g a = Some ea \<longrightarrow> p \<in> set (e_children ea) \<longrightarrow> (\<exists>n. deref g p = Inr n)))"
  using graph_edges_exact [OF ex_ins_ok ex_ops_new] ex_ops_new by blast

text \<open>C7. \<^verbatim>\<open>topologicalSort\<close> on a graph built by removals and by additions under new names always ends,
  never dereferences a dangling pointer, and decides acyclicity: the edges are exactly those from
  a node to another node that reads one of its outputs; the sort returns exactly when they have no
  cycle, and then the order lists every node once and every edge goes forward; otherwise it throws,
  naming a node that lies on a cycle. A node that reads its own output has no edge to itself, so
  that alone is not reported (\<open>self_loop_not_reported\<close> below).\<close>

theorem topologicalSort_decides:
  assumes "ins_ok ins" "new_names {} ops" "build_graph ins ops = Inr g"
  shows "edge_rel g = tensor_edges g \<and> (if acyclic (edge_rel g)
    then \<exists>order. topologicalSort g = Inr order \<and> distinct order \<and> set order = ptrs g \<and>
      (\<forall>p q. (p, q) \<in> edge_rel g \<longrightarrow> before order p q)
    else \<exists>q n. deref g q = Inr n \<and> (q, q) \<in> (edge_rel g)\<^sup>+ \<and>
      topologicalSort g = Inl (RuntimeError (''Graph contains a cycle at node: '' @ n_name n)))"
proof -
  have g: "graph_ok g" using build_graph_ok [OF assms(1,2)] assms(3) by simp
  show ?thesis
  proof (cases "acyclic (edge_rel g)")
    case True
    then obtain order where "topologicalSort g = Inr order" using topologicalSort_iff [OF g] by blast
    then show ?thesis using True topologicalSort_order [OF g] edge_rel_tensors [OF g] by (auto simp: topo_order_def)
  next
    case False
    then show ?thesis using topologicalSort_iff [OF g] topologicalSort_spec [OF g] edge_rel_tensors [OF g] by auto
  qed
qed

text \<open>A chain of two nodes, added consumer first, and two nodes that read each other.\<close>

definition ex_chain :: "graph_op list" where
  "ex_chain = [AddNode (ex_node ''b'' [''x''] [''y'']), AddNode (ex_node ''a'' [''i''] [''x''])]"

definition ex_cycle :: "graph_op list" where
  "ex_cycle = [AddNode (ex_node ''b'' [''x''] [''y'']), AddNode (ex_node ''a'' [''y''] [''x''])]"

lemma ex_chain_new: "new_names {} ex_chain" "new_names {} ex_cycle"
  by (simp_all add: ex_chain_def ex_cycle_def ex_node_def mk_node_def)

lemma ex_graph:
  "build_graph ex_ins ex_chain
   = Inr \<lparr>nodeMap = [''b'' \<mapsto> \<lparr>e_ptr = 1, e_node = ex_node ''b'' [''x''] [''y''], e_parents = [2], e_children = []\<rparr>,
                     ''a'' \<mapsto> \<lparr>e_ptr = 2, e_node = ex_node ''a'' [''i''] [''x''], e_parents = [], e_children = [1]\<rparr>],
          hashOrder = [''a'', ''b''], insertionOrder = [''b'', ''a''], g_inputs = [], g_outputs = [], nextPtr = 3\<rparr>"
  by (simp add: build_graph_def ex_chain_def graph_op_step_def addNode_def graph_new_def updateEdges_def ex_ins_def
      upd_entry_def push_children_def push_parents_def feeds_def ex_node_def mk_node_def Let_def fun_eq_iff)

lemma ex_cyclic_graph:
  "build_graph ex_ins ex_cycle
   = Inr \<lparr>nodeMap = [''b'' \<mapsto> \<lparr>e_ptr = 1, e_node = ex_node ''b'' [''x''] [''y''], e_parents = [2], e_children = [2]\<rparr>,
                     ''a'' \<mapsto> \<lparr>e_ptr = 2, e_node = ex_node ''a'' [''y''] [''x''], e_parents = [1], e_children = [1]\<rparr>],
          hashOrder = [''a'', ''b''], insertionOrder = [''b'', ''a''], g_inputs = [], g_outputs = [], nextPtr = 3\<rparr>"
  by (simp add: build_graph_def ex_cycle_def graph_op_step_def addNode_def graph_new_def updateEdges_def ex_ins_def
      upd_entry_def push_children_def push_parents_def feeds_def ex_node_def mk_node_def Let_def fun_eq_iff)

lemma ex_graph_levels:
  assumes "build_graph ex_ins ex_chain = Inr g"
  shows "topologicalSort g = Inr [2, 1]"
  using assms unfolding ex_graph
  by (auto simp: topologicalSort_def node_at_def deref_def live_entries_def childrenOf_def ex_node_def mk_node_def)

lemma ex_cycle_thrown:
  assumes "build_graph ex_ins ex_cycle = Inr g"
  shows "topologicalSort g = Inl (RuntimeError ''Graph contains a cycle at node: b'')"
  using assms unfolding ex_cyclic_graph
  by (auto simp: topologicalSort_def node_at_def deref_def live_entries_def childrenOf_def ex_node_def mk_node_def)

lemma ex_acyclic:
  assumes "build_graph ex_ins ex_chain = Inr g"
  shows "acyclic (edge_rel g)"
  using topologicalSort_iff [of g] ex_graph_levels [OF assms] build_graph_ok [OF ex_ins_ok ex_chain_new(1)] assms by auto

theorem topologicalSort_decides_witness:
  "\<exists>g h. build_graph ex_ins ex_chain = Inr g \<and> topologicalSort g = Inr [2, 1] \<and> acyclic (edge_rel g) \<and>
     (\<forall>p q. (p, q) \<in> edge_rel g \<longrightarrow> before [2, 1] p q) \<and>
     build_graph ex_ins ex_cycle = Inr h \<and> (\<exists>q. (q, q) \<in> (edge_rel h)\<^sup>+) \<and>
     topologicalSort h = Inl (RuntimeError ''Graph contains a cycle at node: b'')"
proof -
  obtain g h where g: "build_graph ex_ins ex_chain = Inr g" and h: "build_graph ex_ins ex_cycle = Inr h"
    using build_graph_ok [OF ex_ins_ok] ex_chain_new by blast
  have "\<forall>p q. (p, q) \<in> edge_rel g \<longrightarrow> before [2, 1] p q"
    using topologicalSort_decides [OF ex_ins_ok ex_chain_new(1) g] ex_acyclic [OF g] ex_graph_levels [OF g] by auto
  moreover have "\<exists>q. (q, q) \<in> (edge_rel h)\<^sup>+"
    using topologicalSort_decides [OF ex_ins_ok ex_chain_new(2) h] ex_cycle_thrown [OF h] by (auto split: if_splits)
  ultimately show ?thesis using g h ex_graph_levels [OF g] ex_acyclic [OF g] ex_cycle_thrown [OF h] by blast
qed

text \<open>C8. On a graph built by removals and by additions under new names, \<^verbatim>\<open>executionLevels\<close> puts every node in exactly one level, no level is empty, every edge
  goes to a strictly later level (so the nodes of a level are independent of each other), and
  every node of a later level has a parent in the level just before: the level number is the
  length of the longest path into the node.\<close>

theorem executionLevels_layered:
  assumes "ins_ok ins" "new_names {} ops" "build_graph ins ops = Inr g" "acyclic (edge_rel g)"
  shows "\<exists>Ls. executionLevels g = Inr Ls \<and> distinct (concat Ls) \<and> set (concat Ls) = ptrs g \<and>
    (\<forall>i<length Ls. Ls ! i \<noteq> [] \<and> (\<forall>p\<in>set (Ls ! i).
        (\<forall>q. (q, p) \<in> edge_rel g \<longrightarrow> (\<exists>j<i. q \<in> set (Ls ! j))) \<and>
        (0 < i \<longrightarrow> (\<exists>q\<in>set (Ls ! (i - 1)). (q, p) \<in> edge_rel g))))"
proof -
  have g: "graph_ok g" using build_graph_ok [OF assms(1,2)] assms(3) by simp
  obtain order where "topologicalSort g = Inr order" using topologicalSort_iff [OF g] assms(4) by blast
  from executionLevels_spec [OF g this] show ?thesis unfolding layered_def by blast
qed

theorem executionLevels_layered_witness:
  "\<exists>g Ls. build_graph ex_ins ex_chain = Inr g \<and> acyclic (edge_rel g) \<and>
     executionLevels g = Inr Ls \<and> distinct (concat Ls) \<and> set (concat Ls) = ptrs g"
proof -
  obtain g where g: "build_graph ex_ins ex_chain = Inr g" using build_graph_ok [OF ex_ins_ok ex_chain_new(1)] by blast
  from executionLevels_layered [OF ex_ins_ok ex_chain_new(1) g ex_acyclic [OF g]] g ex_acyclic [OF g]
  show ?thesis by blast
qed

text \<open>Two limits of the checks. A second node under a name already taken destroys the first, and
  the child lists keep its pointer: the sort then reads a destroyed node. And a node that
  consumes its own output has no edge to itself, so it is not reported as a cycle.\<close>

lemma duplicate_name_dangles:
  "topologicalSort (addNode ex_ins (ex_node ''b'' [''x''] [''y''])
     (addNode ex_ins (ex_node ''b'' [''x''] [''y'']) (addNode ex_ins (ex_node ''a'' [''i''] [''x'']) graph_new)))
   = Inl (Undefined ''dangling node pointer'')"
  by (simp add: addNode_def graph_new_def updateEdges_def ex_ins_def
      upd_entry_def push_children_def push_parents_def feeds_def ex_node_def mk_node_def Let_def
      topologicalSort_def node_at_def deref_def live_entries_def childrenOf_def)

lemma self_loop_not_reported:
  "topologicalSort (addNode ex_ins (ex_node ''a'' [''x''] [''x'']) graph_new) = Inr [1]"
  by (simp add: addNode_def graph_new_def updateEdges_def ex_ins_def ex_node_def mk_node_def Let_def
      topologicalSort_def node_at_def deref_def live_entries_def childrenOf_def)

end
