(* ===== verification/Model.thy ===== *)
theory Model
  imports Graph_Topo
begin

text \<open>
  model/model.h: a graph with its initializer tensors. The \<^verbatim>\<open>unordered_map\<close> of initializers is a
  map with the order in which a loop enumerates its keys; where an insertion puts a new key is
  the same kind of parameter as for the graph. The lemmas say what adding and removing a node
  does to the list of nodes in insertion order, which is what the clients of a model look at.
\<close>

section \<open>The class\<close>

record model =
  m_graph :: graph
  m_inits :: "string \<rightharpoonup> f32 tensor"
  m_initOrder :: "string list"

definition model_new :: model where
  "model_new = \<lparr>m_graph = graph_new, m_inits = Map.empty, m_initOrder = []\<rparr>"

definition addInitializer :: "insert_order \<Rightarrow> string \<Rightarrow> f32 tensor \<Rightarrow> model \<Rightarrow> model" where
  "addInitializer ins name t m =
     m\<lparr>m_inits := (m_inits m)(name \<mapsto> t),
       m_initOrder := (if m_inits m name = None then ins (m_initOrder m) name else m_initOrder m)\<rparr>"

definition hasInitializer :: "model \<Rightarrow> string \<Rightarrow> bool" where
  "hasInitializer m name = (m_inits m name \<noteq> None)"

definition getInitializer :: "model \<Rightarrow> string \<Rightarrow> f32 tensor option" where
  "getInitializer m name = m_inits m name"

definition removeInitializer :: "string \<Rightarrow> model \<Rightarrow> model" where
  "removeInitializer name m =
     m\<lparr>m_inits := (m_inits m)(name := None), m_initOrder := removeAll name (m_initOrder m)\<rparr>"

section \<open>Well-formed models\<close>

definition inits_ok :: "model \<Rightarrow> bool" where
  "inits_ok m = (distinct (m_initOrder m) \<and> set (m_initOrder m) = dom (m_inits m))"

definition model_ok :: "model \<Rightarrow> bool" where
  "model_ok m = (graph_ok (m_graph m) \<and> inits_ok m)"

lemma model_new_ok: "model_ok model_new"
  by (simp add: model_ok_def model_new_def graph_ok_new inits_ok_def)

lemma addInitializer_ok: "ins_ok ins \<Longrightarrow> model_ok m \<Longrightarrow> model_ok (addInitializer ins name t m)"
proof -
  assume ins: "ins_ok ins" and m: "model_ok m"
  have o: "distinct (m_initOrder m)" "set (m_initOrder m) = dom (m_inits m)"
    using m by (auto simp: model_ok_def inits_ok_def)
  have "distinct (ins (m_initOrder m) name) \<and> set (ins (m_initOrder m) name) = insert name (dom (m_inits m))"
    if n: "m_inits m name = None"
    using ins o n unfolding ins_ok_def by blast
  then show ?thesis using m o by (auto simp: model_ok_def inits_ok_def addInitializer_def)
qed

lemma addInitializer_frame [simp]:
  "m_graph (addInitializer ins name t m) = m_graph m"
  "m_inits (addInitializer ins name t m) = (m_inits m)(name \<mapsto> t)"
  by (simp_all add: addInitializer_def)

lemma removeInitializer_ok: "model_ok m \<Longrightarrow> model_ok (removeInitializer name m)"
  by (auto simp: model_ok_def inits_ok_def removeInitializer_def distinct_removeAll)

lemma model_graph_upd [simp]:
  "m_graph (m\<lparr>m_graph := g\<rparr>) = g" "m_inits (m\<lparr>m_graph := g\<rparr>) = m_inits m"
  by simp_all

lemma model_ok_graph: "model_ok m \<Longrightarrow> graph_ok g \<Longrightarrow> model_ok (m\<lparr>m_graph := g\<rparr>)"
  by (simp add: model_ok_def inits_ok_def)

section \<open>The nodes of a graph, in insertion order\<close>

definition nodes_of :: "graph \<Rightarrow> node list" where
  "nodes_of g = map (\<lambda>k. nd (nodeMap g) k) (insertionOrder g)"

lemma nodes_of_new [simp]: "nodes_of graph_new = []"
  by (simp add: nodes_of_def graph_new_def)

lemma insertion_in_dom: "graph_ok g \<Longrightarrow> k \<in> set (insertionOrder g) \<Longrightarrow> \<exists>e. nodeMap g k = Some e"
  by (auto simp: graph_ok_def)

lemma nodes_of_names: "graph_ok g \<Longrightarrow> map n_name (nodes_of g) = insertionOrder g"
proof -
  assume g: "graph_ok g"
  have "n_name (nd (nodeMap g) k) = k" if "k \<in> set (insertionOrder g)" for k
    using g that unfolding graph_ok_def by blast
  then show ?thesis by (simp add: nodes_of_def map_idI)
qed

lemma nodes_of_fresh: "graph_ok g \<Longrightarrow> nodeMap g k = None \<longleftrightarrow> k \<notin> n_name ` set (nodes_of g)"
  using nodes_of_names [of g] by (auto simp: graph_ok_def simp flip: set_map)

lemma nodes_of_distinct: "graph_ok g \<Longrightarrow> distinct (map n_name (nodes_of g))"
  by (simp add: nodes_of_names) (simp add: graph_ok_def)

lemma rmap_map: "(\<And>x. x \<in> set xs \<Longrightarrow> f x = Inr (g x)) \<Longrightarrow> rmap f xs = Inr (map g xs)"
  by (induction xs) auto

lemma nodesInInsertionOrder_ok:
  "graph_ok g \<Longrightarrow> nodesInInsertionOrder g = Inr (map (pt (nodeMap g)) (insertionOrder g))"
  unfolding nodesInInsertionOrder_def
  by (rule rmap_map) (use insertion_in_dom in \<open>fastforce simp: node_at_def\<close>)

lemma graph_ok_setters [simp]:
  "graph_ok (setInputs xs g) = graph_ok g" "graph_ok (setOutputs xs g) = graph_ok g"
  "nodes_of (setInputs xs g) = nodes_of g" "nodes_of (setOutputs xs g) = nodes_of g"
  by (simp_all add: graph_ok_def nodes_of_def setInputs_def setOutputs_def)

text \<open>Reading the nodes behind a list of pointers.\<close>

definition deref_all :: "graph \<Rightarrow> ptr list \<Rightarrow> node list res" where
  "deref_all g ps = rmap (deref g) ps"

lemma deref_all_nodes:
  assumes "graph_ok g"
  shows "deref_all g (map (pt (nodeMap g)) (insertionOrder g)) = Inr (nodes_of g)"
proof -
  have d: "deref g (pt (nodeMap g) k) = Inr (nd (nodeMap g) k)" if "k \<in> set (insertionOrder g)" for k
    using insertion_in_dom [OF assms that] by (intro deref_pt [OF assms]) auto
  have "rmap (deref g) (map (pt (nodeMap g)) ks) = Inr (map (nd (nodeMap g)) ks)" if "set ks \<subseteq> set (insertionOrder g)" for ks
    using that by (induction ks) (simp_all add: d)
  then show ?thesis by (simp add: deref_all_def nodes_of_def)
qed

section \<open>How the operations change the node list\<close>

lemma addNode_frame:
  "g_inputs (addNode ins n g) = g_inputs g" "g_outputs (addNode ins n g) = g_outputs g"
  "insertionOrder (addNode ins n g) = insertionOrder g @ [n_name n]"
  by (simp_all add: addNode_def Let_def)

lemma updateEdges_skel: "skel (updateEdges p node xs m) = skel m"
proof (induction xs arbitrary: m)
  case (Cons x xs)
  show ?case
  proof (cases "m x")
    case (Some e)
    then show ?thesis using Cons by (auto simp: updateEdges_def Let_def)
  qed (use Cons in \<open>simp add: updateEdges_def\<close>)
qed (simp add: updateEdges_def)

lemma addNode_nodes:
  assumes "graph_ok g" "nodeMap g (n_name n) = None"
  shows "nodes_of (addNode ins n g) = nodes_of g @ [n]"
proof -
  let ?m = "(nodeMap g)(n_name n \<mapsto> \<lparr>e_ptr = nextPtr g, e_node = n, e_parents = [], e_children = []\<rparr>)"
  have sk: "skel (nodeMap (addNode ins n g)) = skel ?m"
    using assms(2) by (simp add: addNode_def Let_def updateEdges_skel)
  have "nd (nodeMap (addNode ins n g)) k = nd ?m k" if "k \<in> dom ?m" for k
    using skel_pt_nd [OF sk] skel_dom [OF sk] that by simp
  moreover have "set (insertionOrder g) = dom (nodeMap g)" using assms(1) by (simp add: graph_ok_def)
  ultimately show ?thesis
    using assms(2) by (auto simp: nodes_of_def addNode_frame intro!: map_cong)
qed

lemma rebuilt_nodes:
  assumes g: "graph_skel_ok g" and sk: "skel (nodeMap h) = (skel (nodeMap g))(name := None)"
    and ins: "insertionOrder h = removeAll name (insertionOrder g)"
  shows "nodes_of h = filter (\<lambda>n. n_name n \<noteq> name) (nodes_of g)"
proof -
  have dom: "set (insertionOrder g) = dom (nodeMap g)" using g by (simp add: graph_skel_ok_def)
  have names: "n_name (nd (nodeMap g) k) = k" if "k \<in> set (insertionOrder g)" for k
    using g that by (auto simp: graph_skel_ok_def)
  have "nd (nodeMap h) k = nd (nodeMap g) k" if "k \<in> set (insertionOrder g)" "k \<noteq> name" for k
  proof -
    from that(1) obtain e where e: "nodeMap g k = Some e" unfolding dom by blast
    have "skel (nodeMap h) k = skel (nodeMap g) k" using sk that(2) by simp
    with e show ?thesis by (auto simp: skel_def)
  qed
  moreover have "filter (\<lambda>n. n_name n \<noteq> name) (map (nd (nodeMap g)) xs) = map (nd (nodeMap g)) (removeAll name xs)"
    if "set xs \<subseteq> set (insertionOrder g)" for xs
    using that names by (induction xs) auto
  ultimately show ?thesis
    using ins by (auto simp: nodes_of_def intro!: map_cong)
qed

lemma removeNode_nodes:
  assumes "graph_ok g" "removeNode name g = Inr g'"
  shows "graph_ok g'" "nodes_of g' = filter (\<lambda>n. n_name n \<noteq> name) (nodes_of g)"
    "g_inputs g' = g_inputs g" "g_outputs g' = g_outputs g"
proof -
  obtain h where h: "removeNode name g = Inr h" "graph_ok h"
    "skel (nodeMap h) = (skel (nodeMap g))(name := None)" "g_inputs h = g_inputs g" "g_outputs h = g_outputs g"
    "insertionOrder h = removeAll name (insertionOrder g)"
    by (rule removeNode_ok [OF assms(1)])
  then have hg: "h = g'" using assms(2) by simp
  show "graph_ok g'" "g_inputs g' = g_inputs g" "g_outputs g' = g_outputs g" using h hg by simp_all
  show "nodes_of g' = filter (\<lambda>n. n_name n \<noteq> name) (nodes_of g)"
    using rebuilt_nodes [OF graph_ok_skel [OF assms(1)] h(3,6)] hg by simp
qed

text \<open>The same for a graph whose edges are out of date.\<close>

lemma removeNode_stale:
  assumes "graph_skel_ok g" "nodeMap g name \<noteq> None"
  obtains g' where "removeNode name g = Inr g'" "graph_ok g'" "nodes_of g' = filter (\<lambda>n. n_name n \<noteq> name) (nodes_of g)"
    "g_inputs g' = g_inputs g" "g_outputs g' = g_outputs g"
  using removeNode_rebuilds [OF assms] rebuilt_nodes [OF assms(1)] by metis

lemma removeNode_total:
  assumes "graph_ok g"
  shows "\<exists>g'. removeNode name g = Inr g'"
  by (rule removeNode_ok [OF assms]) blast

text \<open>The graph a list of nodes builds.\<close>

definition add_nodes :: "insert_order \<Rightarrow> node list \<Rightarrow> graph \<Rightarrow> graph" where
  "add_nodes ins ns g = fold (addNode ins) ns g"

lemma add_nodes_ok:
  assumes "ins_ok ins"
  shows "graph_ok g \<Longrightarrow> distinct (map n_name (nodes_of g @ ns)) \<Longrightarrow>
    graph_ok (add_nodes ins ns g) \<and> nodes_of (add_nodes ins ns g) = nodes_of g @ ns \<and>
    g_inputs (add_nodes ins ns g) = g_inputs g \<and> g_outputs (add_nodes ins ns g) = g_outputs g"
proof (induction ns arbitrary: g)
  case (Cons n ns)
  have f: "nodeMap g (n_name n) = None" using Cons.prems nodes_of_fresh [OF Cons.prems(1)] by auto
  have 1: "graph_ok (addNode ins n g)" by (rule addNode_ok [OF Cons.prems(1) f assms])
  have 2: "nodes_of (addNode ins n g) = nodes_of g @ [n]" by (rule addNode_nodes [OF Cons.prems(1) f])
  show ?case using Cons.IH [OF 1] Cons.prems(2) 2 by (simp add: add_nodes_def addNode_frame)
qed (simp add: add_nodes_def)

end
