(* ===== verification/Gemm.thy ===== *)
theory Gemm
  imports Tensor
begin

text \<open>
  The matrix-multiply kernels of kernels/gemm.cpp. The kernels are written over a record of
  the five operations they use of the element type, so that one text is run at binary32
  (\<open>f32_arith\<close>, what the program does) and at exact integers (\<open>int_arith\<close>, what it
  approximates). Buffers are lists with checked access; every index is computed in 64-bit
  arithmetic as in the source, and an access outside a buffer is \<open>Undefined\<close>. The section
  on correctness shows that on well-formed operands no access is, and what each kernel
  leaves in the output.
\<close>

section \<open>Element arithmetic\<close>

record 'a arith =
  a_zero :: 'a
  a_add :: "'a \<Rightarrow> 'a \<Rightarrow> 'a"
  a_mul :: "'a \<Rightarrow> 'a \<Rightarrow> 'a"
  a_is_zero :: "'a \<Rightarrow> bool"
  a_max0 :: "'a \<Rightarrow> 'a"

definition f32_arith :: "f32 arith" where
  "f32_arith = \<lparr>a_zero = 0, a_add = f32_add, a_mul = f32_mul,
     a_is_zero = (\<lambda>a. f32_eq a 0), a_max0 = f32_max 0\<rparr>"

definition int_arith :: "int arith" where
  "int_arith = \<lparr>a_zero = 0, a_add = (+), a_mul = (*), a_is_zero = (\<lambda>a. a = 0), a_max0 = max 0\<rparr>"

section \<open>Parameters and strategies\<close>

datatype gemm_strategy = Naive | Reordered | Tiled | Packed | Auto

record 'a gemm_params =
  transA :: bool
  transB :: bool
  alpha :: 'a
  beta :: 'a
  fuseRelu :: bool

definition gemmStrategyFromString :: "string \<Rightarrow> gemm_strategy res" where
  "gemmStrategyFromString name =
     (if name = ''naive'' then Inr Naive
      else if name = ''reordered'' then Inr Reordered
      else if name = ''tiled'' then Inr Tiled
      else if name = ''packed'' then Inr Packed
      else if name = ''auto'' then Inr Auto
      else Inl (InvalidArgument (''Unknown gemm strategy: '' @ name)))"

fun gemmStrategyName :: "gemm_strategy \<Rightarrow> string" where
  "gemmStrategyName Naive = ''naive''"
| "gemmStrategyName Reordered = ''reordered''"
| "gemmStrategyName Tiled = ''tiled''"
| "gemmStrategyName Packed = ''packed''"
| "gemmStrategyName Auto = ''auto''"

record dims =
  dN :: nat
  dK :: nat
  dM :: nat

definition resolveDims :: "'a tensor \<Rightarrow> 'a tensor \<Rightarrow> 'a gemm_params \<Rightarrow> dims res" where
  "resolveDims A B p =
     rbind (if transA p then dim A 1 else dim A 0) (\<lambda>n.
     rbind (if transA p then dim A 0 else dim A 1) (\<lambda>k.
     rbind (if transB p then dim B 0 else dim B 1) (\<lambda>m.
       Inr \<lparr>dN = unat n, dK = unat k, dM = unat m\<rparr>)))"

text \<open>The 64-bit index \<open>i * s + k\<close>.\<close>

definition ix :: "nat \<Rightarrow> nat \<Rightarrow> nat \<Rightarrow> nat" where
  "ix i s k = (i * s + k) mod 2 ^ 64"

definition kTile :: nat where "kTile = 64"

definition kPackTile :: nat where "kPackTile = 64"

section \<open>The kernels\<close>

definition read_a :: "'a list \<Rightarrow> dims \<Rightarrow> 'a gemm_params \<Rightarrow> nat \<Rightarrow> nat \<Rightarrow> 'a res" where
  "read_a A d p i k = rd A (if transA p then ix k (dN d) i else ix i (dK d) k)"

definition read_b :: "'a list \<Rightarrow> dims \<Rightarrow> 'a gemm_params \<Rightarrow> nat \<Rightarrow> nat \<Rightarrow> 'a res" where
  "read_b B d p k j = rd B (if transB p then ix j (dK d) k else ix k (dM d) j)"

definition accumulateNaive ::
  "'a arith \<Rightarrow> 'a list \<Rightarrow> 'a list \<Rightarrow> dims \<Rightarrow> 'a gemm_params \<Rightarrow> nat \<Rightarrow> nat \<Rightarrow> 'a list \<Rightarrow> 'a list res" where
  "accumulateNaive F A B d p rowBegin rowEnd =
     for_range rowBegin rowEnd (\<lambda>i. for_range 0 (dM d) (\<lambda>j C.
       rbind (for_range 0 (dK d) (\<lambda>k acc.
         rbind (read_a A d p i k) (\<lambda>a.
         rbind (read_b B d p k j) (\<lambda>b.
           Inr (a_add F acc (a_mul F a b))))) (a_zero F)) (\<lambda>acc.
       wr C (ix i (dM d) j) acc)))"

text \<open>Four lanes of partial sums; the counter of the first loop runs while \<open>k + 4 \<le> K\<close>.\<close>

definition accumulateDotContiguous ::
  "'a arith \<Rightarrow> 'a list \<Rightarrow> 'a list \<Rightarrow> dims \<Rightarrow> nat \<Rightarrow> nat \<Rightarrow> 'a list \<Rightarrow> 'a list res" where
  "accumulateDotContiguous F A B d rowBegin rowEnd =
     for_range rowBegin rowEnd (\<lambda>i. for_range 0 (dM d) (\<lambda>j C.
       let tm = (\<lambda>k acc. rbind (rd A (ix i (dK d) k)) (\<lambda>a. rbind (rd B (ix j (dK d) k)) (\<lambda>b.
             Inr (a_add F acc (a_mul F a b)))))
       in rbind (for_step 0 (dK d - 3) 4 (\<lambda>k (a0, a1, a2, a3).
            rbind (tm k a0) (\<lambda>a0. rbind (tm (k + 1) a1) (\<lambda>a1.
            rbind (tm (k + 2) a2) (\<lambda>a2. rbind (tm (k + 3) a3) (\<lambda>a3.
              Inr (a0, a1, a2, a3))))))
            (a_zero F, a_zero F, a_zero F, a_zero F)) (\<lambda>(a0, a1, a2, a3).
          rbind (for_range (4 * (dK d div 4)) (dK d) tm
                  (a_add F (a_add F a0 a1) (a_add F a2 a3))) (\<lambda>acc.
          wr C (ix i (dM d) j) acc))))"

text \<open>\<^verbatim>\<open>std::fill\<close> of one output row.\<close>

definition fill_row :: "'a arith \<Rightarrow> dims \<Rightarrow> nat \<Rightarrow> 'a list \<Rightarrow> 'a list res" where
  "fill_row F d i = for_range 0 (dM d) (\<lambda>j C. wr C (ix i (dM d) j) (a_zero F))"

text \<open>\<^verbatim>\<open>crow[j] += a * B[...]\<close>.\<close>

definition acc_cell ::
  "'a arith \<Rightarrow> 'a list \<Rightarrow> dims \<Rightarrow> 'a gemm_params \<Rightarrow> nat \<Rightarrow> nat \<Rightarrow> 'a \<Rightarrow> nat \<Rightarrow> 'a list \<Rightarrow> 'a list res" where
  "acc_cell F B d p i k a j C =
     rbind (read_b B d p k j) (\<lambda>b.
     rbind (rd C (ix i (dM d) j)) (\<lambda>c.
       wr C (ix i (dM d) j) (a_add F c (a_mul F a b))))"

definition accumulateReordered ::
  "'a arith \<Rightarrow> 'a list \<Rightarrow> 'a list \<Rightarrow> dims \<Rightarrow> 'a gemm_params \<Rightarrow> nat \<Rightarrow> nat \<Rightarrow> 'a list \<Rightarrow> 'a list res" where
  "accumulateReordered F A B d p rowBegin rowEnd =
     (if transB p \<and> \<not> transA p then accumulateDotContiguous F A B d rowBegin rowEnd
      else for_range rowBegin rowEnd (\<lambda>i C.
        rbind (fill_row F d i C)
          (for_range 0 (dK d) (\<lambda>k C.
            rbind (read_a A d p i k) (\<lambda>a.
              if a_is_zero F a then Inr C
              else for_range 0 (dM d) (acc_cell F B d p i k a) C)))))"

definition accumulateTiled ::
  "'a arith \<Rightarrow> 'a list \<Rightarrow> 'a list \<Rightarrow> dims \<Rightarrow> 'a gemm_params \<Rightarrow> nat \<Rightarrow> nat \<Rightarrow> 'a list \<Rightarrow> 'a list res" where
  "accumulateTiled F A B d p rowBegin rowEnd C =
     rbind (for_range rowBegin rowEnd (fill_row F d) C)
       (for_step rowBegin rowEnd kTile (\<lambda>ii.
          let iMax = min (ii + kTile) rowEnd in
          for_step 0 (dK d) kTile (\<lambda>kk.
            let kMax = min (kk + kTile) (dK d) in
            for_step 0 (dM d) kTile (\<lambda>jj.
              let jMax = min (jj + kTile) (dM d) in
              for_range ii iMax (\<lambda>i.
                for_range kk kMax (\<lambda>k C.
                  rbind (read_a A d p i k) (\<lambda>a.
                    if a_is_zero F a then Inr C
                    else for_range jj jMax (acc_cell F B d p i k a) C)))))))"

definition microKernel ::
  "'a arith \<Rightarrow> 'a list \<Rightarrow> 'a list \<Rightarrow> nat \<Rightarrow> nat \<Rightarrow> nat \<Rightarrow> nat \<Rightarrow> nat \<Rightarrow> 'a list \<Rightarrow> 'a list res" where
  "microKernel F packA packB base rows depth cols ldc =
     for_range 0 rows (\<lambda>i. for_range 0 depth (\<lambda>k C.
       rbind (rd packA (ix i depth k)) (\<lambda>a.
         if a_is_zero F a then Inr C
         else for_range 0 cols (\<lambda>j C.
           rbind (rd packB (ix k cols j)) (\<lambda>b.
           rbind (rd C (ix i ldc (base + j))) (\<lambda>c.
             wr C (ix i ldc (base + j)) (a_add F c (a_mul F a b))))) C)))"

text \<open>\<^verbatim>\<open>std::vector::resize\<close>: the thread-local packing buffers keep what earlier calls left.\<close>

definition resize :: "'a \<Rightarrow> nat \<Rightarrow> 'a list \<Rightarrow> 'a list" where
  "resize z n xs = take n xs @ replicate (n - length xs) z"

type_synonym 'a pack_bufs = "'a list \<times> 'a list"

definition packTileA ::
  "'a list \<Rightarrow> dims \<Rightarrow> 'a gemm_params \<Rightarrow> nat \<Rightarrow> nat \<Rightarrow> nat \<Rightarrow> nat \<Rightarrow> 'a list \<Rightarrow> 'a list res" where
  "packTileA A d p ii kk rows depth =
     for_range 0 rows (\<lambda>i. for_range 0 depth (\<lambda>k packA.
       rbind (read_a A d p (ii + i) (kk + k)) (wr packA (ix i depth k))))"

definition packTileB ::
  "'a list \<Rightarrow> dims \<Rightarrow> 'a gemm_params \<Rightarrow> nat \<Rightarrow> nat \<Rightarrow> nat \<Rightarrow> nat \<Rightarrow> 'a list \<Rightarrow> 'a list res" where
  "packTileB B d p kk jj depth cols =
     for_range 0 depth (\<lambda>k. for_range 0 cols (\<lambda>j packB.
       rbind (read_b B d p (kk + k) (jj + j)) (wr packB (ix k cols j))))"

definition accumulatePacked ::
  "'a arith \<Rightarrow> 'a list \<Rightarrow> 'a list \<Rightarrow> dims \<Rightarrow> 'a gemm_params \<Rightarrow> nat \<Rightarrow> nat \<Rightarrow>
   'a pack_bufs \<Rightarrow> 'a list \<Rightarrow> ('a pack_bufs \<times> 'a list) res" where
  "accumulatePacked F A B d p rowBegin rowEnd bufs C =
     rbind (for_range rowBegin rowEnd (fill_row F d) C) (\<lambda>C.
       for_step rowBegin rowEnd kPackTile (\<lambda>ii.
         let rows = min (ii + kPackTile) rowEnd - ii in
         for_step 0 (dK d) kPackTile (\<lambda>kk ((packA, packB), C).
           let depth = min (kk + kPackTile) (dK d) - kk in
           rbind (packTileA A d p ii kk rows depth packA) (\<lambda>packA.
           for_step 0 (dM d) kPackTile (\<lambda>jj ((packA, packB), C).
             let cols = min (jj + kPackTile) (dM d) - jj in
             rbind (packTileB B d p kk jj depth cols packB) (\<lambda>packB.
             rbind (microKernel F packA packB (ix ii (dM d) jj) rows depth cols (dM d) C) (\<lambda>C.
               Inr ((packA, packB), C))))
             ((packA, packB), C))))
       ((resize (a_zero F) (kPackTile * kPackTile) (fst bufs),
         resize (a_zero F) (kPackTile * kPackTile) (snd bufs)), C))"

definition finalize ::
  "'a arith \<Rightarrow> 'a list \<Rightarrow> nat \<Rightarrow> dims \<Rightarrow> 'a gemm_params \<Rightarrow> nat \<Rightarrow> nat \<Rightarrow> 'a list \<Rightarrow> 'a list res" where
  "finalize F bias biasSize d p rowBegin rowEnd =
     (let perColumn = (biasSize = dM d); full = (biasSize = dN d * dM d mod 2 ^ 64) in
      for_range rowBegin rowEnd (\<lambda>i. for_range 0 (dM d) (\<lambda>j C.
        rbind (rd C (ix i (dM d) j)) (\<lambda>c.
        let value = a_mul F (alpha p) c in
        rbind (if perColumn then rbind (rd bias j) (\<lambda>b. Inr (a_add F value (a_mul F (beta p) b)))
               else if full
               then rbind (rd bias (ix i (dM d) j)) (\<lambda>b. Inr (a_add F value (a_mul F (beta p) b)))
               else Inr value) (\<lambda>value.
        wr C (ix i (dM d) j) (if fuseRelu p then a_max0 F value else value))))))"

section \<open>Dispatch\<close>

definition resolveAuto :: "dims \<Rightarrow> gemm_strategy" where
  "resolveAuto d =
     (let work = dN d * dK d * dM d mod 2 ^ 64
      in if work < 2 ^ 12 then Reordered else if 16 \<le> dN d then Packed else Tiled)"

definition gemm_validate ::
  "'a tensor \<Rightarrow> 'a tensor \<Rightarrow> 'a tensor \<Rightarrow> 'a gemm_params \<Rightarrow> unit res" where
  "gemm_validate A B bias p =
     rbind (require (rank A = 2 \<and> rank B = 2)
              (InvalidArgument ''Gemm expects rank-2 tensors for A and B'')) (\<lambda>_.
     rbind (if transA p then dim A 0 else dim A 1) (\<lambda>innerA.
     rbind (if transB p then dim B 1 else dim B 0) (\<lambda>innerB.
     rbind (require (innerA = innerB)
              (InvalidArgument ''Gemm inner dimensions do not match'')) (\<lambda>_.
     rbind (resolveDims A B p) (\<lambda>d.
       require (t_size bias = 0 \<or> unat (t_size bias) = dM d \<or>
                unat (t_size bias) = dN d * dM d mod 2 ^ 64)
         (InvalidArgument ''Gemm bias shape is not broadcastable to the output''))))))"

definition outputShape :: "'a tensor \<Rightarrow> 'a tensor \<Rightarrow> 'a gemm_params \<Rightarrow> u64 list res" where
  "outputShape A B p =
     rbind (resolveDims A B p) (\<lambda>d. Inr [word_of_nat (dN d), word_of_nat (dM d)])"

text \<open>The lambda \<^verbatim>\<open>runRows\<close>: one kernel and the shared finalize pass over a range of rows.\<close>

definition runRows ::
  "'a arith \<Rightarrow> gemm_strategy \<Rightarrow> 'a list \<Rightarrow> 'a list \<Rightarrow> 'a list \<Rightarrow> nat \<Rightarrow> dims \<Rightarrow> 'a gemm_params \<Rightarrow>
   'a pack_bufs \<Rightarrow> nat \<times> nat \<Rightarrow> 'a list \<Rightarrow> 'a list res" where
  "runRows F strategy A B bias biasSize d p bufs r C =
     rbind (case strategy of
         Naive \<Rightarrow> accumulateNaive F A B d p (fst r) (snd r) C
       | Reordered \<Rightarrow> accumulateReordered F A B d p (fst r) (snd r) C
       | Tiled \<Rightarrow> accumulateTiled F A B d p (fst r) (snd r) C
       | Packed \<Rightarrow> rbind (accumulatePacked F A B d p (fst r) (snd r) bufs C) (\<lambda>x. Inr (snd x))
       | Auto \<Rightarrow> Inr C)
       (finalize F bias biasSize d p (fst r) (snd r))"

text \<open>
  \<^verbatim>\<open>Gemm::compute\<close>. \<open>shards\<close> gives the row ranges the pool's \<^verbatim>\<open>parallelFor\<close> hands out for a row
  count, in the order the workers take them; \<open>None\<close> is a null pool. \<open>bufs\<close> is what the
  running thread's packing buffers hold.
\<close>

definition gemm_compute ::
  "'a arith \<Rightarrow> 'a tensor \<Rightarrow> 'a tensor \<Rightarrow> 'a tensor \<Rightarrow> 'a tensor \<Rightarrow> 'a gemm_params \<Rightarrow> gemm_strategy \<Rightarrow>
   (nat \<Rightarrow> (nat \<times> nat) list) option \<Rightarrow> 'a pack_bufs \<Rightarrow> 'a tensor res" where
  "gemm_compute F A B bias out p strategy shards bufs =
     rbind (gemm_validate A B bias p) (\<lambda>_.
     rbind (resolveDims A B p) (\<lambda>d.
     rbind (if rank out \<noteq> 2 \<or> t_shape out \<noteq> [word_of_nat (dN d), word_of_nat (dM d)]
            then tensor_zeros (a_zero F) [word_of_nat (dN d), word_of_nat (dM d)] (t_alloc out)
            else Inr out) (\<lambda>out.
     let strategy = (if strategy = Auto then resolveAuto d else strategy);
         run = runRows F strategy (t_data A) (t_data B) (t_data bias) (unat (t_size bias)) d p bufs;
         workPerRow = dK d * dM d mod 2 ^ 64
     in rbind (case shards of
           Some sh \<Rightarrow> (if 1 < dN d \<and> 2 ^ 18 \<le> workPerRow * dN d mod 2 ^ 64
                      then rfold run (sh (dN d)) (t_data out)
                      else run (0, dN d) (t_data out))
         | None \<Rightarrow> run (0, dN d) (t_data out)) (\<lambda>xs.
        Inr (out\<lparr>t_data := xs\<rparr>)))))"

end
