(* ===== verification/Gemm_Correct.thy ===== *)
theory Gemm_Correct
  imports Gemm
begin

text \<open>
  What the kernels compute. A buffer is related to a matrix (\<open>cells\<close>), every loop of a kernel
  is refined to a pure fold over the matrix, and a fold is then read off cell by cell: for
  one output cell the blocked and reordered loops run through the same products in the same
  order as the textbook loop, except that they leave out zero multipliers. The locale
  \<open>skip_arith\<close> states what makes leaving them out harmless; binary32 satisfies it.
\<close>

section \<open>Buffers as matrices\<close>

definition cells :: "nat \<Rightarrow> nat \<Rightarrow> nat \<Rightarrow> 'a list \<Rightarrow> (nat \<Rightarrow> nat \<Rightarrow> 'a) \<Rightarrow> bool" where
  "cells L R D X g = (length X = L \<and> (\<forall>i<R. \<forall>j<D. X ! (i * D + j) = g i j))"

definition cell_at :: "nat \<Rightarrow> nat \<Rightarrow> ('a \<Rightarrow> 'a) \<Rightarrow> (nat \<Rightarrow> nat \<Rightarrow> 'a) \<Rightarrow> nat \<Rightarrow> nat \<Rightarrow> 'a" where
  "cell_at i j f g = (\<lambda>i' j'. if i' = i \<and> j' = j then f (g i' j') else g i' j')"

lemma grid_bound: "i < R \<Longrightarrow> j < D \<Longrightarrow> i * D + j < R * (D :: nat)"
proof -
  assume "i < R" "j < D"
  then have "i * D + j < Suc i * D" by simp
  also have "\<dots> \<le> R * D" using \<open>i < R\<close> by (intro mult_le_mono) auto
  finally show ?thesis .
qed

lemma grid_inj: "j < D \<Longrightarrow> j' < D \<Longrightarrow> i * D + j = i' * D + j' \<longleftrightarrow> i = i' \<and> j = (j' :: nat)"
  by (metis add.commute div_mult_self1_is_m div_mult_self3 mod_mult_self3 div_less mod_less
      add_0_right gr_implies_not0 not_gr_zero)

lemma ix_grid: "i < R \<Longrightarrow> j < D \<Longrightarrow> R * D < 2 ^ 64 \<Longrightarrow> ix i D j = i * D + j"
  using grid_bound [of i R j D] by (simp add: ix_def)

lemma cells_rd:
  "cells L R D X g \<Longrightarrow> i < R \<Longrightarrow> j < D \<Longrightarrow> R * D \<le> L \<Longrightarrow> R * D < 2 ^ 64 \<Longrightarrow> rd X (ix i D j) = Inr (g i j)"
  using grid_bound [of i R j D] by (simp add: ix_grid cells_def)

lemma cells_wr:
  assumes "cells L R D X g" "i < R" "j < D" "R * D \<le> L" "R * D < 2 ^ 64"
  shows "\<exists>Y. wr X (ix i D j) v = Inr Y \<and> cells L R D Y (cell_at i j (\<lambda>_. v) g)"
proof -
  have b: "i * D + j < L" using grid_bound assms by (metis order_less_le_trans)
  then have "cells L R D (X[i * D + j := v]) (cell_at i j (\<lambda>_. v) g)"
    using assms by (auto simp: cells_def cell_at_def nth_list_update grid_inj)
  with b assms show ?thesis by (simp add: ix_grid cells_def)
qed

section \<open>Folds over matrices, cell by cell\<close>

lemma fold_cell:
  assumes "\<And>x h. x \<in> set xs \<Longrightarrow> u x h i j = c x (h i j)"
  shows "fold u xs g i j = fold c xs (g i j)"
  using assms by (induction xs arbitrary: g) auto

lemma fold_hit:
  "distinct xs \<Longrightarrow> fold (\<lambda>x v. if P \<and> a = x then f x v else v) xs v = (if P \<and> a \<in> set xs then f a v else v)"
proof (induction xs arbitrary: v)
  case (Cons x xs)
  have "a \<notin> set xs \<Longrightarrow> fold (\<lambda>x v. if P \<and> a = x then f x v else v) xs w = w" for w
    using Cons by (induction xs arbitrary: w) auto
  with Cons show ?case by auto
qed simp

lemma fold_if: "fold (\<lambda>x v. if P then f x v else v) xs v = (if P then fold f xs v else v)"
  by (induction xs arbitrary: v) auto

lemma fold_concat': "fold f (concat xss) = fold (fold f) xss"
  by (induction xss) auto

lemma fold_blocks:
  assumes "0 < st"
  shows "fold (\<lambda>b. fold f [b..<min (b + st) hi]) (steps lo hi st) v = fold f [lo..<hi] v"
proof -
  have "fold f (concat (map (\<lambda>b. [b..<min (b + st) hi]) (steps lo hi st))) v = fold f [lo..<hi] v"
    using assms by (simp only: steps_blocks)
  then show ?thesis by (simp only: fold_concat' fold_map comp_def)
qed

lemma fold_blocks_hit:
  assumes "0 < st"
  shows "fold (\<lambda>b v. if P \<and> b \<le> a \<and> a < min (b + st) hi then h v else v) (steps lo hi st) v
       = (if P \<and> lo \<le> a \<and> a < hi then h v else v)"
proof -
  have "(\<lambda>b v. if P \<and> b \<le> a \<and> a < min (b + st) hi then h v else v)
      = (\<lambda>b. fold (\<lambda>x v. if P \<and> a = x then h v else v) [b..<min (b + st) hi])"
    by (intro ext) (simp add: fold_hit)
  then show ?thesis using assms by (simp add: fold_blocks fold_hit)
qed

lemma fold_shift: "fold (\<lambda>x. f (b + x)) [0..<n] = fold f [b..<b + n]"
proof -
  have "[b..<b + n] = map ((+) b) [0..<n]"
    by (rule nth_equalityI) auto
  then show ?thesis by (simp add: fold_map comp_def)
qed


section \<open>The operands\<close>

text \<open>Operand buffers as matrices, and the numbers the kernels put into a cell.\<close>

definition elemA :: "'a list \<Rightarrow> dims \<Rightarrow> 'a gemm_params \<Rightarrow> nat \<Rightarrow> nat \<Rightarrow> 'a" where
  "elemA A d p i k = A ! (if transA p then k * dN d + i else i * dK d + k)"

definition elemB :: "'a list \<Rightarrow> dims \<Rightarrow> 'a gemm_params \<Rightarrow> nat \<Rightarrow> nat \<Rightarrow> 'a" where
  "elemB B d p k j = B ! (if transB p then j * dK d + k else k * dM d + j)"

definition operands :: "'a list \<Rightarrow> 'a list \<Rightarrow> dims \<Rightarrow> bool" where
  "operands A B d =
     (length A = dN d * dK d \<and> length B = dK d * dM d \<and>
      dN d * dK d < 2 ^ 64 \<and> dK d * dM d < 2 ^ 64 \<and> dN d * dM d < 2 ^ 64)"

definition term_plain :: "'a arith \<Rightarrow> 'a list \<Rightarrow> 'a list \<Rightarrow> dims \<Rightarrow> 'a gemm_params \<Rightarrow> nat \<Rightarrow> nat \<Rightarrow> nat \<Rightarrow> 'a \<Rightarrow> 'a" where
  "term_plain F A B d p i j k v = a_add F v (a_mul F (elemA A d p i k) (elemB B d p k j))"

definition term_skip :: "'a arith \<Rightarrow> 'a list \<Rightarrow> 'a list \<Rightarrow> dims \<Rightarrow> 'a gemm_params \<Rightarrow> nat \<Rightarrow> nat \<Rightarrow> nat \<Rightarrow> 'a \<Rightarrow> 'a" where
  "term_skip F A B d p i j k v =
     (if a_is_zero F (elemA A d p i k) then v else term_plain F A B d p i j k v)"

lemma read_a_ok:
  assumes "operands A B d" "i < dN d" "k < dK d"
  shows "read_a A d p i k = Inr (elemA A d p i k)"
  using assms grid_bound [of i "dN d" k "dK d"] grid_bound [of k "dK d" i "dN d"]
  by (simp add: read_a_def elemA_def operands_def ix_def mult.commute [of "dK d"])

lemma read_b_ok:
  assumes "operands A B d" "k < dK d" "j < dM d"
  shows "read_b B d p k j = Inr (elemB B d p k j)"
  using assms grid_bound [of j "dM d" k "dK d"] grid_bound [of k "dK d" j "dM d"]
  by (simp add: read_b_def elemB_def operands_def ix_def mult.commute [of "dM d"])

abbreviation out_cells :: "dims \<Rightarrow> 'a list \<Rightarrow> (nat \<Rightarrow> nat \<Rightarrow> 'a) \<Rightarrow> bool" where
  "out_cells d \<equiv> cells (dN d * dM d) (dN d) (dM d)"

lemmas out_refine = rfold_refine [where R = "out_cells d" for d]

section \<open>Loops over the cells of a range of rows\<close>

lemma grid_loop_ok:
  assumes body: "\<And>i j X g. rb \<le> i \<Longrightarrow> i < re \<Longrightarrow> j < D \<Longrightarrow> cells L R D X g \<Longrightarrow>
      \<exists>Y. body i j X = Inr Y \<and> cells L R D Y (cell_at i j (h i j) g)"
    and X: "cells L R D X g"
  shows "\<exists>Y. for_range rb re (\<lambda>i. for_range 0 D (body i)) X = Inr Y \<and>
    cells L R D Y (\<lambda>i j. if rb \<le> i \<and> i < re \<and> j < D then h i j (g i j) else g i j)"
proof -
  let ?u = "\<lambda>i. fold (\<lambda>j. cell_at i j (h i j)) [0..<D]"
  have row: "\<exists>Y. for_range 0 D (body i) X = Inr Y \<and> cells L R D Y (?u i g)"
    if "rb \<le> i" "i < re" "cells L R D X g" for i X g
    unfolding for_range_def
    by (rule rfold_refine [where R = "cells L R D"]) (use that in \<open>auto intro: body\<close>)
  have "\<exists>Y. for_range rb re (\<lambda>i. for_range 0 D (body i)) X = Inr Y \<and>
      cells L R D Y (fold ?u [rb..<re] g)"
    unfolding for_range_def [of rb]
    by (rule rfold_refine [where R = "cells L R D"]) (use X in \<open>auto intro: row\<close>)
  moreover have "fold ?u [rb..<re] g = (\<lambda>i j. if rb \<le> i \<and> i < re \<and> j < D then h i j (g i j) else g i j)"
  proof (intro ext)
    fix i j
    have cell: "?u x f i j = (if i = x \<and> j < D then h x j (f i j) else f i j)" for x f
    proof -
      have "?u x f i j = fold (\<lambda>y v. if i = x \<and> j = y then h x y v else v) [0..<D] (f i j)"
        by (rule fold_cell) (simp add: cell_at_def)
      then show ?thesis by (simp add: fold_hit)
    qed
    have "fold ?u [rb..<re] g i j
        = fold (\<lambda>x v. if j < D \<and> i = x then h x j v else v) [rb..<re] (g i j)"
      by (rule fold_cell) (simp only: cell conj_commute)
    then show "fold ?u [rb..<re] g i j = (if rb \<le> i \<and> i < re \<and> j < D then h i j (g i j) else g i j)"
      by (auto simp: fold_hit)
  qed
  ultimately show ?thesis by simp
qed

lemma cells_wr_upd:
  assumes "cells L R D X g" "i < R" "j < D" "R * D \<le> L" "R * D < 2 ^ 64" "f (g i j) = v"
  shows "\<exists>Y. wr X (ix i D j) v = Inr Y \<and> cells L R D Y (cell_at i j f g)"
proof -
  have "cell_at i j (\<lambda>_. v) g = cell_at i j f g"
    using assms(6) by (auto simp: cell_at_def fun_eq_iff)
  with cells_wr [OF assms(1-5), of v] show ?thesis by simp
qed

lemma fill_rows_ok:
  assumes "dN d * dM d < 2 ^ 64" "re \<le> dN d" "out_cells d C g"
  shows "\<exists>C'. for_range rb re (fill_row F d) C = Inr C' \<and>
    out_cells d C' (\<lambda>i j. if rb \<le> i \<and> i < re \<and> j < dM d then a_zero F else g i j)"
  unfolding fill_row_def
  by (rule grid_loop_ok [where h = "\<lambda>i j _. a_zero F"]) (use assms in \<open>auto intro: cells_wr\<close>)

section \<open>The inner update of the blocked kernels\<close>

lemma acc_cell_ok:
  assumes "operands A B d" "i < dN d" "k < dK d" "j < dM d" "out_cells d C g"
  shows "\<exists>C'. acc_cell F B d p i k a j C = Inr C' \<and>
    out_cells d C' (cell_at i j (\<lambda>v. a_add F v (a_mul F a (elemB B d p k j))) g)"
proof -
  have nm: "dN d * dM d < 2 ^ 64" using assms(1) by (simp add: operands_def)
  have "rd C (ix i (dM d) j) = Inr (g i j)"
    using cells_rd [OF assms(5,2,4)] nm by simp
  with assms nm show ?thesis
    by (simp add: acc_cell_def read_b_ok cells_wr_upd)
qed

text \<open>One row step of the blocked loops: the products of \<open>A[i,k]\<close> with the columns \<open>jlo..<jhi\<close>.\<close>

definition row_step :: "'a arith \<Rightarrow> 'a list \<Rightarrow> 'a list \<Rightarrow> dims \<Rightarrow> 'a gemm_params \<Rightarrow> nat \<Rightarrow> nat \<Rightarrow> nat \<Rightarrow> nat
    \<Rightarrow> (nat \<Rightarrow> nat \<Rightarrow> 'a) \<Rightarrow> nat \<Rightarrow> nat \<Rightarrow> 'a" where
  "row_step F A B d p jlo jhi i k g =
     (if a_is_zero F (elemA A d p i k) then g
      else fold (\<lambda>j. cell_at i j (\<lambda>v. a_add F v (a_mul F (elemA A d p i k) (elemB B d p k j)))) [jlo..<jhi] g)"

lemma row_step_cell:
  "row_step F A B d p jlo jhi i k g i0 j0 =
     (if i0 = i \<and> jlo \<le> j0 \<and> j0 < jhi then term_skip F A B d p i0 j0 k (g i0 j0) else g i0 j0)"
proof -
  have "fold (\<lambda>j. cell_at i j (\<lambda>v. a_add F v (a_mul F (elemA A d p i k) (elemB B d p k j)))) [jlo..<jhi] g i0 j0
      = fold (\<lambda>j v. if i0 = i \<and> j0 = j then a_add F v (a_mul F (elemA A d p i k) (elemB B d p k j)) else v)
          [jlo..<jhi] (g i0 j0)"
    by (rule fold_cell) (simp add: cell_at_def)
  then show ?thesis
    by (auto simp: row_step_def term_skip_def term_plain_def fold_hit)
qed

lemma row_step_ok:
  assumes "operands A B d" "i < dN d" "k < dK d" "jhi \<le> dM d" "out_cells d C g"
  shows "\<exists>C'. rbind (read_a A d p i k) (\<lambda>a. if a_is_zero F a then Inr C
      else for_range jlo jhi (acc_cell F B d p i k a) C) = Inr C' \<and>
    out_cells d C' (row_step F A B d p jlo jhi i k g)"
proof -
  have "\<exists>C'. for_range jlo jhi (acc_cell F B d p i k (elemA A d p i k)) C = Inr C' \<and>
      out_cells d C' (fold (\<lambda>j. cell_at i j (\<lambda>v. a_add F v (a_mul F (elemA A d p i k) (elemB B d p k j)))) [jlo..<jhi] g)"
    unfolding for_range_def
    by (rule out_refine) (use assms in \<open>auto intro: acc_cell_ok\<close>)
  with assms show ?thesis by (simp add: read_a_ok row_step_def)
qed


section \<open>The kernels, cell by cell\<close>

definition dot_plain :: "'a arith \<Rightarrow> 'a list \<Rightarrow> 'a list \<Rightarrow> dims \<Rightarrow> 'a gemm_params \<Rightarrow> nat \<Rightarrow> nat \<Rightarrow> 'a" where
  "dot_plain F A B d p i j = fold (term_plain F A B d p i j) [0..<dK d] (a_zero F)"

definition dot_skip :: "'a arith \<Rightarrow> 'a list \<Rightarrow> 'a list \<Rightarrow> dims \<Rightarrow> 'a gemm_params \<Rightarrow> nat \<Rightarrow> nat \<Rightarrow> 'a" where
  "dot_skip F A B d p i j = fold (term_skip F A B d p i j) [0..<dK d] (a_zero F)"

text \<open>What a kernel must do: its value in the cells of its rows, every other cell untouched.\<close>

definition writes_rows :: "dims \<Rightarrow> nat \<Rightarrow> nat \<Rightarrow> ('a list \<Rightarrow> 'a list res) \<Rightarrow> (nat \<Rightarrow> nat \<Rightarrow> 'a \<Rightarrow> 'a) \<Rightarrow> bool" where
  "writes_rows d rb re run h =
     (\<forall>C g. out_cells d C g \<longrightarrow> (\<exists>C'. run C = Inr C' \<and>
        out_cells d C' (\<lambda>i j. if rb \<le> i \<and> i < re \<and> j < dM d then h i j (g i j) else g i j)))"

lemma writes_rowsI:
  "(\<And>C g. out_cells d C g \<Longrightarrow> \<exists>C'. run C = Inr C' \<and>
      out_cells d C' (\<lambda>i j. if rb \<le> i \<and> i < re \<and> j < dM d then h i j (g i j) else g i j))
   \<Longrightarrow> writes_rows d rb re run h"
  by (simp add: writes_rows_def)

lemma naive_rows:
  fixes F :: "'a arith"
  assumes "operands A B d" "re \<le> dN d"
  shows "writes_rows d rb re (accumulateNaive F A B d p rb re) (\<lambda>i j _. dot_plain F A B d p i j)"
proof (rule writes_rowsI)
  fix C :: "'a list" and g
  assume C: "out_cells d C g"
  have nm: "dN d * dM d < 2 ^ 64" using assms(1) by (simp add: operands_def)
  have sum: "for_range 0 (dK d) (\<lambda>k acc. rbind (read_a A d p i k) (\<lambda>a. rbind (read_b B d p k j)
      (\<lambda>b. Inr (a_add F acc (a_mul F a b))))) (a_zero F) = Inr (dot_plain F A B d p i j)"
    if "i < dN d" "j < dM d" for i j
    unfolding for_range_def dot_plain_def
    using that assms by (intro rfold_pure [where P = "\<lambda>_. True", THEN conjunct1])
      (auto simp: read_a_ok read_b_ok term_plain_def)
  show "\<exists>C'. accumulateNaive F A B d p rb re C = Inr C' \<and>
      out_cells d C' (\<lambda>i j. if rb \<le> i \<and> i < re \<and> j < dM d then dot_plain F A B d p i j else g i j)"
    unfolding accumulateNaive_def
    using C assms nm
    by (intro grid_loop_ok [where h = "\<lambda>i j _. dot_plain F A B d p i j"]) (auto simp: sum intro: cells_wr)
qed

lemma rows_by_row:
  fixes body :: "nat \<Rightarrow> 'a list \<Rightarrow> 'a list res"
  assumes row: "\<And>i C g. rb \<le> i \<Longrightarrow> i < re \<Longrightarrow> out_cells d C g \<Longrightarrow>
      \<exists>C'. body i C = Inr C' \<and> out_cells d C' (u i g)"
    and cell: "\<And>i g i0 j0. rb \<le> i \<Longrightarrow> i < re \<Longrightarrow> u i g i0 j0 = (if i0 = i \<and> j0 < dM d then h i j0 (g i0 j0) else g i0 j0)"
  shows "writes_rows d rb re (for_range rb re body) h"
proof (rule writes_rowsI)
  fix C :: "'a list" and g
  assume "out_cells d C g"
  then have "\<exists>C'. for_range rb re body C = Inr C' \<and> out_cells d C' (fold u [rb..<re] g)"
    unfolding for_range_def by (intro out_refine) (auto intro: row)
  moreover have "fold u [rb..<re] g = (\<lambda>i j. if rb \<le> i \<and> i < re \<and> j < dM d then h i j (g i j) else g i j)"
  proof (intro ext)
    fix i j
    have "fold u [rb..<re] g i j = fold (\<lambda>x v. if j < dM d \<and> i = x then h x j v else v) [rb..<re] (g i j)"
      by (rule fold_cell) (auto simp: cell)
    then show "fold u [rb..<re] g i j = (if rb \<le> i \<and> i < re \<and> j < dM d then h i j (g i j) else g i j)"
      by (auto simp: fold_hit)
  qed
  ultimately show "\<exists>C'. for_range rb re body C = Inr C' \<and>
      out_cells d C' (\<lambda>i j. if rb \<le> i \<and> i < re \<and> j < dM d then h i j (g i j) else g i j)"
    by simp
qed

lemma reordered_rows:
  assumes "operands A B d" "re \<le> dN d" "\<not> (transB p \<and> \<not> transA p)"
  shows "writes_rows d rb re (accumulateReordered F A B d p rb re) (\<lambda>i j _. dot_skip F A B d p i j)"
proof -
  have nm: "dN d * dM d < 2 ^ 64" using assms(1) by (simp add: operands_def)
  let ?z = "\<lambda>i g i0 j0. if i \<le> i0 \<and> i0 < Suc i \<and> j0 < dM d then a_zero F else g i0 j0"
  let ?u = "\<lambda>i g. fold (\<lambda>k. row_step F A B d p 0 (dM d) i k) [0..<dK d] (?z i g)"
  have row: "\<exists>C'. rbind (fill_row F d i C) (for_range 0 (dK d) (\<lambda>k C.
            rbind (read_a A d p i k) (\<lambda>a. if a_is_zero F a then Inr C
              else for_range 0 (dM d) (acc_cell F B d p i k a) C))) = Inr C' \<and> out_cells d C' (?u i g)"
    if i: "i < re" and C: "out_cells d C g" for i C g
  proof -
    have "for_range i (Suc i) (fill_row F d) C = fill_row F d i C"
      by (simp add: for_range_def)
    with fill_rows_ok [OF nm _ C, of "Suc i" i F] i assms(2) obtain C1 where
      C1: "fill_row F d i C = Inr C1" "out_cells d C1 (?z i g)" by auto
    have "\<exists>C'. for_range 0 (dK d) (\<lambda>k C. rbind (read_a A d p i k) (\<lambda>a. if a_is_zero F a then Inr C
              else for_range 0 (dM d) (acc_cell F B d p i k a) C)) C1 = Inr C' \<and> out_cells d C' (?u i g)"
      unfolding for_range_def [of 0 "dK d"]
      by (rule out_refine) (use C1 i assms in \<open>auto intro!: row_step_ok\<close>)
    with C1 show ?thesis by simp
  qed
  have "?u i g i0 j0 = (if i0 = i \<and> j0 < dM d then dot_skip F A B d p i j0 else g i0 j0)" for i g i0 j0
  proof -
    have "?u i g i0 j0 = fold (\<lambda>k v. if i0 = i \<and> j0 < dM d then term_skip F A B d p i0 j0 k v else v)
        [0..<dK d] (?z i g i0 j0)"
      by (rule fold_cell) (simp add: row_step_cell)
    then show ?thesis by (auto simp: fold_if dot_skip_def)
  qed
  with assms(3) show ?thesis
    unfolding accumulateReordered_def if_not_P [OF assms(3)]
    by (intro rows_by_row [where u = ?u]) (auto intro: row)
qed


subsection \<open>Blocked kernels\<close>

definition tile_step :: "'a arith \<Rightarrow> 'a list \<Rightarrow> 'a list \<Rightarrow> dims \<Rightarrow> 'a gemm_params \<Rightarrow> nat \<Rightarrow> nat \<Rightarrow> nat \<Rightarrow> nat \<Rightarrow> nat \<Rightarrow> nat
    \<Rightarrow> (nat \<Rightarrow> nat \<Rightarrow> 'a) \<Rightarrow> nat \<Rightarrow> nat \<Rightarrow> 'a" where
  "tile_step F A B d p ii iMax kk kMax jj jMax =
     fold (\<lambda>i. fold (row_step F A B d p jj jMax i) [kk..<kMax]) [ii..<iMax]"

lemma tile_step_cell:
  "tile_step F A B d p ii iMax kk kMax jj jMax g i j =
     (if (ii \<le> i \<and> i < iMax) \<and> jj \<le> j \<and> j < jMax
      then fold (term_skip F A B d p i j) [kk..<kMax] (g i j) else g i j)"
proof -
  have row: "fold (row_step F A B d p jj jMax x) [kk..<kMax] f i j =
      (if (jj \<le> j \<and> j < jMax) \<and> i = x then fold (term_skip F A B d p i j) [kk..<kMax] (f i j) else f i j)" for x f
  proof -
    have "fold (row_step F A B d p jj jMax x) [kk..<kMax] f i j =
        fold (\<lambda>k v. if (jj \<le> j \<and> j < jMax) \<and> i = x then term_skip F A B d p i j k v else v) [kk..<kMax] (f i j)"
      by (rule fold_cell) (auto simp: row_step_cell)
    then show ?thesis by (simp only: fold_if)
  qed
  have "tile_step F A B d p ii iMax kk kMax jj jMax g i j =
      fold (\<lambda>x v. if (jj \<le> j \<and> j < jMax) \<and> i = x then fold (term_skip F A B d p i j) [kk..<kMax] v else v)
        [ii..<iMax] (g i j)"
    unfolding tile_step_def by (rule fold_cell) (rule row)
  also have "\<dots> = (if (ii \<le> i \<and> i < iMax) \<and> jj \<le> j \<and> j < jMax
      then fold (term_skip F A B d p i j) [kk..<kMax] (g i j) else g i j)"
    by (subst fold_hit [where f = "\<lambda>_. fold (term_skip F A B d p i j) [kk..<kMax]"]) auto
  finally show ?thesis .
qed

text \<open>The three blocked loops with tile size \<open>T\<close>: every cell of the rows gets all its products, in order.\<close>

definition all_tiles :: "'a arith \<Rightarrow> 'a list \<Rightarrow> 'a list \<Rightarrow> dims \<Rightarrow> 'a gemm_params \<Rightarrow> nat \<Rightarrow> nat \<Rightarrow> nat
    \<Rightarrow> (nat \<Rightarrow> nat \<Rightarrow> 'a) \<Rightarrow> nat \<Rightarrow> nat \<Rightarrow> 'a" where
  "all_tiles F A B d p T rb re =
     fold (\<lambda>ii. fold (\<lambda>kk. fold (\<lambda>jj. tile_step F A B d p ii (min (ii + T) re)
         kk (min (kk + T) (dK d)) jj (min (jj + T) (dM d)))
       (steps 0 (dM d) T)) (steps 0 (dK d) T)) (steps rb re T)"

lemma all_tiles_cell:
  assumes "0 < T"
  shows "all_tiles F A B d p T rb re g i j =
    (if rb \<le> i \<and> i < re \<and> j < dM d then fold (term_skip F A B d p i j) [0..<dK d] (g i j) else g i j)"
proof -
  let ?t = "\<lambda>ii kk jj. tile_step F A B d p ii (min (ii + T) re) kk (min (kk + T) (dK d)) jj (min (jj + T) (dM d))"
  let ?f = "term_skip F A B d p i j"
  have cols: "fold (?t ii kk) (steps 0 (dM d) T) f i j =
      (if j < dM d \<and> ii \<le> i \<and> i < min (ii + T) re
       then fold ?f [kk..<min (kk + T) (dK d)] (f i j) else f i j)" for ii kk f
  proof -
    have "fold (?t ii kk) (steps 0 (dM d) T) f i j =
        fold (\<lambda>jj v. if (ii \<le> i \<and> i < min (ii + T) re) \<and> jj \<le> j \<and> j < min (jj + T) (dM d)
           then fold ?f [kk..<min (kk + T) (dK d)] v else v) (steps 0 (dM d) T) (f i j)"
      by (rule fold_cell) (rule tile_step_cell)
    also have "\<dots> = (if (ii \<le> i \<and> i < min (ii + T) re) \<and> 0 \<le> j \<and> j < dM d
        then fold ?f [kk..<min (kk + T) (dK d)] (f i j) else f i j)"
      by (rule fold_blocks_hit [OF assms])
    finally show ?thesis by auto
  qed
  have depth: "fold (\<lambda>kk. fold (?t ii kk) (steps 0 (dM d) T)) (steps 0 (dK d) T) f i j =
      (if j < dM d \<and> ii \<le> i \<and> i < min (ii + T) re then fold ?f [0..<dK d] (f i j) else f i j)" for ii f
  proof -
    have "fold (\<lambda>kk. fold (?t ii kk) (steps 0 (dM d) T)) (steps 0 (dK d) T) f i j =
        fold (\<lambda>kk v. if j < dM d \<and> ii \<le> i \<and> i < min (ii + T) re
          then fold ?f [kk..<min (kk + T) (dK d)] v else v) (steps 0 (dK d) T) (f i j)"
      by (rule fold_cell) (rule cols)
    then show ?thesis using assms by (simp only: fold_if fold_blocks)
  qed
  have "all_tiles F A B d p T rb re g i j =
      fold (\<lambda>ii v. if j < dM d \<and> ii \<le> i \<and> i < min (ii + T) re then fold ?f [0..<dK d] v else v)
        (steps rb re T) (g i j)"
    unfolding all_tiles_def by (rule fold_cell) (rule depth)
  also have "\<dots> = (if j < dM d \<and> rb \<le> i \<and> i < re then fold ?f [0..<dK d] (g i j) else g i j)"
    by (rule fold_blocks_hit [OF assms])
  finally show ?thesis by auto
qed

lemma tile_ok:
  assumes "operands A B d" "iMax \<le> dN d" "kMax \<le> dK d" "jMax \<le> dM d" "out_cells d C g"
  shows "\<exists>C'. for_range ii iMax (\<lambda>i. for_range kk kMax (\<lambda>k C.
      rbind (read_a A d p i k) (\<lambda>a. if a_is_zero F a then Inr C
        else for_range jj jMax (acc_cell F B d p i k a) C))) C = Inr C' \<and>
    out_cells d C' (tile_step F A B d p ii iMax kk kMax jj jMax g)"
  unfolding for_range_def [of ii] for_range_def [of kk] tile_step_def
  by (intro out_refine row_step_ok) (use assms in auto)

text \<open>After the fill, the blocked loops leave the skipping sum in every cell of the rows.\<close>

lemma all_tiles_filled:
  assumes "0 < T"
  shows "all_tiles F A B d p T rb re (\<lambda>i j. if rb \<le> i \<and> i < re \<and> j < dM d then a_zero F else g i j)
    = (\<lambda>i j. if rb \<le> i \<and> i < re \<and> j < dM d then dot_skip F A B d p i j else g i j)"
  by (intro ext) (simp add: all_tiles_cell [OF assms] dot_skip_def)

lemma tiled_rows:
  fixes F :: "'a arith"
  assumes "operands A B d" "re \<le> dN d"
  shows "writes_rows d rb re (accumulateTiled F A B d p rb re) (\<lambda>i j _. dot_skip F A B d p i j)"
proof (rule writes_rowsI)
  fix C :: "'a list" and g
  assume C: "out_cells d C g"
  have nm: "dN d * dM d < 2 ^ 64" using assms(1) by (simp add: operands_def)
  obtain C1 where C1: "for_range rb re (fill_row F d) C = Inr C1"
    "out_cells d C1 (\<lambda>i j. if rb \<le> i \<and> i < re \<and> j < dM d then a_zero F else g i j)"
    using fill_rows_ok [OF nm assms(2) C, of rb F] by blast
  have "\<exists>C'. for_step rb re kTile (\<lambda>ii.
          let iMax = min (ii + kTile) re in
          for_step 0 (dK d) kTile (\<lambda>kk.
            let kMax = min (kk + kTile) (dK d) in
            for_step 0 (dM d) kTile (\<lambda>jj.
              let jMax = min (jj + kTile) (dM d) in
              for_range ii iMax (\<lambda>i.
                for_range kk kMax (\<lambda>k C.
                  rbind (read_a A d p i k) (\<lambda>a.
                    if a_is_zero F a then Inr C
                    else for_range jj jMax (acc_cell F B d p i k a) C)))))) C1 = Inr C' \<and>
      out_cells d C' (all_tiles F A B d p kTile rb re (\<lambda>i j. if rb \<le> i \<and> i < re \<and> j < dM d then a_zero F else g i j))"
    unfolding Let_def for_step_def all_tiles_def
    by (intro out_refine tile_ok) (use C1 assms in auto)
  moreover have "0 < kTile" by (simp add: kTile_def)
  ultimately show "\<exists>C'. accumulateTiled F A B d p rb re C = Inr C' \<and>
      out_cells d C' (\<lambda>i j. if rb \<le> i \<and> i < re \<and> j < dM d then dot_skip F A B d p i j else g i j)"
    using C1 by (simp add: accumulateTiled_def all_tiles_filled)
qed

subsection \<open>The packed kernel\<close>

lemma grid_fill_ok:
  assumes "\<And>i j. i < R \<Longrightarrow> j < D \<Longrightarrow> src i j = Inr (h i j)" "R * D \<le> L" "R * D < 2 ^ 64" "length X = L"
  shows "\<exists>Y. for_range 0 R (\<lambda>i. for_range 0 D (\<lambda>j X. rbind (src i j) (wr X (ix i D j)))) X = Inr Y \<and>
    cells L R D Y h"
proof -
  have "cells L R D X (\<lambda>i j. X ! (i * D + j))" using assms by (simp add: cells_def)
  then have "\<exists>Y. for_range 0 R (\<lambda>i. for_range 0 D (\<lambda>j X. rbind (src i j) (wr X (ix i D j)))) X = Inr Y \<and>
      cells L R D Y (\<lambda>i j. if 0 \<le> i \<and> i < R \<and> j < D then h i j else X ! (i * D + j))"
    using assms by (intro grid_loop_ok [where h = "\<lambda>i j _. h i j"]) (auto intro: cells_wr)
  then show ?thesis by (auto simp: cells_def)
qed

lemma packTileA_ok:
  assumes "operands A B d" "ii + rows \<le> dN d" "kk + depth \<le> dK d" "rows * depth \<le> L" "L < 2 ^ 64" "length X = L"
  shows "\<exists>Y. packTileA A d p ii kk rows depth X = Inr Y \<and>
    cells L rows depth Y (\<lambda>i k. elemA A d p (ii + i) (kk + k))"
  unfolding packTileA_def by (rule grid_fill_ok) (use assms in \<open>auto simp: read_a_ok\<close>)

lemma packTileB_ok:
  assumes "operands A B d" "kk + depth \<le> dK d" "jj + cols \<le> dM d" "depth * cols \<le> L" "L < 2 ^ 64" "length X = L"
  shows "\<exists>Y. packTileB B d p kk jj depth cols X = Inr Y \<and>
    cells L depth cols Y (\<lambda>k j. elemB B d p (kk + k) (jj + j))"
  unfolding packTileB_def by (rule grid_fill_ok) (use assms in \<open>auto simp: read_b_ok\<close>)

lemma microKernel_ok:
  assumes ops: "operands A B d" and ii: "ii + rows \<le> dN d" and kk: "kk + depth \<le> dK d"
    and jj: "jj + cols \<le> dM d"
    and pA: "cells L rows depth pA (\<lambda>i k. elemA A d p (ii + i) (kk + k))"
    and pB: "cells L depth cols pB (\<lambda>k j. elemB B d p (kk + k) (jj + j))"
    and L: "rows * depth \<le> L" "depth * cols \<le> L" "L < 2 ^ 64"
    and C: "out_cells d C g"
  shows "\<exists>C'. microKernel F pA pB (ix ii (dM d) jj) rows depth cols (dM d) C = Inr C' \<and>
    out_cells d C' (tile_step F A B d p ii (ii + rows) kk (kk + depth) jj (jj + cols) g)"
proof -
  let ?f = "\<lambda>i k j v. a_add F v (a_mul F (elemA A d p i k) (elemB B d p k j))"
  have nm: "dN d * dM d < 2 ^ 64" using ops by (simp add: operands_def)
  have idx: "ix i (dM d) (ix ii (dM d) jj + j) = ix (ii + i) (dM d) (jj + j)" for i j
  proof -
    have "(i * dM d + ((ii * dM d + jj) mod 2 ^ 64 + j)) mod 2 ^ 64
        = ((ii * dM d + jj) mod 2 ^ 64 + (i * dM d + j)) mod 2 ^ 64"
      by (simp only: ac_simps)
    also have "\<dots> = ((ii * dM d + jj) + (i * dM d + j)) mod 2 ^ 64"
      by (rule mod_add_left_eq)
    finally show ?thesis
      unfolding ix_def by (simp only: algebra_simps)
  qed
  have cell: "\<exists>C'. rbind (rd pB (ix k cols j)) (\<lambda>b. rbind (rd C (ix i (dM d) (ix ii (dM d) jj + j))) (\<lambda>c.
        wr C (ix i (dM d) (ix ii (dM d) jj + j)) (a_add F c (a_mul F (elemA A d p (ii + i) (kk + k)) b)))) = Inr C' \<and>
      out_cells d C' (cell_at (ii + i) (jj + j) (?f (ii + i) (kk + k) (jj + j)) h)"
    if "i < rows" "k < depth" "j < cols" "out_cells d C h" for i k j C h
  proof -
    have "rd pB (ix k cols j) = Inr (elemB B d p (kk + k) (jj + j))"
      using cells_rd [OF pB that(2,3)] L by simp
    moreover have "rd C (ix (ii + i) (dM d) (jj + j)) = Inr (h (ii + i) (jj + j))"
      using cells_rd [OF that(4), of "ii + i" "jj + j"] that ii jj nm by simp
    moreover have "\<exists>C'. wr C (ix (ii + i) (dM d) (jj + j)) (?f (ii + i) (kk + k) (jj + j) (h (ii + i) (jj + j))) = Inr C' \<and>
        out_cells d C' (cell_at (ii + i) (jj + j) (?f (ii + i) (kk + k) (jj + j)) h)"
      using that ii jj nm by (intro cells_wr_upd) auto
    ultimately show ?thesis by (simp add: idx)
  qed
  have row: "\<exists>C'. rbind (rd pA (ix i depth k)) (\<lambda>a. if a_is_zero F a then Inr C else for_range 0 cols (\<lambda>j C.
        rbind (rd pB (ix k cols j)) (\<lambda>b. rbind (rd C (ix i (dM d) (ix ii (dM d) jj + j))) (\<lambda>c.
          wr C (ix i (dM d) (ix ii (dM d) jj + j)) (a_add F c (a_mul F a b))))) C) = Inr C' \<and>
      out_cells d C' (row_step F A B d p jj (jj + cols) (ii + i) (kk + k) h)"
    if "i < rows" "k < depth" "out_cells d C h" for i k C h
  proof -
    have "rd pA (ix i depth k) = Inr (elemA A d p (ii + i) (kk + k))"
      using cells_rd [OF pA that(1,2)] L by simp
    moreover have "\<exists>C'. for_range 0 cols (\<lambda>j C.
        rbind (rd pB (ix k cols j)) (\<lambda>b. rbind (rd C (ix i (dM d) (ix ii (dM d) jj + j))) (\<lambda>c.
          wr C (ix i (dM d) (ix ii (dM d) jj + j)) (a_add F c (a_mul F (elemA A d p (ii + i) (kk + k)) b))))) C = Inr C' \<and>
        out_cells d C' (fold (\<lambda>j. cell_at (ii + i) (jj + j) (?f (ii + i) (kk + k) (jj + j))) [0..<cols] h)"
      unfolding for_range_def by (rule out_refine) (use that in \<open>auto intro: cell\<close>)
    ultimately show ?thesis
      using that(3)
      by (simp add: row_step_def fold_shift [of "\<lambda>j. cell_at (ii + i) j (?f (ii + i) (kk + k) j)"])
  qed
  have "\<exists>C'. microKernel F pA pB (ix ii (dM d) jj) rows depth cols (dM d) C = Inr C' \<and>
      out_cells d C' (fold (\<lambda>i. fold (\<lambda>k. row_step F A B d p jj (jj + cols) (ii + i) (kk + k)) [0..<depth]) [0..<rows] g)"
    unfolding microKernel_def for_range_def [of 0 rows] for_range_def [of 0 depth]
    by (intro out_refine) (use C in \<open>auto intro!: row\<close>)
  then show ?thesis
    by (simp add: tile_step_def fold_shift [of "\<lambda>k. row_step F A B d p jj (jj + cols) i k" for i]
        fold_shift [of "\<lambda>i. fold (row_step F A B d p jj (jj + cols) i) [kk..<kk + depth]" ii rows])
qed


lemma length_resize [simp]: "length (resize z n xs) = n"
  by (simp add: resize_def)

lemma packed_rows:
  fixes F :: "'a arith"
  assumes ops: "operands A B d" and re: "re \<le> dN d"
  shows "writes_rows d rb re (\<lambda>C. rbind (accumulatePacked F A B d p rb re bufs C) (\<lambda>x. Inr (snd x)))
    (\<lambda>i j _. dot_skip F A B d p i j)"
proof (rule writes_rowsI)
  fix C :: "'a list" and g
  assume C: "out_cells d C g"
  have nm: "dN d * dM d < 2 ^ 64" using ops by (simp add: operands_def)
  define L where "L = kPackTile * kPackTile"
  have T: "0 < kPackTile" "L < 2 ^ 64" by (simp_all add: kPackTile_def L_def)
  have le_tile: "x \<le> kPackTile \<Longrightarrow> y \<le> kPackTile \<Longrightarrow> x * y \<le> L" for x y
    by (simp add: L_def mult_le_mono)
  let ?rows = "\<lambda>ii. min (ii + kPackTile) re - ii"
  let ?depth = "\<lambda>kk. min (kk + kPackTile) (dK d) - kk"
  let ?cols = "\<lambda>jj. min (jj + kPackTile) (dM d) - jj"
  let ?t = "\<lambda>ii kk jj. tile_step F A B d p ii (min (ii + kPackTile) re) kk (min (kk + kPackTile) (dK d))
      jj (min (jj + kPackTile) (dM d))"
  let ?R = "\<lambda>(bufs, C) g. length (fst bufs) = L \<and> length (snd bufs) = L \<and> out_cells d C g"
  let ?RA = "\<lambda>ii kk (bufs, C) g. cells L (?rows ii) (?depth kk) (fst bufs) (\<lambda>i k. elemA A d p (ii + i) (kk + k)) \<and>
      length (snd bufs) = L \<and> out_cells d C g"
  let ?jbody = "\<lambda>ii kk jj ((packA, packB), C).
      rbind (packTileB B d p kk jj (?depth kk) (?cols jj) packB) (\<lambda>packB.
      rbind (microKernel F packA packB (ix ii (dM d) jj) (?rows ii) (?depth kk) (?cols jj) (dM d) C) (\<lambda>C.
        Inr ((packA, packB), C)))"
  let ?kbody = "\<lambda>ii kk ((packA, packB), C).
      rbind (packTileA A d p ii kk (?rows ii) (?depth kk) packA) (\<lambda>packA.
        rfold (?jbody ii kk) (steps 0 (dM d) kPackTile) ((packA, packB), C))"
  have jstep: "\<exists>s'. ?jbody ii kk jj s = Inr s' \<and> ?RA ii kk s' (?t ii kk jj h)"
    if "ii \<in> set (steps rb re kPackTile)" "kk \<in> set (steps 0 (dK d) kPackTile)"
      "jj \<in> set (steps 0 (dM d) kPackTile)" and s: "?RA ii kk s h" for ii kk jj s h
  proof -
    obtain pA pB D where sd: "s = ((pA, pB), D)" by (metis surj_pair)
    note bnd = steps_bounds [OF that(1)] steps_bounds [OF that(2)] steps_bounds [OF that(3)]
    obtain pB' where pB': "packTileB B d p kk jj (?depth kk) (?cols jj) pB = Inr pB'"
      "cells L (?depth kk) (?cols jj) pB' (\<lambda>k j. elemB B d p (kk + k) (jj + j))"
      using packTileB_ok [OF ops, where kk = kk and depth = "?depth kk" and jj = jj and cols = "?cols jj" and L = L and X = pB and p = p] bnd s sd T le_tile by fastforce
    obtain D' where D': "microKernel F pA pB' (ix ii (dM d) jj) (?rows ii) (?depth kk) (?cols jj) (dM d) D = Inr D'"
      "out_cells d D' (tile_step F A B d p ii (ii + ?rows ii) kk (kk + ?depth kk) jj (jj + ?cols jj) h)"
      using microKernel_ok [OF ops _ _ _ _ pB'(2), where ii = ii and rows = "?rows ii" and pA = pA and C = D and g = h and F = F] bnd s sd T le_tile re by fastforce
    have "length pB' = L" using pB'(2) by (simp add: cells_def)
    with D' pB' s sd bnd show ?thesis by (simp add: min_absorb1)
  qed
  have kstep: "\<exists>s'. ?kbody ii kk s = Inr s' \<and> ?R s' (fold (?t ii kk) (steps 0 (dM d) kPackTile) h)"
    if ii: "ii \<in> set (steps rb re kPackTile)" and kk: "kk \<in> set (steps 0 (dK d) kPackTile)" and s: "?R s h" for ii kk s h
  proof -
    obtain pA pB D where sd: "s = ((pA, pB), D)" by (metis surj_pair)
    note bnd = steps_bounds [OF ii] steps_bounds [OF kk]
    obtain pA' where pA': "packTileA A d p ii kk (?rows ii) (?depth kk) pA = Inr pA'"
      "cells L (?rows ii) (?depth kk) pA' (\<lambda>i k. elemA A d p (ii + i) (kk + k))"
      using packTileA_ok [OF ops, where ii = ii and rows = "?rows ii" and kk = kk and depth = "?depth kk" and L = L and X = pA and p = p] bnd s sd T le_tile re by fastforce
    have "\<exists>s'. rfold (?jbody ii kk) (steps 0 (dM d) kPackTile) ((pA', pB), D) = Inr s' \<and>
        ?RA ii kk s' (fold (?t ii kk) (steps 0 (dM d) kPackTile) h)"
      by (rule rfold_refine [where R = "?RA ii kk"]) (use pA' s sd jstep [OF ii kk] in auto)
    with pA' sd show ?thesis by (fastforce simp: cells_def)
  qed
  show "\<exists>C'. rbind (accumulatePacked F A B d p rb re bufs C) (\<lambda>x. Inr (snd x)) = Inr C' \<and>
      out_cells d C' (\<lambda>i j. if rb \<le> i \<and> i < re \<and> j < dM d then dot_skip F A B d p i j else g i j)"
  proof -
    obtain C1 where C1: "for_range rb re (fill_row F d) C = Inr C1"
      "out_cells d C1 (\<lambda>i j. if rb \<le> i \<and> i < re \<and> j < dM d then a_zero F else g i j)"
      using fill_rows_ok [OF nm re C, of rb F] by blast
    let ?b0 = "(resize (a_zero F) L (fst bufs), resize (a_zero F) L (snd bufs))"
    have "\<exists>s. rfold (\<lambda>ii. rfold (?kbody ii) (steps 0 (dK d) kPackTile)) (steps rb re kPackTile) (?b0, C1) = Inr s \<and>
        ?R s (all_tiles F A B d p kPackTile rb re (\<lambda>i j. if rb \<le> i \<and> i < re \<and> j < dM d then a_zero F else g i j))"
      unfolding all_tiles_def
      by (rule rfold_refine [where R = ?R], use C1 in simp)
         (rule rfold_refine [where R = ?R], assumption, rule kstep)
    then show ?thesis
      using C1 T(1) by (auto simp: accumulatePacked_def for_step_eta Let_def L_def all_tiles_filled)
  qed
qed

end
