(* ===== verification/Gemm_Results.thy ===== *)
theory Gemm_Results
  imports Gemm_Correct
begin

text \<open>
  What \<^verbatim>\<open>Gemm::compute\<close> as a whole does: the four-lane dot product, the finalize pass, one shard
  of rows, and the dispatcher. The locale \<open>skip_arith\<close> is the contract under which leaving
  out zero multipliers is invisible; binary32 and the exact integers both provide it.
\<close>

section \<open>The four-lane dot product\<close>

definition dot_lanes :: "'a arith \<Rightarrow> 'a list \<Rightarrow> 'a list \<Rightarrow> dims \<Rightarrow> 'a gemm_params \<Rightarrow> nat \<Rightarrow> nat \<Rightarrow> 'a" where
  "dot_lanes F A B d p i j =
     (let t = term_plain F A B d p i j;
          (a0, a1, a2, a3) = fold (\<lambda>k (a0, a1, a2, a3). (t k a0, t (k + 1) a1, t (k + 2) a2, t (k + 3) a3))
             (steps 0 (dK d - 3) 4) (a_zero F, a_zero F, a_zero F, a_zero F)
      in fold t [4 * (dK d div 4)..<dK d] (a_add F (a_add F a0 a1) (a_add F a2 a3)))"

lemma lanes_rows:
  fixes F :: "'a arith"
  assumes "operands A B d" "re \<le> dN d" "transB p" "\<not> transA p"
  shows "writes_rows d rb re (accumulateReordered F A B d p rb re) (\<lambda>i j _. dot_lanes F A B d p i j)"
proof (rule writes_rowsI)
  fix C :: "'a list" and g
  assume C: "out_cells d C g"
  have nm: "dN d * dM d < 2 ^ 64" using assms(1) by (simp add: operands_def)
  let ?tm = "\<lambda>i j k acc. rbind (rd A (ix i (dK d) k)) (\<lambda>a. rbind (rd B (ix j (dK d) k)) (\<lambda>b.
             Inr (a_add F acc (a_mul F a b))))"
  have t: "?tm i j k acc = Inr (term_plain F A B d p i j k acc)"
    if "i < dN d" "j < dM d" "k < dK d" for i j k acc
    using read_a_ok [OF assms(1) that(1,3), of p] read_b_ok [OF assms(1) that(3,2), of p] assms(3,4)
    by (simp add: read_a_def read_b_def term_plain_def)
  have quad: "for_step 0 (dK d - 3) 4 (\<lambda>k (a0, a1, a2, a3).
            rbind (?tm i j k a0) (\<lambda>a0. rbind (?tm i j (k + 1) a1) (\<lambda>a1.
            rbind (?tm i j (k + 2) a2) (\<lambda>a2. rbind (?tm i j (k + 3) a3) (\<lambda>a3.
              Inr (a0, a1, a2, a3)))))) s
      = Inr (fold (\<lambda>k (a0, a1, a2, a3). (term_plain F A B d p i j k a0, term_plain F A B d p i j (k + 1) a1,
          term_plain F A B d p i j (k + 2) a2, term_plain F A B d p i j (k + 3) a3)) (steps 0 (dK d - 3) 4) s)"
    if "i < dN d" "j < dM d" for i j s
    unfolding for_step_def
    by (intro rfold_pure [where P = "\<lambda>_. True", THEN conjunct1])
       (use that in \<open>auto dest!: steps_bounds simp: t\<close>)
  have tail: "for_range (4 * (dK d div 4)) (dK d) (?tm i j) v
      = Inr (fold (term_plain F A B d p i j) [4 * (dK d div 4)..<dK d] v)"
    if "i < dN d" "j < dM d" for i j v
    unfolding for_range_def
    by (intro rfold_pure [where P = "\<lambda>_. True", THEN conjunct1]) (use that in \<open>auto simp: t\<close>)
  let ?quad = "\<lambda>i j. for_step 0 (dK d - 3) 4 (\<lambda>k (a0, a1, a2, a3).
            rbind (?tm i j k a0) (\<lambda>a0. rbind (?tm i j (k + 1) a1) (\<lambda>a1.
            rbind (?tm i j (k + 2) a2) (\<lambda>a2. rbind (?tm i j (k + 3) a3) (\<lambda>a3.
              Inr (a0, a1, a2, a3)))))) (a_zero F, a_zero F, a_zero F, a_zero F)"
  let ?body = "\<lambda>i j X. rbind (?quad i j) (\<lambda>(a0, a1, a2, a3).
          rbind (for_range (4 * (dK d div 4)) (dK d) (?tm i j)
                  (a_add F (a_add F a0 a1) (a_add F a2 a3))) (\<lambda>acc. wr X (ix i (dM d) j) acc))"
  have cellv: "?body i j X = wr X (ix i (dM d) j) (dot_lanes F A B d p i j)"
    if "i < dN d" "j < dM d" for i j X
    unfolding quad [OF that] rbind.simps
    by (simp add: tail [OF that] dot_lanes_def Let_def split_beta)
  have body: "\<exists>Y. ?body i j X = Inr Y \<and> out_cells d Y (cell_at i j (\<lambda>_. dot_lanes F A B d p i j) h)"
    if "rb \<le> i" "i < re" "j < dM d" "out_cells d X h" for i j X h
  proof -
    have "i < dN d" using that assms(2) by simp
    then show ?thesis
      unfolding cellv [OF \<open>i < dN d\<close> that(3)] using that nm by (intro cells_wr) auto
  qed
  have "transB p \<and> \<not> transA p" using assms(3,4) by simp
  then show "\<exists>C'. accumulateReordered F A B d p rb re C = Inr C' \<and>
      out_cells d C' (\<lambda>i j. if rb \<le> i \<and> i < re \<and> j < dM d then dot_lanes F A B d p i j else g i j)"
    unfolding accumulateReordered_def accumulateDotContiguous_def Let_def
    by (simp only: if_True not_False_eq_True simp_thms) (rule grid_loop_ok [where h = "\<lambda>i j _. dot_lanes F A B d p i j", OF body C])
qed

text \<open>With an associative and commutative addition the lanes add up to the textbook sum.\<close>

locale comm_arith =
  fixes F :: "'a arith"
  assumes add_assoc: "a_add F (a_add F x y) z = a_add F x (a_add F y z)"
    and add_comm: "a_add F x y = a_add F y x"
    and add_zero: "a_add F (a_zero F) x = x"
begin

lemma add_left_comm: "a_add F x (a_add F y z) = a_add F y (a_add F x z)"
  by (metis add_assoc add_comm)

lemma fold_term_acc:
  "fold (term_plain F A B d p i j) ks v = a_add F v (fold (term_plain F A B d p i j) ks (a_zero F))"
proof (induction ks arbitrary: v)
  case Nil
  then show ?case using add_comm [of v "a_zero F"] by (simp add: add_zero)
next
  case (Cons k ks)
  let ?t = "term_plain F A B d p i j"
  define S where "S = fold ?t ks (a_zero F)"
  have IH: "fold ?t ks w = a_add F w S" for w
    unfolding S_def by (rule Cons.IH)
  have "a_add F (?t k v) S = a_add F v (a_add F (?t k (a_zero F)) S)"
    by (simp add: term_plain_def add_assoc add_zero)
  then show ?case by (simp add: IH)
qed

lemma lanes_eq:
  fixes t :: "nat \<Rightarrow> 'a \<Rightarrow> 'a"
  assumes t: "t = term_plain F A B d p i j"
    and q: "fold (\<lambda>k (a0, a1, a2, a3). (t k a0, t (k + 1) a1, t (k + 2) a2, t (k + 3) a3))
      (steps lo (hi - 3) 4) (b0, b1, b2, b3) = (c0, c1, c2, c3)"
  shows "fold t [lo + 4 * ((hi - lo) div 4)..<hi] (a_add F (a_add F c0 c1) (a_add F c2 c3))
      = fold t [lo..<hi] (a_add F (a_add F b0 b1) (a_add F b2 b3))"
  using q
proof (induction "(hi - lo) div 4" arbitrary: lo b0 b1 b2 b3)
  case 0
  then have "hi - 3 \<le> lo" by (simp add: div_eq_0_iff)
  with 0 show ?case by simp
next
  case (Suc n)
  have lo: "lo + 3 < hi" using Suc.hyps(2) by (cases "lo + 3 < hi") auto
  have four: "fold t [lo..<hi] v = fold t [lo + 4..<hi] (t (lo + 3) (t (lo + 2) (t (lo + 1) (t lo v))))" for v
    using lo by (simp add: upt_conv_Cons numeral_eq_Suc)
  have sum: "t (lo + 3) (t (lo + 2) (t (lo + 1) (t lo (a_add F (a_add F b0 b1) (a_add F b2 b3)))))
      = a_add F (a_add F (t lo b0) (t (lo + 1) b1)) (a_add F (t (lo + 2) b2) (t (lo + 3) b3))"
    unfolding t term_plain_def by (simp only: add_assoc add_comm add_left_comm)
  have n: "n = (hi - (lo + 4)) div 4" using Suc.hyps(2) lo by simp
  have f: "fold (\<lambda>k (a0, a1, a2, a3). (t k a0, t (k + 1) a1, t (k + 2) a2, t (k + 3) a3))
      (steps (lo + 4) (hi - 3) 4) (t lo b0, t (lo + 1) b1, t (lo + 2) b2, t (lo + 3) b3) = (c0, c1, c2, c3)"
    using Suc.prems lo by (simp add: steps_Cons)
  have "fold t [lo + 4 + 4 * ((hi - (lo + 4)) div 4)..<hi] (a_add F (a_add F c0 c1) (a_add F c2 c3))
      = fold t [lo + 4..<hi] (a_add F (a_add F (t lo b0) (t (lo + 1) b1)) (a_add F (t (lo + 2) b2) (t (lo + 3) b3)))"
    by (rule Suc.hyps(1) [OF n f])
  moreover have "lo + 4 + 4 * ((hi - (lo + 4)) div 4) = lo + 4 * ((hi - lo) div 4)"
    using Suc.hyps(2) n by simp
  ultimately show ?case by (simp only: four sum)
qed

lemma dot_lanes_plain: "dot_lanes F A B d p i j = dot_plain F A B d p i j"
proof -
  let ?t = "term_plain F A B d p i j"
  obtain c0 c1 c2 c3 where q: "fold (\<lambda>k (a0, a1, a2, a3). (?t k a0, ?t (k + 1) a1, ?t (k + 2) a2, ?t (k + 3) a3))
      (steps 0 (dK d - 3) 4) (a_zero F, a_zero F, a_zero F, a_zero F) = (c0, c1, c2, c3)"
    by (rule prod_cases4)
  show ?thesis
    using lanes_eq [OF refl q] unfolding dot_lanes_def dot_plain_def Let_def q by (simp add: add_zero)
qed

end

text \<open>
  When leaving out a zero multiplier does not show: \<open>ok\<close> holds of every accumulator value
  the loops can reach, and \<open>fin\<close> of the multiplicands whose product with a zero is a zero.
\<close>

locale skip_arith =
  fixes F :: "'a arith" and ok :: "'a \<Rightarrow> bool" and fin :: "'a \<Rightarrow> bool"
  assumes ok_zero: "ok (a_zero F)"
    and ok_add: "ok v \<Longrightarrow> ok (a_add F v x)"
    and skip: "ok v \<Longrightarrow> fin b \<Longrightarrow> a_is_zero F a \<Longrightarrow> a_add F v (a_mul F a b) = v"
begin

lemma fold_skip_plain:
  "(\<And>k. k \<in> set ks \<Longrightarrow> fin (elemB B d p k j)) \<Longrightarrow> ok v \<Longrightarrow>
     fold (term_skip F A B d p i j) ks v = fold (term_plain F A B d p i j) ks v"
proof (induction ks arbitrary: v)
  case (Cons k ks)
  have "term_skip F A B d p i j k v = term_plain F A B d p i j k v"
    using Cons.prems by (simp add: term_skip_def term_plain_def skip)
  moreover have "ok (term_plain F A B d p i j k v)"
    using Cons.prems by (simp add: term_plain_def ok_add)
  ultimately show ?case using Cons by simp
qed simp

lemma dot_skip_plain:
  "(\<And>k. k < dK d \<Longrightarrow> fin (elemB B d p k j)) \<Longrightarrow> dot_skip F A B d p i j = dot_plain F A B d p i j"
  unfolding dot_skip_def dot_plain_def by (rule fold_skip_plain) (auto simp: ok_zero)

end

interpretation int_comm: comm_arith int_arith
  by unfold_locales (simp_all add: int_arith_def)

interpretation int_skip: skip_arith int_arith "\<lambda>_. True" "\<lambda>_. True"
  by unfold_locales (simp_all add: int_arith_def)

interpretation f32_skip: skip_arith f32_arith f32_acc_ok f32_finite
  by unfold_locales (simp_all add: f32_arith_def f32_add_acc_ok f32_add_zero f32_mul_zero)

section \<open>The finalize pass and one shard of rows\<close>

lemma writes_rows_bind:
  assumes "writes_rows d rb re f h1" "writes_rows d rb re k h2"
  shows "writes_rows d rb re (\<lambda>C. rbind (f C) k) (\<lambda>i j v. h2 i j (h1 i j v))"
proof (rule writes_rowsI)
  fix C :: "'a list" and g
  assume "out_cells d C g"
  then obtain C1 where C1: "f C = Inr C1"
    "out_cells d C1 (\<lambda>i j. if rb \<le> i \<and> i < re \<and> j < dM d then h1 i j (g i j) else g i j)"
    using assms(1) unfolding writes_rows_def by blast
  then obtain C2 where "k C1 = Inr C2" "out_cells d C2 (\<lambda>i j. if rb \<le> i \<and> i < re \<and> j < dM d
      then h2 i j (if rb \<le> i \<and> i < re \<and> j < dM d then h1 i j (g i j) else g i j)
      else if rb \<le> i \<and> i < re \<and> j < dM d then h1 i j (g i j) else g i j)"
    using assms(2) unfolding writes_rows_def by blast
  with C1(1) show "\<exists>C'. rbind (f C) k = Inr C' \<and> out_cells d C'
      (\<lambda>i j. if rb \<le> i \<and> i < re \<and> j < dM d then h2 i j (h1 i j (g i j)) else g i j)"
    by (simp cong: if_cong)
qed

text \<open>\<^verbatim>\<open>alpha * c\<close>, the broadcast bias, and the fused ReLU, for one cell.\<close>

definition finish :: "'a arith \<Rightarrow> 'a list \<Rightarrow> nat \<Rightarrow> dims \<Rightarrow> 'a gemm_params \<Rightarrow> nat \<Rightarrow> nat \<Rightarrow> 'a \<Rightarrow> 'a" where
  "finish F bias biasSize d p i j c =
     (let value = a_mul F (alpha p) c;
          value = (if biasSize = dM d then a_add F value (a_mul F (beta p) (bias ! j))
                   else if biasSize = dN d * dM d
                   then a_add F value (a_mul F (beta p) (bias ! (i * dM d + j)))
                   else value)
      in if fuseRelu p then a_max0 F value else value)"

lemma finalize_rows:
  fixes F :: "'a arith"
  assumes nm: "dN d * dM d < 2 ^ 64" and re: "re \<le> dN d" and bias: "length bias = biasSize"
  shows "writes_rows d rb re (finalize F bias biasSize d p rb re) (finish F bias biasSize d p)"
proof (rule writes_rowsI)
  fix C :: "'a list" and g
  assume C: "out_cells d C g"
  have full: "dN d * dM d mod 2 ^ 64 = dN d * dM d" using nm by simp
  let ?body = "\<lambda>i j C. rbind (rd C (ix i (dM d) j)) (\<lambda>c. let value = a_mul F (alpha p) c in
      rbind (if biasSize = dM d then rbind (rd bias j) (\<lambda>b. Inr (a_add F value (a_mul F (beta p) b)))
               else if biasSize = dN d * dM d
               then rbind (rd bias (ix i (dM d) j)) (\<lambda>b. Inr (a_add F value (a_mul F (beta p) b)))
               else Inr value) (\<lambda>value.
        wr C (ix i (dM d) j) (if fuseRelu p then a_max0 F value else value)))"
  have body: "\<exists>Y. ?body i j X = Inr Y \<and> out_cells d Y (cell_at i j (finish F bias biasSize d p i j) h)"
    if "rb \<le> i" "i < re" "j < dM d" "out_cells d X h" for i j X h
  proof -
    have i: "i < dN d" using that re by simp
    have "rd X (ix i (dM d) j) = Inr (h i j)" using cells_rd [OF that(4) i that(3)] nm by simp
    moreover have "biasSize = dM d \<Longrightarrow> rd bias j = Inr (bias ! j)" using that bias by simp
    moreover have "biasSize = dN d * dM d \<Longrightarrow> rd bias (ix i (dM d) j) = Inr (bias ! (i * dM d + j))"
      using ix_grid [OF i that(3) nm] grid_bound [OF i that(3)] bias by simp
    ultimately have "?body i j X = wr X (ix i (dM d) j) (finish F bias biasSize d p i j (h i j))"
      by (simp add: finish_def Let_def)
    then show ?thesis
      using that i nm cells_wr_upd [OF that(4) i that(3), of "finish F bias biasSize d p i j"] by simp
  qed
  show "\<exists>C'. finalize F bias biasSize d p rb re C = Inr C' \<and> out_cells d C'
      (\<lambda>i j. if rb \<le> i \<and> i < re \<and> j < dM d then finish F bias biasSize d p i j (g i j) else g i j)"
    unfolding finalize_def full Let_def
    by (rule grid_loop_ok [where h = "finish F bias biasSize d p", OF body [unfolded Let_def] C])
qed

text \<open>The sum a strategy leaves in a cell before the finalize pass.\<close>

definition kernel_value :: "'a arith \<Rightarrow> gemm_strategy \<Rightarrow> 'a list \<Rightarrow> 'a list \<Rightarrow> dims \<Rightarrow> 'a gemm_params \<Rightarrow> nat \<Rightarrow> nat \<Rightarrow> 'a" where
  "kernel_value F strategy A B d p i j =
     (if strategy = Naive then dot_plain F A B d p i j
      else if strategy = Reordered \<and> transB p \<and> \<not> transA p then dot_lanes F A B d p i j
      else dot_skip F A B d p i j)"

lemma runRows_rows:
  assumes ops: "operands A B d" and re: "snd r \<le> dN d" and bias: "length bias = biasSize"
    and s: "strategy \<noteq> Auto"
  shows "writes_rows d (fst r) (snd r) (runRows F strategy A B bias biasSize d p bufs r)
    (\<lambda>i j _. finish F bias biasSize d p i j (kernel_value F strategy A B d p i j))"
proof -
  have nm: "dN d * dM d < 2 ^ 64" using ops by (simp add: operands_def)
  note fin = finalize_rows [OF nm re bias, of "fst r" F p]
  have "writes_rows d (fst r) (snd r) (\<lambda>C. case strategy of
         Naive \<Rightarrow> accumulateNaive F A B d p (fst r) (snd r) C
       | Reordered \<Rightarrow> accumulateReordered F A B d p (fst r) (snd r) C
       | Tiled \<Rightarrow> accumulateTiled F A B d p (fst r) (snd r) C
       | Packed \<Rightarrow> rbind (accumulatePacked F A B d p (fst r) (snd r) bufs C) (\<lambda>x. Inr (snd x))
       | Auto \<Rightarrow> Inr C) (\<lambda>i j _. kernel_value F strategy A B d p i j)"
  proof (cases strategy)
    case Reordered
    then show ?thesis
      using lanes_rows [OF ops re] reordered_rows [OF ops re, of p]
      by (cases "transB p \<and> \<not> transA p") (auto simp: kernel_value_def [abs_def])
  qed (use s naive_rows [OF ops re] tiled_rows [OF ops re] packed_rows [OF ops re] in
        \<open>simp_all add: kernel_value_def [abs_def]\<close>)
  from writes_rows_bind [OF this fin] show ?thesis
    unfolding runRows_def [abs_def] .
qed

text \<open>
  Any sequence of row ranges: every row in one of them holds its final value. A row covered
  twice is computed twice with the same result, because a shard starts by overwriting its rows.
\<close>

definition in_ranges :: "(nat \<times> nat) list \<Rightarrow> nat \<Rightarrow> bool" where
  "in_ranges rs i = list_ex (\<lambda>r. fst r \<le> i \<and> i < snd r) rs"

definition covers :: "nat \<Rightarrow> (nat \<times> nat) list \<Rightarrow> bool" where
  "covers n rs = (list_all (\<lambda>r. snd r \<le> n) rs \<and> list_all (in_ranges rs) [0..<n])"

lemma shards_cells:
  fixes h :: "nat \<Rightarrow> nat \<Rightarrow> 'a"
  assumes "\<And>r. r \<in> set rs \<Longrightarrow> writes_rows d (fst r) (snd r) (run r) (\<lambda>i j _. h i j)"
    and C: "out_cells d C g"
  shows "\<exists>C'. rfold run rs C = Inr C' \<and>
    out_cells d C' (\<lambda>i j. if in_ranges rs i \<and> j < dM d then h i j else g i j)"
  using assms
proof (induction rs arbitrary: C g)
  case (Cons r rs)
  obtain C1 where C1: "run r C = Inr C1"
    "out_cells d C1 (\<lambda>i j. if fst r \<le> i \<and> i < snd r \<and> j < dM d then h i j else g i j)"
    using Cons.prems(1) [of r] Cons.prems(2) unfolding writes_rows_def by fastforce
  obtain C2 where "rfold run rs C1 = Inr C2" "out_cells d C2 (\<lambda>i j. if in_ranges rs i \<and> j < dM d then h i j
      else if fst r \<le> i \<and> i < snd r \<and> j < dM d then h i j else g i j)"
    using Cons.IH [OF _ C1(2)] Cons.prems(1) by auto
  with C1(1) show ?case by (auto simp: cells_def in_ranges_def)
qed (simp add: in_ranges_def cells_def)

section \<open>The dispatcher\<close>

text \<open>What a caller must provide, and what is computed.\<close>

definition gemm_pre :: "'a tensor \<Rightarrow> 'a tensor \<Rightarrow> 'a tensor \<Rightarrow> 'a tensor \<Rightarrow> 'a gemm_params \<Rightarrow> dims \<Rightarrow> bool" where
  "gemm_pre A B bias out p d =
     (wf_tensor A \<and> wf_tensor B \<and> wf_tensor bias \<and> wf_tensor out \<and>
      shape_ok (t_shape A) \<and> shape_ok (t_shape B) \<and>
      gemm_validate A B bias p = Inr () \<and> resolveDims A B p = Inr d \<and> dN d * dM d * 4 < 2 ^ 64)"

definition shards_cover :: "nat \<Rightarrow> (nat \<Rightarrow> (nat \<times> nat) list) option \<Rightarrow> bool" where
  "shards_cover n shards = (case shards of None \<Rightarrow> True | Some sh \<Rightarrow> covers n (sh n))"

definition gemm_cell :: "'a arith \<Rightarrow> gemm_strategy \<Rightarrow> 'a tensor \<Rightarrow> 'a tensor \<Rightarrow> 'a tensor \<Rightarrow> dims \<Rightarrow> 'a gemm_params
    \<Rightarrow> nat \<Rightarrow> nat \<Rightarrow> 'a" where
  "gemm_cell F strategy A B bias d p i j =
     finish F (t_data bias) (unat (t_size bias)) d p i j
       (kernel_value F (if strategy = Auto then resolveAuto d else strategy) (t_data A) (t_data B) d p i j)"

definition gemm_result :: "'a arith \<Rightarrow> gemm_strategy \<Rightarrow> 'a tensor \<Rightarrow> 'a tensor \<Rightarrow> 'a tensor \<Rightarrow> alloc_kind \<Rightarrow> dims
    \<Rightarrow> 'a gemm_params \<Rightarrow> 'a tensor" where
  "gemm_result F strategy A B bias al d p =
     \<lparr>t_shape = [word_of_nat (dN d), word_of_nat (dM d)],
      t_data = map (\<lambda>n. gemm_cell F strategy A B bias d p (n div dM d) (n mod dM d)) [0..<dN d * dM d],
      t_size = word_of_nat (dN d * dM d), t_alloc = al\<rparr>"

lemma dim_eq_Inr: "dim t ax = Inr n \<longleftrightarrow> ax < rank t \<and> n = t_shape t ! ax"
  by (auto simp: dim_def rank_def)

lemma tensor2_length:
  assumes "wf_tensor T" "shape_ok (t_shape T)" "rank T = 2"
  shows "length (t_data T) = unat (t_shape T ! 0) * unat (t_shape T ! 1)"
    and "unat (t_shape T ! 0) * unat (t_shape T ! 1) < 2 ^ 64"
proof -
  obtain a b where s: "t_shape T = [a, b]"
    using assms(3) by (auto simp: rank_def length_Suc_conv numeral_2_eq_2)
  show "length (t_data T) = unat (t_shape T ! 0) * unat (t_shape T ! 1)"
    using assms computeSize_ok [of "[a, b]"] by (simp add: wf_tensor_def s)
  show "unat (t_shape T ! 0) * unat (t_shape T ! 1) < 2 ^ 64"
    using assms(2) by (simp add: shape_ok_def s)
qed

lemma gemm_pre_operands:
  assumes "gemm_pre A B bias out p d"
  shows "operands (t_data A) (t_data B) d"
proof -
  have wf: "wf_tensor A" "wf_tensor B" "shape_ok (t_shape A)" "shape_ok (t_shape B)"
    and v: "gemm_validate A B bias p = Inr ()" and r: "resolveDims A B p = Inr d"
    and nm: "dN d * dM d * 4 < 2 ^ 64"
    using assms by (auto simp: gemm_pre_def)
  have rk: "rank A = 2" "rank B = 2"
    using v by (auto simp: gemm_validate_def rbind_eq_Inr)
  note A = tensor2_length [OF wf(1,3) rk(1)] and B = tensor2_length [OF wf(2,4) rk(2)]
  have "(if transA p then t_shape A ! 0 else t_shape A ! 1) = (if transB p then t_shape B ! 1 else t_shape B ! 0)"
    using v by (auto simp: gemm_validate_def rbind_eq_Inr dim_eq_Inr split: if_splits)
  moreover have "dN d = unat (if transA p then t_shape A ! 1 else t_shape A ! 0)"
    "dK d = unat (if transA p then t_shape A ! 0 else t_shape A ! 1)"
    "dM d = unat (if transB p then t_shape B ! 0 else t_shape B ! 1)"
    using r by (auto simp: resolveDims_def rbind_eq_Inr dim_eq_Inr split: if_splits)
  ultimately show ?thesis
    using A B nm by (auto simp: operands_def mult.commute split: if_splits)
qed

lemma dims_bound: "resolveDims A B p = Inr d \<Longrightarrow> dN d < 2 ^ 64 \<and> dM d < 2 ^ 64"
  using unsigned_less [where 'b = 64 and ?'a = nat]
  by (auto simp: resolveDims_def rbind_eq_Inr)

lemma out_tensor_ok:
  assumes "wf_tensor out" "dN d < 2 ^ 64" "dM d < 2 ^ 64" "dN d * dM d * 4 < 2 ^ 64"
  shows "\<exists>T. (if rank out \<noteq> 2 \<or> t_shape out \<noteq> [word_of_nat (dN d), word_of_nat (dM d)]
            then tensor_zeros z [word_of_nat (dN d), word_of_nat (dM d)] (t_alloc out)
            else Inr out) = Inr T \<and> t_shape T = [word_of_nat (dN d), word_of_nat (dM d)] \<and>
      t_size T = word_of_nat (dN d * dM d) \<and> length (t_data T) = dN d * dM d \<and> t_alloc T = t_alloc out"
proof -
  let ?s = "[word_of_nat (dN d), word_of_nat (dM d)] :: u64 list"
  have cs: "computeSize ?s = word_of_nat (dN d * dM d)" by (simp add: computeSize_def)
  have un: "unat (word_of_nat (dN d * dM d) :: u64) = dN d * dM d"
    using assms(4) by (intro unat_word_of_nat) linarith
  have bf: "buffer_fits (word_of_nat (dN d * dM d))"
    unfolding buffer_fits_def un using assms(4) by simp
  show ?thesis
  proof (cases "rank out \<noteq> 2 \<or> t_shape out \<noteq> ?s")
    case True
    then show ?thesis
      using bf un cs by (simp add: tensor_zeros_def alloc_fill_def Let_def)
  next
    case False
    then show ?thesis using assms(1) cs un by (simp add: wf_tensor_def)
  qed
qed

lemma cells_map:
  "cells (R * D) R D X (\<lambda>i j. h i j) \<Longrightarrow> X = map (\<lambda>n. h (n div D) (n mod D)) [0..<R * D]"
proof (rule nth_equalityI)
  fix n
  assume c: "cells (R * D) R D X h" and n: "n < length X"
  then have nd: "n < R * D" by (simp add: cells_def)
  then have "0 < D" by (cases D) auto
  then have "n div D < R" "n mod D < D" using nd by (simp_all add: less_mult_imp_div_less)
  moreover have "n = n div D * D + n mod D" by simp
  ultimately have "X ! n = h (n div D) (n mod D)"
    using c unfolding cells_def by metis
  with nd show "X ! n = map (\<lambda>n. h (n div D) (n mod D)) [0..<R * D] ! n" by simp
qed (simp add: cells_def)

lemma in_ranges_covers: "covers n rs \<Longrightarrow> i < n \<Longrightarrow> in_ranges rs i"
  by (simp add: covers_def list_all_iff)

lemma gemm_compute_eq:
  fixes F :: "'a arith"
  assumes pre: "gemm_pre A B bias out p d" and sh: "shards_cover (dN d) shards"
  shows "gemm_compute F A B bias out p strategy shards bufs
    = Inr (gemm_result F strategy A B bias (t_alloc out) d p)"
proof -
  have v: "gemm_validate A B bias p = Inr ()" and r: "resolveDims A B p = Inr d"
    and nm: "dN d * dM d * 4 < 2 ^ 64" and wf: "wf_tensor out"
    and bias: "length (t_data bias) = unat (t_size bias)"
    using pre by (auto simp: gemm_pre_def wf_tensor_def)
  note ops = gemm_pre_operands [OF pre] and db = dims_bound [OF r]
  let ?T = "if rank out \<noteq> 2 \<or> t_shape out \<noteq> [word_of_nat (dN d), word_of_nat (dM d)]
            then tensor_zeros (a_zero F) [word_of_nat (dN d), word_of_nat (dM d)] (t_alloc out)
            else Inr out"
  obtain T where T: "?T = Inr T" "t_shape T = [word_of_nat (dN d), word_of_nat (dM d)]"
      "t_size T = word_of_nat (dN d * dM d)" "length (t_data T) = dN d * dM d" "t_alloc T = t_alloc out"
    using out_tensor_ok [OF wf _ _ nm, of "a_zero F"] db by blast
  define st where "st = (if strategy = Auto then resolveAuto d else strategy)"
  have st: "st \<noteq> Auto" by (simp add: st_def resolveAuto_def Let_def)
  define run where "run = runRows F st (t_data A) (t_data B) (t_data bias) (unat (t_size bias)) d p bufs"
  define h where "h = (\<lambda>i j. gemm_cell F strategy A B bias d p i j)"
  have rows: "writes_rows d (fst r) (snd r) (run r) (\<lambda>i j _. h i j)" if "snd r \<le> dN d" for r
    unfolding run_def h_def gemm_cell_def st_def [symmetric]
    by (rule runRows_rows [OF ops that bias st])
  have C0: "out_cells d (t_data T) (\<lambda>i j. t_data T ! (i * dM d + j))"
    using T(4) by (simp add: cells_def)
  have many: "\<exists>C. rfold run rs (t_data T) = Inr C \<and> out_cells d C h" if rs: "covers (dN d) rs" for rs
    using shards_cells [OF rows C0, of rs] rs in_ranges_covers [OF rs]
    by (auto simp: covers_def list_all_iff cells_def)
  have one: "\<exists>C. run (0, dN d) (t_data T) = Inr C \<and> out_cells d C h"
    using rows [of "(0, dN d)"] C0 by (force simp: writes_rows_def cells_def)
  define m where "m = (case shards of
           Some sh \<Rightarrow> (if 1 < dN d \<and> 2 ^ 18 \<le> dK d * dM d mod 2 ^ 64 * dN d mod 2 ^ 64
                      then rfold run (sh (dN d)) (t_data T) else run (0, dN d) (t_data T))
         | None \<Rightarrow> run (0, dN d) (t_data T))"
  have "\<exists>C. m = Inr C \<and> out_cells d C h"
    using one many sh by (auto simp: m_def shards_cover_def split: option.splits)
  then have m: "m = Inr (map (\<lambda>n. h (n div dM d) (n mod dM d)) [0..<dN d * dM d])"
    using cells_map by blast
  have "gemm_compute F A B bias out p strategy shards bufs = rbind m (\<lambda>xs. Inr (T\<lparr>t_data := xs\<rparr>))"
    unfolding gemm_compute_def v r rbind.simps T(1) Let_def st_def [symmetric] run_def [symmetric] m_def ..
  then show ?thesis
    using T by (cases T) (simp add: m gemm_result_def h_def)
qed

section \<open>Properties\<close>

lemma gemm_result_facts:
  assumes "gemm_pre A B bias out p d"
  shows "wf_tensor (gemm_result F strategy A B bias al d p)"
    and "i < dN d \<Longrightarrow> j < dM d \<Longrightarrow>
      t_data (gemm_result F strategy A B bias al d p) ! (i * dM d + j) = gemm_cell F strategy A B bias d p i j"
proof -
  have nm: "dN d * dM d * 4 < 2 ^ 64" using assms by (simp add: gemm_pre_def)
  then have "unat (word_of_nat (dN d * dM d) :: u64) = dN d * dM d" by (intro unat_word_of_nat) linarith
  then show "wf_tensor (gemm_result F strategy A B bias al d p)"
    using nm by (simp add: gemm_result_def wf_tensor_def computeSize_def buffer_fits_def)
  show "t_data (gemm_result F strategy A B bias al d p) ! (i * dM d + j) = gemm_cell F strategy A B bias d p i j"
    if "i < dN d" "j < dM d"
    using that grid_bound [of i "dN d" j "dM d"] by (simp add: gemm_result_def)
qed

lemma kernel_value_int: "kernel_value int_arith s A B d p i j = dot_plain int_arith A B d p i j"
  by (simp add: kernel_value_def int_comm.dot_lanes_plain int_skip.dot_skip_plain)

lemma dot_plain_int: "dot_plain int_arith A B d p i j = (\<Sum>k<dK d. elemA A d p i k * elemB B d p k j)"
proof -
  have "fold (term_plain int_arith A B d p i j) [0..<n] 0 = (\<Sum>k<n. elemA A d p i k * elemB B d p k j)" for n
    by (induction n) (simp_all add: term_plain_def int_arith_def)
  then show ?thesis by (simp add: dot_plain_def int_arith_def)
qed

text \<open>C20. \<^verbatim>\<open>Gemm::compute\<close> on well-formed operands that pass its validation and whose extents do not
  wrap: the element count of each operand and four times the output's stay below \<open>2 ^ 64\<close>, which the
  validation does not check (an operand of \<open>2 ^ 32\<close> by \<open>2 ^ 32\<close> has element count 0, no data, and passes). Then it returns for every strategy, with or without a pool, and whatever
  the packing buffers hold; it performs no access outside a buffer; the output is well formed,
  has shape (N, M), keeps its allocator, and every cell holds the finalized sum of the strategy's
  kernel.\<close>

theorem gemm_compute_correct:
  assumes "gemm_pre A B bias out p d" "shards_cover (dN d) shards"
  shows "\<exists>C. gemm_compute F A B bias out p strategy shards bufs = Inr C \<and> wf_tensor C \<and>
    t_shape C = [word_of_nat (dN d), word_of_nat (dM d)] \<and> t_alloc C = t_alloc out \<and>
    (\<forall>i<dN d. \<forall>j<dM d. t_data C ! (i * dM d + j) = gemm_cell F strategy A B bias d p i j)"
  using gemm_compute_eq [OF assms] gemm_result_facts [OF assms(1)]
  by (auto simp: gemm_result_def)

definition ex_A :: "int tensor" where
  "ex_A = \<lparr>t_shape = [2, 3], t_data = [1, 2, 0, 4, 5, 6], t_size = 6, t_alloc = CpuAlloc\<rparr>"

definition ex_B :: "int tensor" where
  "ex_B = \<lparr>t_shape = [2, 3], t_data = [1, 0, 2, 3, 4, 5], t_size = 6, t_alloc = CpuAlloc\<rparr>"

definition ex_bias :: "int tensor" where
  "ex_bias = \<lparr>t_shape = [2], t_data = [10, - 100], t_size = 2, t_alloc = CpuAlloc\<rparr>"

definition ex_params :: "int gemm_params" where
  "ex_params = \<lparr>transA = False, transB = True, alpha = 1, beta = 2, fuseRelu = True\<rparr>"

definition ex_dims :: dims where "ex_dims = \<lparr>dN = 2, dK = 3, dM = 2\<rparr>"

lemma ex_pre: "gemm_pre ex_A ex_B ex_bias tensor_default ex_params ex_dims"
  by (simp add: gemm_pre_def ex_A_def ex_B_def ex_bias_def ex_params_def ex_dims_def tensor_default_def
      wf_tensor_def buffer_fits_def computeSize_def shape_ok_def gemm_validate_def resolveDims_def
      dim_def rank_def)

theorem gemm_compute_correct_witness:
  "\<exists>C. gemm_compute int_arith ex_A ex_B ex_bias tensor_default ex_params Packed
      (Some (\<lambda>n. [(1, 2), (0, 1)])) ([], []) = Inr C \<and> t_shape C = [2, 2] \<and>
    t_data C ! 0 = gemm_cell int_arith Packed ex_A ex_B ex_bias ex_dims ex_params 0 0"
proof -
  have sh: "shards_cover (dN ex_dims) (Some (\<lambda>n. [(1, 2), (0, 1)]))"
    by (simp add: shards_cover_def covers_def in_ranges_def ex_dims_def upt_rec)
  obtain C where C: "gemm_compute int_arith ex_A ex_B ex_bias tensor_default ex_params Packed
      (Some (\<lambda>n. [(1, 2), (0, 1)])) ([], []) = Inr C"
    "t_shape C = [word_of_nat (dN ex_dims), word_of_nat (dM ex_dims)]"
    "\<forall>i<dN ex_dims. \<forall>j<dM ex_dims. t_data C ! (i * dM ex_dims + j)
        = gemm_cell int_arith Packed ex_A ex_B ex_bias ex_dims ex_params i j"
    using gemm_compute_correct [OF ex_pre sh, of int_arith Packed "([], [])"] by blast
  have "t_data C ! (0 * dM ex_dims + 0) = gemm_cell int_arith Packed ex_A ex_B ex_bias ex_dims ex_params 0 0"
    using C(3) [rule_format, of 0 0] by (simp add: ex_dims_def)
  with C(1,2) show ?thesis by (simp add: ex_dims_def)
qed

text \<open>C22. The kernels are interchangeable in binary32: when every element of B is finite, two
  strategies give the same tensor bit for bit, whatever the sharding and the packing buffers,
  as long as neither takes the four-lane dot product (Reordered with only B transposed). Here and
  below the operands are well formed and validated and their extents do not wrap (\<open>gemm_pre\<close>).\<close>

theorem gemm_strategies_agree:
  assumes pre: "gemm_pre A B bias out p d"
    and sh: "shards_cover (dN d) sh1" "shards_cover (dN d) sh2"
    and fin: "list_all f32_finite (t_data B)"
    and lanes: "transB p \<Longrightarrow> \<not> transA p \<Longrightarrow>
      Reordered \<notin> {s1, s2} \<and> (Auto \<in> {s1, s2} \<longrightarrow> resolveAuto d \<noteq> Reordered)"
  shows "gemm_compute f32_arith A B bias out p s1 sh1 bufs1 = gemm_compute f32_arith A B bias out p s2 sh2 bufs2"
proof -
  note ops = gemm_pre_operands [OF pre]
  have fb: "f32_finite (elemB (t_data B) d p k j)" if "k < dK d" "j < dM d" for k j
    using fin ops that grid_bound [of j "dM d" k "dK d"] grid_bound [of k "dK d" j "dM d"]
    by (auto simp: elemB_def operands_def list_all_length mult.commute [of "dM d"])
  have kv: "gemm_cell f32_arith s A B bias d p i j
      = finish f32_arith (t_data bias) (unat (t_size bias)) d p i j (dot_plain f32_arith (t_data A) (t_data B) d p i j)"
    if "s \<in> {s1, s2}" "j < dM d" for s i j
    using that lanes fb by (auto simp: gemm_cell_def kernel_value_def f32_skip.dot_skip_plain)
  have "n mod dM d < dM d" if "n < dN d * dM d" for n
    using that by (cases "dM d") auto
  then have "gemm_result f32_arith s1 A B bias al d p = gemm_result f32_arith s2 A B bias al d p" for al
    by (simp add: gemm_result_def kv)
  then show ?thesis
    by (simp add: gemm_compute_eq [OF pre sh(1)] gemm_compute_eq [OF pre sh(2)])
qed

definition ex_F :: "f32 tensor" where
  "ex_F = \<lparr>t_shape = [2, 2], t_data = [0x3F800000, 0, 0x40000000, 0x80000000], t_size = 4, t_alloc = CpuAlloc\<rparr>"

definition ex_Fparams :: "f32 gemm_params" where
  "ex_Fparams = \<lparr>transA = False, transB = False, alpha = 0x3F800000, beta = 0x3F800000, fuseRelu = False\<rparr>"

theorem gemm_strategies_agree_witness:
  "gemm_compute f32_arith ex_F ex_F tensor_default tensor_default ex_Fparams Naive None ([], [])
   = gemm_compute f32_arith ex_F ex_F tensor_default tensor_default ex_Fparams Packed
       (Some (\<lambda>n. [(0, 1), (1, 2)])) ([], [])"
proof (rule gemm_strategies_agree [where d = "\<lparr>dN = 2, dK = 2, dM = 2\<rparr>"])
  show "gemm_pre ex_F ex_F tensor_default tensor_default ex_Fparams \<lparr>dN = 2, dK = 2, dM = 2\<rparr>"
    by (simp add: gemm_pre_def ex_F_def ex_Fparams_def tensor_default_def
      wf_tensor_def buffer_fits_def computeSize_def shape_ok_def gemm_validate_def resolveDims_def
      dim_def rank_def)
  show "list_all f32_finite (t_data ex_F)"
    by (simp add: ex_F_def f32_finite_def f32_val_def fp_unpack_def Let_def)
qed (simp_all add: shards_cover_def covers_def in_ranges_def ex_Fparams_def upt_rec)

text \<open>C28. Sharding is invisible: for every strategy, the four-lane one included, running the
  rows as any covering sequence of ranges gives bit for bit what one call on all rows gives, on
  validated operands whose extents do not wrap (\<open>gemm_pre\<close>).\<close>

theorem gemm_sharding_invisible:
  assumes "gemm_pre A B bias out p d" "covers (dN d) (sh (dN d))"
  shows "gemm_compute F A B bias out p strategy (Some sh) bufs = gemm_compute F A B bias out p strategy None bufs'"
  using gemm_compute_eq [OF assms(1), of "Some sh"] gemm_compute_eq [OF assms(1), of None] assms(2)
  by (simp add: shards_cover_def)

theorem gemm_sharding_invisible_witness:
  "gemm_compute int_arith ex_A ex_B ex_bias tensor_default ex_params Reordered (Some (\<lambda>n. [(1, 2), (0, 1)])) ([], [])
   = gemm_compute int_arith ex_A ex_B ex_bias tensor_default ex_params Reordered None ([], [])"
  by (rule gemm_sharding_invisible [OF ex_pre]) (simp add: covers_def in_ranges_def ex_dims_def upt_rec)

text \<open>C30. In exact arithmetic every strategy computes \<^verbatim>\<open>alpha * op(A) * op(B) + beta * bias\<close>: the
  bias added per column or per cell by its size, then the fused ReLU, on validated operands whose
  extents do not wrap (\<open>gemm_pre\<close>).\<close>

theorem gemm_exact_product:
  assumes "gemm_pre A B bias out p d" "shards_cover (dN d) shards" "i < dN d" "j < dM d"
  shows "\<exists>C. gemm_compute int_arith A B bias out p strategy shards bufs = Inr C \<and>
    (let s = alpha p * (\<Sum>k<dK d. elemA (t_data A) d p i k * elemB (t_data B) d p k j);
         v = (if unat (t_size bias) = dM d then s + beta p * t_data bias ! j
              else if unat (t_size bias) = dN d * dM d then s + beta p * t_data bias ! (i * dM d + j)
              else s)
     in t_data C ! (i * dM d + j) = (if fuseRelu p then max 0 v else v))"
  using gemm_compute_eq [OF assms(1,2), of int_arith strategy bufs]
    gemm_result_facts(2) [OF assms(1,3,4), of int_arith strategy]
  by (simp add: gemm_cell_def kernel_value_int dot_plain_int finish_def Let_def)
     (simp add: int_arith_def)

theorem gemm_exact_product_witness:
  "\<exists>C. gemm_compute int_arith ex_A ex_B ex_bias tensor_default ex_params Tiled None ([], []) = Inr C \<and>
     t_data C ! 2 = 36"
  using gemm_exact_product [OF ex_pre, of None 1 0 Tiled "([], [])"]
  by (simp add: shards_cover_def ex_dims_def ex_params_def ex_A_def ex_B_def ex_bias_def
      elemA_def elemB_def lessThan_nat_numeral)

lemma gemm_validate_cases:
  assumes "t_shape A = [a0, a1]" "t_shape B = [b0, b1]"
  shows "gemm_validate A B bias p =
    (if (if transA p then a0 else a1) \<noteq> (if transB p then b1 else b0)
     then Inl (InvalidArgument ''Gemm inner dimensions do not match'')
     else if t_size bias \<notin> {0, if transB p then b0 else b1,
        (if transA p then a1 else a0) * (if transB p then b0 else b1)}
     then Inl (InvalidArgument ''Gemm bias shape is not broadcastable to the output'')
     else Inr ())"
proof -
  have e: "unat v = unat w \<longleftrightarrow> v = w" for v w :: u64
    by (simp add: word_unat_eq_iff)
  have m: "unat x * unat y mod 2 ^ 64 = unat (x * y)" for x y :: u64
    by (simp add: unat_word_ariths)
  show ?thesis
    by (cases "transA p"; cases "transB p")
       (simp_all add: gemm_validate_def resolveDims_def dim_def rank_def require_def assms m e
         del: power_numeral Num.pow.simps cong: if_cong)
qed

text \<open>\<^verbatim>\<open>Gemm::validate\<close> decides, in the order of its checks, what is rejected: an operand not
  of rank 2, inner dimensions that differ, a bias that is neither empty, nor one value per
  column, nor one per cell (of the wrapped 64-bit product). It never fails otherwise: the
  bounds-checked \<^verbatim>\<open>dim\<close> calls cannot throw.\<close>

lemma gemm_validate_decides:
  "gemm_validate A B bias p = (
     if length (t_shape A) = 2 \<and> length (t_shape B) = 2
     then let innerA = t_shape A ! (if transA p then 0 else 1);
              innerB = t_shape B ! (if transB p then 1 else 0);
              n = t_shape A ! (if transA p then 1 else 0);
              m = t_shape B ! (if transB p then 0 else 1)
          in if innerA \<noteq> innerB then Inl (InvalidArgument ''Gemm inner dimensions do not match'')
             else if t_size bias \<notin> {0, m, n * m}
             then Inl (InvalidArgument ''Gemm bias shape is not broadcastable to the output'')
             else Inr ()
     else Inl (InvalidArgument ''Gemm expects rank-2 tensors for A and B''))"
proof (cases "length (t_shape A) \<noteq> 2 \<or> length (t_shape B) \<noteq> 2")
  case True
  then show ?thesis by (auto simp: gemm_validate_def rank_def)
next
  case False
  then obtain a0 a1 b0 b1 where "t_shape A = [a0, a1]" "t_shape B = [b0, b1]"
    by (auto simp: length_Suc_conv numeral_2_eq_2)
  then show ?thesis
    by (cases "transA p"; cases "transB p") (simp_all only: gemm_validate_cases Let_def if_True if_False nth_Cons_0
      nth_Cons_numeral One_nat_def nth_Cons_Suc list.size, simp_all)
qed

end
