(* ===== verification/Provider.thy ===== *)
theory Provider
  imports Gemm_Results Node Thread_Pool
begin

text \<open>
  kernels/operators.cpp, providers/execution_provider.h, providers/cpu_execution_provider.cpp and
  providers/provider_factory.cpp: the reference operators, and the CPU provider that dispatches a
  node to a kernel and writes into a tensor the caller supplies. Inputs are values: a node whose
  output tensor is also one of its inputs is outside the model.
\<close>

section \<open>Element loops\<close>

text \<open>\<^verbatim>\<open>for (i = 0; i < n; ++i) dst[i] = f(i)\<close> with checked accesses.\<close>

definition fill_loop :: "nat \<Rightarrow> (nat \<Rightarrow> 'a res) \<Rightarrow> 'a list \<Rightarrow> 'a list res" where
  "fill_loop n f = for_range 0 n (\<lambda>i dst. rbind (f i) (wr dst i))"

lemma fill_loop_ok:
  assumes "length dst = n" "\<And>i. i < n \<Longrightarrow> f i = Inr (g i)"
  shows "fill_loop n f dst = Inr (map g [0..<n])"
proof -
  have "m \<le> n \<Longrightarrow> for_range 0 m (\<lambda>i dst. rbind (f i) (wr dst i)) dst = Inr (map g [0..<m] @ drop m dst)" for m
  proof (induction m)
    case (Suc m)
    then have "drop m dst = dst ! m # drop (Suc m) dst" using assms(1) by (simp add: Cons_nth_drop_Suc)
    moreover have "for_range 0 m (\<lambda>i dst. rbind (f i) (wr dst i)) dst = Inr (map g [0..<m] @ drop m dst)"
      using Suc by simp
    ultimately show ?case
      using Suc.prems assms by (simp add: for_range_def rfold_append list_update_append)
  qed (simp add: for_range_def)
  from this [of n] assms(1) show ?thesis by (simp add: fill_loop_def)
qed

lemma fill_loop_map:
  assumes "length src = n" "length dst = n"
  shows "fill_loop n (\<lambda>i. rbind (rd src i) (\<lambda>v. Inr (f v))) dst = Inr (map f src)"
proof -
  have "fill_loop n (\<lambda>i. rbind (rd src i) (\<lambda>v. Inr (f v))) dst = Inr (map (\<lambda>i. f (src ! i)) [0..<n])"
    by (rule fill_loop_ok) (use assms in auto)
  also have "map (\<lambda>i. f (src ! i)) [0..<n] = map f src"
    using assms(1) by (auto intro: nth_equalityI)
  finally show ?thesis .
qed

section \<open>The reference operators\<close>

definition flatten_axis :: "i64 \<Rightarrow> u64 list \<Rightarrow> int" where
  "flatten_axis axis shape = (if sint axis < 0 then sint axis + int (length shape) else sint axis)"

definition flatten_dims :: "i64 \<Rightarrow> u64 list \<Rightarrow> u64 \<Rightarrow> (u64 \<times> u64) option" where
  "flatten_dims axis shape sz =
     (let axis = flatten_axis axis shape
      in if axis < 0 \<or> int (length shape) < axis then None
         else let outer = foldl (*) 1 (take (nat axis) shape);
                  outer = (if outer = 0 then 1 else outer)
              in Some (outer, sz div outer))"




definition ref_gemm :: "f32 tensor \<Rightarrow> f32 tensor \<Rightarrow> f32 tensor \<Rightarrow> bool \<Rightarrow> bool \<Rightarrow> f32 \<Rightarrow> f32 \<Rightarrow> f32 tensor res" where
  "ref_gemm A B bias tA tB a b =
     (let p = \<lparr>transA = tA, transB = tB, alpha = a, beta = b, fuseRelu = False\<rparr>
      in rbind (outputShape A B p) (\<lambda>shape.
         rbind (tensor_zeros 0 shape CpuAlloc) (\<lambda>output.
           gemm_compute f32_arith A B bias output p Naive None ([], []))))"

section \<open>The CPU provider\<close>

record cpu_options =
  o_strategy :: gemm_strategy
  o_intraOpThreads :: nat
  o_useMemoryPool :: bool

text \<open>\<open>cp_workers\<close>: no thread pool, or one with that many workers.\<close>

record cpu_provider =
  cp_strategy :: gemm_strategy
  cp_workers :: "nat option"
  cp_alloc :: alloc_kind

definition cpu_options_default :: cpu_options where
  "cpu_options_default = \<lparr>o_strategy = Auto, o_intraOpThreads = 1, o_useMemoryPool = True\<rparr>"

definition cpu_provider_new :: "cpu_options \<Rightarrow> cpu_provider" where
  "cpu_provider_new opts =
     \<lparr>cp_strategy = o_strategy opts,
      cp_workers = (if 1 < o_intraOpThreads opts then Some (o_intraOpThreads opts - 1) else None),
      cp_alloc = (if o_useMemoryPool opts then PoolAlloc else CpuAlloc)\<rparr>"

fun supports :: "op_type \<Rightarrow> bool" where
  "supports OpUnknown = False"
| "supports _ = True"

definition setGemmStrategy :: "gemm_strategy \<Rightarrow> cpu_provider \<Rightarrow> cpu_provider" where
  "setGemmStrategy s cp = cp\<lparr>cp_strategy := s\<rparr>"

definition computeFlatten :: "node \<Rightarrow> f32 tensor \<Rightarrow> f32 tensor \<Rightarrow> f32 tensor res" where
  "computeFlatten node input output =
     rbind (getAttrInt node ''axis'' 1) (\<lambda>axis.
     case flatten_dims axis (t_shape input) (t_size input) of
       None \<Rightarrow> Inl (InvalidArgument (''Flatten axis is out of range for node '' @ n_name node))
     | Some (outer, inner) \<Rightarrow>
         rbind (if t_size output \<noteq> t_size input then tensor_zeros 0 [outer, inner] (t_alloc output)
                else reshape output [outer, inner]) (\<lambda>output.
         rbind (fill_loop (unat (t_size input)) (\<lambda>i. rbind (rd (t_data input) i) (\<lambda>v. Inr v)) (t_data output))
           (\<lambda>xs. Inr (output\<lparr>t_data := xs\<rparr>))))"

definition computeRelu :: "f32 tensor \<Rightarrow> f32 tensor \<Rightarrow> f32 tensor res" where
  "computeRelu input output =
     rbind (if t_shape output \<noteq> t_shape input then tensor_zeros 0 (t_shape input) (t_alloc output) else Inr output)
       (\<lambda>output.
     rbind (fill_loop (unat (t_size input)) (\<lambda>i. rbind (rd (t_data input) i) (\<lambda>v. Inr (f32_max 0 v))) (t_data output))
       (\<lambda>xs. Inr (output\<lparr>t_data := xs\<rparr>)))"

definition computeAdd :: "f32 tensor \<Rightarrow> f32 tensor \<Rightarrow> f32 tensor \<Rightarrow> f32 tensor res" where
  "computeAdd a b output =
     rbind (require (t_shape a = t_shape b) (InvalidArgument ''Add requires operands of matching shape'')) (\<lambda>_.
     rbind (if t_shape output \<noteq> t_shape a then tensor_zeros 0 (t_shape a) (t_alloc output) else Inr output)
       (\<lambda>output.
     rbind (fill_loop (unat (t_size a)) (\<lambda>i. rbind (rd (t_data a) i) (\<lambda>x. rbind (rd (t_data b) i) (\<lambda>y.
         Inr (f32_add x y)))) (t_data output))
       (\<lambda>xs. Inr (output\<lparr>t_data := xs\<rparr>))))"

text \<open>\<open>ctx\<close> is where the call runs: whether on a worker of the provider's own pool, and what that
  thread's packing buffers hold.\<close>

type_synonym thread_ctx = "bool \<times> f32 pack_bufs"

definition computeGemm :: "cpu_provider \<Rightarrow> thread_ctx \<Rightarrow> node \<Rightarrow> f32 tensor list \<Rightarrow> f32 tensor \<Rightarrow> bool \<Rightarrow> f32 tensor res" where
  "computeGemm cp ctx node inputs output relu =
     rbind (require (2 \<le> length inputs)
              (InvalidArgument (''Gemm node '' @ n_name node @ '' requires at least two inputs''))) (\<lambda>_.
     rbind (getAttrInt node ''transA'' 0) (\<lambda>tA.
     rbind (getAttrInt node ''transB'' 0) (\<lambda>tB.
     rbind (getAttrFloat node ''alpha'' 0x3F800000) (\<lambda>a.
     rbind (getAttrFloat node ''beta'' 0x3F800000) (\<lambda>b.
     let p = \<lparr>transA = (tA \<noteq> 0), transB = (tB \<noteq> 0), alpha = a, beta = b, fuseRelu = relu\<rparr>;
         bias = (if 2 < length inputs then inputs ! 2 else tensor_default)
     in gemm_compute f32_arith (inputs ! 0) (inputs ! 1) bias output p (cp_strategy cp)
          (map_option (\<lambda>w. parallelFor_shards w (fst ctx) 1) (cp_workers cp)) (snd ctx))))))"

definition input_at :: "'a list \<Rightarrow> nat \<Rightarrow> 'a res" where
  "input_at xs i = (if i < length xs then Inr (xs ! i) else Inl (OutOfRange ''vector::_M_range_check''))"

definition provider_compute :: "cpu_provider \<Rightarrow> thread_ctx \<Rightarrow> node \<Rightarrow> f32 tensor option list \<Rightarrow> f32 tensor \<Rightarrow> f32 tensor res" where
  "provider_compute cp ctx node inputs output =
     rbind (require (list_all (\<lambda>t. t \<noteq> None) inputs) (RuntimeError (''Missing input tensor for node '' @ n_name node))) (\<lambda>_.
     let ins = map the inputs
     in case n_opType node of
          OpFlatten \<Rightarrow> rbind (input_at ins 0) (\<lambda>x. computeFlatten node x output)
        | OpGemm \<Rightarrow> computeGemm cp ctx node ins output False
        | OpGemmRelu \<Rightarrow> computeGemm cp ctx node ins output True
        | OpRelu \<Rightarrow> rbind (input_at ins 0) (\<lambda>x. computeRelu x output)
        | OpAdd \<Rightarrow> rbind (input_at ins 0) (\<lambda>x. rbind (input_at ins 1) (\<lambda>y. computeAdd x y output))
        | OpUnknown \<Rightarrow> Inl (RuntimeError (''Unsupported op type '' @ [CHR 0x27] @ n_opTypeStr node @ [CHR 0x27] @ '' on node '' @ n_name node)))"

section \<open>The factory\<close>

definition availableExecutionProviders :: "string list" where
  "availableExecutionProviders = [''cpu'']"

definition isExecutionProviderAvailable :: "string \<Rightarrow> bool" where
  "isExecutionProviderAvailable name = (name \<in> set availableExecutionProviders)"

definition makeExecutionProvider :: "string \<Rightarrow> cpu_options \<Rightarrow> cpu_provider res" where
  "makeExecutionProvider name opts =
     (if name = ''cpu'' then Inr (cpu_provider_new opts)
      else Inl (InvalidArgument (''Unknown execution provider: '' @ name)))"

section \<open>What the operators compute\<close>

lemma flatten_dims_size:
  assumes wf: "wf_tensor t" and ok: "shape_ok (t_shape t)" and fd: "flatten_dims axis (t_shape t) (t_size t) = Some (outer, inner)"
  shows "computeSize [outer, inner] = t_size t"
proof -
  define k where "k = nat (flatten_axis axis (t_shape t))"
  define o0 where "o0 = foldl (*) 1 (take k (t_shape t))"
  have o: "outer = (if o0 = 0 then 1 else o0)" "inner = t_size t div outer"
    using fd by (auto simp: flatten_dims_def Let_def o0_def k_def split: if_splits)
  show ?thesis
  proof (cases "t_size t = 0")
    case True
    then show ?thesis using o(2) by (simp add: computeSize_def)
  next
    case False
    let ?P = "prod_list (map unat (take k (t_shape t)))" and ?Q = "prod_list (map unat (drop k (t_shape t)))"
    have ne: "t_shape t \<noteq> []" using False wf by (auto simp: wf_tensor_def)
    have PQ: "?P * ?Q = unat (t_size t)"
      using computeSize_ok [OF ok ne] wf
      by (simp add: wf_tensor_def flip: prod_list.append map_append)
    have pos: "unat (t_size t) \<noteq> 0" using False by (simp add: unat_eq_zero)
    then have Q: "0 < ?Q" and P0: "0 < ?P" using PQ by (auto intro!: Nat.gr0I)
    have "?P * 1 \<le> ?P * ?Q" using Q by (intro mult_le_mono) auto
    then have P: "?P < 2 ^ 64" using PQ unsigned_less [of "t_size t", where ?'a = nat] by simp
    then have u: "unat o0 = ?P" using foldl_mult_unat [of 1 "take k (t_shape t)"] by (simp add: o0_def)
    then have "o0 \<noteq> 0" using P0 by auto
    then have out: "outer = o0" using o(1) by simp
    have "unat (outer * inner) = unat (t_size t)"
    proof -
      have "unat inner = ?Q"
        using PQ P0 u out o(2) by (simp add: unat_div) (metis nonzero_mult_div_cancel_left not_less0)
      then have "unat outer * unat inner = unat (t_size t)" using u out PQ by simp
      moreover have "unat (t_size t) < 2 ^ 64" using unsigned_less [of "t_size t", where ?'a = nat] by simp
      ultimately show ?thesis by (simp add: unat_word_ariths)
    qed
    then show ?thesis by (simp add: computeSize_def word_unat_eq_iff)
  qed
qed

lemma wf_same_shape: "wf_tensor s \<Longrightarrow> wf_tensor t \<Longrightarrow> t_shape s = t_shape t \<Longrightarrow> t_size s = t_size t \<and> length (t_data s) = length (t_data t)"
  by (simp add: wf_tensor_def)

lemma tensor_eqI: "t_shape s = t_shape t \<Longrightarrow> t_data s = t_data t \<Longrightarrow> t_size s = t_size t \<Longrightarrow> t_alloc s = t_alloc t \<Longrightarrow> s = (t :: 'a tensor)"
  by (cases s; cases t) simp

text \<open>The output tensor a provider operation starts from has the wanted shape and size.\<close>

lemma fresh_or_same:
  assumes "wf_tensor t" "wf_tensor output"
  shows "\<exists>u. (if t_shape output \<noteq> t_shape t then tensor_zeros z (t_shape t) (t_alloc output) else Inr output) = Inr u \<and>
    t_shape u = t_shape t \<and> t_size u = t_size t \<and> length (t_data u) = unat (t_size t) \<and> t_alloc u = t_alloc output"
proof (cases "t_shape output = t_shape t")
  case True
  then show ?thesis using assms wf_same_shape [OF assms(2,1) True] by (simp add: wf_tensor_def)
next
  case False
  moreover have "computeSize (t_shape t) = t_size t" "buffer_fits (t_size t)"
    using assms(1) by (auto simp: wf_tensor_def)
  ultimately show ?thesis by (simp add: tensor_zeros_def alloc_fill_def Let_def)
qed

definition tensor_mk :: "u64 list \<Rightarrow> 'a list \<Rightarrow> u64 \<Rightarrow> alloc_kind \<Rightarrow> 'a tensor" where
  "tensor_mk shp xs n al = \<lparr>t_shape = shp, t_data = xs, t_size = n, t_alloc = al\<rparr>"

lemma computeRelu_eq:
  assumes "wf_tensor input" "wf_tensor output"
  shows "computeRelu input output =
    Inr (tensor_mk (t_shape input) (map (f32_max 0) (t_data input)) (t_size input) (t_alloc output))"
proof -
  obtain u where u: "(if t_shape output \<noteq> t_shape input then tensor_zeros 0 (t_shape input) (t_alloc output) else Inr output) = Inr u"
    "t_shape u = t_shape input" "t_size u = t_size input" "length (t_data u) = unat (t_size input)" "t_alloc u = t_alloc output"
    using fresh_or_same [OF assms, of 0] by blast
  have "length (t_data input) = unat (t_size input)" using assms(1) by (simp add: wf_tensor_def)
  then show ?thesis
    unfolding computeRelu_def u(1) rbind.simps
    using fill_loop_map [of "t_data input" "unat (t_size input)" "t_data u" "f32_max 0"] u
    by (simp add: tensor_mk_def tensor_eqI)
qed

lemma computeAdd_eq:
  assumes "wf_tensor a" "wf_tensor b" "wf_tensor output" "t_shape a = t_shape b"
  shows "computeAdd a b output =
    Inr (tensor_mk (t_shape a) (map2 f32_add (t_data a) (t_data b)) (t_size a) (t_alloc output))"
proof -
  obtain u where u: "(if t_shape output \<noteq> t_shape a then tensor_zeros 0 (t_shape a) (t_alloc output) else Inr output) = Inr u"
    "t_shape u = t_shape a" "t_size u = t_size a" "length (t_data u) = unat (t_size a)" "t_alloc u = t_alloc output"
    using fresh_or_same [OF assms(1,3), of 0] by blast
  have len: "length (t_data a) = unat (t_size a)" "length (t_data b) = unat (t_size a)"
    using assms(1) wf_same_shape [OF assms(1,2,4)] by (simp_all add: wf_tensor_def)
  have "fill_loop (unat (t_size a)) (\<lambda>i. rbind (rd (t_data a) i) (\<lambda>x. rbind (rd (t_data b) i) (\<lambda>y.
      Inr (f32_add x y)))) (t_data u) = Inr (map (\<lambda>i. f32_add (t_data a ! i) (t_data b ! i)) [0..<unat (t_size a)])"
    by (rule fill_loop_ok) (use u(4) len in auto)
  moreover have "map (\<lambda>i. f32_add (t_data a ! i) (t_data b ! i)) [0..<unat (t_size a)] = map2 f32_add (t_data a) (t_data b)"
    using len by (auto intro: nth_equalityI)
  ultimately show ?thesis
    unfolding computeAdd_def using assms(4) u by (simp add: tensor_mk_def tensor_eqI)
qed

lemma computeFlatten_eq:
  assumes "wf_tensor input" "shape_ok (t_shape input)" "wf_tensor output"
    and "getAttrInt node ''axis'' 1 = Inr axis" "flatten_dims axis (t_shape input) (t_size input) = Some (outer, inner)"
  shows "computeFlatten node input output =
    Inr (tensor_mk [outer, inner] (t_data input) (t_size input) (t_alloc output))"
proof -
  note cs = flatten_dims_size [OF assms(1,2,5)]
  have bf: "buffer_fits (t_size input)" "length (t_data input) = unat (t_size input)"
    using assms(1) by (auto simp: wf_tensor_def)
  obtain u where u: "(if t_size output \<noteq> t_size input then tensor_zeros 0 [outer, inner] (t_alloc output)
                else reshape output [outer, inner]) = Inr u"
    "t_shape u = [outer, inner]" "t_size u = t_size input" "length (t_data u) = unat (t_size input)" "t_alloc u = t_alloc output"
    using bf assms(3) cs
    by (cases "t_size output = t_size input") (auto simp: tensor_zeros_def alloc_fill_def reshape_def wf_tensor_def Let_def)
  have "fill_loop (unat (t_size input)) (\<lambda>i. rbind (rd (t_data input) i) (\<lambda>v. Inr v)) (t_data u) = Inr (t_data input)"
    using fill_loop_map [of "t_data input" "unat (t_size input)" "t_data u" id] bf(2) u(4) by simp
  then show ?thesis
    unfolding computeFlatten_def assms(4) rbind.simps assms(5) option.case prod.case u(1)
    using u by (simp add: tensor_mk_def tensor_eqI)
qed





section \<open>The provider as a whole\<close>

lemma partition_covers:
  assumes "is_partition n rs"
  shows "covers n rs"
proof -
  have c: "concat (map (\<lambda>r. [fst r..<snd r]) rs) = [0..<n]" using assms by (simp add: is_partition_def)
  have "in_ranges rs i" if "i < n" for i
  proof -
    have "i \<in> set (concat (map (\<lambda>r. [fst r..<snd r]) rs))" using that unfolding c by simp
    then show ?thesis by (auto simp: in_ranges_def list_ex_iff)
  qed
  then show ?thesis using assms by (auto simp: covers_def is_partition_def list_all_iff)
qed

text \<open>Extents below \<open>2^31\<close>: the product of any two of them times four does not wrap.\<close>

definition modest :: "f32 tensor \<Rightarrow> bool" where
  "modest t = (wf_tensor t \<and> shape_ok (t_shape t) \<and> list_all (\<lambda>d. unat d < 2 ^ 31) (t_shape t))"

definition cp_ok :: "cpu_provider \<Rightarrow> bool" where
  "cp_ok cp = (case cp_workers cp of None \<Rightarrow> True | Some w \<Rightarrow> w < 2 ^ 63)"

lemma modest_dims:
  assumes "modest A" "modest B" "gemm_validate A B bias p = Inr ()" "resolveDims A B p = Inr d"
  shows "dN d < 2 ^ 31" "dM d < 2 ^ 31" "dN d * dM d * 4 < 2 ^ 64"
proof -
  have "rank A = 2" "rank B = 2" using assms(3) by (auto simp: gemm_validate_def rbind_eq_Inr)
  moreover have "unat (t_shape A ! i) < 2 ^ 31" if "i < rank A" for i
    using assms(1) that by (simp add: modest_def rank_def list_all_length)
  moreover have "unat (t_shape B ! i) < 2 ^ 31" if "i < rank B" for i
    using assms(2) that by (simp add: modest_def rank_def list_all_length)
  ultimately show n: "dN d < 2 ^ 31" "dM d < 2 ^ 31"
    using assms(4) by (auto simp: resolveDims_def rbind_eq_Inr dim_eq_Inr split: if_splits)
  have "dN d \<le> 2147483647" "dM d \<le> 2147483647" using n by simp_all
  then have "dN d * dM d \<le> 2147483647 * 2147483647" by (rule mult_le_mono)
  then have "dN d * dM d * 4 \<le> (2147483647 * 2147483647) * 4" by (rule mult_le_mono1)
  also have "\<dots> < (2::nat) ^ 64" by simp
  finally show "dN d * dM d * 4 < 2 ^ 64" .
qed

definition node_gemm_params :: "node \<Rightarrow> bool \<Rightarrow> f32 gemm_params res" where
  "node_gemm_params node relu =
     rbind (getAttrInt node ''transA'' 0) (\<lambda>tA.
     rbind (getAttrInt node ''transB'' 0) (\<lambda>tB.
     rbind (getAttrFloat node ''alpha'' 0x3F800000) (\<lambda>a.
     rbind (getAttrFloat node ''beta'' 0x3F800000) (\<lambda>b.
       Inr \<lparr>transA = (tA \<noteq> 0), transB = (tB \<noteq> 0), alpha = a, beta = b, fuseRelu = relu\<rparr>))))"

definition gemm_bias :: "f32 tensor list \<Rightarrow> f32 tensor" where
  "gemm_bias ins = (if 2 < length ins then ins ! 2 else tensor_default)"

lemma computeGemm_params:
  "computeGemm cp ctx node ins output relu =
     rbind (require (2 \<le> length ins) (InvalidArgument (''Gemm node '' @ n_name node @ '' requires at least two inputs''))) (\<lambda>_.
     rbind (node_gemm_params node relu) (\<lambda>p.
       gemm_compute f32_arith (ins ! 0) (ins ! 1) (gemm_bias ins) output p (cp_strategy cp)
          (map_option (\<lambda>w. parallelFor_shards w (fst ctx) 1) (cp_workers cp)) (snd ctx)))"
  by (simp add: computeGemm_def node_gemm_params_def gemm_bias_def rbind_assoc Let_def)

lemma gemm_bias_wf: "list_all modest ins \<Longrightarrow> wf_tensor (gemm_bias ins)"
  by (auto simp: gemm_bias_def list_all_length modest_def tensor_default_wf)

text \<open>Whether a Gemm call fails, and its result, are functions of the operands alone: neither the
  output tensor passed in (but for its allocator), nor the thread, nor the pool matter.\<close>

definition gemm_outcome :: "gemm_strategy \<Rightarrow> f32 tensor \<Rightarrow> f32 tensor \<Rightarrow> f32 tensor \<Rightarrow> alloc_kind \<Rightarrow> f32 gemm_params \<Rightarrow> f32 tensor res" where
  "gemm_outcome s A B bias al p =
     rbind (gemm_validate A B bias p) (\<lambda>_. rbind (resolveDims A B p) (\<lambda>d. Inr (gemm_result f32_arith s A B bias al d p)))"

lemma gemm_compute_outcome:
  assumes "modest A" "modest B" "wf_tensor bias" "wf_tensor output" "cp_ok cp"
  shows "gemm_compute f32_arith A B bias output p (cp_strategy cp)
      (map_option (\<lambda>w. parallelFor_shards w inside 1) (cp_workers cp)) bufs
    = gemm_outcome (cp_strategy cp) A B bias (t_alloc output) p"
proof (cases "gemm_validate A B bias p")
  case (Inl e)
  then show ?thesis by (simp add: gemm_compute_def gemm_outcome_def)
next
  case (Inr u)
  then obtain d where d: "resolveDims A B p = Inr d"
    by (auto simp: gemm_validate_def rbind_eq_Inr)
  have v: "gemm_validate A B bias p = Inr ()" using Inr by simp
  have pre: "gemm_pre A B bias output p d"
    using assms v d modest_dims [OF assms(1,2) v d] by (simp add: gemm_pre_def modest_def)
  have "shards_cover (dN d) (map_option (\<lambda>w. parallelFor_shards w inside 1) (cp_workers cp))"
  proof (cases "cp_workers cp")
    case (Some w)
    then have "is_partition (dN d) (parallelFor_shards w inside 1 (dN d))"
      using parallelFor_partition [of "dN d" 1 w inside] modest_dims [OF assms(1,2) v d] assms(5)
      by (simp add: cp_ok_def)
    then show ?thesis using Some partition_covers by (simp add: shards_cover_def)
  qed (simp add: shards_cover_def)
  from gemm_compute_eq [OF pre this] show ?thesis by (simp add: gemm_outcome_def v d)
qed

lemma computeGemm_outcome:
  assumes "list_all modest ins" "wf_tensor output" "cp_ok cp"
  shows "computeGemm cp ctx node ins output relu =
     rbind (require (2 \<le> length ins) (InvalidArgument (''Gemm node '' @ n_name node @ '' requires at least two inputs''))) (\<lambda>_.
     rbind (node_gemm_params node relu) (\<lambda>p.
       gemm_outcome (cp_strategy cp) (ins ! 0) (ins ! 1) (gemm_bias ins) (t_alloc output) p))"
proof (cases "2 \<le> length ins")
  case True
  then have "0 < length ins" "1 < length ins" by linarith+
  then have "modest (ins ! 0)" "modest (ins ! 1)" using assms(1) by (simp_all add: list_all_length)
  from gemm_compute_outcome [OF this gemm_bias_wf [OF assms(1)] assms(2,3)] show ?thesis
    by (simp add: computeGemm_params)
qed (simp add: computeGemm_params)

text \<open>What a node computes, as a function of its inputs.\<close>

definition node_outcome :: "gemm_strategy \<Rightarrow> node \<Rightarrow> f32 tensor option list \<Rightarrow> alloc_kind \<Rightarrow> f32 tensor res" where
  "node_outcome s node inputs al =
     provider_compute \<lparr>cp_strategy = s, cp_workers = None, cp_alloc = al\<rparr> (False, ([], [])) node inputs
       (tensor_default\<lparr>t_alloc := al\<rparr>)"

definition inputs_ok :: "f32 tensor option list \<Rightarrow> bool" where
  "inputs_ok = list_all (\<lambda>t. case t of None \<Rightarrow> True | Some x \<Rightarrow> modest x)"

lemma provider_compute_outcome:
  assumes "inputs_ok inputs" "wf_tensor output" "cp_ok cp"
  shows "provider_compute cp ctx node inputs output = node_outcome (cp_strategy cp) node inputs (t_alloc output)"
proof (cases "list_all (\<lambda>t. t \<noteq> None) inputs")
  case False
  then show ?thesis by (simp add: provider_compute_def node_outcome_def)
next
  case True
  define ins where "ins = map the inputs"
  let ?d = "tensor_default\<lparr>t_alloc := t_alloc output\<rparr> :: f32 tensor"
  let ?cp = "\<lparr>cp_strategy = cp_strategy cp, cp_workers = None, cp_alloc = t_alloc output\<rparr>"
  have m: "list_all modest ins"
    using True assms(1) by (fastforce simp: ins_def inputs_ok_def list_all_iff)
  have wd: "wf_tensor ?d" by (simp add: wf_tensor_def tensor_default_def buffer_fits_def)
  have cd: "cp_ok ?cp" by (simp add: cp_ok_def)
  have wfi: "wf_tensor (ins ! i)" "shape_ok (t_shape (ins ! i))" if "i < length ins" for i
    using m that by (auto simp: list_all_length modest_def)
  have gemm: "computeGemm cp ctx node ins output relu = computeGemm ?cp (False, ([], [])) node ins ?d relu" for relu
    by (simp add: computeGemm_outcome [OF m assms(2,3)] computeGemm_outcome [OF m wd cd])
  have relu: "computeRelu (ins ! i) output = computeRelu (ins ! i) ?d" if "i < length ins" for i
    using wfi [OF that] by (simp add: computeRelu_eq assms(2) wd)
  have add: "computeAdd (ins ! i) (ins ! j) output = computeAdd (ins ! i) (ins ! j) ?d" if "i < length ins" "j < length ins" for i j
  proof (cases "t_shape (ins ! i) = t_shape (ins ! j)")
    case True
    then show ?thesis using wfi that by (simp add: computeAdd_eq assms(2) wd)
  qed (simp add: computeAdd_def)
  have flat: "computeFlatten node (ins ! i) output = computeFlatten node (ins ! i) ?d" if "i < length ins" for i
  proof (cases "getAttrInt node ''axis'' 1")
    case (Inr axis)
    show ?thesis
    proof (cases "flatten_dims axis (t_shape (ins ! i)) (t_size (ins ! i))")
      case (Some oi)
      obtain outer inner where "oi = (outer, inner)" by (cases oi)
      with Some show ?thesis
        using wfi [OF that] computeFlatten_eq [OF wfi(1) [OF that] wfi(2) [OF that] _ Inr] assms(2) wd by simp
    qed (simp add: computeFlatten_def Inr)
  qed (simp add: computeFlatten_def)
  show ?thesis
    unfolding node_outcome_def provider_compute_def ins_def [symmetric] Let_def
    using True gemm relu add flat by (cases "n_opType node") (auto simp: input_at_def)
qed

lemma kernel_value_relu: "kernel_value F s A B d (p\<lparr>fuseRelu := b\<rparr>) i j = kernel_value F s A B d p i j"
proof -
  have "term_plain F A B d (p\<lparr>fuseRelu := b\<rparr>) = term_plain F A B d p"
    by (simp add: fun_eq_iff term_plain_def elemA_def elemB_def)
  moreover from this have "term_skip F A B d (p\<lparr>fuseRelu := b\<rparr>) = term_skip F A B d p"
    by (simp add: fun_eq_iff term_skip_def elemA_def)
  ultimately show ?thesis
    by (simp add: kernel_value_def dot_plain_def dot_skip_def dot_lanes_def)
qed

lemma gemm_result_relu:
  "gemm_result f32_arith s A B bias al d (p\<lparr>fuseRelu := True\<rparr>) =
   tensor_mk (t_shape (gemm_result f32_arith s A B bias al d (p\<lparr>fuseRelu := False\<rparr>)))
     (map (f32_max 0) (t_data (gemm_result f32_arith s A B bias al d (p\<lparr>fuseRelu := False\<rparr>))))
     (t_size (gemm_result f32_arith s A B bias al d (p\<lparr>fuseRelu := False\<rparr>))) al"
  by (simp add: gemm_result_def tensor_mk_def gemm_cell_def finish_def Let_def kernel_value_relu f32_arith_def)

lemma gemm_outcome_relu:
  assumes "modest A" "modest B" "wf_tensor bias" "wf_tensor output" "t_alloc output = al'"
  shows "gemm_outcome s A B bias al' (p\<lparr>fuseRelu := True\<rparr>) =
    rbind (gemm_outcome s A B bias al (p\<lparr>fuseRelu := False\<rparr>)) (\<lambda>t. computeRelu t output)"
proof -
  have v: "gemm_validate A B bias (p\<lparr>fuseRelu := b\<rparr>) = gemm_validate A B bias p" for b
    by (simp add: gemm_validate_def resolveDims_def)
  have r: "resolveDims A B (p\<lparr>fuseRelu := b\<rparr>) = resolveDims A B p" for b by (simp add: resolveDims_def)
  show ?thesis
  proof (cases "gemm_validate A B bias p")
    case (Inr u)
    then obtain d where d: "resolveDims A B p = Inr d" by (auto simp: gemm_validate_def rbind_eq_Inr)
    let ?t = "\<lambda>al. gemm_result f32_arith s A B bias al d (p\<lparr>fuseRelu := False\<rparr>)"
    have "gemm_pre A B bias output (p\<lparr>fuseRelu := False\<rparr>) d"
      using assms Inr d modest_dims [OF assms(1,2), of bias p d] v r by (simp add: gemm_pre_def modest_def)
    then have "wf_tensor (?t al)" by (rule gemm_result_facts)
    from computeRelu_eq [OF this assms(4)] show ?thesis
      using Inr d by (simp add: gemm_outcome_def v r gemm_result_relu assms(5)) (simp add: gemm_result_def)
  qed (simp add: gemm_outcome_def v)
qed

lemma gemmRelu_split:
  assumes "inputs_ok inputs" "wf_tensor output" "wf_tensor tmp" "cp_ok cp"
    and "n_opType gemm = OpGemm" "n_opType relu = OpRelu"
  shows "provider_compute cp ctx (setOpType OpGemmRelu gemm) inputs output =
    rbind (provider_compute cp ctx gemm inputs tmp) (\<lambda>t. provider_compute cp ctx relu [Some t] output)"
proof (cases "list_all (\<lambda>t. t \<noteq> None) inputs")
  case False
  then show ?thesis by (simp add: provider_compute_def)
next
  case True
  define ins where "ins = map the inputs"
  have m: "list_all modest ins" using True assms(1) by (fastforce simp: ins_def inputs_ok_def list_all_iff)
  have attrs: "node_gemm_params (setOpType OpGemmRelu gemm) True = rbind (node_gemm_params gemm False) (\<lambda>p. Inr (p\<lparr>fuseRelu := True\<rparr>))"
    by (simp add: node_gemm_params_def getAttrInt_def getAttrFloat_def rbind_assoc)
  have noRelu: "node_gemm_params gemm False = Inr p \<Longrightarrow> p\<lparr>fuseRelu := False\<rparr> = p" for p
    by (auto simp: node_gemm_params_def rbind_eq_Inr)
  have "computeGemm cp ctx (setOpType OpGemmRelu gemm) ins output True =
    rbind (computeGemm cp ctx gemm ins tmp False) (\<lambda>t. computeRelu t output)"
  proof (cases "2 \<le> length ins")
    case len: True
    then have "0 < length ins" "1 < length ins" by linarith+
    then have AB: "modest (ins ! 0)" "modest (ins ! 1)" using m by (simp_all add: list_all_length)
    show ?thesis
    proof (cases "node_gemm_params gemm False")
      case (Inr p)
      show ?thesis
        using gemm_outcome_relu [OF AB gemm_bias_wf [OF m] assms(2) refl, of "cp_strategy cp" p "t_alloc tmp"]
        by (simp add: computeGemm_outcome [OF m assms(2,4)] computeGemm_outcome [OF m assms(3,4)] attrs Inr len noRelu [OF Inr])
    qed (simp add: computeGemm_params attrs len)
  qed (simp add: computeGemm_params)
  then show ?thesis
    using True assms(5,6) unfolding provider_compute_def ins_def [symmetric] by (simp add: input_at_def Let_def ins_def [symmetric])
qed

section \<open>Properties\<close>

text \<open>C26. What a node computes depends only on the node, its input tensors and the Gemm strategy:
  the tensor passed in to be overwritten (its old shape and contents), the number of worker
  threads, whether the call already runs on a worker, and the packing buffers left by earlier
  calls make no difference, in the result or in the exception. Inputs have extents below \<open>2 ^ 31\<close>
  and element counts that do not wrap, the pool fewer than \<open>2 ^ 63\<close> workers.\<close>

theorem provider_compute_independent:
  assumes "inputs_ok inputs" "wf_tensor out1" "wf_tensor out2" "t_alloc out1 = t_alloc out2"
    and "cp_ok cp1" "cp_ok cp2" "cp_strategy cp1 = cp_strategy cp2"
  shows "provider_compute cp1 ctx1 node inputs out1 = provider_compute cp2 ctx2 node inputs out2"
  using provider_compute_outcome [OF assms(1,2,5)] provider_compute_outcome [OF assms(1,3,6)] assms(4,7) by simp

definition ex_x :: "f32 tensor" where
  "ex_x = \<lparr>t_shape = [2, 2], t_data = [0x3F800000, 0xBF800000, 0x40000000, 0], t_size = 4, t_alloc = CpuAlloc\<rparr>"

definition ex_gemm_node :: node where
  "ex_gemm_node = mk_node ''g'' ''Gemm'' [''x'', ''x''] [''y''] (Map.empty(''transA'' \<mapsto> AInt 1))"

definition ex_cp :: cpu_provider where
  "ex_cp = cpu_provider_new \<lparr>o_strategy = Tiled, o_intraOpThreads = 4, o_useMemoryPool = False\<rparr>"

lemma ex_x_modest: "modest ex_x"
  by (simp add: modest_def ex_x_def wf_tensor_def buffer_fits_def computeSize_def shape_ok_def)

lemma ex_cp_ok: "cp_ok ex_cp" "cp_strategy ex_cp = Tiled"
  by (simp_all add: cp_ok_def ex_cp_def cpu_provider_new_def)

lemma ex_x_alloc: "t_alloc ex_x = t_alloc (tensor_default :: f32 tensor)"
  by (simp add: ex_x_def tensor_default_def)

theorem provider_compute_independent_witness:
  "provider_compute ex_cp (False, ([], [])) ex_gemm_node [Some ex_x, Some ex_x] tensor_default
   = provider_compute (ex_cp\<lparr>cp_workers := None\<rparr>) (True, ([1], [2])) ex_gemm_node [Some ex_x, Some ex_x] ex_x"
  by (rule provider_compute_independent)
     (use ex_x_modest ex_cp_ok in \<open>simp_all add: inputs_ok_def tensor_default_wf modest_def ex_x_alloc cp_ok_def\<close>)

text \<open>C9. The fused operator is the two it replaces: a GemmRelu node computes, bit for bit and
  exception for exception, what a Relu node computes from the result of the Gemm node, on inputs
  whose extents are below \<open>2 ^ 31\<close> and whose element counts do not wrap.\<close>

theorem gemmRelu_is_gemm_then_relu:
  assumes "inputs_ok inputs" "wf_tensor output" "wf_tensor tmp" "cp_ok cp"
    and "n_opType gemm = OpGemm" "n_opType relu = OpRelu"
  shows "provider_compute cp ctx (setOpType OpGemmRelu gemm) inputs output =
    rbind (provider_compute cp ctx gemm inputs tmp) (\<lambda>t. provider_compute cp ctx relu [Some t] output)"
  by (rule gemmRelu_split [OF assms])

theorem gemmRelu_is_gemm_then_relu_witness:
  "provider_compute ex_cp (False, ([], [])) (setOpType OpGemmRelu ex_gemm_node) [Some ex_x, Some ex_x] tensor_default =
    rbind (provider_compute ex_cp (False, ([], [])) ex_gemm_node [Some ex_x, Some ex_x] ex_x)
      (\<lambda>t. provider_compute ex_cp (False, ([], [])) (mk_node ''r'' ''Relu'' [''y''] [''z''] Map.empty) [Some t] tensor_default)"
  by (rule gemmRelu_is_gemm_then_relu)
     (use ex_x_modest ex_cp_ok in \<open>simp_all add: inputs_ok_def tensor_default_wf modest_def ex_gemm_node_def mk_node_def
       opTypeFromString_def\<close>)



end
