(* ===== verification/Text.thy ===== *)
theory Text
  imports Prelude
begin

text \<open>
  The pieces of the C++ standard library the text-handling sources rely on: \<^verbatim>\<open>std::getline\<close>,
  \<^verbatim>\<open>std::stoll\<close> and \<^verbatim>\<open>std::stoul\<close> in base 10 with their exceptions, \<^verbatim>\<open>find\<close> of a character, and
  printing of signed integers. Characters are those of the "C" locale.
\<close>

section \<open>Characters\<close>

abbreviation newline :: char where "newline \<equiv> CHR 0x0A"

definition is_space :: "char \<Rightarrow> bool" where
  "is_space c = (c \<in> {CHR 0x20, CHR 0x09, CHR 0x0A, CHR 0x0B, CHR 0x0C, CHR 0x0D})"

definition digit_val :: "char \<Rightarrow> nat" where
  "digit_val c = of_char c - 48"

definition is_digit :: "char \<Rightarrow> bool" where
  "is_digit c = (48 \<le> (of_char c :: nat) \<and> (of_char c :: nat) \<le> 57)"

definition to_lower :: "char \<Rightarrow> char" where
  "to_lower c = (if 65 \<le> (of_char c :: nat) \<and> (of_char c :: nat) \<le> 90 then char_of ((of_char c :: nat) + 32) else c)"

section \<open>Lines\<close>

text \<open>What repeated \<^verbatim>\<open>getline\<close> yields: a last line without newline counts, an empty rest does not.\<close>

function getlines :: "string \<Rightarrow> string list" where
  "getlines s =
     (if s = [] then []
      else takeWhile (\<lambda>c. c \<noteq> newline) s # getlines (drop 1 (dropWhile (\<lambda>c. c \<noteq> newline) s)))"
  by pat_completeness auto
termination
proof (relation "measure length")
  fix s :: string
  assume "s \<noteq> []"
  then have "0 < length s" by simp
  moreover have "length (dropWhile (\<lambda>c. c \<noteq> newline) s) \<le> length s" by (rule length_dropWhile_le)
  ultimately have "length (dropWhile (\<lambda>c. c \<noteq> newline) s) - 1 < length s" by linarith
  then show "(drop 1 (dropWhile (\<lambda>c. c \<noteq> newline) s), s) \<in> measure length" by simp
qed simp

declare getlines.simps [simp del]

lemma getlines_Nil [simp]: "getlines [] = []"
  by (simp add: getlines.simps)

lemma getlines_line:
  assumes "newline \<notin> set l"
  shows "getlines (l @ newline # r) = l # getlines r"
proof -
  have "takeWhile (\<lambda>c. c \<noteq> newline) (l @ newline # r) = l" "dropWhile (\<lambda>c. c \<noteq> newline) (l @ newline # r) = newline # r"
    using assms by (induction l) auto
  then show ?thesis by (subst getlines.simps) simp
qed

section \<open>Numbers\<close>

definition digits_val :: "string \<Rightarrow> nat" where
  "digits_val = foldl (\<lambda>n c. 10 * n + digit_val c) 0"

text \<open>Leading white space and a sign are skipped, then as many digits as there are; what follows
  them is ignored.\<close>

definition split_sign :: "string \<Rightarrow> bool \<times> string" where
  "split_sign s = (case dropWhile is_space s of
     c # r \<Rightarrow> if c = CHR ''-'' then (True, r) else if c = CHR ''+'' then (False, r) else (False, c # r)
   | [] \<Rightarrow> (False, []))"

definition stoll :: "string \<Rightarrow> int res" where
  "stoll s =
     (let (neg, r) = split_sign s; ds = takeWhile is_digit r;
          v = (if neg then - int (digits_val ds) else int (digits_val ds))
      in if ds = [] then Inl (InvalidArgument ''stoll'')
         else if v < - (2 ^ 63) \<or> 2 ^ 63 \<le> v then Inl (OutOfRange ''stoll'')
         else Inr v)"

text \<open>\<^verbatim>\<open>stoul\<close> negates modulo \<open>2^64\<close>.\<close>

definition stoul :: "string \<Rightarrow> nat res" where
  "stoul s =
     (let (neg, r) = split_sign s; ds = takeWhile is_digit r; n = digits_val ds
      in if ds = [] then Inl (InvalidArgument ''stoul'')
         else if 2 ^ 64 \<le> n then Inl (OutOfRange ''stoul'')
         else Inr (if neg then (2 ^ 64 - n) mod 2 ^ 64 else n))"

definition int_to_string :: "int \<Rightarrow> string" where
  "int_to_string i = (if i < 0 then ''-'' @ nat_to_string (nat (- i)) else nat_to_string (nat i))"

lemma digit_char_val:
  assumes "d < 10"
  shows "digit_val (digit_char d) = d" "is_digit (digit_char d)"
  using assms by (simp_all add: digit_val_def digit_char_def is_digit_def)

lemma digits_val_append: "digits_val (s @ [c]) = 10 * digits_val s + digit_val c"
  by (simp add: digits_val_def)

lemma nat_to_string_digits: "digits_val (nat_to_string n) = n \<and> list_all is_digit (nat_to_string n)"
proof (induction n rule: nat_to_string.induct)
  case (1 n)
  show ?case
  proof (cases "n < 10")
    case True
    then show ?thesis by (simp add: nat_to_string.simps [of n] digits_val_def digit_char_val)
  next
    case False
    with 1 have "digits_val (nat_to_string (n div 10)) = n div 10" "list_all is_digit (nat_to_string (n div 10))" by auto
    with False show ?thesis
      by (simp add: nat_to_string.simps [of n] digits_val_append digit_char_val)
  qed
qed

lemma digit_not: "is_digit c \<Longrightarrow> \<not> is_space c \<and> c \<noteq> CHR ''-'' \<and> c \<noteq> CHR ''+'' \<and> c \<noteq> CHR ''#'' \<and> c \<noteq> newline \<and> c \<noteq> CHR 0x22"
  by (auto simp: is_digit_def is_space_def)

lemma split_sign_digits:
  assumes "list_all is_digit ds" "ds \<noteq> []"
  shows "split_sign ds = (False, ds)" "takeWhile is_digit ds = ds"
proof -
  obtain c r where "ds = c # r" using assms(2) by (cases ds) auto
  then show "split_sign ds = (False, ds)"
    using assms(1) digit_not [of c] by (auto simp: split_sign_def)
  show "takeWhile is_digit ds = ds" using assms(1) by (simp add: list_all_iff takeWhile_eq_all_conv)
qed

lemma takeWhile_digits: "takeWhile is_digit (nat_to_string n) = nat_to_string n"
  using nat_to_string_digits [of n] split_sign_digits(2) nat_to_string_not_Nil by blast

lemma stoll_nat: "int n < 2 ^ 63 \<Longrightarrow> stoll (nat_to_string n) = Inr (int n)"
  using nat_to_string_digits [of n] split_sign_digits [of "nat_to_string n"]
  by (simp add: stoll_def Let_def takeWhile_digits)

lemma stoul_nat: "n < 2 ^ 64 \<Longrightarrow> stoul (nat_to_string n) = Inr n"
  using nat_to_string_digits [of n] split_sign_digits [of "nat_to_string n"]
  by (simp add: stoul_def Let_def takeWhile_digits)

lemma stoll_range: "stoll s = Inr v \<Longrightarrow> - (2 ^ 63) \<le> v \<and> v < 2 ^ 63"
  by (auto simp: stoll_def Let_def split: prod.splits if_splits)

lemma stoll_error: "stoll s = Inl e \<Longrightarrow> e = InvalidArgument ''stoll'' \<or> e = OutOfRange ''stoll''"
  by (auto simp: stoll_def Let_def split: prod.splits if_splits)

section \<open>Substrings\<close>

text \<open>The text before and after the first occurrence of a character.\<close>

definition split_at :: "char \<Rightarrow> string \<Rightarrow> (string \<times> string) option" where
  "split_at c s = (if c \<in> set s then Some (takeWhile (\<lambda>x. x \<noteq> c) s, drop 1 (dropWhile (\<lambda>x. x \<noteq> c) s)) else None)"

lemma split_at_append: "c \<notin> set k \<Longrightarrow> split_at c (k @ c # v) = Some (k, v)"
proof -
  assume "c \<notin> set k"
  then have "takeWhile (\<lambda>x. x \<noteq> c) (k @ c # v) = k" "dropWhile (\<lambda>x. x \<noteq> c) (k @ c # v) = c # v"
    by (induction k) auto
  then show ?thesis by (simp add: split_at_def)
qed

end
