(* ===== verification/Config.thy ===== *)
theory Config
  imports Provider Text
begin

text \<open>
  runtime/config.h and runtime/config.cpp: the flat \<^verbatim>\<open>key: value\<close> configuration file. A file is the
  text read from it, or nothing when it cannot be opened. Sizes are natural numbers; every value
  the parser produces is below \<open>2^63\<close>.
\<close>

section \<open>The structure\<close>

record session_config =
  c_name :: string
  c_modelPath :: string
  c_executionProvider :: string
  c_gemmStrategy :: string
  c_maxBatchSize :: nat
  c_intraOpThreads :: nat
  c_interOpParallel :: bool
  c_graphOptimization :: bool
  c_memoryPool :: bool
  c_profiling :: bool
  c_maxQueueDelayMicroseconds :: nat
  c_httpAddress :: string
  c_httpPort :: int

definition config_default :: session_config where
  "config_default = \<lparr>c_name = ''model'', c_modelPath = '''', c_executionProvider = ''cpu'', c_gemmStrategy = ''auto'',
     c_maxBatchSize = 128, c_intraOpThreads = 1, c_interOpParallel = False, c_graphOptimization = True,
     c_memoryPool = True, c_profiling = False, c_maxQueueDelayMicroseconds = 2000,
     c_httpAddress = ''127.0.0.1'', c_httpPort = 8080\<rparr>"

record optimizer_options =
  o_fuseActivations :: bool
  o_foldConstants :: bool
  o_eliminateDeadNodes :: bool

section \<open>Parsing\<close>

definition is_blank :: "char \<Rightarrow> bool" where
  "is_blank c = (c \<in> {CHR 0x20, CHR 0x09, CHR 0x0D, CHR 0x0A})"

definition trim :: "string \<Rightarrow> string" where
  "trim s = rev (dropWhile is_blank (rev (dropWhile is_blank s)))"

definition quoted :: "string \<Rightarrow> string" where "quoted s = [CHR 0x27] @ s @ [CHR 0x27]"

definition parseBool :: "string \<Rightarrow> string \<Rightarrow> bool res" where
  "parseBool v key =
     (if v = ''true'' \<or> v = ''1'' \<or> v = ''yes'' then Inr True
      else if v = ''false'' \<or> v = ''0'' \<or> v = ''no'' then Inr False
      else Inl (InvalidArgument (''Config key '' @ quoted key @ '' expects a boolean, got '' @ quoted v)))"

text \<open>Both exceptions of \<^verbatim>\<open>stoll\<close> and the one for negative numbers are replaced by one.\<close>

definition parseSize :: "string \<Rightarrow> string \<Rightarrow> nat res" where
  "parseSize v key =
     (case stoll v of
        Inr i \<Rightarrow> if 0 \<le> i then Inr (nat i)
          else Inl (InvalidArgument (''Config key '' @ quoted key @ '' expects a non-negative integer, got '' @ quoted v))
      | Inl _ \<Rightarrow> Inl (InvalidArgument (''Config key '' @ quoted key @ '' expects a non-negative integer, got '' @ quoted v)))"

text \<open>\<^verbatim>\<open>static_cast<int>\<close> of a 64-bit size.\<close>

definition size_to_int :: "nat \<Rightarrow> int" where
  "size_to_int n = sint (word_of_nat n :: 32 word)"

definition set_key :: "nat \<Rightarrow> string \<Rightarrow> string \<Rightarrow> session_config \<Rightarrow> session_config res" where
  "set_key lineNumber key v c =
     (if key = ''name'' then Inr (c\<lparr>c_name := v\<rparr>)
      else if key = ''model_path'' then Inr (c\<lparr>c_modelPath := v\<rparr>)
      else if key = ''execution_provider'' then Inr (c\<lparr>c_executionProvider := v\<rparr>)
      else if key = ''gemm_strategy'' then Inr (c\<lparr>c_gemmStrategy := v\<rparr>)
      else if key = ''max_batch_size'' then rbind (parseSize v key) (\<lambda>n. Inr (c\<lparr>c_maxBatchSize := n\<rparr>))
      else if key = ''intra_op_threads'' then rbind (parseSize v key) (\<lambda>n. Inr (c\<lparr>c_intraOpThreads := n\<rparr>))
      else if key = ''inter_op_parallel'' then rbind (parseBool v key) (\<lambda>b. Inr (c\<lparr>c_interOpParallel := b\<rparr>))
      else if key = ''graph_optimization'' then rbind (parseBool v key) (\<lambda>b. Inr (c\<lparr>c_graphOptimization := b\<rparr>))
      else if key = ''memory_pool'' then rbind (parseBool v key) (\<lambda>b. Inr (c\<lparr>c_memoryPool := b\<rparr>))
      else if key = ''profiling'' then rbind (parseBool v key) (\<lambda>b. Inr (c\<lparr>c_profiling := b\<rparr>))
      else if key = ''max_queue_delay_microseconds'' then rbind (parseSize v key) (\<lambda>n. Inr (c\<lparr>c_maxQueueDelayMicroseconds := n\<rparr>))
      else if key = ''http_address'' then Inr (c\<lparr>c_httpAddress := v\<rparr>)
      else if key = ''http_port'' then rbind (parseSize v key) (\<lambda>n. Inr (c\<lparr>c_httpPort := size_to_int n\<rparr>))
      else Inl (InvalidArgument (''Unknown config key '' @ quoted key @ '' at line '' @ nat_to_string lineNumber)))"

definition unquote :: "string \<Rightarrow> string" where
  "unquote v = (if 2 \<le> length v \<and> hd v = CHR 0x22 \<and> last v = CHR 0x22 then butlast (tl v) else v)"

definition config_line :: "string \<Rightarrow> nat \<times> session_config \<Rightarrow> (nat \<times> session_config) res" where
  "config_line line = (\<lambda>(n, c).
     let n = n + 1; line = trim (takeWhile (\<lambda>x. x \<noteq> CHR ''#'') line)
     in if line = [] then Inr (n, c)
        else (case split_at (CHR '':'') line of
            None \<Rightarrow> Inl (InvalidArgument (''Malformed config at line '' @ nat_to_string n @ '': '' @ line))
          | Some (k, v) \<Rightarrow> rbind (set_key n (trim k) (unquote (trim v)) c) (\<lambda>c. Inr (n, c))))"

section \<open>Validation and views\<close>

definition config_validate :: "session_config \<Rightarrow> unit res" where
  "config_validate c =
     rbind (require (c_modelPath c \<noteq> []) (InvalidArgument ''Config must set model_path'')) (\<lambda>_.
     rbind (require (\<not> (c_maxBatchSize c = 0 \<or> 4096 < c_maxBatchSize c))
        (InvalidArgument ''max_batch_size must be between 1 and 4096'')) (\<lambda>_.
     rbind (require (\<not> (c_intraOpThreads c = 0 \<or> 256 < c_intraOpThreads c))
        (InvalidArgument ''intra_op_threads must be between 1 and 256'')) (\<lambda>_.
     rbind (require (\<not> (c_httpPort c \<le> 0 \<or> 65535 < c_httpPort c))
        (InvalidArgument ''http_port must be between 1 and 65535'')) (\<lambda>_.
     rbind (gemmStrategyFromString (c_gemmStrategy c)) (\<lambda>_.
       require (c_executionProvider c = ''cpu'')
        (InvalidArgument (''Unsupported execution_provider: '' @ c_executionProvider c)))))))"

definition config_fromFile :: "string \<Rightarrow> string option \<Rightarrow> session_config res" where
  "config_fromFile path file =
     (case file of
        None \<Rightarrow> Inl (RuntimeError (''Failed to open config file: '' @ path))
      | Some s \<Rightarrow> rbind (rfold config_line (getlines s) (0, config_default)) (\<lambda>(n, c).
          rbind (config_validate c) (\<lambda>_. Inr c)))"

definition bool_to_string :: "bool \<Rightarrow> string" where
  "bool_to_string b = (if b then ''true'' else ''false'')"

definition config_toString :: "session_config \<Rightarrow> string" where
  "config_toString c =
     ''name: '' @ c_name c @ [newline] @
     ''model_path: '' @ c_modelPath c @ [newline] @
     ''execution_provider: '' @ c_executionProvider c @ [newline] @
     ''gemm_strategy: '' @ c_gemmStrategy c @ [newline] @
     ''max_batch_size: '' @ nat_to_string (c_maxBatchSize c) @ [newline] @
     ''intra_op_threads: '' @ nat_to_string (c_intraOpThreads c) @ [newline] @
     ''inter_op_parallel: '' @ bool_to_string (c_interOpParallel c) @ [newline] @
     ''graph_optimization: '' @ bool_to_string (c_graphOptimization c) @ [newline] @
     ''memory_pool: '' @ bool_to_string (c_memoryPool c) @ [newline] @
     ''profiling: '' @ bool_to_string (c_profiling c) @ [newline] @
     ''max_queue_delay_microseconds: '' @ nat_to_string (c_maxQueueDelayMicroseconds c) @ [newline] @
     ''http_address: '' @ c_httpAddress c @ [newline] @
     ''http_port: '' @ int_to_string (c_httpPort c) @ [newline]"

definition config_cpuOptions :: "session_config \<Rightarrow> cpu_options res" where
  "config_cpuOptions c = rbind (gemmStrategyFromString (c_gemmStrategy c)) (\<lambda>s.
     Inr \<lparr>o_strategy = s, o_intraOpThreads = c_intraOpThreads c, o_useMemoryPool = c_memoryPool c\<rparr>)"

definition config_optimizerOptions :: "session_config \<Rightarrow> optimizer_options" where
  "config_optimizerOptions c = \<lparr>o_fuseActivations = c_graphOptimization c, o_foldConstants = c_graphOptimization c,
     o_eliminateDeadNodes = c_graphOptimization c\<rparr>"

section \<open>Lines that were printed\<close>

text \<open>A value that survives printing and parsing: one line, no comment, no surrounding blanks or
  quotes.\<close>

definition plain :: "string \<Rightarrow> bool" where
  "plain v = (newline \<notin> set v \<and> CHR ''#'' \<notin> set v \<and> (v = [] \<or> (\<not> is_blank (hd v) \<and> \<not> is_blank (last v))) \<and>
     (hd v = CHR 0x22 \<longrightarrow> last v \<noteq> CHR 0x22 \<or> length v < 2))"

definition plain_key :: "string \<Rightarrow> bool" where
  "plain_key k = (k \<noteq> [] \<and> list_all (\<lambda>c. c \<noteq> CHR '':'' \<and> c \<noteq> CHR ''#'' \<and> c \<noteq> newline \<and> \<not> is_blank c) k)"

lemma dropWhile_hd: "s = [] \<or> \<not> P (hd s) \<Longrightarrow> dropWhile P s = s"
  by (cases s) auto

lemma trim_id: "s = [] \<or> (\<not> is_blank (hd s) \<and> \<not> is_blank (last s)) \<Longrightarrow> trim s = s"
  using dropWhile_hd [of s is_blank] dropWhile_hd [of "rev s" is_blank] by (auto simp: trim_def hd_rev)

lemma trim_space_left: "trim (CHR 0x20 # s) = trim s"
  by (simp add: trim_def is_blank_def)

lemma trim_space_right: "trim (s @ [CHR 0x20]) = trim s"
proof -
  have b: "is_blank (CHR 0x20)" by (simp add: is_blank_def)
  show ?thesis
  proof (cases "\<forall>x\<in>set s. is_blank x")
    case True
    then have "dropWhile is_blank s = []" "dropWhile is_blank (s @ [CHR 0x20]) = []"
      using b by simp_all
    then show ?thesis by (simp only: trim_def)
  next
    case False
    then obtain x where x: "x \<in> set s" "\<not> is_blank x" by blast
    have "dropWhile is_blank (s @ [CHR 0x20]) = dropWhile is_blank s @ [CHR 0x20]"
      by (rule dropWhile_append1) (use x in simp_all)
    then show ?thesis by (simp add: trim_def b)
  qed
qed

lemma takeWhile_other: "c \<notin> set s \<Longrightarrow> takeWhile (\<lambda>x. x \<noteq> c) s = s"
  by (auto simp: takeWhile_eq_all_conv)

lemma config_line_printed:
  assumes k: "plain_key k" and v: "plain v"
  shows "config_line (k @ '': '' @ v) (n, c) = rbind (set_key (n + 1) k v c) (\<lambda>c. Inr (n + 1, c))"
proof -
  have kb: "trim k = k" "CHR '':'' \<notin> set k" "k \<noteq> []" "\<not> is_blank (hd k)" "CHR ''#'' \<notin> set k"
  proof -
    have ne: "k \<noteq> []" and a: "\<And>c. c \<in> set k \<Longrightarrow> c \<noteq> CHR '':'' \<and> c \<noteq> CHR ''#'' \<and> \<not> is_blank c"
      using k by (simp_all add: plain_key_def list_all_iff)
    show "k \<noteq> []" by (rule ne)
    show "CHR '':'' \<notin> set k" "CHR ''#'' \<notin> set k" using a by blast+
    show "\<not> is_blank (hd k)" using a ne by simp
    with a ne show "trim k = k" by (intro trim_id) simp
  qed
  have tv: "trim v = v" "unquote v = v" "CHR ''#'' \<notin> set v" "v = [] \<or> \<not> is_blank (last v)"
    using v by (simp_all add: plain_def trim_id) (auto simp: unquote_def)
  have hash: "takeWhile (\<lambda>x. x \<noteq> CHR ''#'') (k @ '': '' @ v) = k @ '': '' @ v"
    by (rule takeWhile_other) (use kb(5) tv(3) in simp)
  define line where "line = trim (k @ '': '' @ v)"
  have "line \<noteq> [] \<and> split_at (CHR '':'') line = Some (k, if v = [] then [] else CHR 0x20 # v)"
  proof (cases "v = []")
    case True
    have "line = k @ '':''"
      using trim_space_right [of "k @ '':''"] trim_id [of "k @ '':''"] True kb by (simp add: line_def is_blank_def)
    then show ?thesis using split_at_append [OF kb(2), of "[]"] True by simp
  next
    case False
    then have "line = k @ '': '' @ v"
      unfolding line_def by (intro trim_id) (use tv(4) kb in simp)
    then show ?thesis using split_at_append [OF kb(2), of "CHR 0x20 # v"] False by simp
  qed
  then have ne: "line \<noteq> []" and sp: "split_at (CHR '':'') line = Some (k, if v = [] then [] else CHR 0x20 # v)"
    by simp_all
  have tr: "trim (if v = [] then [] else CHR 0x20 # v) = v" using tv(1) trim_space_left [of v] by (cases "v = []") simp_all
  show ?thesis
    unfolding config_line_def hash Let_def prod.case line_def [symmetric] if_not_P [OF ne] sp option.case kb(1) tr tv(2) ..
qed

definition print_line :: "string \<times> string \<Rightarrow> string" where
  "print_line kv = fst kv @ '': '' @ snd kv @ [newline]"

definition config_pairs :: "session_config \<Rightarrow> (string \<times> string) list" where
  "config_pairs c =
     [(''name'', c_name c), (''model_path'', c_modelPath c), (''execution_provider'', c_executionProvider c),
      (''gemm_strategy'', c_gemmStrategy c), (''max_batch_size'', nat_to_string (c_maxBatchSize c)),
      (''intra_op_threads'', nat_to_string (c_intraOpThreads c)), (''inter_op_parallel'', bool_to_string (c_interOpParallel c)),
      (''graph_optimization'', bool_to_string (c_graphOptimization c)), (''memory_pool'', bool_to_string (c_memoryPool c)),
      (''profiling'', bool_to_string (c_profiling c)),
      (''max_queue_delay_microseconds'', nat_to_string (c_maxQueueDelayMicroseconds c)),
      (''http_address'', c_httpAddress c), (''http_port'', int_to_string (c_httpPort c))]"

lemma config_toString_pairs: "config_toString c = concat (map print_line (config_pairs c))"
  by (simp add: config_toString_def config_pairs_def print_line_def)

lemma read_printed:
  assumes "\<And>k v. (k, v) \<in> set kvs \<Longrightarrow> plain_key k \<and> plain v"
  shows "rfold config_line (getlines (concat (map print_line kvs))) (n, c) =
    rfold (\<lambda>(k, v) (n, c). rbind (set_key (n + 1) k v c) (\<lambda>c. Inr (n + 1, c))) kvs (n, c)"
  using assms
proof (induction kvs arbitrary: n c)
  case (Cons kv kvs)
  obtain k v where kv: "kv = (k, v)" by (cases kv)
  have p: "plain_key k" "plain v" using Cons.prems [of k v] kv by auto
  then have "newline \<notin> set (k @ '': '' @ v)" by (auto simp: plain_key_def plain_def list_all_iff)
  from getlines_line [OF this, of "concat (map print_line kvs)"]
  have lines: "getlines (concat (map print_line (kv # kvs))) = (k @ '': '' @ v) # getlines (concat (map print_line kvs))"
    by (simp add: kv print_line_def)
  have IH: "rfold config_line (getlines (concat (map print_line kvs))) (n + 1, c') =
      rfold (\<lambda>(k, v) (n, c). rbind (set_key (n + 1) k v c) (\<lambda>c. Inr (n + 1, c))) kvs (n + 1, c')" for c'
    by (rule Cons.IH) (use Cons.prems in \<open>meson list.set_intros(2)\<close>)
  show ?case
  proof (cases "set_key (n + 1) k v c")
    case (Inl e)
    show ?thesis unfolding lines by (simp add: config_line_printed [OF p, unfolded append.simps] kv Inl [simplified])
  next
    case (Inr c')
    show ?thesis unfolding lines
      by (simp add: config_line_printed [OF p, unfolded append.simps] kv Inr [simplified] IH [simplified])
  qed
qed simp

section \<open>Properties\<close>

lemma parseSize_printed: "n < 2 ^ 63 \<Longrightarrow> parseSize (nat_to_string n) key = Inr n"
  by (simp add: parseSize_def stoll_nat)

lemma parseBool_printed: "parseBool (bool_to_string b) key = Inr b"
  by (simp add: parseBool_def bool_to_string_def)

lemma size_to_int_small: "n < 2 ^ 31 \<Longrightarrow> size_to_int n = int n"
proof -
  assume n: "n < 2 ^ 31"
  have "unat (word_of_nat n :: 32 word) = n" using n by (simp add: unsigned_of_nat take_bit_nat_eq_self)
  then have "uint (word_of_nat n :: 32 word) = int n" by (metis uint_nat)
  then show ?thesis
    using n by (simp add: size_to_int_def sint_uint signed_take_bit_int_eq_self)
qed

lemma plain_digits: "plain (nat_to_string n)"
proof -
  have d: "\<And>c. c \<in> set (nat_to_string n) \<Longrightarrow> is_digit c"
    using nat_to_string_digits [of n] by (simp add: list_all_iff)
  have "is_digit (hd (nat_to_string n))" "is_digit (last (nat_to_string n))" by (simp_all add: d)
  moreover have "newline \<notin> set (nat_to_string n)" "CHR ''#'' \<notin> set (nat_to_string n)" using d digit_not by blast+
  moreover have "\<not> is_blank c \<and> c \<noteq> CHR 0x22" if "is_digit c" for c
    using digit_not [OF that] by (auto simp: is_blank_def is_space_def)
  ultimately show ?thesis by (simp add: plain_def)
qed

lemma plain_bool: "plain (bool_to_string b)"
  by (simp add: plain_def bool_to_string_def is_blank_def)

lemma plain_keys: "list_all (\<lambda>kv. plain_key (fst kv)) (config_pairs c)"
  by (simp add: config_pairs_def plain_key_def is_blank_def)

lemma set_key_simps:
  "set_key n ''name'' v c = Inr (c\<lparr>c_name := v\<rparr>)"
  "set_key n ''model_path'' v c = Inr (c\<lparr>c_modelPath := v\<rparr>)"
  "set_key n ''execution_provider'' v c = Inr (c\<lparr>c_executionProvider := v\<rparr>)"
  "set_key n ''gemm_strategy'' v c = Inr (c\<lparr>c_gemmStrategy := v\<rparr>)"
  "set_key n ''max_batch_size'' v c = rbind (parseSize v ''max_batch_size'') (\<lambda>n. Inr (c\<lparr>c_maxBatchSize := n\<rparr>))"
  "set_key n ''intra_op_threads'' v c = rbind (parseSize v ''intra_op_threads'') (\<lambda>n. Inr (c\<lparr>c_intraOpThreads := n\<rparr>))"
  "set_key n ''inter_op_parallel'' v c = rbind (parseBool v ''inter_op_parallel'') (\<lambda>b. Inr (c\<lparr>c_interOpParallel := b\<rparr>))"
  "set_key n ''graph_optimization'' v c = rbind (parseBool v ''graph_optimization'') (\<lambda>b. Inr (c\<lparr>c_graphOptimization := b\<rparr>))"
  "set_key n ''memory_pool'' v c = rbind (parseBool v ''memory_pool'') (\<lambda>b. Inr (c\<lparr>c_memoryPool := b\<rparr>))"
  "set_key n ''profiling'' v c = rbind (parseBool v ''profiling'') (\<lambda>b. Inr (c\<lparr>c_profiling := b\<rparr>))"
  "set_key n ''max_queue_delay_microseconds'' v c = rbind (parseSize v ''max_queue_delay_microseconds'') (\<lambda>n. Inr (c\<lparr>c_maxQueueDelayMicroseconds := n\<rparr>))"
  "set_key n ''http_address'' v c = Inr (c\<lparr>c_httpAddress := v\<rparr>)"
  "set_key n ''http_port'' v c = rbind (parseSize v ''http_port'') (\<lambda>n. Inr (c\<lparr>c_httpPort := size_to_int n\<rparr>))"
  by (simp_all add: set_key_def)

definition config_valid :: "session_config \<Rightarrow> bool" where
  "config_valid c = (c_modelPath c \<noteq> [] \<and> 1 \<le> c_maxBatchSize c \<and> c_maxBatchSize c \<le> 4096 \<and>
     1 \<le> c_intraOpThreads c \<and> c_intraOpThreads c \<le> 256 \<and> 1 \<le> c_httpPort c \<and> c_httpPort c \<le> 65535 \<and>
     c_gemmStrategy c \<in> {''naive'', ''reordered'', ''tiled'', ''packed'', ''auto''} \<and> c_executionProvider c = ''cpu'')"

lemma gemmStrategyFromString_ok:
  "(\<exists>s. gemmStrategyFromString n = Inr s) \<longleftrightarrow> n \<in> {''naive'', ''reordered'', ''tiled'', ''packed'', ''auto''}"
  by (simp add: gemmStrategyFromString_def)

lemma config_validate_ok: "config_validate c = Inr () \<longleftrightarrow> config_valid c"
proof -
  have "config_validate c = Inr () \<longleftrightarrow> c_modelPath c \<noteq> [] \<and> \<not> (c_maxBatchSize c = 0 \<or> 4096 < c_maxBatchSize c) \<and>
      \<not> (c_intraOpThreads c = 0 \<or> 256 < c_intraOpThreads c) \<and> \<not> (c_httpPort c \<le> 0 \<or> 65535 < c_httpPort c) \<and>
      (\<exists>s. gemmStrategyFromString (c_gemmStrategy c) = Inr s) \<and> c_executionProvider c = ''cpu''"
    unfolding config_validate_def by (simp only: rbind_eq_Inr require_eq_Inr) blast
  moreover have "\<not> (b = 0 \<or> 4096 < b) \<longleftrightarrow> 1 \<le> b \<and> b \<le> 4096" "\<not> (b = 0 \<or> 256 < b) \<longleftrightarrow> 1 \<le> b \<and> b \<le> 256" for b :: nat by auto
  moreover have "\<not> (p \<le> 0 \<or> 65535 < p) \<longleftrightarrow> 1 \<le> p \<and> p \<le> 65535" for p :: int by auto
  ultimately show ?thesis unfolding config_valid_def by (simp only: gemmStrategyFromString_ok conj_assoc)
qed

lemma gemmStrategyFromString_error: "gemmStrategyFromString n = Inl e \<Longrightarrow> \<exists>m. e = InvalidArgument m"
  by (auto simp: gemmStrategyFromString_def split: if_splits)

lemma config_validate_error: "config_validate c = Inl e \<Longrightarrow> \<exists>m. e = InvalidArgument m"
  unfolding config_validate_def rbind_eq_Inl require_eq_Inl using gemmStrategyFromString_error by blast

lemma read_config_printed:
  assumes "config_valid c" "list_all plain [c_name c, c_modelPath c, c_httpAddress c]"
    and "c_maxQueueDelayMicroseconds c < 2 ^ 63"
  shows "config_fromFile path (Some (config_toString c)) = Inr c"
proof -
  have neg: "\<not> c_httpPort c < 0" using assms(1) by (auto simp: config_valid_def)
  have v: "c_maxBatchSize c < 2 ^ 63" "c_intraOpThreads c < 2 ^ 63" "0 \<le> c_httpPort c" "nat (c_httpPort c) < 2 ^ 31"
    "int (nat (c_httpPort c)) = c_httpPort c"
    using assms(1) by (auto simp: config_valid_def)
  have "plain (c_gemmStrategy c)" "plain (c_executionProvider c)"
    using assms(1) by (auto simp: config_valid_def plain_def is_blank_def)
  moreover have "plain (int_to_string (c_httpPort c))" using v(3) by (simp add: int_to_string_def plain_digits)
  ultimately have "list_all (\<lambda>kv. plain (snd kv)) (config_pairs c)"
    using assms(2) by (simp add: config_pairs_def plain_digits plain_bool)
  then have "plain_key k \<and> plain w" if "(k, w) \<in> set (config_pairs c)" for k w
    using that plain_keys [of c] unfolding list_all_iff by (metis fst_conv snd_conv)
  note rp = read_printed [OF this, where n = 0 and c = config_default]
  have "rfold config_line (getlines (config_toString c)) (0, config_default) =
      rfold (\<lambda>(k, v) (n, c). rbind (set_key (n + 1) k v c) (\<lambda>c. Inr (n + 1, c))) (config_pairs c) (0, config_default)"
    using rp unfolding config_toString_pairs .
  moreover have "rfold (\<lambda>(k, v) (n, c). rbind (set_key (n + 1) k v c) (\<lambda>c. Inr (n + 1, c))) (config_pairs c) (0, config_default) = Inr (13, c)"
    using v assms(3) neg
    by (simp add: config_pairs_def set_key_simps parseSize_printed parseBool_printed size_to_int_small int_to_string_def
        config_default_def)
  ultimately show ?thesis
    using config_validate_ok [of c] assms(1) by (simp add: config_fromFile_def)
qed

text \<open>C36. A configuration that is printed and read back is the same configuration: for a valid
  configuration whose strings have no line break, comment sign, surrounding blanks or quotes and
  whose queue delay fits \<^verbatim>\<open>long long\<close>, \<^verbatim>\<open>fromFile\<close> of what \<^verbatim>\<open>toString\<close> wrote returns every field
  unchanged.\<close>

theorem config_roundtrip:
  assumes "config_valid c" "list_all plain [c_name c, c_modelPath c, c_httpAddress c]"
    and "c_maxQueueDelayMicroseconds c < 2 ^ 63"
  shows "config_fromFile path (Some (config_toString c)) = Inr c"
  by (rule read_config_printed [OF assms])

definition ex_config :: session_config where
  "ex_config = config_default\<lparr>c_modelPath := ''models/mnist.oien'', c_gemmStrategy := ''packed'', c_interOpParallel := True,
     c_intraOpThreads := 4, c_httpPort := 9000\<rparr>"

theorem config_roundtrip_witness:
  "config_fromFile ''c.yaml'' (Some (config_toString ex_config)) = Inr ex_config"
  by (rule config_roundtrip) (simp_all add: ex_config_def config_default_def config_valid_def plain_def is_blank_def)

text \<open>C37. Whatever the file holds, \<^verbatim>\<open>fromFile\<close> throws one of its two exceptions or returns a
  configuration within all documented bounds, from which the provider options, the provider and a
  thread count without overflow follow.\<close>

theorem config_fromFile_bounds:
  "case config_fromFile path f of
     Inl e \<Rightarrow> if f = None then e = RuntimeError (''Failed to open config file: '' @ path) else \<exists>m. e = InvalidArgument m
   | Inr c \<Rightarrow> config_valid c \<and> (\<exists>opts cp. config_cpuOptions c = Inr opts \<and>
       makeExecutionProvider (c_executionProvider c) opts = Inr cp \<and> cp_ok cp)"
proof (cases f)
  case (Some s)
  have line: "\<exists>m. e = InvalidArgument m" if "config_line l nc = Inl e" for l nc e
    using that unfolding config_line_def Let_def
    by (cases nc) (auto simp: set_key_def rbind_eq_Inl parseSize_def parseBool_def split: if_splits option.splits sum.splits)
  have lines: "rfold config_line ls nc = Inl e \<Longrightarrow> \<exists>m. e = InvalidArgument m" for ls nc e
    by (induction ls arbitrary: nc) (auto simp: rbind_eq_Inl dest: line)
  show ?thesis
  proof (cases "config_fromFile path f")
    case (Inl e)
    then show ?thesis
      using Some lines config_validate_error by (auto simp: config_fromFile_def rbind_eq_Inl)
  next
    case (Inr c)
    then have v: "config_valid c"
      using Some config_validate_ok by (auto simp: config_fromFile_def rbind_eq_Inr)
    then obtain st where st: "gemmStrategyFromString (c_gemmStrategy c) = Inr st"
      using gemmStrategyFromString_ok [of "c_gemmStrategy c"] by (auto simp: config_valid_def)
    moreover have "c_intraOpThreads c - Suc 0 < 9223372036854775808"
    proof -
      have "c_intraOpThreads c \<le> 256" using v by (simp add: config_valid_def)
      then show ?thesis by linarith
    qed
    ultimately show ?thesis
      using v Inr by (simp add: config_cpuOptions_def makeExecutionProvider_def config_valid_def cp_ok_def cpu_provider_new_def)
  qed
qed (simp add: config_fromFile_def)

text \<open>Two inputs that are accepted though they should not be: a port that only fits its range after
  truncation to 32 bits, and a number with text after it.\<close>

lemma port_truncated: "set_key n ''http_port'' ''4294975376'' c = Inr (c\<lparr>c_httpPort := 8080\<rparr>)"
  by (simp add: set_key_simps parseSize_def stoll_def split_sign_def is_space_def is_digit_def digits_val_def digit_val_def size_to_int_def)

lemma trailing_garbage: "parseSize ''12abc'' key = Inr 12"
  by (simp add: parseSize_def stoll_def split_sign_def is_space_def is_digit_def digits_val_def digit_val_def)

end
