(* ===== verification/Optimizer.thy ===== *)
theory Optimizer
  imports Model Config
begin

text \<open>
  graph/graph_optimizer.h and graph/graph_optimizer.cpp: activation fusion, constant folding and
  dead-node elimination on the pointer-based graph, each a loop that rewrites one node at a time
  until no candidate is left. \<open>ins\<close> is the hash-table insertion order and \<open>ctx\<close> the thread context
  of the provider calls made while folding.
\<close>

section \<open>Report\<close>

record opt_report =
  r_fusedActivations :: nat
  r_foldedConstants :: nat
  r_eliminatedNodes :: nat
  r_nodesBefore :: nat
  r_nodesAfter :: nat

definition report_new :: opt_report where
  "report_new = \<lparr>r_fusedActivations = 0, r_foldedConstants = 0, r_eliminatedNodes = 0, r_nodesBefore = 0, r_nodesAfter = 0\<rparr>"

definition report_toString :: "opt_report \<Rightarrow> string" where
  "report_toString r = ''nodes '' @ nat_to_string (r_nodesBefore r) @ '' -> '' @ nat_to_string (r_nodesAfter r) @
     '' (fused '' @ nat_to_string (r_fusedActivations r) @ '', folded '' @ nat_to_string (r_foldedConstants r) @
     '', eliminated '' @ nat_to_string (r_eliminatedNodes r) @ '')''"

definition report_total :: "opt_report \<Rightarrow> nat" where
  "report_total r = r_fusedActivations r + r_foldedConstants r + r_eliminatedNodes r"

section \<open>Passes\<close>

text \<open>The search for a candidate: the first pointer in insertion order the check accepts.\<close>

fun find_candidate :: "(ptr \<Rightarrow> 'a option res) \<Rightarrow> ptr list \<Rightarrow> 'a option res" where
  "find_candidate check [] = Inr None"
| "find_candidate check (p # ps) = rbind (check p) (\<lambda>c. case c of
     Some x \<Rightarrow> Inr (Some x) | None \<Rightarrow> find_candidate check ps)"

text \<open>\<^verbatim>\<open>for (;;)\<close>: rewrite until there is no candidate, counting. Every rewrite removes a node, so
  one more round than there are nodes is enough.\<close>

fun repeat_pass :: "(model \<Rightarrow> model option res) \<Rightarrow> nat \<Rightarrow> model \<Rightarrow> nat \<Rightarrow> (model \<times> nat) res" where
  "repeat_pass step 0 m k = Inl OutOfFuel"
| "repeat_pass step (Suc f) m k = rbind (step m) (\<lambda>r. case r of
     None \<Rightarrow> Inr (m, k) | Some m' \<Rightarrow> repeat_pass step f m' (k + 1))"

definition run_pass :: "(model \<Rightarrow> model option res) \<Rightarrow> model \<Rightarrow> (model \<times> nat) res" where
  "run_pass step m = repeat_pass step (length (insertionOrder (m_graph m)) + 1) m 0"

text \<open>Writing through a \<^verbatim>\<open>Node*\<close>.\<close>

definition update_node :: "ptr \<Rightarrow> (node \<Rightarrow> node) \<Rightarrow> graph \<Rightarrow> graph" where
  "update_node p f g = g\<lparr>nodeMap := (\<lambda>k. map_option (\<lambda>e. if e_ptr e = p then e\<lparr>e_node := f (e_node e)\<rparr> else e) (nodeMap g k))\<rparr>"

fun isGemmLike :: "op_type \<Rightarrow> bool" where
  "isGemmLike OpGemm = True"
| "isGemmLike _ = False"

definition fuse_check :: "graph \<Rightarrow> ptr \<Rightarrow> (ptr \<times> ptr) option res" where
  "fuse_check g p = rbind (deref g p) (\<lambda>node.
     if n_opType node \<noteq> OpRelu then Inr None
     else if length (n_inputs node) \<noteq> 1 then Inr None
     else rbind (parentsOf g (n_name node)) (\<lambda>parents.
       if length parents \<noteq> 1 then Inr None
       else rbind (deref g (hd parents)) (\<lambda>parent.
         if \<not> isGemmLike (n_opType parent) then Inr None
         else if length (n_outputs parent) \<noteq> 1 then Inr None
         else rbind (childrenOf g (n_name parent)) (\<lambda>children.
           if length children \<noteq> 1 then Inr None
           else if hd (n_outputs parent) \<in> set (g_outputs g) then Inr None
           else Inr (Some (p, hd parents))))))"

definition fuse_step :: "model \<Rightarrow> model option res" where
  "fuse_step m =
     (let g = m_graph m
      in rbind (nodesInInsertionOrder g) (\<lambda>ps. rbind (find_candidate (fuse_check g) ps) (\<lambda>c. case c of
           None \<Rightarrow> Inr None
         | Some (target, producer) \<Rightarrow>
             rbind (deref g target) (\<lambda>t.
             let g = update_node producer (node_setOutputs (n_outputs t)) (update_node producer (setOpType OpGemmRelu) g)
             in rbind (removeNode (n_name t) g) (\<lambda>g. Inr (Some (m\<lparr>m_graph := g\<rparr>)))))))"

definition fuseActivations :: "model \<Rightarrow> (model \<times> nat) res" where
  "fuseActivations m = run_pass fuse_step m"

definition fold_check :: "model \<Rightarrow> ptr \<Rightarrow> ptr option res" where
  "fold_check m p = rbind (deref (m_graph m) p) (\<lambda>node.
     if length (n_outputs node) \<noteq> 1 then Inr None
     else if \<not> supports (n_opType node) then Inr None
     else if n_inputs node \<noteq> [] \<and> list_all (hasInitializer m) (n_inputs node) then Inr (Some p)
     else Inr None)"

definition fold_step :: "insert_order \<Rightarrow> cpu_provider \<Rightarrow> thread_ctx \<Rightarrow> model \<Rightarrow> model option res" where
  "fold_step ins cp ctx m =
     (let g = m_graph m
      in rbind (nodesInInsertionOrder g) (\<lambda>ps. rbind (find_candidate (fold_check m) ps) (\<lambda>c. case c of
           None \<Rightarrow> Inr None
         | Some candidate \<Rightarrow>
             rbind (deref g candidate) (\<lambda>n.
             rbind (provider_compute cp ctx n (map (getInitializer m) (n_inputs n)) tensor_default) (\<lambda>output.
             rbind (removeNode (n_name n) g) (\<lambda>g.
               Inr (Some ((addInitializer ins (hd (n_outputs n)) output m)\<lparr>m_graph := g\<rparr>))))))))"

definition foldConstants :: "insert_order \<Rightarrow> cpu_provider \<Rightarrow> thread_ctx \<Rightarrow> model \<Rightarrow> (model \<times> nat) res" where
  "foldConstants ins cp ctx m = run_pass (fold_step ins cp ctx) m"

text \<open>The names some node reads or the graph declares as outputs.\<close>

definition consumed_names :: "graph \<Rightarrow> ptr list \<Rightarrow> string set res" where
  "consumed_names g ps = rbind (rfold (\<lambda>p s. rbind (deref g p) (\<lambda>n. Inr (s \<union> set (n_inputs n)))) ps {})
     (\<lambda>s. Inr (s \<union> set (g_outputs g)))"

definition dead_check :: "graph \<Rightarrow> string set \<Rightarrow> ptr \<Rightarrow> ptr option res" where
  "dead_check g consumed p = rbind (deref g p) (\<lambda>n.
     if list_ex (\<lambda>x. x \<in> consumed) (n_outputs n) then Inr None else Inr (Some p))"

definition dead_step :: "model \<Rightarrow> model option res" where
  "dead_step m =
     (let g = m_graph m
      in rbind (nodesInInsertionOrder g) (\<lambda>ps. rbind (consumed_names g ps) (\<lambda>consumed.
         rbind (find_candidate (dead_check g consumed) ps) (\<lambda>c. case c of
           None \<Rightarrow> Inr None
         | Some dead \<Rightarrow> rbind (deref g dead) (\<lambda>n. rbind (removeNode (n_name n) g) (\<lambda>g. Inr (Some (m\<lparr>m_graph := g\<rparr>))))))))"

definition eliminateDeadNodes :: "model \<Rightarrow> (model \<times> nat) res" where
  "eliminateDeadNodes m = run_pass dead_step m"

text \<open>A pass that an option switches off.\<close>

definition pass_if :: "bool \<Rightarrow> (model \<Rightarrow> (model \<times> nat) res) \<Rightarrow> model \<Rightarrow> (model \<times> nat) res" where
  "pass_if b pass m = (if b then pass m else Inr (m, 0))"

definition optimizer_run :: "insert_order \<Rightarrow> cpu_provider \<Rightarrow> thread_ctx \<Rightarrow> optimizer_options \<Rightarrow> model \<Rightarrow> (model \<times> opt_report) res" where
  "optimizer_run ins cp ctx opts m =
     rbind (pass_if (o_foldConstants opts) (foldConstants ins cp ctx) m) (\<lambda>(m1, folded).
     rbind (pass_if (o_fuseActivations opts) fuseActivations m1) (\<lambda>(m2, fused).
     rbind (pass_if (o_eliminateDeadNodes opts) eliminateDeadNodes m2) (\<lambda>(m3, eliminated).
       Inr (m3, \<lparr>r_fusedActivations = fused, r_foldedConstants = folded, r_eliminatedNodes = eliminated,
         r_nodesBefore = g_size (m_graph m), r_nodesAfter = g_size (m_graph m3)\<rparr>))))"

section \<open>The rewriting system the passes implement\<close>

text \<open>What a rewrite sees of a model: its initializers and its nodes in insertion order; the
  declared outputs never change.\<close>

type_synonym view = "(string \<rightharpoonup> f32 tensor) \<times> node list"

definition view_of :: "model \<Rightarrow> view" where
  "view_of m = (m_inits m, nodes_of (m_graph m))"

definition remove_named :: "string \<Rightarrow> node list \<Rightarrow> node list" where
  "remove_named k ns = filter (\<lambda>n. n_name n \<noteq> k) ns"

definition fused_node :: "node \<Rightarrow> node \<Rightarrow> node" where
  "fused_node g r = node_setOutputs (n_outputs r) (setOpType OpGemmRelu g)"

definition replace_named :: "node \<Rightarrow> node list \<Rightarrow> node list" where
  "replace_named n' ns = map (\<lambda>n. if n_name n = n_name n' then n' else n) ns"

text \<open>\<open>g\<close> is the only node that feeds \<open>r\<close>, through one output, and \<open>r\<close> the only node it feeds.\<close>

definition edges :: "node \<Rightarrow> node \<Rightarrow> nat" where
  "edges a b = (if n_name a = n_name b then 0 else length (feeds a b))"

definition sole_edge :: "node list \<Rightarrow> node \<Rightarrow> node \<Rightarrow> bool" where
  "sole_edge ns g r = (\<forall>b\<in>set ns. edges b r = (if b = g then 1 else 0) \<and> edges g b = (if b = r then 1 else 0))"

inductive rewrite :: "cpu_provider \<Rightarrow> thread_ctx \<Rightarrow> string list \<Rightarrow> view \<Rightarrow> view \<Rightarrow> bool"
  for cp ctx outs where
  Fuse: "g \<in> set ns \<Longrightarrow> r \<in> set ns \<Longrightarrow> n_opType r = OpRelu \<Longrightarrow> length (n_inputs r) = 1 \<Longrightarrow>
    n_opType g = OpGemm \<Longrightarrow> n_outputs g = [a] \<Longrightarrow> a \<notin> set outs \<Longrightarrow> sole_edge ns g r \<Longrightarrow>
    rewrite cp ctx outs (b, ns) (b, remove_named (n_name r) (replace_named (fused_node g r) ns))"
| Fold: "n \<in> set ns \<Longrightarrow> n_outputs n = [x] \<Longrightarrow> supports (n_opType n) \<Longrightarrow> n_inputs n \<noteq> [] \<Longrightarrow>
    (\<forall>i\<in>set (n_inputs n). b i \<noteq> None) \<Longrightarrow>
    provider_compute cp ctx n (map b (n_inputs n)) tensor_default = Inr t \<Longrightarrow>
    rewrite cp ctx outs (b, ns) (b(x \<mapsto> t), remove_named (n_name n) ns)"
| Dead: "n \<in> set ns \<Longrightarrow> (\<forall>x\<in>set (n_outputs n). x \<notin> set outs \<and> (\<forall>m\<in>set ns. x \<notin> set (n_inputs m))) \<Longrightarrow>
    rewrite cp ctx outs (b, ns) (b, remove_named (n_name n) ns)"

section \<open>Pointers and nodes\<close>

definition ptr_of :: "graph \<Rightarrow> node \<Rightarrow> ptr" where
  "ptr_of g n = pt (nodeMap g) (n_name n)"

lemma node_facts:
  assumes g: "graph_ok g" and n: "n \<in> set (nodes_of g)"
  shows "n_name n \<in> dom (nodeMap g)" "nd (nodeMap g) (n_name n) = n" "deref g (ptr_of g n) = Inr n"
proof -
  obtain k where k: "k \<in> set (insertionOrder g)" "n = nd (nodeMap g) k" using n by (auto simp: nodes_of_def)
  then have d: "k \<in> dom (nodeMap g)" using g by (simp add: graph_ok_def)
  then have nm: "n_name n = k" using g k(2) unfolding graph_ok_def by blast
  show "n_name n \<in> dom (nodeMap g)" "nd (nodeMap g) (n_name n) = n" using d nm k(2) by simp_all
  show "deref g (ptr_of g n) = Inr n" using deref_pt [OF g d] nm k(2) by (simp add: ptr_of_def)
qed

lemma node_in: "graph_ok g \<Longrightarrow> k \<in> dom (nodeMap g) \<Longrightarrow> nd (nodeMap g) k \<in> set (nodes_of g) \<and> n_name (nd (nodeMap g) k) = k"
  by (simp add: graph_ok_def nodes_of_def)

lemma node_eqI: "graph_ok g \<Longrightarrow> a \<in> set (nodes_of g) \<Longrightarrow> b \<in> set (nodes_of g) \<Longrightarrow> n_name a = n_name b \<Longrightarrow> a = b"
  using node_facts(2) by metis

lemma ptr_of_inj: "graph_ok g \<Longrightarrow> a \<in> set (nodes_of g) \<Longrightarrow> b \<in> set (nodes_of g) \<Longrightarrow> ptr_of g a = ptr_of g b \<longleftrightarrow> a = b"
proof -
  assume g: "graph_ok g" and a: "a \<in> set (nodes_of g)" and b: "b \<in> set (nodes_of g)"
  have "inj_ptr (nodeMap g)" using g by (simp add: graph_ok_def)
  then show ?thesis
    using node_facts(1) [OF g a] node_facts(1) [OF g b] node_eqI [OF g a b]
    unfolding ptr_of_def inj_ptr_def by blast
qed

text \<open>A pass walks over exactly the nodes.\<close>

lemma insertion_ptrs: "graph_ok g \<Longrightarrow> map (pt (nodeMap g)) (insertionOrder g) = map (ptr_of g) (nodes_of g)"
proof -
  assume "graph_ok g"
  from nodes_of_names [OF this] have "map (pt (nodeMap g)) (map n_name (nodes_of g)) = map (pt (nodeMap g)) (insertionOrder g)" by simp
  moreover have "ptr_of g = pt (nodeMap g) \<circ> n_name" by (simp add: fun_eq_iff ptr_of_def)
  ultimately show ?thesis by simp
qed

lemma length_nodes_of [simp]: "length (nodes_of g) = length (insertionOrder g)"
  by (simp add: nodes_of_def)

lemma live_set: "graph_ok g \<Longrightarrow> pt (nodeMap g) ` dom (nodeMap g) = ptr_of g ` set (nodes_of g)"
proof -
  assume g: "graph_ok g"
  then have "dom (nodeMap g) = set (insertionOrder g)" by (simp add: graph_ok_def)
  then show ?thesis using arg_cong [OF insertion_ptrs [OF g], of set] by simp
qed

lemma adjacency:
  assumes g: "graph_ok g" and n: "n \<in> set (nodes_of g)"
  obtains ps cs where "parentsOf g (n_name n) = Inr ps" "childrenOf g (n_name n) = Inr cs"
    "set ps \<subseteq> ptr_of g ` set (nodes_of g)" "set cs \<subseteq> ptr_of g ` set (nodes_of g)"
    "\<forall>b\<in>set (nodes_of g). count_list ps (ptr_of g b) = edges b n"
    "\<forall>b\<in>set (nodes_of g). count_list cs (ptr_of g b) = edges n b"
proof -
  let ?m = "nodeMap g" and ?e = "the (nodeMap g (n_name n))"
  note d = node_facts(1) [OF g n]
  have live: "set (e_parents ?e) \<subseteq> ptr_of g ` set (nodes_of g)" "set (e_children ?e) \<subseteq> ptr_of g ` set (nodes_of g)"
    using g d live_set [OF g] by (auto simp: graph_ok_def edges_live_def)
  have ex: "edges_exact ?m" using g by (simp add: graph_ok_def)
  have cnt: "kids ?m (n_name a) (n_name b) = edges a b" "pars ?m (n_name a) (n_name b) = edges a b"
    if "a \<in> set (nodes_of g)" "b \<in> set (nodes_of g)" for a b
    using ex node_facts(1,2) [OF g that(1)] node_facts(1,2) [OF g that(2)]
    unfolding edges_exact_def edges_def by metis+
  show ?thesis
  proof (rule that [OF lists_pt(2) [OF g d] lists_pt(1) [OF g d] live]; rule ballI)
    fix b assume b: "b \<in> set (nodes_of g)"
    show "count_list (e_parents ?e) (ptr_of g b) = edges b n" using cnt(2) [OF b n] by (simp add: pars_def ptr_of_def)
    show "count_list (e_children ?e) (ptr_of g b) = edges n b" using cnt(1) [OF n b] by (simp add: kids_def ptr_of_def)
  qed
qed

lemma singleton_list:
  assumes "length xs = 1" "set xs \<subseteq> f ` A"
  obtains a where "a \<in> A" "xs = [f a]"
  using assms that by (cases xs) auto

lemma sole_edge_lists:
  assumes g: "graph_ok g" and r: "r \<in> set (nodes_of g)"
    and ps: "parentsOf g (n_name r) = Inr ps" "length ps = 1"
    and a: "deref g (hd ps) = Inr a"
    and cs: "childrenOf g (n_name a) = Inr cs" "length cs = 1"
  shows "a \<in> set (nodes_of g) \<and> hd ps = ptr_of g a \<and> sole_edge (nodes_of g) a r"
proof -
  obtain ps' x where p: "parentsOf g (n_name r) = Inr ps'" "childrenOf g (n_name r) = Inr x"
      "set ps' \<subseteq> ptr_of g ` set (nodes_of g)" "set x \<subseteq> ptr_of g ` set (nodes_of g)"
      "\<forall>b\<in>set (nodes_of g). count_list ps' (ptr_of g b) = edges b r"
      "\<forall>b\<in>set (nodes_of g). count_list x (ptr_of g b) = edges r b"
    by (rule adjacency [OF g r])
  have ps': "ps' = ps" using ps(1) p(1) by simp
  obtain q where q: "q \<in> set (nodes_of g)" "ps = [ptr_of g q]"
    by (rule singleton_list [OF ps(2) p(3) [unfolded ps']])
  have aq: "a = q" using a node_facts(3) [OF g q(1)] q(2) by simp
  obtain y cs' where c: "parentsOf g (n_name q) = Inr y" "childrenOf g (n_name q) = Inr cs'"
      "set y \<subseteq> ptr_of g ` set (nodes_of g)" "set cs' \<subseteq> ptr_of g ` set (nodes_of g)"
      "\<forall>b\<in>set (nodes_of g). count_list y (ptr_of g b) = edges b q"
      "\<forall>b\<in>set (nodes_of g). count_list cs' (ptr_of g b) = edges q b"
    by (rule adjacency [OF g q(1)])
  have cs': "cs' = cs" using cs(1) c(2) aq by simp
  obtain c0 where c0: "c0 \<in> set (nodes_of g)" "cs = [ptr_of g c0]"
    by (rule singleton_list [OF cs(2) c(4) [unfolded cs']])
  have e1: "edges b r = (if b = q then 1 else 0)" if "b \<in> set (nodes_of g)" for b
    using bspec [OF p(5) that] ptr_of_inj [OF g q(1) that] unfolding ps' q(2) by (cases "b = q") simp_all
  have e2: "edges q b = (if b = c0 then 1 else 0)" if "b \<in> set (nodes_of g)" for b
    using bspec [OF c(6) that] ptr_of_inj [OF g c0(1) that] unfolding cs' c0(2) by (cases "b = c0") simp_all
  have "(if r = c0 then 1 else 0) = (1 :: nat)" using e1 [OF q(1)] e2 [OF r] by simp
  then have c0r: "c0 = r" by (metis zero_neq_one)
  have "sole_edge (nodes_of g) q r" unfolding sole_edge_def using e1 e2 [unfolded c0r] by blast
  then show ?thesis using aq q by simp
qed

lemma find_candidate_spec:
  assumes "\<And>p. p \<in> set ps \<Longrightarrow> \<exists>c. check p = Inr c"
  shows "(find_candidate check ps = Inr None \<and> (\<forall>p\<in>set ps. check p = Inr None)) \<or>
    (\<exists>p\<in>set ps. \<exists>x. check p = Inr (Some x) \<and> find_candidate check ps = Inr (Some x))"
  using assms
proof (induction ps)
  case (Cons p ps)
  then obtain c where c: "check p = Inr c" by auto
  show ?case
  proof (cases c)
    case None
    with Cons c show ?thesis by auto
  qed (use c in auto)
qed simp

text \<open>One round of a pass over a well-formed graph.\<close>

lemma candidate_cases:
  assumes g: "graph_ok g" and chk: "\<And>n. n \<in> set (nodes_of g) \<Longrightarrow> \<exists>c. check (ptr_of g n) = Inr c"
  obtains (none) "find_candidate check (map (pt (nodeMap g)) (insertionOrder g)) = Inr None"
      "\<forall>n\<in>set (nodes_of g). check (ptr_of g n) = Inr None"
    | (some) n x where "n \<in> set (nodes_of g)" "check (ptr_of g n) = Inr (Some x)"
      "find_candidate check (map (pt (nodeMap g)) (insertionOrder g)) = Inr (Some x)"
proof -
  have "\<exists>c. check p = Inr c" if "p \<in> set (map (ptr_of g) (nodes_of g))" for p using that chk by auto
  from find_candidate_spec [of "map (ptr_of g) (nodes_of g)" check, OF this]
  show ?thesis using none some unfolding insertion_ptrs [OF g] by auto
qed

section \<open>Every round of a pass is a rewrite\<close>

lemma update_node_facts:
  assumes g: "graph_ok g" and n: "n \<in> set (nodes_of g)" and f: "\<And>x. n_name (f x) = n_name x"
  shows "graph_skel_ok (update_node (ptr_of g n) f g)"
    "nodes_of (update_node (ptr_of g n) f g) = replace_named (f n) (nodes_of g)"
    "dom (nodeMap (update_node (ptr_of g n) f g)) = dom (nodeMap g)"
    "\<And>k. pt (nodeMap (update_node (ptr_of g n) f g)) k = pt (nodeMap g) k \<or> k \<notin> dom (nodeMap g)"
proof -
  let ?g = "update_node (ptr_of g n) f g"
  have inj: "inj_ptr (nodeMap g)" and gs: "graph_skel_ok g" using g by (simp_all add: graph_ok_def graph_ok_skel)
  have ent: "nodeMap ?g k = Some (if k = n_name n then e\<lparr>e_node := f (e_node e)\<rparr> else e)" if e: "nodeMap g k = Some e" for k e
  proof -
    have kd: "k \<in> dom (nodeMap g)" using e by blast
    have "pt (nodeMap g) k = pt (nodeMap g) (n_name n) \<longleftrightarrow> k = n_name n"
      using inj kd node_facts(1) [OF g n] unfolding inj_ptr_def by blast
    then have "e_ptr e = ptr_of g n \<longleftrightarrow> k = n_name n" unfolding ptr_of_def e option.sel .
    then show ?thesis unfolding update_node_def by (simp add: e)
  qed
  show d: "dom (nodeMap ?g) = dom (nodeMap g)" by (auto simp: update_node_def)
  have same: "pt (nodeMap ?g) k = pt (nodeMap g) k \<and> n_name (nd (nodeMap ?g) k) = n_name (nd (nodeMap g) k)"
    if "k \<in> dom (nodeMap g)" for k
  proof -
    from that obtain e where e: "nodeMap g k = Some e" by auto
    from ent [OF this] show ?thesis by (simp add: e f)
  qed
  then show "pt (nodeMap ?g) k = pt (nodeMap g) k \<or> k \<notin> dom (nodeMap g)" for k by blast
  have fr: "hashOrder ?g = hashOrder g" "insertionOrder ?g = insertionOrder g" "nextPtr ?g = nextPtr g"
    by (simp_all add: update_node_def)
  have "inj_ptr (nodeMap ?g)" unfolding inj_ptr_def d using inj same by (simp add: inj_ptr_def)
  then show "graph_skel_ok ?g" using gs same d by (simp add: graph_skel_ok_def fr)
  have "nd (nodeMap ?g) k = (if n_name (nd (nodeMap g) k) = n_name (f n) then f n else nd (nodeMap g) k)"
    if "k \<in> dom (nodeMap g)" for k
  proof -
    have "n_name (nd (nodeMap g) k) = k" using node_in [OF g that] by simp
    moreover from that obtain e where e: "nodeMap g k = Some e" by auto
    ultimately show ?thesis using ent [OF e] node_facts(2) [OF g n] e by (cases "k = n_name n") (simp_all add: f)
  qed
  moreover have "set (insertionOrder g) = dom (nodeMap g)" using g by (simp add: graph_ok_def)
  ultimately show "nodes_of ?g = replace_named (f n) (nodes_of g)"
    by (simp add: nodes_of_def replace_named_def fr)
qed

lemma update_update: "update_node p f (update_node p h g) = update_node p (\<lambda>n. f (h n)) g"
proof -
  have "map_option (\<lambda>e. if e_ptr e = p then e\<lparr>e_node := f (e_node e)\<rparr> else e)
      (map_option (\<lambda>e. if e_ptr e = p then e\<lparr>e_node := h (e_node e)\<rparr> else e) x)
    = map_option (\<lambda>e. if e_ptr e = p then e\<lparr>e_node := f (h (e_node e))\<rparr> else e) x" for x :: "entry option"
    by (cases x) simp_all
  then show ?thesis by (simp add: update_node_def)
qed

lemma update_node_io [simp]: "g_inputs (update_node p f g) = g_inputs g" "g_outputs (update_node p f g) = g_outputs g"
  by (simp_all add: update_node_def)

lemma replace_length [simp]: "length (replace_named n ns) = length ns"
  by (simp add: replace_named_def)

lemma remove_length: "k \<in> n_name ` set ns \<Longrightarrow> distinct (map n_name ns) \<Longrightarrow> length ns = length (remove_named k ns) + 1"
proof (induction ns)
  case (Cons m ns)
  show ?case
  proof (cases "n_name m = k")
    case True
    then have "k \<notin> n_name ` set ns" using Cons.prems(2) by simp
    then have "remove_named k ns = ns" unfolding remove_named_def filter_id_conv by (metis imageI)
    then show ?thesis using True by (simp add: remove_named_def)
  qed (use Cons in \<open>auto simp: remove_named_def\<close>)
qed simp

lemma replace_names [simp]: "map n_name (replace_named n ns) = map n_name ns"
  by (auto simp: replace_named_def)

text \<open>\<open>refines\<close>: a round ends the pass, or performs one rewrite and removes a node.\<close>

definition refines :: "cpu_provider \<Rightarrow> thread_ctx \<Rightarrow> (model \<Rightarrow> model option res) \<Rightarrow> bool" where
  "refines cp ctx step = (\<forall>m. model_ok m \<longrightarrow> (case step m of
     Inl e \<Rightarrow> \<exists>n\<in>set (nodes_of (m_graph m)). (\<forall>i\<in>set (n_inputs n). m_inits m i \<noteq> None) \<and>
       provider_compute cp ctx n (map (m_inits m) (n_inputs n)) tensor_default = Inl e
   | Inr None \<Rightarrow> True
   | Inr (Some m') \<Rightarrow> model_ok m' \<and> rewrite cp ctx (g_outputs (m_graph m)) (view_of m) (view_of m') \<and>
       g_inputs (m_graph m') = g_inputs (m_graph m) \<and> g_outputs (m_graph m') = g_outputs (m_graph m) \<and>
       length (nodes_of (m_graph m)) = length (nodes_of (m_graph m')) + 1))"

lemma remove_length_nodes: "graph_ok g \<Longrightarrow> n \<in> set (nodes_of g) \<Longrightarrow>
    length (nodes_of g) = length (remove_named (n_name n) (nodes_of g)) + 1"
  by (rule remove_length) (simp_all add: nodes_of_distinct del: length_nodes_of)

lemma remove_ok:
  assumes g: "graph_ok g" and n: "n \<in> set (nodes_of g)"
  obtains g' where "removeNode (n_name n) g = Inr g'" "graph_ok g'" "nodes_of g' = remove_named (n_name n) (nodes_of g)"
    "g_inputs g' = g_inputs g" "g_outputs g' = g_outputs g" "length (nodes_of g) = length (nodes_of g') + 1"
proof -
  obtain g' where r: "removeNode (n_name n) g = Inr g'" using removeNode_total [OF g] by blast
  note f = removeNode_nodes [OF g r]
  then have "nodes_of g' = remove_named (n_name n) (nodes_of g)" by (simp add: remove_named_def)
  from that [OF r f(1) this f(3,4)] remove_length_nodes [OF g n] this show ?thesis by (simp del: length_nodes_of)
qed

lemma consumed_names_nodes:
  assumes g: "graph_ok g"
  shows "consumed_names g (map (pt (nodeMap g)) (insertionOrder g)) =
    Inr ((\<Union>n\<in>set (nodes_of g). set (n_inputs n)) \<union> set (g_outputs g))"
proof -
  have "rfold (\<lambda>p s. rbind (deref g p) (\<lambda>n. Inr (s \<union> set (n_inputs n)))) (map (ptr_of g) ns) s
      = Inr (s \<union> (\<Union>n\<in>set ns. set (n_inputs n)))" if "set ns \<subseteq> set (nodes_of g)" for ns s
    using that by (induction ns arbitrary: s) (auto simp: node_facts(3) [OF g])
  from this [of "nodes_of g" "{}"] show ?thesis by (simp add: consumed_names_def insertion_ptrs [OF g])
qed

lemma dead_refines: "refines cp ctx dead_step"
  unfolding refines_def
proof (intro allI impI)
  fix m assume m: "model_ok m"
  let ?g = "m_graph m" and ?ns = "nodes_of (m_graph m)"
  have g: "graph_ok ?g" using m by (simp add: model_ok_def)
  define used where "used = (\<Union>n\<in>set ?ns. set (n_inputs n)) \<union> set (g_outputs ?g)"
  have used: "consumed_names ?g (map (pt (nodeMap ?g)) (insertionOrder ?g)) = Inr used"
    unfolding used_def by (rule consumed_names_nodes [OF g])
  have chk: "dead_check ?g used (ptr_of ?g n) = Inr (if list_ex (\<lambda>x. x \<in> used) (n_outputs n) then None else Some (ptr_of ?g n))"
    if "n \<in> set ?ns" for n
    using node_facts(3) [OF g that] by (simp add: dead_check_def)
  show "case dead_step m of
     Inl e \<Rightarrow> \<exists>n\<in>set ?ns. (\<forall>i\<in>set (n_inputs n). m_inits m i \<noteq> None) \<and>
       provider_compute cp ctx n (map (m_inits m) (n_inputs n)) tensor_default = Inl e
   | Inr None \<Rightarrow> True
   | Inr (Some m') \<Rightarrow> model_ok m' \<and> rewrite cp ctx (g_outputs ?g) (view_of m) (view_of m') \<and>
       g_inputs (m_graph m') = g_inputs ?g \<and> g_outputs (m_graph m') = g_outputs ?g \<and>
       length ?ns = length (nodes_of (m_graph m')) + 1"
  proof (rule candidate_cases [OF g, of "dead_check ?g used"], goal_cases)
    case (1 n)
    then show ?case using chk by blast
  next
    case 2
    then show ?case by (simp add: dead_step_def nodesInInsertionOrder_ok [OF g] used)
  next
    case (3 n x)
    then have x: "x = ptr_of ?g n" and unused: "\<not> list_ex (\<lambda>x. x \<in> used) (n_outputs n)"
      using chk by (auto split: if_splits)
    obtain g' where r: "removeNode (n_name n) ?g = Inr g'" "graph_ok g'" "nodes_of g' = remove_named (n_name n) ?ns"
      "g_inputs g' = g_inputs ?g" "g_outputs g' = g_outputs ?g" "length ?ns = length (nodes_of g') + 1"
      by (rule remove_ok [OF g 3(1)])
    have "rewrite cp ctx (g_outputs ?g) (m_inits m, ?ns) (m_inits m, remove_named (n_name n) ?ns)"
      by (rule Dead [OF 3(1)]) (use unused in \<open>auto simp: used_def list_ex_iff\<close>)
    moreover have "dead_step m = Inr (Some (m\<lparr>m_graph := g'\<rparr>))"
      using 3(3) node_facts(3) [OF g 3(1)] r(1) by (simp add: dead_step_def nodesInInsertionOrder_ok [OF g] used x)
    ultimately show ?case
      using r m by (simp add: view_of_def model_ok_graph del: length_nodes_of)
  qed
qed

lemma fold_refines: "ins_ok ins \<Longrightarrow> refines cp ctx (fold_step ins cp ctx)"
  unfolding refines_def
proof (intro allI impI)
  fix m assume ins: "ins_ok ins" and m: "model_ok m"
  let ?g = "m_graph m" and ?ns = "nodes_of (m_graph m)"
  have g: "graph_ok ?g" using m by (simp add: model_ok_def)
  define ok where "ok n \<longleftrightarrow> length (n_outputs n) = 1 \<and> supports (n_opType n) \<and> n_inputs n \<noteq> [] \<and> list_all (hasInitializer m) (n_inputs n)" for n :: node
  have chk: "fold_check m (ptr_of ?g n) = Inr (if ok n then Some (ptr_of ?g n) else None)"
    if "n \<in> set ?ns" for n
    using node_facts(3) [OF g that] by (auto simp: fold_check_def ok_def)
  have gi: "getInitializer m = m_inits m" by (simp add: fun_eq_iff getInitializer_def)
  show "case fold_step ins cp ctx m of
     Inl e \<Rightarrow> \<exists>n\<in>set ?ns. (\<forall>i\<in>set (n_inputs n). m_inits m i \<noteq> None) \<and>
       provider_compute cp ctx n (map (m_inits m) (n_inputs n)) tensor_default = Inl e
   | Inr None \<Rightarrow> True
   | Inr (Some m') \<Rightarrow> model_ok m' \<and> rewrite cp ctx (g_outputs ?g) (view_of m) (view_of m') \<and>
       g_inputs (m_graph m') = g_inputs ?g \<and> g_outputs (m_graph m') = g_outputs ?g \<and>
       length ?ns = length (nodes_of (m_graph m')) + 1"
  proof (rule candidate_cases [OF g, of "fold_check m"], goal_cases)
    case (1 n)
    then show ?case using chk by blast
  next
    case 2
    then show ?case by (simp add: fold_step_def nodesInInsertionOrder_ok [OF g])
  next
    case (3 n x)
    then have x: "x = ptr_of ?g n" and n: "ok n" using chk by (auto split: if_splits)
    from n obtain out where out: "n_outputs n = [out]" by (auto simp: ok_def length_Suc_conv)
    obtain g' where r: "removeNode (n_name n) ?g = Inr g'" "graph_ok g'" "nodes_of g' = remove_named (n_name n) ?ns"
      "g_inputs g' = g_inputs ?g" "g_outputs g' = g_outputs ?g" "length ?ns = length (nodes_of g') + 1"
      by (rule remove_ok [OF g 3(1)])
    let ?c = "provider_compute cp ctx n (map (m_inits m) (n_inputs n)) tensor_default"
    have step: "fold_step ins cp ctx m = rbind ?c (\<lambda>output. Inr (Some ((addInitializer ins out output m)\<lparr>m_graph := g'\<rparr>)))"
      using 3(3) node_facts(3) [OF g 3(1)] r(1) out by (simp add: fold_step_def nodesInInsertionOrder_ok [OF g] x gi)
    show ?case
    proof (cases ?c)
      case (Inl e)
      have "\<forall>i\<in>set (n_inputs n). m_inits m i \<noteq> None" using n by (auto simp: ok_def list_all_iff hasInitializer_def)
      then show ?thesis using Inl 3(1) step by auto
    next
      case (Inr t)
      have "rewrite cp ctx (g_outputs ?g) (m_inits m, ?ns) ((m_inits m)(out \<mapsto> t), remove_named (n_name n) ?ns)"
        by (rule Fold [OF 3(1) out _ _ _ Inr]) (use n in \<open>auto simp: ok_def list_all_iff hasInitializer_def\<close>)
      moreover have "model_ok ((addInitializer ins out t m)\<lparr>m_graph := g'\<rparr>)"
        by (rule model_ok_graph [OF addInitializer_ok [OF ins m] r(2)])
      ultimately show ?thesis
        using r step Inr by (simp add: view_of_def del: length_nodes_of)
    qed
  qed
qed

lemma fuse_check_total:
  assumes g: "graph_ok g" and n: "n \<in> set (nodes_of g)"
  shows "\<exists>c. fuse_check g (ptr_of g n) = Inr c"
proof -
  obtain ps cs where adj: "parentsOf g (n_name n) = Inr ps" "childrenOf g (n_name n) = Inr cs"
    "set ps \<subseteq> ptr_of g ` set (nodes_of g)" "set cs \<subseteq> ptr_of g ` set (nodes_of g)"
    "\<forall>b\<in>set (nodes_of g). count_list ps (ptr_of g b) = edges b n"
    "\<forall>b\<in>set (nodes_of g). count_list cs (ptr_of g b) = edges n b"
    by (rule adjacency [OF g n])
  show ?thesis
  proof (cases "length ps = 1")
    case True
    obtain q where q: "q \<in> set (nodes_of g)" "ps = [ptr_of g q]" by (rule singleton_list [OF True adj(3)])
    from adjacency [OF g q(1)] obtain cs' where "childrenOf g (n_name q) = Inr cs'" by metis
    then show ?thesis using node_facts(3) [OF g n] node_facts(3) [OF g q(1)] adj(1) q(2) by (simp add: fuse_check_def)
  qed (use node_facts(3) [OF g n] adj(1) in \<open>simp add: fuse_check_def\<close>)
qed

lemma fuse_check_some:
  assumes g: "graph_ok g" and r: "r \<in> set (nodes_of g)" and x: "fuse_check g (ptr_of g r) = Inr (Some x)"
  obtains a out where "x = (ptr_of g r, ptr_of g a)" "a \<in> set (nodes_of g)" "n_opType r = OpRelu" "length (n_inputs r) = 1"
    "n_opType a = OpGemm" "n_outputs a = [out]" "out \<notin> set (g_outputs g)" "sole_edge (nodes_of g) a r"
proof -
  from x node_facts(3) [OF g r] obtain ps a cs where
    f: "n_opType r = OpRelu" "length (n_inputs r) = 1" "parentsOf g (n_name r) = Inr ps" "length ps = 1"
      "deref g (hd ps) = Inr a" "isGemmLike (n_opType a)" "length (n_outputs a) = 1"
      "childrenOf g (n_name a) = Inr cs" "length cs = 1" "hd (n_outputs a) \<notin> set (g_outputs g)" "x = (ptr_of g r, hd ps)"
    unfolding fuse_check_def by (auto simp: rbind_eq_Inr split: if_splits)
  note s = sole_edge_lists [OF g r f(3,4,5,8,9)]
  obtain out where "n_outputs a = [out]" using f(7) by (auto simp: length_Suc_conv)
  moreover have "n_opType a = OpGemm" using f(6) by (cases "n_opType a") auto
  ultimately show ?thesis using that [of a out] f s by simp
qed

lemma fuse_refines: "refines cp ctx fuse_step"
  unfolding refines_def
proof (intro allI impI)
  fix m assume m: "model_ok m"
  let ?g = "m_graph m" and ?ns = "nodes_of (m_graph m)"
  have g: "graph_ok ?g" using m by (simp add: model_ok_def)
  show "case fuse_step m of
     Inl e \<Rightarrow> \<exists>n\<in>set ?ns. (\<forall>i\<in>set (n_inputs n). m_inits m i \<noteq> None) \<and>
       provider_compute cp ctx n (map (m_inits m) (n_inputs n)) tensor_default = Inl e
   | Inr None \<Rightarrow> True
   | Inr (Some m') \<Rightarrow> model_ok m' \<and> rewrite cp ctx (g_outputs ?g) (view_of m) (view_of m') \<and>
       g_inputs (m_graph m') = g_inputs ?g \<and> g_outputs (m_graph m') = g_outputs ?g \<and>
       length ?ns = length (nodes_of (m_graph m')) + 1"
  proof (rule candidate_cases [OF g, of "fuse_check ?g"], goal_cases)
    case (1 n)
    then show ?case using fuse_check_total [OF g] by blast
  next
    case 2
    then show ?case by (simp add: fuse_step_def nodesInInsertionOrder_ok [OF g])
  next
    case (3 r x)
    obtain a out where fc: "x = (ptr_of ?g r, ptr_of ?g a)" "a \<in> set ?ns" "n_opType r = OpRelu" "length (n_inputs r) = 1"
        "n_opType a = OpGemm" "n_outputs a = [out]" "out \<notin> set (g_outputs ?g)" "sole_edge ?ns a r"
      by (rule fuse_check_some [OF g 3(1,2)])
    let ?f = "\<lambda>n. node_setOutputs (n_outputs r) (setOpType OpGemmRelu n)"
    let ?u = "update_node (ptr_of ?g a) ?f ?g"
    have nm: "n_name (?f n) = n_name n" for n by simp
    note u = update_node_facts [OF g fc(2), of ?f, OF nm]
    have "nodeMap ?u (n_name r) \<noteq> None" using u(3) node_facts(1) [OF g 3(1)] by blast
    from removeNode_stale [OF u(1) this] obtain g' where r: "removeNode (n_name r) ?u = Inr g'" "graph_ok g'"
        "nodes_of g' = remove_named (n_name r) (replace_named (fused_node a r) ?ns)"
        "g_inputs g' = g_inputs ?g" "g_outputs g' = g_outputs ?g"
      by (auto simp: u(2) remove_named_def fused_node_def)
    have "rewrite cp ctx (g_outputs ?g) (m_inits m, ?ns) (m_inits m, remove_named (n_name r) (replace_named (fused_node a r) ?ns))"
      by (rule Fuse [OF fc(2) 3(1) fc(3-8)])
    moreover have "fuse_step m = Inr (Some (m\<lparr>m_graph := g'\<rparr>))"
      using 3(3) node_facts(3) [OF g 3(1)] r(1)
      by (simp add: fuse_step_def nodesInInsertionOrder_ok [OF g] fc(1) update_update Let_def)
    moreover have "length ?ns = length (nodes_of g') + 1"
    proof -
      have "n_name r \<in> set (map n_name (replace_named (fused_node a r) ?ns))" unfolding replace_names using 3(1) by simp
      then have "n_name r \<in> n_name ` set (replace_named (fused_node a r) ?ns)" unfolding set_map .
      from remove_length [OF this] show ?thesis
        unfolding r(3) using nodes_of_distinct [OF g] by (simp del: length_nodes_of)
    qed
    ultimately show ?case
      using r m by (simp add: view_of_def model_ok_graph del: length_nodes_of)
  qed
qed

end
