(* ===== verification/Semantics.thy ===== *)
theory Semantics
  imports Provider Model
begin

text \<open>
  What a graph of nodes means: an environment that assigns a tensor to every name so that every
  node's output is what the provider computes from its inputs. Two theorems relate the meaning to
  execution: running the nodes one after the other, in any order in which no node writes what
  an earlier one reads, ends in such an environment; and if there is one, the run cannot fail and
  ends in it. The memory a tensor lives in is not part of its value.
\<close>

section \<open>The allocator is not part of the value\<close>

definition retag :: "alloc_kind \<Rightarrow> 'a tensor \<Rightarrow> 'a tensor" where
  "retag al t = t\<lparr>t_alloc := al\<rparr>"

lemma retag_simps [simp]:
  "t_shape (retag al t) = t_shape t" "t_data (retag al t) = t_data t" "t_size (retag al t) = t_size t"
  "t_alloc (retag al t) = al" "retag al (retag al' t) = retag al t" "rank (retag al t) = rank t"
  by (simp_all add: retag_def rank_def)

lemma retag_same: "t_alloc t = al \<Longrightarrow> retag al t = t"
  by (cases t) (simp add: retag_def)

lemma retag_wf [simp]: "wf_tensor (retag al t) = wf_tensor t" "modest (retag al t) = modest t"
  by (simp_all add: wf_tensor_def modest_def)

lemma retag_mk [simp]: "retag al (tensor_mk shp xs n al') = tensor_mk shp xs n al"
  by (simp add: retag_def tensor_mk_def)

definition retag_res :: "alloc_kind \<Rightarrow> 'a tensor res \<Rightarrow> 'a tensor res" where
  "retag_res al r = rbind r (\<lambda>t. Inr (retag al t))"

lemma retag_res_simps [simp]:
  "retag_res al (Inl e) = Inl e" "retag_res al (Inr t) = Inr (retag al t)"
  "retag_res al (rbind m f) = rbind m (\<lambda>x. retag_res al (f x))"
  by (simp_all add: retag_res_def rbind_assoc)

lemma gemm_outcome_retag:
  "gemm_outcome s (retag a A) (retag a B) bias' al p = retag_res al (gemm_outcome s A B bias al' p)"
  if "t_data bias' = t_data bias" "t_size bias' = t_size bias" for bias
proof -
  have d: "dim (retag a t) i = dim t i" for t :: "f32 tensor" and i by (simp add: dim_def)
  have r: "resolveDims (retag a A) (retag a B) p = resolveDims A B p" by (simp add: resolveDims_def d)
  have v: "gemm_validate (retag a A) (retag a B) bias' p = gemm_validate A B bias p"
    by (simp add: gemm_validate_def d r that)
  have g: "gemm_result f32_arith s (retag a A) (retag a B) bias' al x p = retag al (gemm_result f32_arith s A B bias al' x p)" for x
    by (simp add: gemm_result_def gemm_cell_def that retag_def)
  show ?thesis by (simp add: gemm_outcome_def v r g)
qed

definition fresh :: "alloc_kind \<Rightarrow> f32 tensor" where
  "fresh al = tensor_default\<lparr>t_alloc := al\<rparr>"

lemma fresh_wf [simp]: "wf_tensor (fresh al)" "t_alloc (fresh al) = al"
  by (simp_all add: fresh_def wf_tensor_def tensor_default_def buffer_fits_def)

lemma node_outcome_retag:
  assumes "inputs_ok inputs"
  shows "node_outcome s node (map (map_option (retag a)) inputs) al = retag_res al (node_outcome s node inputs al')"
proof (cases "list_all (\<lambda>t. t \<noteq> None) inputs")
  case False
  then have "\<not> list_all (\<lambda>t. t \<noteq> None) (map (map_option (retag a)) inputs)"
    by (simp add: list_all_iff)
  then show ?thesis using False by (simp add: node_outcome_def provider_compute_def)
next
  case True
  define ins where "ins = map the inputs"
  have le: "list_all (\<lambda>t. t \<noteq> None) (map (map_option (retag a)) inputs)"
    "map the (map (map_option (retag a)) inputs) = map (retag a) ins"
    using True by (simp_all add: ins_def list_all_iff option.map_sel)
  have m: "list_all modest ins" "list_all modest (map (retag a) ins)"
    using True assms by (fastforce simp: ins_def inputs_ok_def list_all_iff)+
  have wf: "wf_tensor (ins ! i)" "shape_ok (t_shape (ins ! i))" if "i < length ins" for i
    using m(1) that by (auto simp: list_all_length modest_def)
  let ?cp = "\<lambda>al. \<lparr>cp_strategy = s, cp_workers = None, cp_alloc = al\<rparr>"
  let ?ctx = "(False, ([], [])) :: thread_ctx"
  have ok: "cp_ok (?cp b)" for b by (simp add: cp_ok_def)
  have bias: "t_data (gemm_bias (map (retag a) ins)) = t_data (gemm_bias ins)"
      "t_size (gemm_bias (map (retag a) ins)) = t_size (gemm_bias ins)"
    by (simp_all add: gemm_bias_def)
  have gemm: "computeGemm (?cp al) ?ctx node (map (retag a) ins) (fresh al) relu
      = retag_res al (computeGemm (?cp al') ?ctx node ins (fresh al') relu)" for relu
  proof (cases "2 \<le> length ins")
    case len: True
    then have "0 < length ins" "1 < length ins" by linarith+
    then have "map (retag a) ins ! 0 = retag a (ins ! 0)" "map (retag a) ins ! 1 = retag a (ins ! 1)"
      by (simp_all del: One_nat_def)
    then show ?thesis
      using gemm_outcome_retag [OF bias, of s a "ins ! 0" "ins ! 1" al _ al']
      unfolding computeGemm_outcome [OF m(1) fresh_wf(1) ok] computeGemm_outcome [OF m(2) fresh_wf(1) ok]
      by (simp add: len cong: rbind_cong)
  qed (simp add: computeGemm_params)
  have relu: "computeRelu (retag a (ins ! i)) (fresh al) = retag_res al (computeRelu (ins ! i) (fresh al'))" if "i < length ins" for i
    using wf [OF that] by (simp add: computeRelu_eq)
  have add: "computeAdd (retag a (ins ! i)) (retag a (ins ! j)) (fresh al) = retag_res al (computeAdd (ins ! i) (ins ! j) (fresh al'))"
    if "i < length ins" "j < length ins" for i j
  proof (cases "t_shape (ins ! i) = t_shape (ins ! j)")
    case True
    then show ?thesis using wf that by (simp add: computeAdd_eq)
  qed (simp add: computeAdd_def)
  have flat: "computeFlatten node (retag a (ins ! i)) (fresh al) = retag_res al (computeFlatten node (ins ! i) (fresh al'))"
    if "i < length ins" for i
  proof (cases "getAttrInt node ''axis'' 1")
    case (Inr axis)
    show ?thesis
    proof (cases "flatten_dims axis (t_shape (ins ! i)) (t_size (ins ! i))")
      case (Some oi)
      obtain outer inner where "oi = (outer, inner)" by (cases oi)
      with Some show ?thesis
        using wf [OF that] computeFlatten_eq [of "ins ! i" "fresh al'" node axis outer inner]
          computeFlatten_eq [of "retag a (ins ! i)" "fresh al" node axis outer inner] Inr by simp
    qed (simp add: computeFlatten_def Inr)
  qed (simp add: computeFlatten_def)
  show ?thesis
    unfolding node_outcome_def provider_compute_def le(2) ins_def [symmetric] Let_def fresh_def [symmetric]
    using True le(1) gemm relu add flat by (cases "n_opType node") (auto simp: input_at_def)
qed

text \<open>Names and outputs of the node do not matter to its value, only its operator, attributes and, in
  messages, its name and operator name.\<close>

lemma node_outcome_outputs: "node_outcome s (node_setOutputs outs n) inputs al = node_outcome s n inputs al"
proof -
  have "getAttrInt (node_setOutputs outs n) = getAttrInt n" "getAttrFloat (node_setOutputs outs n) = getAttrFloat n"
    by (simp_all add: fun_eq_iff getAttrInt_def getAttrFloat_def)
  then have "computeFlatten (node_setOutputs outs n) x y = computeFlatten n x y"
      "computeGemm cp ctx (node_setOutputs outs n) xs y b = computeGemm cp ctx n xs y b" for cp ctx x xs y b
    unfolding computeFlatten_def computeGemm_def by (simp_all cong: option.case_cong)
  then show ?thesis
    unfolding node_outcome_def provider_compute_def by (cases "n_opType n") simp_all
qed

section \<open>Running nodes\<close>

type_synonym store = "string \<rightharpoonup> f32 tensor"

text \<open>\<^verbatim>\<open>tensors_.find(name)->second\<close>: dereferencing the end iterator is undefined.\<close>

definition find_slot :: "store \<Rightarrow> string \<Rightarrow> f32 tensor res" where
  "find_slot ts name = (case ts name of Some t \<Rightarrow> Inr t | None \<Rightarrow> Inl (Undefined ''end iterator''))"

text \<open>\<^verbatim>\<open>executeNode\<close> without the timing: the slot it writes and what it writes there. When the provider
  throws, the store is as before.\<close>

definition node_result :: "cpu_provider \<Rightarrow> thread_ctx \<Rightarrow> node \<Rightarrow> store \<Rightarrow> (string \<times> f32 tensor) res" where
  "node_result cp ctx n ts =
     rbind (rmap (find_slot ts) (n_inputs n)) (\<lambda>inputs.
     rbind (case n_outputs n of [] \<Rightarrow> Inl (Undefined ''front of an empty vector'') | x # _ \<Rightarrow> Inr x) (\<lambda>out.
     rbind (find_slot ts out) (\<lambda>output.
     rbind (provider_compute cp ctx n (map Some inputs) output) (\<lambda>t. Inr (out, t)))))"

definition execute_node :: "cpu_provider \<Rightarrow> thread_ctx \<Rightarrow> node \<Rightarrow> store \<Rightarrow> store res" where
  "execute_node cp ctx n ts = rbind (node_result cp ctx n ts) (\<lambda>(out, t). Inr (ts(out \<mapsto> t)))"

lemma execute_node_steps:
  "execute_node cp ctx n ts =
     rbind (rmap (find_slot ts) (n_inputs n)) (\<lambda>inputs.
     rbind (case n_outputs n of [] \<Rightarrow> Inl (Undefined ''front of an empty vector'') | x # _ \<Rightarrow> Inr x) (\<lambda>out.
     rbind (find_slot ts out) (\<lambda>output.
     rbind (provider_compute cp ctx n (map Some inputs) output) (\<lambda>t. Inr (ts(out \<mapsto> t))))))"
  by (simp add: execute_node_def node_result_def rbind_assoc)

text \<open>The nodes one after the other, up to the first exception; the store is kept either way.\<close>

fun exec_seq :: "cpu_provider \<Rightarrow> thread_ctx \<Rightarrow> node list \<Rightarrow> store \<Rightarrow> exn option \<times> store" where
  "exec_seq cp ctx [] ts = (None, ts)"
| "exec_seq cp ctx (n # ns) ts = (case execute_node cp ctx n ts of
     Inl e \<Rightarrow> (Some e, ts) | Inr ts' \<Rightarrow> exec_seq cp ctx ns ts')"

section \<open>What the nodes mean\<close>

definition outputs_of :: "node list \<Rightarrow> string set" where
  "outputs_of ns = (\<Union>n\<in>set ns. set (n_outputs n))"

definition node_solved :: "gemm_strategy \<Rightarrow> alloc_kind \<Rightarrow> store \<Rightarrow> node \<Rightarrow> bool" where
  "node_solved s al env n = (\<exists>x t. n_outputs n = [x] \<and> env x = Some t \<and> node_outcome s n (map env (n_inputs n)) al = Inr t)"

definition sane :: "store \<Rightarrow> bool" where
  "sane env = (\<forall>t\<in>ran env. modest t)"

text \<open>\<open>env\<close> extends the given values \<open>b\<close> by the outputs of the nodes.\<close>

definition solves :: "gemm_strategy \<Rightarrow> alloc_kind \<Rightarrow> store \<Rightarrow> node list \<Rightarrow> store \<Rightarrow> bool" where
  "solves s al b ns env =
     (list_all (node_solved s al env) ns \<and> (\<forall>x. x \<notin> outputs_of ns \<longrightarrow> env x = b x) \<and> sane env)"

text \<open>No node writes a name that it, or a node before it, reads; every node has one output, all
  different.\<close>

definition runnable :: "node list \<Rightarrow> bool" where
  "runnable ns = (sorted_wrt (\<lambda>a b. set (n_outputs b) \<inter> set (n_inputs a) = {}) ns \<and>
     (\<forall>n\<in>set ns. set (n_outputs n) \<inter> set (n_inputs n) = {} \<and> length (n_outputs n) = 1) \<and>
     distinct (concat (map n_outputs ns)))"

lemma runnable_Cons: "runnable (n # ns) \<longleftrightarrow> (\<exists>x. n_outputs n = [x] \<and> x \<notin> set (n_inputs n) \<and> x \<notin> outputs_of ns) \<and>
    set (n_inputs n) \<inter> outputs_of ns = {} \<and> runnable ns"
  by (auto simp: runnable_def outputs_of_def length_Suc_conv)

lemma outputs_of_Cons [simp]: "outputs_of (n # ns) = set (n_outputs n) \<union> outputs_of ns"
  by (simp add: outputs_of_def)

definition slot_ok :: "alloc_kind \<Rightarrow> f32 tensor \<Rightarrow> bool" where
  "slot_ok al t = (wf_tensor t \<and> t_alloc t = al)"

definition slots_ok :: "alloc_kind \<Rightarrow> store \<Rightarrow> bool" where
  "slots_ok al ts = (\<forall>t\<in>ran ts. slot_ok al t)"

lemma find_slots: "(\<And>x. x \<in> set xs \<Longrightarrow> ts x \<noteq> None) \<Longrightarrow> \<exists>ys. rmap (find_slot ts) xs = Inr ys \<and> map Some ys = map ts xs"
proof (induction xs)
  case (Cons x xs)
  then obtain ys t where y: "rmap (find_slot ts) xs = Inr ys" "map Some ys = map ts xs" "ts x = Some t" by fastforce
  then have "find_slot ts x = Inr t" by (simp add: find_slot_def)
  then show ?case using y by simp
qed simp

lemma find_slots_Inr: "rmap (find_slot ts) xs = Inr ys \<Longrightarrow> map Some ys = map ts xs"
  by (induction xs arbitrary: ys) (auto simp: rbind_eq_Inr find_slot_def split: option.splits)

text \<open>One node, when its inputs are in the store and small enough.\<close>

lemma execute_node_outcome:
  assumes "n_outputs n = [x]" "ts x = Some out" "slot_ok al out" "cp_ok cp"
    and "\<forall>i\<in>set (n_inputs n). ts i \<noteq> None" "inputs_ok (map ts (n_inputs n))"
  shows "execute_node cp ctx n ts = rbind (node_outcome (cp_strategy cp) n (map ts (n_inputs n)) al) (\<lambda>t. Inr (ts(x \<mapsto> t)))"
proof -
  obtain ys where ys: "rmap (find_slot ts) (n_inputs n) = Inr ys" "map Some ys = map ts (n_inputs n)"
    using find_slots [of "n_inputs n" ts] assms(5) by blast
  have "provider_compute cp ctx n (map ts (n_inputs n)) out = node_outcome (cp_strategy cp) n (map ts (n_inputs n)) al"
    using provider_compute_outcome [OF assms(6), of out cp ctx n] assms(3,4) by (simp add: slot_ok_def)
  then show ?thesis using ys assms(1,2) by (simp add: execute_node_steps find_slot_def)
qed

lemma execute_node_Inr:
  assumes "execute_node cp ctx n ts = Inr ts'"
  obtains x xs t where "n_outputs n = x # xs" "ts' = ts(x \<mapsto> t)" "ts x \<noteq> None" "\<forall>i\<in>set (n_inputs n). ts i \<noteq> None"
proof -
  from assms obtain ys x xs out t where
    "rmap (find_slot ts) (n_inputs n) = Inr ys" "n_outputs n = x # xs" "find_slot ts x = Inr out" "ts' = ts(x \<mapsto> t)"
    unfolding execute_node_steps by (auto simp: rbind_eq_Inr split: list.splits)
  moreover from find_slots_Inr [OF this(1)] have "\<forall>i\<in>set (n_inputs n). ts i \<noteq> None"
    by (metis image_eqI in_set_conv_nth length_map nth_map option.distinct(1))
  moreover have "ts x \<noteq> None" using calculation(3) by (auto simp: find_slot_def split: option.splits)
  ultimately show ?thesis by (auto intro: that)
qed

lemma node_outcome_slot:
  assumes "node_outcome s n inputs al = Inr t" "inputs_ok inputs"
  shows "slot_ok al t"
proof -
  have le: "list_all (\<lambda>t. t \<noteq> None) inputs"
    using assms(1) by (auto simp: node_outcome_def provider_compute_def rbind_eq_Inr)
  define ins where "ins = map the inputs"
  have m: "list_all modest ins" using le assms(2) by (fastforce simp: ins_def inputs_ok_def list_all_iff)
  have wf: "wf_tensor (ins ! i)" "shape_ok (t_shape (ins ! i))" if "i < length ins" for i
    using m that by (auto simp: list_all_length modest_def)
  let ?cp = "\<lparr>cp_strategy = s, cp_workers = None, cp_alloc = al\<rparr>"
  have ok: "cp_ok ?cp" by (simp add: cp_ok_def)
  have relu: "slot_ok al t" if i: "i < length ins" and "computeRelu (ins ! i) (fresh al) = Inr t" for i
    using that(2) wf(1) [OF i] unfolding computeRelu_eq [OF wf(1) [OF i] fresh_wf(1)]
    by (auto simp: slot_ok_def tensor_mk_def wf_tensor_def)
  have add: "slot_ok al t" if i: "i < length ins" "j < length ins" and c: "computeAdd (ins ! i) (ins ! j) (fresh al) = Inr t" for i j
  proof (cases "t_shape (ins ! i) = t_shape (ins ! j)")
    case True
    have "length (t_data (ins ! j)) = length (t_data (ins ! i))" using wf_same_shape [OF wf(1) [OF i(1)] wf(1) [OF i(2)] True] by simp
    then show ?thesis
      using c wf(1) [OF i(1)] unfolding computeAdd_eq [OF wf(1) [OF i(1)] wf(1) [OF i(2)] fresh_wf(1) True]
      by (auto simp: slot_ok_def tensor_mk_def wf_tensor_def)
  qed (use c in \<open>simp add: computeAdd_def\<close>)
  have flat: "slot_ok al t" if i: "i < length ins" and c: "computeFlatten n (ins ! i) (fresh al) = Inr t" for i
  proof -
    from c obtain axis outer inner where a: "getAttrInt n ''axis'' 1 = Inr axis"
        "flatten_dims axis (t_shape (ins ! i)) (t_size (ins ! i)) = Some (outer, inner)"
      by (auto simp: computeFlatten_def rbind_eq_Inr split: option.splits prod.splits)
    show ?thesis
      using c wf(1) [OF i] flatten_dims_size [OF wf [OF i] a(2)]
      unfolding computeFlatten_eq [OF wf [OF i] fresh_wf(1) a]
      by (auto simp: slot_ok_def tensor_mk_def wf_tensor_def)
  qed
  have gemm: "slot_ok al t" if c: "computeGemm ?cp (False, ([], [])) n ins (fresh al) r = Inr t" for r
  proof -
    have len: "2 \<le> length ins" using c by (auto simp: computeGemm_params rbind_eq_Inr)
    then have "0 < length ins" "1 < length ins" by linarith+
    then have AB: "modest (ins ! 0)" "modest (ins ! 1)" using m by (simp_all add: list_all_length)
    from c obtain p where "gemm_outcome s (ins ! 0) (ins ! 1) (gemm_bias ins) al p = Inr t"
      unfolding computeGemm_outcome [OF m fresh_wf(1) ok] by (auto simp: rbind_eq_Inr)
    then obtain d where v: "gemm_validate (ins ! 0) (ins ! 1) (gemm_bias ins) p = Inr ()" "resolveDims (ins ! 0) (ins ! 1) p = Inr d"
        and t: "t = gemm_result f32_arith s (ins ! 0) (ins ! 1) (gemm_bias ins) al d p"
      by (auto simp: gemm_outcome_def rbind_eq_Inr)
    have "gemm_pre (ins ! 0) (ins ! 1) (gemm_bias ins) (fresh al) p d"
      using AB v gemm_bias_wf [OF m] modest_dims [OF AB v] by (simp add: gemm_pre_def modest_def)
    from gemm_result_facts(1) [OF this] show ?thesis by (simp add: t slot_ok_def) (simp add: gemm_result_def)
  qed
  show ?thesis
    using assms(1) le unfolding node_outcome_def provider_compute_def ins_def [symmetric] fresh_def [symmetric]
    by (cases "n_opType n") (auto simp: Let_def input_at_def rbind_eq_Inr split: if_splits intro: relu add flat gemm)
qed

text \<open>A node fails only by an exception: nothing it does is undefined.\<close>

lemma attr_clean [simp]:
  "fails_cleanly (getAttrInt n k d)" "fails_cleanly (getAttrFloat n k f)"
proof -
  have "fails_cleanly (asInt a)" "fails_cleanly (asFloat a)" for a by (cases a; simp)+
  then show "fails_cleanly (getAttrInt n k d)" "fails_cleanly (getAttrFloat n k f)"
    by (simp_all add: getAttrInt_def getAttrFloat_def split: option.split)
qed

lemma dim_clean [simp]: "fails_cleanly (dim t i)"
  by (simp add: dim_def)

lemma input_at_clean [simp]: "fails_cleanly (input_at xs i)"
  by (simp add: input_at_def)

lemma gemm_outcome_clean: "fails_cleanly (gemm_outcome s A B bias al p)"
proof -
  have "fails_cleanly (resolveDims A B p)"
    by (auto simp: resolveDims_def intro!: fails_cleanly_rbind)
  moreover from this have "fails_cleanly (gemm_validate A B bias p)"
    by (auto simp: gemm_validate_def intro!: fails_cleanly_rbind)
  ultimately show ?thesis by (auto simp: gemm_outcome_def intro!: fails_cleanly_rbind)
qed

lemma node_outcome_clean:
  assumes "inputs_ok inputs"
  shows "fails_cleanly (node_outcome s n inputs al)"
proof (cases "list_all (\<lambda>t. t \<noteq> None) inputs")
  case False
  then show ?thesis by (simp add: node_outcome_def provider_compute_def)
next
  case True
  define ins where "ins = map the inputs"
  have m: "list_all modest ins" using True assms by (fastforce simp: ins_def inputs_ok_def list_all_iff)
  have wf: "wf_tensor (ins ! i)" "shape_ok (t_shape (ins ! i))" if "i < length ins" for i
    using m that by (auto simp: list_all_length modest_def)
  let ?cp = "\<lparr>cp_strategy = s, cp_workers = None, cp_alloc = al\<rparr>"
  have ok: "cp_ok ?cp" by (simp add: cp_ok_def)
  have relu: "fails_cleanly (computeRelu (ins ! i) (fresh al))" if i: "i < length ins" for i
    by (simp add: computeRelu_eq [OF wf(1) [OF i] fresh_wf(1)])
  have add: "fails_cleanly (computeAdd (ins ! i) (ins ! j) (fresh al))" if i: "i < length ins" "j < length ins" for i j
  proof (cases "t_shape (ins ! i) = t_shape (ins ! j)")
    case True
    then show ?thesis by (simp add: computeAdd_eq [OF wf(1) [OF i(1)] wf(1) [OF i(2)] fresh_wf(1)])
  qed (simp add: computeAdd_def)
  have flat: "fails_cleanly (computeFlatten n (ins ! i) (fresh al))" if i: "i < length ins" for i
  proof (cases "getAttrInt n ''axis'' 1")
    case (Inr axis)
    show ?thesis
    proof (cases "flatten_dims axis (t_shape (ins ! i)) (t_size (ins ! i))")
      case (Some oi)
      obtain outer inner where "oi = (outer, inner)" by (cases oi)
      with Some show ?thesis by (simp add: computeFlatten_eq [OF wf [OF i] fresh_wf(1) Inr])
    qed (simp add: computeFlatten_def Inr)
  qed (use attr_clean(1) [of n "''axis''" 1] in \<open>simp add: computeFlatten_def\<close>)
  have gemm: "fails_cleanly (computeGemm ?cp (False, ([], [])) n ins (fresh al) r)" for r
    unfolding computeGemm_outcome [OF m fresh_wf(1) ok] node_gemm_params_def
    by (auto intro!: fails_cleanly_rbind gemm_outcome_clean)
  show ?thesis
    using True unfolding node_outcome_def provider_compute_def ins_def [symmetric] fresh_def [symmetric]
    by (cases "n_opType n") (auto simp: Let_def input_at_def intro!: fails_cleanly_rbind relu add flat gemm)
qed

text \<open>If the meaning exists, running the nodes computes it.\<close>

lemma exec_complete:
  assumes "runnable ns" "list_all (node_solved (cp_strategy cp) al env) ns" "sane env" "slots_ok al env" "cp_ok cp"
    and "\<And>x. x \<notin> outputs_of ns \<Longrightarrow> ts x = env x"
    and "\<And>x. x \<in> outputs_of ns \<Longrightarrow> \<exists>t. ts x = Some t \<and> slot_ok al t"
  shows "exec_seq cp ctx ns ts = (None, env)"
  using assms(1,2,6,7)
proof (induction ns arbitrary: ts)
  case Nil
  then have "ts = env" by (auto simp: outputs_of_def)
  then show ?case by simp
next
  case (Cons n ns)
  then obtain x t where n: "n_outputs n = [x]" "env x = Some t"
      "node_outcome (cp_strategy cp) n (map env (n_inputs n)) al = Inr t"
    by (auto simp: node_solved_def)
  have rn: "x \<notin> set (n_inputs n)" "x \<notin> outputs_of ns" "set (n_inputs n) \<inter> outputs_of ns = {}" "runnable ns"
    using Cons.prems(1) n(1) by (auto simp: runnable_Cons)
  have same: "ts i = env i" if "i \<in> set (n_inputs n)" for i
    using Cons.prems(3) [of i] that rn n(1) by auto
  then have ins: "map ts (n_inputs n) = map env (n_inputs n)" by simp
  have "list_all (\<lambda>t. t \<noteq> None) (map env (n_inputs n))"
    using n(3) by (auto simp: node_outcome_def provider_compute_def rbind_eq_Inr)
  then have some: "\<forall>i\<in>set (n_inputs n). ts i \<noteq> None" using same by (simp add: list_all_iff)
  have io: "inputs_ok (map ts (n_inputs n))"
    unfolding ins using assms(3) by (auto simp: inputs_ok_def list_all_iff sane_def ran_def split: option.splits)
  obtain out where out: "ts x = Some out" "slot_ok al out" using Cons.prems(4) [of x] n(1) by auto
  have step: "execute_node cp ctx n ts = Inr (ts(x \<mapsto> t))"
    using execute_node_outcome [OF n(1) out assms(5) some io] n(3) by (simp add: ins)
  have "exec_seq cp ctx ns (ts(x \<mapsto> t)) = (None, env)"
  proof (rule Cons.IH [OF rn(4)])
    show "list_all (node_solved (cp_strategy cp) al env) ns" using Cons.prems(2) by simp
    show "(ts(x \<mapsto> t)) y = env y" if "y \<notin> outputs_of ns" for y
      using Cons.prems(3) [of y] that n by auto
    show "\<exists>u. (ts(x \<mapsto> t)) y = Some u \<and> slot_ok al u" if "y \<in> outputs_of ns" for y
      using Cons.prems(4) [of y] that rn(2) by auto
  qed
  then show ?case by (simp add: step)
qed

lemma exec_seq_frame: "exec_seq cp ctx ns ts = (r, ts') \<Longrightarrow> runnable ns \<Longrightarrow> y \<notin> outputs_of ns \<Longrightarrow> ts' y = ts y"
proof (induction ns arbitrary: ts)
  case (Cons n ns)
  show ?case
  proof (cases "execute_node cp ctx n ts")
    case (Inr ts1)
    obtain x xs t where n: "n_outputs n = x # xs" "ts1 = ts(x \<mapsto> t)" "ts x \<noteq> None" "\<forall>i\<in>set (n_inputs n). ts i \<noteq> None"
      by (rule execute_node_Inr [OF Inr])
    then show ?thesis using Cons Inr by (auto simp: runnable_Cons)
  qed (use Cons in simp)
qed simp

text \<open>Running the nodes without an exception ends in their meaning.\<close>

lemma exec_sound:
  assumes "runnable ns" "exec_seq cp ctx ns ts = (None, ts')" "sane ts'" "slots_ok al ts" "cp_ok cp"
  shows "list_all (node_solved (cp_strategy cp) al ts') ns \<and> (\<forall>x. x \<notin> outputs_of ns \<longrightarrow> ts' x = ts x)"
  using assms(1,2,4)
proof (induction ns arbitrary: ts)
  case Nil
  then show ?case by simp
next
  case (Cons n ns)
  from Cons.prems(2) obtain ts1 where e: "execute_node cp ctx n ts = Inr ts1" "exec_seq cp ctx ns ts1 = (None, ts')"
    by (auto split: sum.splits)
  obtain x xs t where n: "n_outputs n = x # xs" "ts1 = ts(x \<mapsto> t)" "ts x \<noteq> None" "\<forall>i\<in>set (n_inputs n). ts i \<noteq> None"
    by (rule execute_node_Inr [OF e(1)])
  have rn: "n_outputs n = [x]" "x \<notin> set (n_inputs n)" "x \<notin> outputs_of ns" "set (n_inputs n) \<inter> outputs_of ns = {}" "runnable ns"
    using Cons.prems(1) n(1) by (auto simp: runnable_Cons)
  from n(3) obtain out where out: "ts x = Some out" by auto
  then have so: "slot_ok al out" using Cons.prems(3) by (auto simp: slots_ok_def ran_def)
  have keep: "(\<forall>y. y \<notin> outputs_of ns \<longrightarrow> ts' y = ts1 y)"
    if "slots_ok al ts1" using Cons.IH [OF rn(5) e(2) that] by blast
  have mod_all: "inputs_ok (map ts (n_inputs n))" if k: "\<forall>y. y \<notin> outputs_of ns \<longrightarrow> ts' y = ts1 y"
  proof -
    have "ts' i = ts i" if i: "i \<in> set (n_inputs n)" for i using k rn(2,4) i n(2) by auto
    then have "modest u" if "i \<in> set (n_inputs n)" "ts i = Some u" for i u
      using assms(3) that unfolding sane_def ran_def by (metis (mono_tags, lifting) mem_Collect_eq)
    then show ?thesis by (auto simp: inputs_ok_def list_all_iff split: option.splits)
  qed
  have keep': "\<forall>y. y \<notin> outputs_of ns \<longrightarrow> ts' y = ts1 y"
    using exec_seq_frame [OF e(2) rn(5)] by blast
  note io = mod_all [OF keep']
  have ex: "node_outcome (cp_strategy cp) n (map ts (n_inputs n)) al = Inr t"
    using execute_node_outcome [OF rn(1) out so assms(5) n(4) io, of ctx] e(1) n(2)
    by (cases "node_outcome (cp_strategy cp) n (map ts (n_inputs n)) al") (auto dest: map_upd_eqD1)
  have so1: "slots_ok al ts1"
    using Cons.prems(3) node_outcome_slot [OF ex io] n(2) by (auto simp: slots_ok_def ran_def split: if_splits)
  have "map ts' (n_inputs n) = map ts (n_inputs n)" using keep' rn(2,4) n(2) by auto
  from ex [folded this] have "node_outcome (cp_strategy cp) n (map ts' (n_inputs n)) al = Inr t" .
  moreover have "ts' x = Some t" using keep' rn(3) n(2) by simp
  ultimately have "node_solved (cp_strategy cp) al ts' n" unfolding node_solved_def using rn(1) by blast
  then show ?case using Cons.IH [OF rn(5) e(2) so1] n(2) rn(1) by auto
qed

end
