(* ===== verification/Optimizer_Correct.thy ===== *)
theory Optimizer_Correct
  imports Optimizer Semantics
begin

text \<open>
  The optimizer preserves meaning: every rewrite turns a view of a model that has a meaning into
  one whose meaning agrees with it on the graph outputs. The passes are sequences of rewrites, so
  the whole optimizer does; and it ends, with a report that adds up.
\<close>

section \<open>Views that make sense\<close>

text \<open>No dependency leads back: some numbering of the nodes grows along every edge.\<close>

definition ranked :: "node list \<Rightarrow> bool" where
  "ranked ns = (\<exists>rk :: string \<Rightarrow> nat. \<forall>a\<in>set ns. \<forall>b\<in>set ns. feeds a b \<noteq> [] \<longrightarrow> rk (n_name a) < rk (n_name b))"

text \<open>Names are unique, every node has one output, no name is written twice, and neither an
  initializer nor the input \<open>i\<close> is written by a node.\<close>

definition wf_view :: "string \<Rightarrow> view \<Rightarrow> bool" where
  "wf_view i v = (distinct (map n_name (snd v)) \<and> list_all (\<lambda>n. length (n_outputs n) = 1 \<and> supports (n_opType n)) (snd v) \<and>
     distinct (concat (map n_outputs (snd v))) \<and> outputs_of (snd v) \<inter> insert i (dom (fst v)) = {} \<and> i \<notin> dom (fst v) \<and>
     ranked (snd v))"

text \<open>The tensors a run starts from: the initializers and the input, in the provider's memory.\<close>

definition base :: "alloc_kind \<Rightarrow> string \<Rightarrow> f32 tensor \<Rightarrow> store \<Rightarrow> store" where
  "base al i x b = (\<lambda>k. map_option (retag al) (b k))(i \<mapsto> retag al x)"

lemma feeds_iff: "feeds a b \<noteq> [] \<longleftrightarrow> set (n_outputs a) \<inter> set (n_inputs b) \<noteq> {}"
  by (auto simp: feeds_def filter_empty_conv)

lemma ranked_self: "ranked ns \<Longrightarrow> n \<in> set ns \<Longrightarrow> set (n_outputs n) \<inter> set (n_inputs n) = {}"
  unfolding ranked_def using feeds_iff by (metis less_irrefl)

lemma ranked_subset: "ranked ns \<Longrightarrow> set ms \<subseteq> set ns \<Longrightarrow> ranked ms"
  unfolding ranked_def by blast

lemma remove_set: "set (remove_named k ns) = {n \<in> set ns. n_name n \<noteq> k}"
  by (simp add: remove_named_def)

lemma distinct_named: "distinct (map n_name ns) \<Longrightarrow> a \<in> set ns \<Longrightarrow> b \<in> set ns \<Longrightarrow> n_name a = n_name b \<Longrightarrow> a = b"
  by (metis distinct_map inj_on_def)

lemma distinct_remove: "distinct (map n_name ns) \<Longrightarrow> distinct (map n_name (remove_named k ns))"
  by (simp add: remove_named_def distinct_map_filter)

lemma distinct_outputs_remove: "distinct (concat (map n_outputs ns)) \<Longrightarrow> distinct (concat (map n_outputs (remove_named k ns)))"
  by (induction ns) (auto simp: remove_named_def)

text \<open>An output belongs to one node.\<close>

lemma output_owner:
  assumes "distinct (concat (map n_outputs ns))" "a \<in> set ns" "b \<in> set ns" "x \<in> set (n_outputs a)" "x \<in> set (n_outputs b)"
  shows "a = b"
  using assms
proof (induction ns)
  case (Cons n ns)
  then show ?case by auto
qed simp

lemma outputs_remove:
  assumes "distinct (concat (map n_outputs ns))" "distinct (map n_name ns)" "n \<in> set ns" "n_outputs n = [x]"
  shows "outputs_of (remove_named (n_name n) ns) = outputs_of ns - {x}"
proof -
  have "y \<noteq> x" if "m \<in> set ns" "n_name m \<noteq> n_name n" "y \<in> set (n_outputs m)" for m y
    using output_owner [OF assms(1) that(1) assms(3), of x] that assms(4) by auto
  moreover have "m = n" if "m \<in> set ns" "n_name m = n_name n" for m
    using distinct_named [OF assms(2) that(1) assms(3) that(2)] .
  ultimately show ?thesis using assms(4) by (fastforce simp: outputs_of_def remove_set)
qed

lemma base_upd: "x \<noteq> i \<Longrightarrow> base al i t (b(x \<mapsto> u)) = (base al i t b)(x \<mapsto> retag al u)"
  by (auto simp: base_def)

section \<open>Each rewrite preserves the meaning\<close>

lemma sane_upd_None: "sane env \<Longrightarrow> sane (env(x := None))"
  by (auto simp: sane_def ran_def)

lemma solved_other:
  assumes "node_solved s al env n" "x \<notin> set (n_inputs n)" "x \<notin> set (n_outputs n)"
  shows "node_solved s al (env(x := u)) n"
proof -
  have "map (env(x := u)) (n_inputs n) = map env (n_inputs n)" using assms(2) by auto
  then show ?thesis using assms(1,3) unfolding node_solved_def by (metis fun_upd_other list.set_intros(1))
qed

lemma dead_preserves:
  assumes wf: "wf_view i (b, ns)"
    and n: "n \<in> set ns" "\<forall>x\<in>set (n_outputs n). x \<notin> set outs \<and> (\<forall>m\<in>set ns. x \<notin> set (n_inputs m))"
  shows "wf_view i (b, remove_named (n_name n) ns) \<and> (solves s al (base al i t b) ns env \<longrightarrow>
    (\<exists>env'. solves s al (base al i t b) (remove_named (n_name n) ns) env' \<and> (\<forall>k\<in>set outs. env' k = env k)))"
proof -
  have W: "distinct (map n_name ns)" "list_all (\<lambda>n. length (n_outputs n) = 1 \<and> supports (n_opType n)) ns"
      "distinct (concat (map n_outputs ns))" "outputs_of ns \<inter> insert i (dom b) = {}" "i \<notin> dom b" "ranked ns"
    using wf by (simp_all add: wf_view_def)
  obtain x where x: "n_outputs n = [x]" using W(2) n(1) by (auto simp: list_all_iff length_Suc_conv)
  let ?ns = "remove_named (n_name n) ns"
  have out: "outputs_of ?ns = outputs_of ns - {x}" by (rule outputs_remove [OF W(3,1) n(1) x])
  have "wf_view i (b, ?ns)"
    unfolding wf_view_def fst_conv snd_conv
    using W distinct_remove distinct_outputs_remove ranked_subset [OF W(6), of ?ns] out
    by (auto simp: list_all_iff remove_set)
  moreover have "solves s al (base al i t b) ?ns (env(x := None))" if sol: "solves s al (base al i t b) ns env"
    unfolding solves_def
  proof (intro conjI allI impI)
    have xi: "x \<in> outputs_of ns" using n(1) x by (force simp: outputs_of_def)
    show "list_all (node_solved s al (env(x := None))) ?ns"
      unfolding list_all_iff
    proof
      fix m assume "m \<in> set ?ns"
      then have m: "m \<in> set ns" "n_name m \<noteq> n_name n" by (auto simp: remove_set)
      show "node_solved s al (env(x := None)) m"
      proof (rule solved_other)
        show "node_solved s al env m" using sol m(1) by (simp add: solves_def list_all_iff)
        show "x \<notin> set (n_inputs m)" using n(2) x m(1) by simp
        show "x \<notin> set (n_outputs m)" using output_owner [OF W(3) m(1) n(1), of x] m(2) x by auto
      qed
    qed
    show "(env(x := None)) y = base al i t b y" if "y \<notin> outputs_of ?ns" for y
    proof (cases "y = x")
      case True
      have "x \<noteq> i" "x \<notin> dom b" using W(4) xi by auto
      then show ?thesis using True by (auto simp: base_def)
    next
      case False
      then show ?thesis using sol that out by (auto simp: solves_def)
    qed
    show "sane (env(x := None))" using sol by (simp add: solves_def sane_upd_None)
  qed
  moreover have "\<forall>k\<in>set outs. (env(x := None)) k = env k" using n(2) x by auto
  ultimately show ?thesis by blast
qed

text \<open>What a node whose inputs are initializers computes when it is folded, and when it is run.\<close>

lemma folded_value:
  assumes wf: "wf_view i (b, ns)" and sol: "solves (cp_strategy cp) al (base al i t b) ns env" and ok: "cp_ok cp"
    and n: "n \<in> set ns" "n_outputs n = [x]" "\<forall>j\<in>set (n_inputs n). b j \<noteq> None"
  shows "\<exists>u. provider_compute cp ctx n (map b (n_inputs n)) tensor_default = Inr u \<and> env x = Some (retag al u)"
proof -
  have notout: "j \<notin> outputs_of ns \<and> j \<noteq> i" if "j \<in> set (n_inputs n)" for j
    using wf n(3) that by (auto simp: wf_view_def)
  have env: "env j = map_option (retag al) (b j)" if "j \<in> set (n_inputs n)" for j
    using sol notout [OF that] by (auto simp: solves_def base_def)
  then have ins: "map env (n_inputs n) = map (map_option (retag al)) (map b (n_inputs n))" by simp
  have sane: "modest u" if "env j = Some u" for j u
    using sol that unfolding solves_def sane_def ran_def by (metis (mono_tags, lifting) mem_Collect_eq)
  have io: "inputs_ok (map b (n_inputs n))"
    unfolding inputs_ok_def list_all_iff
  proof
    fix v assume "v \<in> set (map b (n_inputs n))"
    then obtain j where j: "j \<in> set (n_inputs n)" "v = b j" by auto
    then show "case v of None \<Rightarrow> True | Some u \<Rightarrow> modest u"
      using sane [of j] env [OF j(1)] by (auto split: option.splits)
  qed
  have "node_solved (cp_strategy cp) al env n" using sol n(1) by (simp add: solves_def list_all_iff)
  then obtain u where u: "env x = Some u" "node_outcome (cp_strategy cp) n (map env (n_inputs n)) al = Inr u"
    using n(2) by (auto simp: node_solved_def)
  have pc: "provider_compute cp ctx n (map b (n_inputs n)) tensor_default
      = node_outcome (cp_strategy cp) n (map b (n_inputs n)) (t_alloc (tensor_default :: f32 tensor))"
    by (rule provider_compute_outcome [OF io tensor_default_wf ok])
  from u(2) have "retag_res al (node_outcome (cp_strategy cp) n (map b (n_inputs n)) (t_alloc (tensor_default :: f32 tensor))) = Inr u"
    unfolding ins node_outcome_retag [OF io, of _ _ _ _ "t_alloc (tensor_default :: f32 tensor)"] .
  then show ?thesis using u(1) pc by (auto simp: retag_res_def rbind_eq_Inr)
qed

lemma fold_preserves:
  assumes wf: "wf_view i (b, ns)" and ok: "cp_ok cp"
    and n: "n \<in> set ns" "n_outputs n = [x]" "\<forall>j\<in>set (n_inputs n). b j \<noteq> None"
    and c: "provider_compute cp ctx n (map b (n_inputs n)) tensor_default = Inr u"
  shows "wf_view i (b(x \<mapsto> u), remove_named (n_name n) ns) \<and> (solves (cp_strategy cp) al (base al i t b) ns env \<longrightarrow>
    solves (cp_strategy cp) al (base al i t (b(x \<mapsto> u))) (remove_named (n_name n) ns) env)"
proof -
  have W: "distinct (map n_name ns)" "list_all (\<lambda>n. length (n_outputs n) = 1 \<and> supports (n_opType n)) ns"
      "distinct (concat (map n_outputs ns))" "outputs_of ns \<inter> insert i (dom b) = {}" "i \<notin> dom b" "ranked ns"
    using wf by (simp_all add: wf_view_def)
  let ?ns = "remove_named (n_name n) ns"
  have out: "outputs_of ?ns = outputs_of ns - {x}" by (rule outputs_remove [OF W(3,1) n(1,2)])
  have xi: "x \<in> outputs_of ns" using n(1,2) by (force simp: outputs_of_def)
  then have xne: "x \<noteq> i" using W(4) by auto
  have "wf_view i (b(x \<mapsto> u), ?ns)"
    unfolding wf_view_def fst_conv snd_conv
    using W distinct_remove distinct_outputs_remove ranked_subset [OF W(6), of ?ns] out xne
    by (auto simp: list_all_iff remove_set)
  moreover have "solves (cp_strategy cp) al (base al i t (b(x \<mapsto> u))) ?ns env" if sol: "solves (cp_strategy cp) al (base al i t b) ns env"
  proof -
    have "env x = Some (retag al u)" using folded_value [OF wf sol ok n, of ctx] c by auto
    then show ?thesis
      unfolding solves_def base_upd [OF xne]
      using sol out by (auto simp: solves_def list_all_iff remove_set)
  qed
  ultimately show ?thesis by blast
qed

section \<open>Fusion\<close>

lemma node_outcome_fused:
  assumes "inputs_ok inputs" "n_opType g = OpGemm" "n_opType r = OpRelu"
  shows "node_outcome s (setOpType OpGemmRelu g) inputs al = rbind (node_outcome s g inputs al) (\<lambda>t. node_outcome s r [Some t] al)"
  unfolding node_outcome_def fresh_def [symmetric]
  by (rule gemmRelu_split [OF assms(1) fresh_wf(1) fresh_wf(1) _ assms(2,3)]) (simp add: cp_ok_def)

lemma outputs_distinct_iff:
  "distinct ns \<Longrightarrow> (\<And>n. n \<in> set ns \<Longrightarrow> distinct (n_outputs n)) \<Longrightarrow>
    distinct (concat (map n_outputs ns)) \<longleftrightarrow> (\<forall>a\<in>set ns. \<forall>b\<in>set ns. a \<noteq> b \<longrightarrow> set (n_outputs a) \<inter> set (n_outputs b) = {})"
proof (induction ns)
  case (Cons n ns)
  then have IH: "distinct (concat (map n_outputs ns)) \<longleftrightarrow> (\<forall>a\<in>set ns. \<forall>b\<in>set ns. a \<noteq> b \<longrightarrow> set (n_outputs a) \<inter> set (n_outputs b) = {})"
    by simp
  have n: "n \<notin> set ns" "distinct (n_outputs n)" using Cons.prems by simp_all
  show ?case
    unfolding list.map concat.simps distinct_append IH using n by (auto; blast)
qed simp

lemma fused_set:
  assumes "distinct (map n_name ns)" "g \<in> set ns" "r \<in> set ns" "g \<noteq> r"
  shows "set (remove_named (n_name r) (replace_named (fused_node g r) ns)) = insert (fused_node g r) (set ns - {g, r})"
proof -
  have f: "n_name (fused_node g r) = n_name g" by (simp add: fused_node_def)
  have gr: "n_name g \<noteq> n_name r" using distinct_named [OF assms(1-3)] assms(4) by blast
  have "m = g" if "m \<in> set ns" "n_name m = n_name g" for m using distinct_named [OF assms(1) that(1) assms(2) that(2)] .
  moreover have "m = r" if "m \<in> set ns" "n_name m = n_name r" for m using distinct_named [OF assms(1) that(1) assms(3) that(2)] .
  ultimately show ?thesis
    unfolding remove_set replace_named_def set_map f using assms(2,4) gr f by (auto simp: image_iff)
qed

lemma fuse_preserves:
  assumes wf: "wf_view i (b, ns)"
    and g: "g \<in> set ns" "n_opType g = OpGemm" "n_outputs g = [a]"
    and r: "r \<in> set ns" "n_opType r = OpRelu" "length (n_inputs r) = 1"
    and a: "a \<notin> set outs" and e: "sole_edge ns g r"
  defines "ns' \<equiv> remove_named (n_name r) (replace_named (fused_node g r) ns)"
  shows "wf_view i (b, ns') \<and> (solves s al (base al i t b) ns env \<longrightarrow>
    (\<exists>env'. solves s al (base al i t b) ns' env' \<and> (\<forall>k\<in>set outs. env' k = env k)))"
proof -
  let ?f = "fused_node g r"
  have W: "distinct (map n_name ns)" "list_all (\<lambda>n. length (n_outputs n) = 1 \<and> supports (n_opType n)) ns"
      "distinct (concat (map n_outputs ns))" "outputs_of ns \<inter> insert i (dom b) = {}" "i \<notin> dom b" "ranked ns"
    using wf by (simp_all add: wf_view_def)
  have gr: "g \<noteq> r" using g(2) r(2) by auto
  then have ngr: "n_name g \<noteq> n_name r" using distinct_named [OF W(1) g(1) r(1)] by blast
  have S: "set ns' = insert ?f (set ns - {g, r})" unfolding ns'_def by (rule fused_set [OF W(1) g(1) r(1) gr])
  obtain c where c: "n_outputs r = [c]" using W(2) r(1) by (auto simp: list_all_iff length_Suc_conv)
  have f: "n_name ?f = n_name g" "n_inputs ?f = n_inputs g" "n_outputs ?f = [c]" "n_opType ?f = OpGemmRelu"
    by (simp_all add: fused_node_def c)
  have "feeds g r \<noteq> []" using bspec [OF e [unfolded sole_edge_def] r(1)] ngr by (auto simp: edges_def)
  then have gfr: "feeds g r \<noteq> []" and "a \<in> set (n_inputs r)" unfolding feeds_iff using g(3) by auto
  then have ri: "n_inputs r = [a]" using r(3) by (auto simp: length_Suc_conv)
  have others: "a \<notin> set (n_inputs m)" if m: "m \<in> set ns" "m \<noteq> r" for m
  proof (cases "m = g")
    case True
    then show ?thesis using ranked_self [OF W(6) g(1)] g(3) by auto
  next
    case False
    then have "n_name g \<noteq> n_name m" using distinct_named [OF W(1) g(1) m(1)] by blast
    moreover have "edges g m = 0" using e m by (auto simp: sole_edge_def)
    ultimately have "\<not> feeds g m \<noteq> []" by (simp add: edges_def)
    then show ?thesis unfolding feeds_iff using g(3) by auto
  qed
  have dis: "set (n_outputs x) \<inter> set (n_outputs y) = {}" if "x \<in> set ns" "y \<in> set ns" "x \<noteq> y" for x y
    using output_owner [OF W(3) that(1,2)] that(3) by blast
  have ac: "a \<noteq> c" using dis [OF g(1) r(1) gr] g(3) c by auto
  have out: "outputs_of ns' = outputs_of ns - {a}"
  proof -
    have "outputs_of ns = insert a (insert c (\<Union>m\<in>set ns - {g, r}. set (n_outputs m)))"
      using g(1,3) r(1) c by (auto simp: outputs_of_def)
    moreover have "a \<notin> (\<Union>m\<in>set ns - {g, r}. set (n_outputs m))" using dis [OF g(1)] g(3) by auto
    ultimately show ?thesis using ac by (auto simp: outputs_of_def S f(3))
  qed
  have dn: "distinct (map n_name ns')"
    unfolding ns'_def by (rule distinct_remove) (simp add: W(1))
  have do: "distinct (concat (map n_outputs ns'))"
  proof (subst outputs_distinct_iff)
    show "distinct ns'" using dn by (simp add: distinct_map)
    show "distinct (n_outputs m)" if "m \<in> set ns'" for m
      using that W(2) f(3) by (auto simp: S list_all_iff length_Suc_conv)
    show "\<forall>x\<in>set ns'. \<forall>y\<in>set ns'. x \<noteq> y \<longrightarrow> set (n_outputs x) \<inter> set (n_outputs y) = {}"
      using dis dis [OF r(1)] by (auto simp: S f(3) c)
  qed
  obtain rk :: "string \<Rightarrow> nat" where rk: "feeds x y \<noteq> [] \<Longrightarrow> x \<in> set ns \<Longrightarrow> y \<in> set ns \<Longrightarrow> rk (n_name x) < rk (n_name y)" for x y
    using W(6) unfolding ranked_def by blast
  have "ranked ns'"
    unfolding ranked_def
  proof (intro exI [of _ rk] ballI impI)
    fix x y assume x: "x \<in> set ns'" and y: "y \<in> set ns'" and xy: "feeds x y \<noteq> []"
    have gr': "rk (n_name g) < rk (n_name r)" by (rule rk [OF gfr g(1) r(1)])
    have fy: "rk (n_name r) < rk (n_name m)" if "feeds ?f m \<noteq> []" "m \<in> set ns" for m
      by (rule rk [OF _ r(1) that(2)]) (use that(1) f(3) c in \<open>simp add: feeds_iff\<close>)
    have xf: "rk (n_name m) < rk (n_name g)" if "feeds m ?f \<noteq> []" "m \<in> set ns" for m
      by (rule rk [OF _ that(2) g(1)]) (use that(1) f(2) in \<open>simp add: feeds_iff\<close>)
    have ff: "feeds ?f ?f \<noteq> [] \<Longrightarrow> rk (n_name r) < rk (n_name g)"
      by (rule rk [OF _ r(1) g(1)]) (use f c in \<open>simp add: feeds_iff\<close>)
    consider "x = ?f" "y = ?f" | "x = ?f" "y \<in> set ns" | "x \<in> set ns" "y = ?f" | "x \<in> set ns" "y \<in> set ns"
      using x y by (auto simp: S)
    then show "rk (n_name x) < rk (n_name y)"
    proof cases
      case 1 then show ?thesis using ff xy gr' by simp
    next
      case 2 then show ?thesis using fy [of y] xy gr' f(1) by simp
    next
      case 3 then show ?thesis using xf [of x] xy f(1) by simp
    next
      case 4 then show ?thesis using rk [OF xy] by simp
    qed
  qed
  then have wf': "wf_view i (b, ns')"
    unfolding wf_view_def fst_conv snd_conv
    using W(2,4,5) dn do out f(3,4) by (auto simp: list_all_iff S)
  have "\<exists>env'. solves s al (base al i t b) ns' env' \<and> (\<forall>k\<in>set outs. env' k = env k)" if sol: "solves s al (base al i t b) ns env"
  proof -
    have sn: "node_solved s al env m" if "m \<in> set ns" for m using sol that by (simp add: solves_def list_all_iff)
    have io: "inputs_ok (map env xs)" for xs
      using sol by (auto simp: solves_def sane_def inputs_ok_def list_all_iff ranI split: option.splits)
    have "node_solved s al (env(a := None)) ?f"
    proof -
      obtain u where u: "env a = Some u" "node_outcome s g (map env (n_inputs g)) al = Inr u"
        using sn [OF g(1)] g(3) by (auto simp: node_solved_def)
      obtain w where w: "env c = Some w" "node_outcome s r [Some u] al = Inr w"
        using sn [OF r(1)] c ri u(1) by (auto simp: node_solved_def)
      have o: "node_outcome s ?f (map env (n_inputs g)) al = Inr w"
        unfolding fused_node_def node_outcome_outputs node_outcome_fused [OF io g(2) r(2)] using u w by simp
      have "map (env(a := None)) (n_inputs g) = map env (n_inputs g)" using others [OF g(1) gr] by auto
      from o [folded this] show ?thesis unfolding node_solved_def f(2,3) using w(1) ac by auto
    qed
    moreover have "node_solved s al (env(a := None)) m" if m: "m \<in> set ns" "m \<noteq> g" "m \<noteq> r" for m
      by (rule solved_other [OF sn [OF m(1)] others [OF m(1,3)]]) (use dis [OF m(1) g(1) m(2)] g(3) in auto)
    moreover have "(env(a := None)) y = base al i t b y" if "y \<notin> outputs_of ns'" for y
    proof (cases "y = a")
      case True
      have "a \<in> outputs_of ns" using g by (force simp: outputs_of_def)
      then have "a \<noteq> i" "a \<notin> dom b" using W(4) by auto
      then show ?thesis using True by (auto simp: base_def)
    qed (use sol that out in \<open>auto simp: solves_def\<close>)
    ultimately have "solves s al (base al i t b) ns' (env(a := None))"
      using sol unfolding solves_def list_all_iff S by (auto simp: sane_upd_None)
    moreover have "\<forall>k\<in>set outs. (env(a := None)) k = env k" using a by auto
    ultimately show ?thesis by blast
  qed
  then show ?thesis using wf' by blast
qed

lemma rewrite_preserves:
  assumes "rewrite cp ctx outs v v'" "wf_view i v" "cp_ok cp"
  shows "wf_view i v' \<and> (solves (cp_strategy cp) al (base al i t (fst v)) (snd v) env \<longrightarrow> (\<exists>env'. solves (cp_strategy cp) al (base al i t (fst v')) (snd v') env' \<and> (\<forall>k\<in>set outs. env' k = env k)))"
  using assms
proof (cases rule: rewrite.cases)
  case (Fuse g ns r a b)
  show ?thesis
    using fuse_preserves [OF assms(2) [unfolded Fuse] Fuse(3,7,8,4,5,6,9,10)]
    unfolding Fuse by simp
next
  case (Fold n ns x b u)
  show ?thesis
    using fold_preserves [OF assms(2) [unfolded Fold] assms(3) Fold(3,4,7,8)]
    unfolding Fold by auto
next
  case (Dead n ns b)
  show ?thesis
    using dead_preserves [OF assms(2) [unfolded Dead] Dead(3,4)]
    unfolding Dead by simp
qed

section \<open>Passes are sequences of rewrites\<close>

definition rewrites_to :: "cpu_provider \<Rightarrow> thread_ctx \<Rightarrow> model \<Rightarrow> model \<Rightarrow> bool" where
  "rewrites_to cp ctx m m' = (model_ok m' \<and> (rewrite cp ctx (g_outputs (m_graph m)))\<^sup>*\<^sup>* (view_of m) (view_of m') \<and>
     g_inputs (m_graph m') = g_inputs (m_graph m) \<and> g_outputs (m_graph m') = g_outputs (m_graph m))"

text \<open>A node whose inputs are all initializers and whose computation throws \<open>e\<close>.\<close>

definition constant_fails :: "cpu_provider \<Rightarrow> thread_ctx \<Rightarrow> model \<Rightarrow> exn \<Rightarrow> bool" where
  "constant_fails cp ctx m e = (\<exists>n\<in>set (nodes_of (m_graph m)). (\<forall>i\<in>set (n_inputs n). m_inits m i \<noteq> None) \<and>
     provider_compute cp ctx n (map (m_inits m) (n_inputs n)) tensor_default = Inl e)"

lemma rewrites_to_refl: "model_ok m \<Longrightarrow> rewrites_to cp ctx m m"
  by (simp add: rewrites_to_def)

lemma rewrites_to_trans: "rewrites_to cp ctx m m1 \<Longrightarrow> rewrites_to cp ctx m1 m2 \<Longrightarrow> rewrites_to cp ctx m m2"
  unfolding rewrites_to_def by (metis (no_types, lifting) rtranclp_trans)

lemma rewrites_to_step:
  "model_ok m' \<Longrightarrow> rewrite cp ctx (g_outputs (m_graph m)) (view_of m) (view_of m') \<Longrightarrow>
   g_inputs (m_graph m') = g_inputs (m_graph m) \<Longrightarrow> g_outputs (m_graph m') = g_outputs (m_graph m) \<Longrightarrow> rewrites_to cp ctx m m'"
  by (simp add: rewrites_to_def r_into_rtranclp)

lemma rewrites_to_ok: "rewrites_to cp ctx m m' \<Longrightarrow> model_ok m'"
  by (simp add: rewrites_to_def)

text \<open>How a pass ends: with an exception of a constant node, or with no candidate left, having
  counted the nodes it removed.\<close>

definition pass_result :: "cpu_provider \<Rightarrow> thread_ctx \<Rightarrow> model \<Rightarrow> nat \<Rightarrow> (model \<Rightarrow> bool) \<Rightarrow> (model \<times> nat) res \<Rightarrow> bool" where
  "pass_result cp ctx m k done r = (case r of
     Inl e \<Rightarrow> \<exists>m1. rewrites_to cp ctx m m1 \<and> constant_fails cp ctx m1 e
   | Inr (m', j) \<Rightarrow> rewrites_to cp ctx m m' \<and> done m' \<and>
       length (nodes_of (m_graph m)) + k = length (nodes_of (m_graph m')) + j)"

lemma repeat_pass_spec:
  assumes "refines cp ctx step" "model_ok m" "length (nodes_of (m_graph m)) < fuel"
  shows "pass_result cp ctx m k (\<lambda>m'. step m' = Inr None) (repeat_pass step fuel m k)"
  using assms(2,3)
proof (induction fuel arbitrary: m k)
  case (Suc f)
  note ref = assms(1) [unfolded refines_def, rule_format, OF Suc.prems(1)]
  show ?case
  proof (cases "step m")
    case (Inl e)
    with ref have "constant_fails cp ctx m e" by (simp add: constant_fails_def)
    then show ?thesis using Inl rewrites_to_refl [OF Suc.prems(1), of cp ctx] by (auto simp: pass_result_def)
  next
    case (Inr r)
    show ?thesis
    proof (cases r)
      case None
      then show ?thesis using Inr Suc.prems(1) by (simp add: pass_result_def rewrites_to_refl)
    next
      case (Some m1)
      have s: "rewrites_to cp ctx m m1" "length (nodes_of (m_graph m)) = length (nodes_of (m_graph m1)) + 1"
        using ref Inr Some by (auto intro: rewrites_to_step)
      have "pass_result cp ctx m1 (k + 1) (\<lambda>m'. step m' = Inr None) (repeat_pass step f m1 (k + 1))"
        by (rule Suc.IH [OF rewrites_to_ok [OF s(1)]]) (use s(2) Suc.prems(2) in simp)
      then show ?thesis
        using s Inr Some by (auto simp: pass_result_def split: sum.splits intro: rewrites_to_trans)
    qed
  qed
qed simp

lemma run_pass_spec:
  assumes "refines cp ctx step" "model_ok m"
  shows "pass_result cp ctx m 0 (\<lambda>m'. step m' = Inr None) (run_pass step m)"
  unfolding run_pass_def by (rule repeat_pass_spec [OF assms]) simp

lemma pass_if_spec:
  assumes "refines cp ctx step" "model_ok m" "pass = run_pass step"
  shows "pass_result cp ctx m 0 (\<lambda>m'. b \<longrightarrow> step m' = Inr None) (pass_if b pass m)"
proof (cases b)
  case True
  then show ?thesis using run_pass_spec [OF assms(1,2)] assms(3) by (simp add: pass_if_def)
qed (simp add: pass_if_def pass_result_def rewrites_to_refl [OF assms(2)])

lemma passes: "fuseActivations = run_pass fuse_step" "foldConstants ins cp ctx = run_pass (fold_step ins cp ctx)"
    "eliminateDeadNodes = run_pass dead_step"
  by (simp_all add: fun_eq_iff fuseActivations_def foldConstants_def eliminateDeadNodes_def)

lemma g_size_nodes: "model_ok m \<Longrightarrow> g_size (m_graph m) = length (nodes_of (m_graph m))"
proof -
  assume "model_ok m"
  then have "distinct (hashOrder (m_graph m))" "distinct (insertionOrder (m_graph m))"
      "set (hashOrder (m_graph m)) = set (insertionOrder (m_graph m))"
    by (auto simp: model_ok_def graph_ok_def)
  then show ?thesis by (metis distinct_card g_size_def length_nodes_of)
qed

lemma optimizer_run_spec:
  assumes "model_ok m" "ins_ok ins"
  shows "case optimizer_run ins cp ctx opts m of
     Inl e \<Rightarrow> \<exists>m1. rewrites_to cp ctx m m1 \<and> constant_fails cp ctx m1 e
   | Inr (m', rep) \<Rightarrow> rewrites_to cp ctx m m' \<and> (o_eliminateDeadNodes opts \<longrightarrow> dead_step m' = Inr None) \<and>
       r_nodesBefore rep = length (nodes_of (m_graph m)) \<and> r_nodesAfter rep = length (nodes_of (m_graph m')) \<and>
       r_nodesBefore rep = r_nodesAfter rep + report_total rep"
proof -
  let ?P = "\<lambda>m. pass_result cp ctx m 0"
  let ?a = "pass_if (o_foldConstants opts) (foldConstants ins cp ctx)"
    and ?b = "pass_if (o_fuseActivations opts) fuseActivations"
    and ?c = "pass_if (o_eliminateDeadNodes opts) eliminateDeadNodes"
  have A: "?P m (\<lambda>m'. o_foldConstants opts \<longrightarrow> fold_step ins cp ctx m' = Inr None) (?a m)"
    by (rule pass_if_spec [OF fold_refines [OF assms(2)] assms(1) passes(2)])
  have B: "?P x (\<lambda>m'. o_fuseActivations opts \<longrightarrow> fuse_step m' = Inr None) (?b x)" if "model_ok x" for x
    by (rule pass_if_spec [OF fuse_refines that passes(1)])
  have C: "?P x (\<lambda>m'. o_eliminateDeadNodes opts \<longrightarrow> dead_step m' = Inr None) (?c x)" if "model_ok x" for x
    by (rule pass_if_spec [OF dead_refines that passes(3)])
  show ?thesis
  proof (cases "?a m")
    case (Inl e)
    then show ?thesis using A by (simp add: optimizer_run_def pass_result_def)
  next
    case (Inr x)
    obtain m1 j1 where x: "x = (m1, j1)" by (cases x)
    have a: "rewrites_to cp ctx m m1" "length (nodes_of (m_graph m)) = length (nodes_of (m_graph m1)) + j1"
      using A Inr x by (auto simp: pass_result_def)
    show ?thesis
    proof (cases "?b m1")
      case b: (Inl e)
      then show ?thesis
        using B [OF rewrites_to_ok [OF a(1)]] Inr x rewrites_to_trans [OF a(1)]
        by (auto simp: optimizer_run_def pass_result_def)
    next
      case b: (Inr y)
      obtain m2 j2 where y: "y = (m2, j2)" by (cases y)
      have b': "rewrites_to cp ctx m m2" "length (nodes_of (m_graph m1)) = length (nodes_of (m_graph m2)) + j2"
        using B [OF rewrites_to_ok [OF a(1)]] b y rewrites_to_trans [OF a(1)] by (auto simp: pass_result_def)
      show ?thesis
      proof (cases "?c m2")
        case c: (Inl e)
        then show ?thesis
          using C [OF rewrites_to_ok [OF b'(1)]] Inr x b y rewrites_to_trans [OF b'(1)]
          by (auto simp: optimizer_run_def pass_result_def)
      next
        case c: (Inr z)
        obtain m3 j3 where z: "z = (m3, j3)" by (cases z)
        have c': "rewrites_to cp ctx m m3" "length (nodes_of (m_graph m2)) = length (nodes_of (m_graph m3)) + j3"
            "o_eliminateDeadNodes opts \<longrightarrow> dead_step m3 = Inr None"
          using C [OF rewrites_to_ok [OF b'(1)]] c z rewrites_to_trans [OF b'(1)] by (auto simp: pass_result_def)
        show ?thesis
          using Inr x b y c z a b' c' g_size_nodes [OF assms(1)] g_size_nodes [OF rewrites_to_ok [OF c'(1)]]
          by (simp add: optimizer_run_def report_total_def del: length_nodes_of)
      qed
    qed
  qed
qed

section \<open>The optimizer preserves the meaning\<close>

lemma rewrites_preserve:
  assumes "(rewrite cp ctx outs)\<^sup>*\<^sup>* v v'" "wf_view i v" "cp_ok cp"
  shows "wf_view i v' \<and> (solves (cp_strategy cp) al (base al i t (fst v)) (snd v) env \<longrightarrow> (\<exists>env'. solves (cp_strategy cp) al (base al i t (fst v')) (snd v') env' \<and> (\<forall>k\<in>set outs. env' k = env k)))"
  using assms(1)
proof (induction rule: rtranclp_induct)
  case base
  show ?case using assms(2) by blast
next
  case (step y z)
  have y: "wf_view i y" using step.IH by blast
  note one = rewrite_preserves [OF step.hyps(2) y assms(3)]
  show ?case
  proof (intro conjI impI)
    show "wf_view i z" using one by blast
    assume "solves (cp_strategy cp) al (base al i t (fst v)) (snd v) env"
    then obtain env' where e: "solves (cp_strategy cp) al (base al i t (fst y)) (snd y) env'" "\<forall>k\<in>set outs. env' k = env k"
      using step.IH by blast
    from one [of al t env'] e(1) obtain env2 where "solves (cp_strategy cp) al (base al i t (fst z)) (snd z) env2" "\<forall>k\<in>set outs. env2 k = env' k"
      by blast
    then show "\<exists>env'. solves (cp_strategy cp) al (base al i t (fst z)) (snd z) env' \<and> (\<forall>k\<in>set outs. env' k = env k)"
      using e(2) by auto
  qed
qed

text \<open>A rewriting is sound if it keeps a view well formed and keeps its meaning: whatever solves the
  nodes before, something solves them after and agrees with it on the outputs.\<close>

definition keeps_meaning where
  "keeps_meaning s outs v v' = (\<forall>i. wf_view i v \<longrightarrow> wf_view i v' \<and>
     (\<forall>al x env. solves s al (base al i x (fst v)) (snd v) env \<longrightarrow>
        (\<exists>env'. solves s al (base al i x (fst v')) (snd v') env' \<and> (\<forall>k\<in>set outs. env' k = env k))))"

lemma rewrites_keep_meaning:
  assumes "(rewrite cp ctx outs)\<^sup>*\<^sup>* v v'" "cp_ok cp"
  shows "keeps_meaning (cp_strategy cp) outs v v'"
  using rewrites_preserve [OF assms(1) _ assms(2)] unfolding keeps_meaning_def by blast

text \<open>A model with a meaning is optimized without an exception.\<close>

lemma constant_never_fails:
  assumes "wf_view i (view_of m)" "solves (cp_strategy cp) al (base al i t (m_inits m)) (nodes_of (m_graph m)) env" "cp_ok cp"
  shows "\<not> constant_fails cp ctx m e"
proof
  assume "constant_fails cp ctx m e"
  then obtain n where n: "n \<in> set (nodes_of (m_graph m))" "\<forall>j\<in>set (n_inputs n). m_inits m j \<noteq> None"
      "provider_compute cp ctx n (map (m_inits m) (n_inputs n)) tensor_default = Inl e"
    by (auto simp: constant_fails_def)
  have wf: "wf_view i (m_inits m, nodes_of (m_graph m))" using assms(1) by (simp add: view_of_def)
  obtain x where "n_outputs n = [x]" using wf n(1) by (auto simp: wf_view_def list_all_iff length_Suc_conv)
  from folded_value [OF wf assms(2,3) n(1) this n(2), of ctx] n(3) show False by auto
qed

lemma optimizer_run_preserves:
  assumes m: "model_ok m" "ins_ok ins" and cp: "cp_ok cp"
    and wf: "wf_view i (view_of m)" and sol: "solves (cp_strategy cp) al (base al i t (m_inits m)) (nodes_of (m_graph m)) env"
  obtains m' rep env' where "optimizer_run ins cp ctx opts m = Inr (m', rep)" "rewrites_to cp ctx m m'" "wf_view i (view_of m')"
    "solves (cp_strategy cp) al (base al i t (m_inits m')) (nodes_of (m_graph m')) env'"
    "\<forall>k\<in>set (g_outputs (m_graph m)). env' k = env k"
proof -
  have pres: "wf_view i (view_of m1) \<and> (\<exists>env'. solves (cp_strategy cp) al (base al i t (m_inits m1)) (nodes_of (m_graph m1)) env' \<and>
      (\<forall>k\<in>set (g_outputs (m_graph m)). env' k = env k))" if "rewrites_to cp ctx m m1" for m1
    using rewrites_preserve [of cp ctx "g_outputs (m_graph m)" "view_of m" "view_of m1" i al t env] that wf sol cp
    by (simp add: rewrites_to_def view_of_def)
  show ?thesis
  proof (cases "optimizer_run ins cp ctx opts m")
    case (Inl e)
    then obtain m1 where m1: "rewrites_to cp ctx m m1" "constant_fails cp ctx m1 e"
      using optimizer_run_spec [OF m, of cp ctx opts] by auto
    with pres [OF m1(1)] constant_never_fails [OF _ _ cp] show ?thesis by blast
  next
    case (Inr y)
    obtain m' rep where y: "y = (m', rep)" by (cases y)
    then have r: "rewrites_to cp ctx m m'" using optimizer_run_spec [OF m, of cp ctx opts] Inr by simp
    show ?thesis using pres [OF r] r Inr y by (auto intro: that)
  qed
qed

end
