(* ===== verification/Session_Order.thy ===== *)
theory Session_Order
  imports Optimizer_Correct
begin

text \<open>
  From pointers to nodes: the topological order and the levels of a graph, read as lists of nodes,
  are orders in which the nodes can be run. A graph whose dependencies can be ranked is sorted
  without an exception, its levels hold nodes that do not touch each other's tensors, and
  running them level by level is one more order in which nothing reads what is written later.
\<close>

section \<open>Dependencies and edges\<close>

lemma ptrs_nodes: "graph_ok g \<Longrightarrow> ptrs g = ptr_of g ` set (nodes_of g)"
  by (simp add: ptrs_def live_set)

lemma edge_rel_nodes:
  assumes g: "graph_ok g"
  shows "(p, q) \<in> edge_rel g \<longleftrightarrow> (\<exists>a\<in>set (nodes_of g). \<exists>b\<in>set (nodes_of g). p = ptr_of g a \<and> q = ptr_of g b \<and> edges a b \<noteq> 0)"
proof -
  have one: "q \<in> set (succs g (ptr_of g a)) \<longleftrightarrow> (\<exists>b\<in>set (nodes_of g). q = ptr_of g b \<and> edges a b \<noteq> 0)"
    if a: "a \<in> set (nodes_of g)" for a
  proof -
    obtain ps cs where c: "parentsOf g (n_name a) = Inr ps" "childrenOf g (n_name a) = Inr cs"
      "set ps \<subseteq> ptr_of g ` set (nodes_of g)" "set cs \<subseteq> ptr_of g ` set (nodes_of g)"
      "\<forall>b\<in>set (nodes_of g). count_list ps (ptr_of g b) = edges b a"
      "\<forall>b\<in>set (nodes_of g). count_list cs (ptr_of g b) = edges a b"
      by (rule adjacency [OF g a])
    have "succs g (ptr_of g a) = cs" using node_facts(3) [OF g a] c(2) by (simp add: succs_def)
    moreover have "ptr_of g b \<in> set cs \<longleftrightarrow> edges a b \<noteq> 0" if "b \<in> set (nodes_of g)" for b
      using c(6) that by (metis count_list_0_iff)
    ultimately show ?thesis using c(4) by blast
  qed
  show ?thesis using one unfolding edge_rel_def ptrs_nodes [OF g] by blast
qed

lemma edges_feeds: "edges a b \<noteq> 0 \<longleftrightarrow> n_name a \<noteq> n_name b \<and> feeds a b \<noteq> []"
  by (simp add: edges_def)

lemma ranked_acyclic:
  assumes g: "graph_ok g" and r: "ranked (nodes_of g)"
  shows "acyclic (edge_rel g)"
proof -
  obtain rk :: "string \<Rightarrow> nat" where rk: "\<forall>a\<in>set (nodes_of g). \<forall>b\<in>set (nodes_of g). feeds a b \<noteq> [] \<longrightarrow> rk (n_name a) < rk (n_name b)"
    using r unfolding ranked_def by blast
  define f where "f p = - int (rk (n_name (the_inv_into (set (nodes_of g)) (ptr_of g) p)))" for p
  have inj: "inj_on (ptr_of g) (set (nodes_of g))" by (rule inj_onI) (simp add: ptr_of_inj [OF g])
  have "f (ptr_of g a) = - int (rk (n_name a))" if "a \<in> set (nodes_of g)" for a
    using the_inv_into_f_f [OF inj that] by (simp add: f_def)
  then have "f q < f p" if "(p, q) \<in> edge_rel g" for p q
    using that rk unfolding edge_rel_nodes [OF g] edges_feeds by fastforce
  then show ?thesis by (rule acyclicI_order)
qed

section \<open>Orders as lists of nodes\<close>

lemma deref_ptrs:
  assumes g: "graph_ok g" and ps: "set ps \<subseteq> ptrs g"
  obtains ns where "deref_all g ps = Inr ns" "map (ptr_of g) ns = ps" "set ns \<subseteq> set (nodes_of g)"
proof -
  have "\<exists>ns. deref_all g ps = Inr ns \<and> map (ptr_of g) ns = ps \<and> set ns \<subseteq> set (nodes_of g)"
    using ps
  proof (induction ps)
    case (Cons p ps)
    then obtain n ns where "n \<in> set (nodes_of g)" "p = ptr_of g n" "deref_all g ps = Inr ns" "map (ptr_of g) ns = ps"
        "set ns \<subseteq> set (nodes_of g)"
      unfolding ptrs_nodes [OF g] by auto
    then show ?case using node_facts(3) [OF g] by (intro exI [of _ "n # ns"]) (simp add: deref_all_def)
  qed (simp add: deref_all_def)
  then show ?thesis using that by blast
qed

lemma same_nodes:
  assumes g: "graph_ok g" and ns: "map (ptr_of g) ns = ps" "set ns \<subseteq> set (nodes_of g)" and ps: "set ps = ptrs g"
  shows "set ns = set (nodes_of g)"
proof
  show "set (nodes_of g) \<subseteq> set ns"
  proof
    fix n assume n: "n \<in> set (nodes_of g)"
    then have "ptr_of g n \<in> set ps" using ps ptrs_nodes [OF g] by simp
    then obtain m where m: "m \<in> set ns" "ptr_of g m = ptr_of g n" using ns(1) by auto
    then have "m = n" using ptr_of_inj [OF g _ n] ns(2) by blast
    then show "n \<in> set ns" using m(1) by simp
  qed
qed (rule ns(2))

text \<open>What makes nodes run in any order along the edges.\<close>

definition writes_once :: "node list \<Rightarrow> bool" where
  "writes_once ns = (distinct (map n_name ns) \<and> (\<forall>n\<in>set ns. length (n_outputs n) = 1 \<and> set (n_outputs n) \<inter> set (n_inputs n) = {}) \<and>
     (\<forall>a\<in>set ns. \<forall>b\<in>set ns. a \<noteq> b \<longrightarrow> set (n_outputs a) \<inter> set (n_outputs b) = {}))"

lemma wf_view_writes_once: "wf_view i v \<Longrightarrow> writes_once (snd v)"
  unfolding wf_view_def writes_once_def list_all_iff
  using output_owner [of "snd v"] ranked_self [of "snd v"] by (auto 4 4 simp: disjoint_iff)

text \<open>A list of the nodes in which every edge goes forward.\<close>

definition forward :: "node list \<Rightarrow> bool" where
  "forward ns = sorted_wrt (\<lambda>a b. edges b a = 0) ns"

lemma forward_runnable:
  assumes w: "writes_once ms" and s: "set ns = set ms" "distinct ns" and f: "forward ns"
  shows "runnable ns"
proof -
  have "inj_on n_name (set ns)" using w unfolding writes_once_def s(1) distinct_map by blast
  then have "distinct (map n_name ns)" using s(2) by (simp add: distinct_map)
  then have 1: "sorted_wrt (\<lambda>a b. set (n_outputs b) \<inter> set (n_inputs a) = {}) ns"
    using f unfolding forward_def
  proof (induction ns)
    case (Cons n ns)
    have "set (n_outputs b) \<inter> set (n_inputs n) = {}" if b: "b \<in> set ns" for b
    proof -
      have "n_name b \<in> n_name ` set ns" using b by (rule imageI)
      then have "n_name b \<noteq> n_name n" "edges b n = 0" using Cons.prems(1,2) b by (metis distinct.simps(2) list.simps(9) set_map) (use Cons.prems(2) b in simp)
      then have "\<not> feeds b n \<noteq> []" using edges_feeds by metis
      then show ?thesis unfolding feeds_iff by blast
    qed
    moreover have "sorted_wrt (\<lambda>a b. set (n_outputs b) \<inter> set (n_inputs a) = {}) ns" using Cons by simp
    ultimately show ?case by simp
  qed simp
  have "distinct (concat (map n_outputs ns))"
  proof (subst outputs_distinct_iff)
    show "distinct (n_outputs n)" if "n \<in> set ns" for n
      using w that s(1) by (auto simp: writes_once_def length_Suc_conv)
    show "distinct ns" by (rule s(2))
    show "\<forall>a\<in>set ns. \<forall>b\<in>set ns. a \<noteq> b \<longrightarrow> set (n_outputs a) \<inter> set (n_outputs b) = {}"
      using w unfolding writes_once_def s(1) by blast
  qed
  moreover have "\<forall>n\<in>set ns. set (n_outputs n) \<inter> set (n_inputs n) = {} \<and> length (n_outputs n) = 1"
    using w unfolding writes_once_def s(1) by blast
  ultimately show ?thesis using 1 unfolding runnable_def by blast
qed

lemma before_sorted:
  "distinct xs \<Longrightarrow> \<forall>p\<in>set xs. \<forall>q\<in>set xs. R p q \<longrightarrow> before xs p q \<Longrightarrow> sorted_wrt (\<lambda>p q. \<not> R q p) xs"
proof (induction xs)
  case (Cons x xs)
  have "\<forall>p\<in>set xs. \<forall>q\<in>set xs. R p q \<longrightarrow> before xs p q"
    using Cons.prems by (auto simp: before_Cons)
  moreover have "\<not> R q x" if "q \<in> set xs" for q
    using Cons.prems that before_last [of xs q x] by (auto simp: before_Cons)
  ultimately show ?case using Cons by simp
qed simp

lemma order_nodes:
  assumes g: "graph_ok g" and t: "topologicalSort g = Inr order"
  obtains ns where "deref_all g order = Inr ns" "map (ptr_of g) ns = order" "distinct ns" "set ns = set (nodes_of g)" "forward ns"
proof -
  have o: "distinct order" "set order = ptrs g" "\<forall>(p, q)\<in>edge_rel g. before order p q"
    using topologicalSort_order [OF g t] by (simp_all add: topo_order_def)
  obtain ns where ns: "deref_all g order = Inr ns" "map (ptr_of g) ns = order" "set ns \<subseteq> set (nodes_of g)"
    using deref_ptrs [OF g, of order] o(2) by auto
  note s = same_nodes [OF g ns(2,3) o(2)]
  have "sorted_wrt (\<lambda>p q. \<not> (q, p) \<in> edge_rel g) order"
    by (rule before_sorted [OF o(1), where R = "\<lambda>p q. (p, q) \<in> edge_rel g"]) (use o(3) in blast)
  then have "sorted_wrt (\<lambda>a b. \<not> (ptr_of g b, ptr_of g a) \<in> edge_rel g) ns" unfolding ns(2) [symmetric] sorted_wrt_map .
  then have "forward ns"
    unfolding forward_def by (rule sorted_wrt_mono_rel [rotated]) (use s edge_rel_nodes [OF g] in auto)
  moreover have "distinct ns" using o(1) ns(2) by (metis distinct_map)
  ultimately show ?thesis using that ns(1,2) s by blast
qed

section \<open>Levels as lists of nodes\<close>

text \<open>Nodes that do not touch each other's tensors.\<close>

definition no_edges :: "node list \<Rightarrow> bool" where
  "no_edges ns = (distinct ns \<and> (\<forall>a\<in>set ns. \<forall>b\<in>set ns. edges a b = 0))"

lemma distinct_concat_apart: "distinct (concat Ls) \<Longrightarrow> i < j \<Longrightarrow> j < length Ls \<Longrightarrow> p \<in> set (Ls ! i) \<Longrightarrow> p \<notin> set (Ls ! j)"
proof (induction Ls arbitrary: i j)
  case (Cons L Ls)
  obtain k where k: "j = Suc k" "k < length Ls" using Cons.prems(2,3) by (cases j) auto
  show ?case
  proof (cases i)
    case 0
    have "set (Ls ! k) \<subseteq> set (concat Ls)" using nth_mem [OF k(2)] by auto
    then show ?thesis using Cons.prems(1,4) 0 k by auto
  next
    case (Suc l)
    then show ?thesis using Cons.IH [of l k] Cons.prems k by auto
  qed
qed simp

lemma layered_flat:
  assumes "layered g Ls"
  shows "sorted_wrt (\<lambda>p q. (q, p) \<notin> edge_rel g) (concat Ls)" "\<forall>L\<in>set Ls. \<forall>p\<in>set L. \<forall>q\<in>set L. (p, q) \<notin> edge_rel g"
proof -
  have d: "distinct (concat Ls)" and e: "\<And>i p q. i < length Ls \<Longrightarrow> p \<in> set (Ls ! i) \<Longrightarrow> (q, p) \<in> edge_rel g \<Longrightarrow> \<exists>j<i. q \<in> set (Ls ! j)"
    using assms unfolding layered_def by blast+
  have apart: "i = j" if "i < length Ls" "j < length Ls" "p \<in> set (Ls ! i)" "p \<in> set (Ls ! j)" for i j p
    using distinct_concat_apart [OF d, of i j p] distinct_concat_apart [OF d, of j i p] that by (meson linorder_neqE_nat)
  have lev: "\<forall>i<length Ls. \<forall>j<length Ls. \<forall>p\<in>set (Ls ! i). \<forall>q\<in>set (Ls ! j). (q, p) \<in> edge_rel g \<longrightarrow> j < i"
    using e apart by (metis order_less_trans)
  show "\<forall>L\<in>set Ls. \<forall>p\<in>set L. \<forall>q\<in>set L. (p, q) \<notin> edge_rel g"
    using lev by (metis in_set_conv_nth less_irrefl)
  show "sorted_wrt (\<lambda>p q. (q, p) \<notin> edge_rel g) (concat Ls)"
    using lev
  proof (induction Ls)
    case (Cons L Ls)
    have "\<forall>i<length Ls. \<forall>j<length Ls. \<forall>p\<in>set (Ls ! i). \<forall>q\<in>set (Ls ! j). (q, p) \<in> edge_rel g \<longrightarrow> j < i"
      using Cons.prems by (metis Suc_less_eq length_Cons nth_Cons_Suc)
    then have IH: "sorted_wrt (\<lambda>p q. (q, p) \<notin> edge_rel g) (concat Ls)" by (rule Cons.IH)
    have own: "(q, p) \<notin> edge_rel g" if "p \<in> set L" "q \<in> set L" for p q
      using Cons.prems [rule_format, of 0 0 p q] that by auto
    have later: "(q, p) \<notin> edge_rel g" if p: "p \<in> set L" and q: "q \<in> set (concat Ls)" for p q
    proof -
      from q obtain L' where "L' \<in> set Ls" "q \<in> set L'" by auto
      then obtain j where "j < length Ls" "q \<in> set (Ls ! j)" by (metis in_set_conv_nth)
      then show ?thesis using Cons.prems [rule_format, of 0 "Suc j" p q] p by auto
    qed
    have "sorted_wrt (\<lambda>p q. (q, p) \<notin> edge_rel g) L" using own by (simp add: sorted_wrt_iff_nth_less)
    then show ?case using IH later by (simp add: sorted_wrt_append)
  qed simp
qed

lemma level_nodes:
  assumes g: "graph_ok g" and t: "topologicalSort g = Inr order"
  obtains Ls nss where "executionLevels g = Inr Ls" "rmap (deref_all g) Ls = Inr nss" "distinct (concat nss)"
    "set (concat nss) = set (nodes_of g)" "forward (concat nss)" "\<forall>ns\<in>set nss. no_edges ns \<and> ns \<noteq> []"
proof -
  obtain Ls where L: "executionLevels g = Inr Ls" "layered g Ls" using executionLevels_spec [OF g t] by blast
  have d: "distinct (concat Ls)" "set (concat Ls) = ptrs g" "\<forall>L\<in>set Ls. L \<noteq> []"
    using L(2) unfolding layered_def by (blast, blast, metis in_set_conv_nth)
  have "\<exists>nss. rmap (deref_all g) Ms = Inr nss \<and> map (map (ptr_of g)) nss = Ms \<and> set (concat nss) \<subseteq> set (nodes_of g)"
    if "set (concat Ms) \<subseteq> ptrs g" for Ms
    using that
  proof (induction Ms)
    case (Cons M Ms)
    obtain ns where ns: "deref_all g M = Inr ns" "map (ptr_of g) ns = M" "set ns \<subseteq> set (nodes_of g)"
      by (rule deref_ptrs [OF g, of M]) (use Cons.prems in auto)
    obtain nss where "rmap (deref_all g) Ms = Inr nss" "map (map (ptr_of g)) nss = Ms" "set (concat nss) \<subseteq> set (nodes_of g)"
      using Cons by auto
    then show ?case using ns by (intro exI [of _ "ns # nss"]) auto
  qed simp
  then obtain nss where n: "rmap (deref_all g) Ls = Inr nss" "map (map (ptr_of g)) nss = Ls" "set (concat nss) \<subseteq> set (nodes_of g)"
    using d(2) by blast
  have m: "map (ptr_of g) (concat nss) = concat Ls" using n(2) by (simp add: map_concat)
  have dn: "distinct (concat nss)" using d(1) unfolding m [symmetric] by (metis distinct_map)
  have edge: "edges a b = 0 \<longleftrightarrow> (ptr_of g a, ptr_of g b) \<notin> edge_rel g" if "a \<in> set (concat nss)" "b \<in> set (concat nss)" for a b
    unfolding edge_rel_nodes [OF g] using that n(3) ptr_of_inj [OF g] by (metis subsetD)
  have "sorted_wrt (\<lambda>a b. (ptr_of g b, ptr_of g a) \<notin> edge_rel g) (concat nss)"
    using layered_flat(1) [OF L(2)] unfolding m [symmetric] sorted_wrt_map .
  then have "forward (concat nss)"
    unfolding forward_def by (rule sorted_wrt_mono_rel [rotated]) (use edge in blast)
  moreover have "no_edges ns \<and> ns \<noteq> []" if ns: "ns \<in> set nss" for ns
  proof -
    have M: "map (ptr_of g) ns \<in> set Ls" using ns n(2) by (metis imageI set_map)
    have "distinct ns" using dn ns by (simp add: distinct_concat_iff)
    moreover have "edges a b = 0" if ab: "a \<in> set ns" "b \<in> set ns" for a b
    proof -
      have "ptr_of g a \<in> set (map (ptr_of g) ns)" "ptr_of g b \<in> set (map (ptr_of g) ns)" using ab by simp_all
      then have "(ptr_of g a, ptr_of g b) \<notin> edge_rel g" using layered_flat(2) [OF L(2)] M by blast
      moreover have "a \<in> set (concat nss)" "b \<in> set (concat nss)" using ab ns by auto
      ultimately show ?thesis using edge by blast
    qed
    ultimately show ?thesis using d(3) M by (auto simp: no_edges_def)
  qed
  ultimately show ?thesis
    using that [OF L(1) n(1) dn same_nodes [OF g m n(3) d(2)]] by blast
qed

end
