(* ===== verification/Float_Order.thy ===== *)
theory Float_Order
  imports Complex_Main Floats "HOL-Library.Multiset"
begin

text \<open>
  The comparison \<^verbatim>\<open><\<close> as an order: away from NaN it is a strict weak order, which is what
  \<^verbatim>\<open>std::sort\<close> and a search for the largest element need. Also subtraction and the printing of
  doubles with a fixed number of decimals, which rounds the exact value once, ties to even.
\<close>

section \<open>A key that the order follows\<close>

definition fp_key :: "fpv \<Rightarrow> int \<times> real" where
  "fp_key v = (case v of FNan \<Rightarrow> (0, 0) | FInf s \<Rightarrow> (if s then - 1 else 1, 0)
     | FFin s m e \<Rightarrow> (0, real_of_int (signed_int s m) * 2 powi e))"

definition key_lt :: "int \<times> real \<Rightarrow> int \<times> real \<Rightarrow> bool" where
  "key_lt a b = (fst a < fst b \<or> (fst a = fst b \<and> snd a < snd b))"

lemma key_lt_irrefl [simp]: "\<not> key_lt a a"
  by (simp add: key_lt_def)

lemma key_lt_trans: "key_lt a b \<Longrightarrow> key_lt b c \<Longrightarrow> key_lt a c"
  by (auto simp: key_lt_def)

lemma key_lt_neg_trans: "\<not> key_lt a b \<Longrightarrow> \<not> key_lt b c \<Longrightarrow> \<not> key_lt a c"
  by (auto simp: key_lt_def)

lemma scaled:
  assumes "g \<le> e"
  shows "real_of_int (signed_int s (m * 2 ^ nat (e - g))) * 2 powi g = real_of_int (signed_int s m) * 2 powi e"
proof -
  have "(2 :: real) powi e = 2 powi (e - g) * 2 powi g" by (simp flip: power_int_add)
  moreover have "(2 :: real) powi (e - g) = 2 ^ nat (e - g)" using assms by (simp add: power_int_def)
  ultimately show ?thesis by (simp add: signed_int_def)
qed

lemma fpv_lt_key:
  assumes "a \<noteq> FNan" "b \<noteq> FNan"
  shows "fpv_lt a b \<longleftrightarrow> key_lt (fp_key a) (fp_key b)"
proof (cases a; cases b)
  fix s m e t n f
  assume a: "a = FFin s m e" and b: "b = FFin t n f"
  define g where "g = min e f"
  let ?x = "signed_int s (m * 2 ^ nat (e - g))" and ?y = "signed_int t (n * 2 ^ nat (f - g))"
  have p: "0 < (2 :: real) powi g" by simp
  have "key_lt (fp_key a) (fp_key b) \<longleftrightarrow> real_of_int ?x * 2 powi g < real_of_int ?y * 2 powi g"
    using scaled [of g e s m] scaled [of g f t n] by (simp add: a b fp_key_def key_lt_def g_def)
  also have "\<dots> \<longleftrightarrow> real_of_int ?x < real_of_int ?y" using p by (simp only: mult_less_cancel_right_pos)
  finally show ?thesis by (simp add: a b g_def Let_def)
qed (use assms in \<open>auto simp: fp_key_def key_lt_def\<close>)

lemma f32_lt_key: "\<not> f32_is_nan a \<Longrightarrow> \<not> f32_is_nan b \<Longrightarrow> f32_lt a b \<longleftrightarrow> key_lt (fp_key (f32_val a)) (fp_key (f32_val b))"
  by (simp add: f32_lt_def f32_is_nan_def fpv_lt_key)

definition f64_is_nan :: "f64 \<Rightarrow> bool" where
  "f64_is_nan a = (f64_val a = FNan)"

lemma f64_lt_key: "\<not> f64_is_nan a \<Longrightarrow> \<not> f64_is_nan b \<Longrightarrow> f64_lt a b \<longleftrightarrow> key_lt (fp_key (f64_val a)) (fp_key (f64_val b))"
  by (simp add: f64_lt_def f64_is_nan_def fpv_lt_key)

section \<open>Subtraction and printing\<close>

fun fpv_neg :: "fpv \<Rightarrow> fpv" where
  "fpv_neg FNan = FNan"
| "fpv_neg (FInf s) = FInf (\<not> s)"
| "fpv_neg (FFin s m e) = FFin (\<not> s) m e"

definition f64_sub :: "f64 \<Rightarrow> f64 \<Rightarrow> f64" where
  "f64_sub a b = word_of_int (fpv_add 11 52 (f64_val a) (fpv_neg (f64_val b)))"

text \<open>The decimal digits of \<open>n\<close> with the point before the last \<open>p\<close>, as \<^verbatim>\<open>std::fixed\<close> prints them.\<close>

definition with_point :: "nat \<Rightarrow> nat \<Rightarrow> string" where
  "with_point p n =
     (let ds = nat_to_string n; ds = replicate (p + 1 - length ds) CHR ''0'' @ ds; k = length ds - p
      in if p = 0 then ds else take k ds @ CHR ''.'' # drop k ds)"

definition fpv_fixed :: "nat \<Rightarrow> fpv \<Rightarrow> string" where
  "fpv_fixed p v = (case v of
     FNan \<Rightarrow> ''nan''
   | FInf s \<Rightarrow> if s then ''-inf'' else ''inf''
   | FFin s m e \<Rightarrow>
       (let n = (if 0 \<le> e then m * 2 ^ nat e * 10 ^ p else rne (m * 10 ^ p) (nat (- e)))
        in (if s then ''-'' else []) @ with_point p (nat n)))"

definition f64_fixed :: "nat \<Rightarrow> f64 \<Rightarrow> string" where
  "f64_fixed p x = fpv_fixed p (f64_val x)"

section \<open>Sorting by a comparator\<close>

fun insort_by :: "('a \<Rightarrow> 'a \<Rightarrow> bool) \<Rightarrow> 'a \<Rightarrow> 'a list \<Rightarrow> 'a list" where
  "insort_by lt x [] = [x]"
| "insort_by lt x (y # ys) = (if lt y x then y # insort_by lt x ys else x # y # ys)"

definition sort_by :: "('a \<Rightarrow> 'a \<Rightarrow> bool) \<Rightarrow> 'a list \<Rightarrow> 'a list" where
  "sort_by lt xs = foldr (insort_by lt) xs []"

lemma set_insort_by [simp]: "set (insort_by lt x ys) = insert x (set ys)"
  by (induction ys) auto

lemma mset_insort_by [simp]: "mset (insort_by lt x ys) = add_mset x (mset ys)"
  by (induction ys) auto

lemma mset_sort_by [simp]: "mset (sort_by lt xs) = mset xs"
  by (induction xs) (auto simp: sort_by_def)

lemma set_sort_by [simp]: "set (sort_by lt xs) = set xs"
  by (metis mset_sort_by set_mset_mset)

text \<open>On the elements the list holds the comparator has to be a strict weak order.\<close>

definition weak_order_on :: "'a set \<Rightarrow> ('a \<Rightarrow> 'a \<Rightarrow> bool) \<Rightarrow> bool" where
  "weak_order_on A lt = (\<forall>x\<in>A. \<forall>y\<in>A. (lt x y \<longrightarrow> \<not> lt y x) \<and> (\<forall>z\<in>A. \<not> lt x y \<longrightarrow> \<not> lt y z \<longrightarrow> \<not> lt x z))"

lemma insort_by_sorted:
  assumes "weak_order_on A lt" "insert x (set ys) \<subseteq> A" "sorted_wrt (\<lambda>a b. \<not> lt b a) ys"
  shows "sorted_wrt (\<lambda>a b. \<not> lt b a) (insort_by lt x ys)"
  using assms(2,3)
proof (induction ys)
  case (Cons y ys)
  show ?case
  proof (cases "lt y x")
    case True
    then have "\<not> lt x y" using assms(1) Cons.prems(1) by (auto simp: weak_order_on_def)
    then show ?thesis using True Cons by auto
  next
    case False
    have "\<not> lt z x" if "z \<in> set ys" for z
      using assms(1) Cons.prems False that unfolding weak_order_on_def by (auto simp: subset_iff)
    then show ?thesis using False Cons.prems(2) by simp
  qed
qed simp

lemma sort_by_sorted:
  assumes "weak_order_on (set xs) lt"
  shows "sorted_wrt (\<lambda>a b. \<not> lt b a) (sort_by lt xs)"
proof -
  have "sorted_wrt (\<lambda>a b. \<not> lt b a) (sort_by lt ys)" if "set ys \<subseteq> set xs" for ys
    using that
  proof (induction ys)
    case (Cons y ys)
    then show ?case using insort_by_sorted [OF assms, of y "sort_by lt ys"] by (simp add: sort_by_def) (metis sort_by_def set_sort_by)
  qed (simp add: sort_by_def)
  then show ?thesis by simp
qed

text \<open>Comparing by a double that is not a NaN, ascending or descending.\<close>

lemma key_weak_order: "weak_order_on A (\<lambda>x y. key_lt (k x) (k y))" "weak_order_on A (\<lambda>x y. key_lt (k y) (k x))"
  unfolding weak_order_on_def by (auto simp: key_lt_def)

lemma weak_order_cong:
  assumes "weak_order_on A lt'" "\<forall>x\<in>A. \<forall>y\<in>A. lt x y = lt' x y"
  shows "weak_order_on A lt"
  using assms unfolding weak_order_on_def by (metis (no_types, lifting))

lemma f64_weak_order:
  assumes "\<forall>x\<in>A. \<not> f64_is_nan (f x)"
  shows "weak_order_on A (\<lambda>x y. f64_lt (f x) (f y))" "weak_order_on A (\<lambda>x y. f64_lt (f y) (f x))"
proof -
  have "\<forall>x\<in>A. \<forall>y\<in>A. f64_lt (f x) (f y) = key_lt (fp_key (f64_val (f x))) (fp_key (f64_val (f y)))"
    using assms f64_lt_key by blast
  from weak_order_cong [OF key_weak_order(1) this] show "weak_order_on A (\<lambda>x y. f64_lt (f x) (f y))" .
  have "\<forall>x\<in>A. \<forall>y\<in>A. f64_lt (f y) (f x) = key_lt (fp_key (f64_val (f y))) (fp_key (f64_val (f x)))"
    using assms f64_lt_key by blast
  from weak_order_cong [OF key_weak_order(2) this] show "weak_order_on A (\<lambda>x y. f64_lt (f y) (f x))" .
qed

end
