(* ===== verification/Profiler.thy ===== *)
theory Profiler
  imports Graph_Topo Float_Order Text
begin

text \<open>
  runtime/profiler.h and runtime/profiler.cpp: per-node timings, run totals and the printed report.
  Elapsed times are doubles handed in by the caller; the clock is not modelled, nor is the mutex,
  under which every operation runs as one step. \<open>std::sort\<close> is a stable sort of the hash order,
  which is arbitrary, so every order it may give to equal elements is covered.
\<close>

section \<open>The class\<close>

record timing =
  t_node :: string
  t_opType :: string
  t_calls :: u64
  t_totalMs :: f64

record profiler =
  p_enabled :: bool
  p_timings :: "string \<rightharpoonup> timing"
  p_timingOrder :: "string list"
  p_totalMs :: f64
  p_runs :: u64

definition timing_new :: timing where
  "timing_new = \<lparr>t_node = [], t_opType = [], t_calls = 0, t_totalMs = 0\<rparr>"

definition profiler_new :: profiler where
  "profiler_new = \<lparr>p_enabled = False, p_timings = Map.empty, p_timingOrder = [], p_totalMs = 0, p_runs = 0\<rparr>"

definition setEnabled :: "bool \<Rightarrow> profiler \<Rightarrow> profiler" where
  "setEnabled b p = p\<lparr>p_enabled := b\<rparr>"

definition profiler_record :: "insert_order \<Rightarrow> string \<Rightarrow> string \<Rightarrow> f64 \<Rightarrow> profiler \<Rightarrow> profiler" where
  "profiler_record ins node opType elapsedMs p =
     (if \<not> p_enabled p then p
      else let t = (case p_timings p node of None \<Rightarrow> timing_new | Some t \<Rightarrow> t);
               t = (if t_calls t = 0 then t\<lparr>t_node := node, t_opType := opType\<rparr> else t);
               t = t\<lparr>t_calls := t_calls t + 1, t_totalMs := f64_add (t_totalMs t) elapsedMs\<rparr>
           in p\<lparr>p_timings := (p_timings p)(node \<mapsto> t),
                p_timingOrder := (if p_timings p node = None then ins (p_timingOrder p) node else p_timingOrder p)\<rparr>)"

definition recordTotal :: "f64 \<Rightarrow> profiler \<Rightarrow> profiler" where
  "recordTotal elapsedMs p =
     (if \<not> p_enabled p then p else p\<lparr>p_totalMs := f64_add (p_totalMs p) elapsedMs, p_runs := p_runs p + 1\<rparr>)"

definition profiler_reset :: "profiler \<Rightarrow> profiler" where
  "profiler_reset p = p\<lparr>p_timings := Map.empty, p_timingOrder := [], p_totalMs := 0, p_runs := 0\<rparr>"

definition profiler_timings :: "profiler \<Rightarrow> timing list" where
  "profiler_timings p = sort_by (\<lambda>a b. f64_lt (t_totalMs b) (t_totalMs a)) (map (\<lambda>n. the (p_timings p n)) (p_timingOrder p))"

section \<open>The report\<close>

text \<open>\<^verbatim>\<open>std::setw\<close> with \<^verbatim>\<open>std::left\<close> and \<^verbatim>\<open>std::right\<close>.\<close>

definition padl :: "nat \<Rightarrow> string \<Rightarrow> string" where
  "padl w s = s @ replicate (w - length s) CHR '' ''"

definition padr :: "nat \<Rightarrow> string \<Rightarrow> string" where
  "padr w s = replicate (w - length s) CHR '' '' @ s"

definition f64_100 :: f64 where "f64_100 = f64_of_nat 100"

definition report_row :: "f64 \<Rightarrow> timing \<Rightarrow> string" where
  "report_row nodeTotal t =
     (let share = (if f64_lt 0 nodeTotal then f64_div (f64_mul f64_100 (t_totalMs t)) nodeTotal else 0)
      in ''  '' @ padl 14 (t_node t) @ padl 11 (t_opType t) @ padr 9 (nat_to_string (unat (t_calls t))) @
         padr 12 (f64_fixed 4 (t_totalMs t)) @
         padr 12 (f64_fixed 4 (f64_div (f64_mul (t_totalMs t) (f64_of_nat 1000)) (f64_of_nat (unat (t_calls t))))) @
         padr 8 (f64_fixed 4 share) @ ''%'' @ [newline])"

definition profiler_report :: "profiler \<Rightarrow> string" where
  "profiler_report p =
     (let sorted = profiler_timings p; nodeTotal = foldl f64_add 0 (map t_totalMs sorted)
      in ''  '' @ padl 14 ''node'' @ padl 11 ''op'' @ padr 9 ''calls'' @ padr 12 ''total ms'' @ padr 12 ''us/call'' @
         padr 9 (''share'' @ [newline]) @ concat (map (report_row nodeTotal) sorted) @
         (if 0 < p_runs p
          then let overhead = (if f64_lt 0 (p_totalMs p)
                      then f64_div (f64_mul f64_100 (f64_sub (p_totalMs p) nodeTotal)) (p_totalMs p) else 0)
               in ''  operator time: '' @ f64_fixed 4 nodeTotal @ '' ms of '' @ f64_fixed 4 (p_totalMs p) @ '' ms wall ('' @
                  f64_fixed 4 (f64_sub f64_100 overhead) @ ''% useful work, '' @ f64_fixed 4 overhead @
                  ''% scheduling overhead)'' @ [newline]
          else []))"

section \<open>Accounting\<close>

text \<open>What was recorded, as a list of events: node, operator, elapsed time.\<close>

type_synonym prof_event = "string \<times> string \<times> f64"

definition record_all :: "insert_order \<Rightarrow> prof_event list \<Rightarrow> profiler \<Rightarrow> profiler" where
  "record_all ins evs p = fold (\<lambda>(n, op, ms). profiler_record ins n op ms) evs p"

definition account :: "string \<Rightarrow> prof_event list \<Rightarrow> timing option" where
  "account n evs = (case filter (\<lambda>e. fst e = n) evs of
     [] \<Rightarrow> None
   | x # xs \<Rightarrow> Some \<lparr>t_node = n, t_opType = fst (snd x), t_calls = word_of_nat (length (x # xs)),
        t_totalMs = foldl f64_add 0 (map (\<lambda>e. snd (snd e)) (x # xs))\<rparr>)"

definition prof_ok :: "profiler \<Rightarrow> bool" where
  "prof_ok p = (distinct (p_timingOrder p) \<and> set (p_timingOrder p) = dom (p_timings p))"

lemma profiler_record_frame [simp]:
  "p_enabled (profiler_record ins n op ms p) = p_enabled p" "p_totalMs (profiler_record ins n op ms p) = p_totalMs p"
  "p_runs (profiler_record ins n op ms p) = p_runs p"
  by (simp_all add: profiler_record_def Let_def)

lemma profiler_record_ok:
  assumes ins: "ins_ok ins" and p: "prof_ok p"
  shows "prof_ok (profiler_record ins n op ms p)"
proof (cases "p_timings p n")
  case None
  then have "n \<notin> set (p_timingOrder p)" using p by (auto simp: prof_ok_def)
  then have "distinct (ins (p_timingOrder p) n)" "set (ins (p_timingOrder p) n) = insert n (set (p_timingOrder p))"
    using ins p unfolding ins_ok_def prof_ok_def by blast+
  then show ?thesis using None p by (auto simp: prof_ok_def profiler_record_def Let_def)
next
  case (Some t)
  then have "n \<in> dom (p_timings p)" by blast
  then show ?thesis using Some p by (auto simp: prof_ok_def profiler_record_def Let_def)
qed

lemma account_snoc:
  assumes "length evs < 2 ^ 64 - 1"
  shows "account k (evs @ [(n, op, ms)]) =
    (if k = n then Some (let t = (case account n evs of None \<Rightarrow> timing_new | Some t \<Rightarrow> t);
        t = (if t_calls t = 0 then t\<lparr>t_node := n, t_opType := op\<rparr> else t)
      in t\<lparr>t_calls := t_calls t + 1, t_totalMs := f64_add (t_totalMs t) ms\<rparr>)
     else account k evs)"
proof (cases "filter (\<lambda>e. fst e = n) evs")
  case Nil
  then show ?thesis by (simp add: account_def timing_new_def Let_def)
next
  case (Cons x xs)
  have "length (x # xs) < 2 ^ 64"
    using assms Cons length_filter_le [of "\<lambda>e. fst e = n" evs] by simp
  then have "(word_of_nat (length (x # xs)) :: u64) \<noteq> 0"
    using unat_word_of_nat [of "length (x # xs)"] by auto
  then show ?thesis using Cons by (simp add: account_def Let_def add.commute)
qed

lemma record_all_accounts:
  assumes "ins_ok ins" "p_enabled p" "p_timings p = Map.empty" "p_timingOrder p = []" "length evs < 2 ^ 64"
  shows "p_enabled (record_all ins evs p) \<and> prof_ok (record_all ins evs p) \<and> (\<forall>n. p_timings (record_all ins evs p) n = account n evs)"
  using assms(5)
proof (induction evs rule: rev_induct)
  case Nil
  then show ?case using assms by (simp add: record_all_def account_def prof_ok_def)
next
  case (snoc e evs)
  obtain n op ms where e: "e = (n, op, ms)" by (cases e)
  have len: "length evs < 2 ^ 64 - 1" using snoc.prems by simp
  let ?p = "record_all ins evs p"
  have p: "p_enabled ?p" "prof_ok ?p" "p_timings ?p k = account k evs" for k using snoc by auto
  have "record_all ins (evs @ [e]) p = profiler_record ins n op ms ?p" by (simp add: record_all_def e)
  moreover have "p_timings (profiler_record ins n op ms ?p) k = account k (evs @ [e])" for k
    using account_snoc [OF len] p(1,3) by (simp add: e profiler_record_def Let_def)
  ultimately show ?case using p profiler_record_ok [OF assms(1) p(2)] by simp
qed

text \<open>The profiler accounts for every recorded call. From an enabled, empty profiler, after any
  sequence of fewer than \<open>2^64\<close> records the entry of a node counts its records, adds their times
  in order and keeps the operator of the first; \<^verbatim>\<open>timings\<close> lists exactly these entries, by
  decreasing total when no total is a NaN.\<close>

lemma profiler_accounts:
  assumes "ins_ok ins" "length evs < 2 ^ 64"
  defines "p \<equiv> record_all ins evs (setEnabled True profiler_new)"
  shows "(\<forall>n. p_timings p n = account n evs) \<and>
    set (profiler_timings p) = {t. \<exists>n. account n evs = Some t} \<and> distinct (map t_node (profiler_timings p)) \<and>
    ((\<forall>t\<in>set (profiler_timings p). \<not> f64_is_nan (t_totalMs t)) \<longrightarrow>
      sorted_wrt (\<lambda>a b. \<not> f64_lt (t_totalMs a) (t_totalMs b)) (profiler_timings p))"
proof -
  have p: "prof_ok p" "p_timings p n = account n evs" for n
    using record_all_accounts [OF assms(1) _ _ _ assms(2), of "setEnabled True profiler_new"]
    by (simp_all add: p_def setEnabled_def profiler_new_def)
  let ?ts = "map (\<lambda>n. the (p_timings p n)) (p_timingOrder p)"
  have dom: "set (p_timingOrder p) = {n. account n evs \<noteq> None}" and dist: "distinct (p_timingOrder p)"
    using p by (auto simp: prof_ok_def dom_def)
  have node: "t_node (the (account n evs)) = n" if "account n evs \<noteq> None" for n
    using that by (auto simp: account_def split: list.splits)
  have set: "set (profiler_timings p) = {t. \<exists>n. account n evs = Some t}"
    unfolding profiler_timings_def set_sort_by set_map dom p(2) by (force simp: image_iff)
  have "mset (map t_node (profiler_timings p)) = mset (map t_node ?ts)"
    unfolding profiler_timings_def mset_map mset_sort_by ..
  also have "map t_node ?ts = p_timingOrder p"
    using dom node by (auto simp: p(2) intro: map_idI)
  finally have "distinct (map t_node (profiler_timings p))"
    using dist by (metis mset_eq_imp_distinct_iff)
  moreover have "sorted_wrt (\<lambda>a b. \<not> f64_lt (t_totalMs a) (t_totalMs b)) (profiler_timings p)"
    if "\<forall>t\<in>set (profiler_timings p). \<not> f64_is_nan (t_totalMs t)"
  proof -
    have "\<forall>t\<in>set ?ts. \<not> f64_is_nan (t_totalMs t)" using that unfolding profiler_timings_def set_sort_by .
    from sort_by_sorted [OF f64_weak_order(2) [OF this]] show ?thesis unfolding profiler_timings_def .
  qed
  ultimately show ?thesis using p(2) set by blast
qed

end
