(* ===== verification/Model_File.thy ===== *)
theory Model_File
  imports Model
begin

text \<open>
  model/model_loader.h and model/model_loader.cpp: the OIEN format. A file is a list of bytes, a
  reader takes what is left of it and returns a value with the rest; the state of the stream after
  an exception is not looked at. Opening the file and failing to open it are outside the model, as
  is running out of memory; a vector longer than \<^verbatim>\<open>max_size()\<close> throws \<^verbatim>\<open>length_error\<close>.
\<close>

section \<open>Bytes\<close>

type_synonym 'a reader = "u8 list \<Rightarrow> ('a \<times> u8 list) res"

definition read_then :: "'a reader \<Rightarrow> ('a \<Rightarrow> 'b reader) \<Rightarrow> 'b reader" where
  "read_then r f bs = rbind (r bs) (\<lambda>(x, bs). f x bs)"

definition read_done :: "'a \<Rightarrow> 'a reader" where
  "read_done x bs = Inr (x, bs)"

definition read_fail :: "exn \<Rightarrow> 'a reader" where
  "read_fail e bs = Inl e"

text \<open>Little-endian numbers of \<open>n\<close> bytes.\<close>

fun to_le :: "nat \<Rightarrow> nat \<Rightarrow> u8 list" where
  "to_le 0 x = []"
| "to_le (Suc n) x = word_of_nat x # to_le n (x div 256)"

fun of_le :: "u8 list \<Rightarrow> nat" where
  "of_le [] = 0"
| "of_le (b # bs) = unat b + 256 * of_le bs"

definition char_byte :: "char \<Rightarrow> u8" where "char_byte c = of_char c"

definition byte_char :: "u8 \<Rightarrow> char" where "byte_char b = char_of (unat b)"

section \<open>Writing\<close>

definition writeU32 :: "u32 \<Rightarrow> u8 list" where "writeU32 v = to_le 4 (unat v)"

definition writeU64 :: "u64 \<Rightarrow> u8 list" where "writeU64 v = to_le 8 (unat v)"

definition writeI64 :: "i64 \<Rightarrow> u8 list" where "writeI64 v = to_le 8 (unat v)"

definition writeF32 :: "f32 \<Rightarrow> u8 list" where "writeF32 v = to_le 4 (unat v)"

text \<open>\<^verbatim>\<open>static_cast<uint32_t>\<close> of a size.\<close>

definition writeCount :: "nat \<Rightarrow> u8 list" where "writeCount n = writeU32 (word_of_nat n)"

definition writeString :: "string \<Rightarrow> u8 list" where
  "writeString s = writeCount (length s) @ map char_byte s"

definition writeStrings :: "string list \<Rightarrow> u8 list" where
  "writeStrings xs = writeCount (length xs) @ concat (map writeString xs)"

definition writeInitializer :: "string \<Rightarrow> f32 tensor \<Rightarrow> u8 list" where
  "writeInitializer name t = writeString name @ writeCount (length (t_shape t)) @
     concat (map writeU64 (t_shape t)) @ concat (map writeF32 (t_data t))"

fun writeAttribute :: "attribute \<Rightarrow> u8 list" where
  "writeAttribute (AInt v) = 0 # writeI64 v"
| "writeAttribute (AFloat v) = 1 # writeF32 v"
| "writeAttribute (AInts vs) = 2 # writeCount (length vs) @ concat (map writeI64 vs)"

text \<open>\<open>ao\<close> enumerates the attribute names of a node.\<close>

definition writeNode :: "(node \<Rightarrow> string list) \<Rightarrow> node \<Rightarrow> u8 list" where
  "writeNode ao n = writeString (n_name n) @ writeString (n_opTypeStr n) @ writeStrings (n_inputs n) @
     writeStrings (n_outputs n) @ writeCount (length (ao n)) @
     concat (map (\<lambda>k. writeString k @ writeAttribute (the (n_attrs n k))) (ao n))"

definition magic :: "u8 list" where "magic = map char_byte ''OIEN''"

definition save_model :: "(node \<Rightarrow> string list) \<Rightarrow> model \<Rightarrow> u8 list res" where
  "save_model ao m =
     rbind (nodesInInsertionOrder (m_graph m)) (\<lambda>ptrs. rbind (deref_all (m_graph m) ptrs) (\<lambda>nodes.
       Inr (magic @ writeU32 1 @
         writeCount (length (m_initOrder m)) @
         concat (map (\<lambda>k. writeInitializer k (the (m_inits m k))) (m_initOrder m)) @
         writeCount (length nodes) @ concat (map (writeNode ao) nodes) @
         writeStrings (g_inputs (m_graph m)) @ writeStrings (g_outputs (m_graph m)))))"

section \<open>Reading\<close>

definition read_bytes :: "string \<Rightarrow> nat \<Rightarrow> u8 list reader" where
  "read_bytes what n bs =
     (if length bs < n then Inl (RuntimeError (''Unexpected end of model file while reading '' @ what))
      else Inr (take n bs, drop n bs))"

definition readU32 :: "u32 reader" where
  "readU32 = read_then (read_bytes ''u32'' 4) (\<lambda>xs. read_done (word_of_nat (of_le xs)))"

definition readU64 :: "u64 reader" where
  "readU64 = read_then (read_bytes ''u64'' 8) (\<lambda>xs. read_done (word_of_nat (of_le xs)))"

definition readI64 :: "i64 reader" where
  "readI64 = read_then (read_bytes ''i64'' 8) (\<lambda>xs. read_done (word_of_nat (of_le xs)))"

definition readF32 :: "f32 reader" where
  "readF32 = read_then (read_bytes ''f32'' 4) (\<lambda>xs. read_done (word_of_nat (of_le xs)))"

definition readString :: "string reader" where
  "readString = read_then readU32 (\<lambda>len. read_then (read_bytes ''string'' (unat len)) (\<lambda>xs. read_done (map byte_char xs)))"

text \<open>A counted loop filling a vector, and one updating a state.\<close>

fun reads :: "nat \<Rightarrow> 'a reader \<Rightarrow> 'a list reader" where
  "reads 0 r = read_done []"
| "reads (Suc n) r = read_then r (\<lambda>x. read_then (reads n r) (\<lambda>xs. read_done (x # xs)))"

fun read_loop :: "nat \<Rightarrow> ('s \<Rightarrow> 's reader) \<Rightarrow> 's \<Rightarrow> 's reader" where
  "read_loop 0 r s = read_done s"
| "read_loop (Suc n) r s = read_then (r s) (read_loop n r)"

definition readStrings :: "string list reader" where
  "readStrings = read_then readU32 (\<lambda>n. reads (unat n) readString)"

text \<open>\<^verbatim>\<open>std::vector<float>(total)\<close>: at most \<^verbatim>\<open>PTRDIFF_MAX / sizeof(float)\<close> elements.\<close>

definition vector_fits :: "u64 \<Rightarrow> bool" where
  "vector_fits n = (unat n \<le> (2 ^ 63 - 1) div 4)"

definition load_initializer :: "insert_order \<Rightarrow> model \<Rightarrow> model reader" where
  "load_initializer ins m =
     read_then readString (\<lambda>name.
     read_then readU32 (\<lambda>ndim.
     read_then (reads (unat ndim) readU64) (\<lambda>dims.
     let total = foldl (*) 1 dims
     in if \<not> vector_fits total then read_fail LengthError
        else read_then (reads (unat total) readF32) (\<lambda>vals bs.
          rbind (tensor_of dims vals CpuAlloc) (\<lambda>t. Inr (addInitializer ins name t m, bs))))))"

definition readAttribute :: "attribute reader" where
  "readAttribute =
     read_then (read_bytes ''attribute tag'' 1) (\<lambda>tag.
     if hd tag = 0 then read_then readI64 (\<lambda>v. read_done (AInt v))
     else if hd tag = 1 then read_then readF32 (\<lambda>v. read_done (AFloat v))
     else if hd tag = 2 then read_then readU32 (\<lambda>n. read_then (reads (unat n) readI64) (\<lambda>vs. read_done (AInts vs)))
     else read_fail (RuntimeError (''Unknown attribute tag in model file: '' @ nat_to_string (unat (hd tag)))))"

text \<open>\<^verbatim>\<open>emplace\<close> keeps the first value of a name that comes twice.\<close>

definition load_attribute :: "(string \<rightharpoonup> attribute) \<Rightarrow> (string \<rightharpoonup> attribute) reader" where
  "load_attribute attrs =
     read_then readString (\<lambda>k. read_then readAttribute (\<lambda>v.
       read_done (if attrs k = None then attrs(k \<mapsto> v) else attrs)))"

definition readNode :: "node reader" where
  "readNode =
     read_then readString (\<lambda>name. read_then readString (\<lambda>opType.
     read_then readStrings (\<lambda>inputs. read_then readStrings (\<lambda>outputs.
     read_then readU32 (\<lambda>numAttrs. read_then (read_loop (unat numAttrs) load_attribute Map.empty) (\<lambda>attrs.
       read_done (mk_node name opType inputs outputs attrs)))))))"

definition load_node :: "insert_order \<Rightarrow> model \<Rightarrow> model reader" where
  "load_node ins m = read_then readNode (\<lambda>n. read_done (m\<lparr>m_graph := addNode ins n (m_graph m)\<rparr>))"

definition load_body :: "insert_order \<Rightarrow> model reader" where
  "load_body ins =
     read_then readU32 (\<lambda>numInitializers. read_then (read_loop (unat numInitializers) (load_initializer ins) model_new) (\<lambda>m.
     read_then readU32 (\<lambda>numNodes. read_then (read_loop (unat numNodes) (load_node ins) m) (\<lambda>m.
     read_then readStrings (\<lambda>inputs. read_then readStrings (\<lambda>outputs.
       read_done (m\<lparr>m_graph := setOutputs outputs (setInputs inputs (m_graph m))\<rparr>)))))))"

definition load_stream :: "insert_order \<Rightarrow> string \<Rightarrow> model reader" where
  "load_stream ins path bs =
     (if take 4 bs \<noteq> magic then Inl (RuntimeError (''Not a valid OIEN model file: '' @ path))
      else read_then readU32 (\<lambda>version.
        if version \<noteq> 1 then read_fail (RuntimeError (''Unsupported OIEN model version: '' @ nat_to_string (unat version)))
        else load_body ins) (drop 4 bs))"

definition load_model :: "insert_order \<Rightarrow> string \<Rightarrow> u8 list \<Rightarrow> model res" where
  "load_model ins path bs = rbind (load_stream ins path bs) (\<lambda>(m, rest). Inr m)"

section \<open>What a reader may rely on\<close>

text \<open>\<open>codes r x bs\<close>: the reader \<open>r\<close> turns the bytes \<open>bs\<close>, whatever follows them, into \<open>x\<close> and
  consumes exactly them. \<open>grows r\<close>: more input never changes what a reader that returned
  read. \<open>clean r P\<close>: the reader throws an exception of the program or returns a value with \<open>P\<close>.\<close>

definition codes :: "'a reader \<Rightarrow> 'a \<Rightarrow> u8 list \<Rightarrow> bool" where
  "codes r x bs = (\<forall>rest. r (bs @ rest) = Inr (x, rest))"

definition grows :: "'a reader \<Rightarrow> bool" where
  "grows r = (\<forall>bs x rest q. r bs = Inr (x, rest) \<longrightarrow> r (bs @ q) = Inr (x, rest @ q))"

definition clean :: "'a reader \<Rightarrow> ('a \<Rightarrow> bool) \<Rightarrow> bool" where
  "clean r P = (\<forall>bs. case r bs of Inl e \<Rightarrow> catchable e | Inr (x, rest) \<Rightarrow> P x)"

named_theorems codes_intros \<open>what the readers make of written values\<close>
named_theorems grows_intros \<open>readers do not look ahead\<close>
named_theorems clean_intros \<open>readers do not run into undefined behaviour\<close>

lemma codes_then: "codes r x bs \<Longrightarrow> codes (f x) y cs \<Longrightarrow> codes (read_then r f) y (bs @ cs)"
  by (simp add: codes_def read_then_def)

lemma codes_done [codes_intros]: "codes (read_done x) x []"
  by (simp add: codes_def read_done_def)

lemma codes_then_done: "codes r x bs \<Longrightarrow> codes (read_then r (\<lambda>x. read_done (f x))) (f x) bs"
  using codes_then [of r x bs "\<lambda>x. read_done (f x)" "f x" "[]"] by (simp add: codes_done)

lemma codes_reads:
  "(\<And>x. x \<in> set xs \<Longrightarrow> codes r x (w x)) \<Longrightarrow> codes (reads (length xs) r) xs (concat (map w xs))"
proof (induction xs)
  case (Cons x xs)
  then have "codes r x (w x)" "codes (reads (length xs) r) xs (concat (map w xs))" by simp_all
  then show ?case by (auto intro!: codes_then codes_then_done)
qed (simp add: codes_done)

lemma codes_loop:
  assumes "P s" and "\<And>x s. x \<in> set xs \<Longrightarrow> P s \<Longrightarrow> codes (r s) (u x s) (w x) \<and> P (u x s)"
  shows "codes (read_loop (length xs) r s) (fold u xs s) (concat (map w xs))"
  using assms
proof (induction xs arbitrary: s)
  case (Cons x xs)
  then have "codes (r s) (u x s) (w x)" "P (u x s)" by simp_all
  moreover from this(2) have "codes (read_loop (length xs) r (u x s)) (fold u xs (u x s)) (concat (map w xs))"
    using Cons by simp
  ultimately show ?case by (auto intro!: codes_then)
qed (simp add: codes_done)

lemma grows_then [grows_intros]: "grows r \<Longrightarrow> (\<And>x. grows (f x)) \<Longrightarrow> grows (read_then r f)"
  unfolding grows_def read_then_def by (auto simp: rbind_eq_Inr)

lemma grows_done [grows_intros]: "grows (read_done x)"
  by (simp add: grows_def read_done_def)

lemma grows_fail [grows_intros]: "grows (read_fail e)"
  by (simp add: grows_def read_fail_def)

lemma grows_if [grows_intros]: "(c \<Longrightarrow> grows r) \<Longrightarrow> (\<not> c \<Longrightarrow> grows s) \<Longrightarrow> grows (if c then r else s)"
  by simp

lemma grows_bytes [grows_intros]: "grows (read_bytes w n)"
  by (auto simp: grows_def read_bytes_def split: if_splits)

lemma grows_reads [grows_intros]: "grows r \<Longrightarrow> grows (reads n r)"
  by (induction n) (auto intro!: grows_intros)

lemma grows_loop [grows_intros]: "(\<And>s. grows (r s)) \<Longrightarrow> grows (read_loop n r s)"
  by (induction n arbitrary: s) (auto intro!: grows_intros)

lemma clean_then: "clean r Q \<Longrightarrow> (\<And>x. Q x \<Longrightarrow> clean (f x) P) \<Longrightarrow> clean (read_then r f) P"
  unfolding clean_def read_then_def
proof
  fix bs
  assume r: "\<forall>bs. case r bs of Inl e \<Rightarrow> catchable e | Inr (x, rest) \<Rightarrow> Q x"
    and f: "\<And>x. Q x \<Longrightarrow> \<forall>bs. case f x bs of Inl e \<Rightarrow> catchable e | Inr (x, rest) \<Rightarrow> P x"
  show "case rbind (r bs) (\<lambda>(x, bs). f x bs) of Inl e \<Rightarrow> catchable e | Inr (x, rest) \<Rightarrow> P x"
    using spec [OF r, of bs] f by (cases "r bs") auto
qed

lemma clean_done: "P x \<Longrightarrow> clean (read_done x) P"
  by (simp add: clean_def read_done_def)

lemma clean_fail: "catchable e \<Longrightarrow> clean (read_fail e) P"
  by (simp add: clean_def read_fail_def)

lemma clean_mono: "clean r P \<Longrightarrow> (\<And>x. P x \<Longrightarrow> Q x) \<Longrightarrow> clean r Q"
  unfolding clean_def by (metis (mono_tags, lifting) old.sum.simps(5,6) prod.case_eq_if sumE)

lemma clean_bytes: "clean (read_bytes w n) (\<lambda>xs. length xs = n)"
  by (auto simp: clean_def read_bytes_def)

lemma clean_reads: "clean r (\<lambda>_. True) \<Longrightarrow> clean (reads n r) (\<lambda>xs. length xs = n)"
  by (induction n) (auto intro!: clean_done elim!: clean_then)

lemma clean_loop: "(\<And>s. P s \<Longrightarrow> clean (r s) P) \<Longrightarrow> P s \<Longrightarrow> clean (read_loop n r s) P"
  by (induction n arbitrary: s) (auto intro!: clean_done clean_then)

section \<open>Numbers and strings\<close>

lemma length_to_le [simp]: "length (to_le n x) = n"
  by (induction n arbitrary: x) auto

lemma of_le_to_le: "of_le (to_le n x) = x mod 256 ^ n"
proof (induction n arbitrary: x)
  case (Suc n)
  have "unat (word_of_nat x :: u8) = x mod 256"
    by (simp add: unsigned_of_nat take_bit_eq_mod)
  then show ?case using Suc by (simp add: mod_mult2_eq)
qed simp

lemma codes_bytes: "codes (read_bytes w (length bs)) bs bs"
  by (simp add: codes_def read_bytes_def)

lemma codes_U32 [codes_intros]: "codes readU32 v (writeU32 v)"
proof -
  have "unat v mod 256 ^ 4 = unat v" using unsigned_less [of v, where ?'a = nat] by simp
  then show ?thesis
    using codes_then_done [OF codes_bytes [of "''u32''" "to_le 4 (unat v)"], of "\<lambda>xs. word_of_nat (of_le xs) :: u32"]
    by (simp add: readU32_def writeU32_def of_le_to_le)
qed

lemma codes_F32 [codes_intros]: "codes readF32 v (writeF32 v)"
proof -
  have "unat v mod 256 ^ 4 = unat v" using unsigned_less [of v, where ?'a = nat] by simp
  then show ?thesis
    using codes_then_done [OF codes_bytes [of "''f32''" "to_le 4 (unat v)"], of "\<lambda>xs. word_of_nat (of_le xs) :: f32"]
    by (simp add: readF32_def writeF32_def of_le_to_le)
qed

lemma codes_U64 [codes_intros]: "codes readU64 v (writeU64 v)"
proof -
  have "unat v mod 256 ^ 8 = unat v" using unsigned_less [of v, where ?'a = nat] by simp
  then show ?thesis
    using codes_then_done [OF codes_bytes [of "''u64''" "to_le 8 (unat v)"], of "\<lambda>xs. word_of_nat (of_le xs) :: u64"]
    by (simp add: readU64_def writeU64_def of_le_to_le)
qed

lemma codes_I64 [codes_intros]: "codes readI64 v (writeI64 v)"
proof -
  have "unat v mod 256 ^ 8 = unat v" using unsigned_less [of v, where ?'a = nat] by simp
  then show ?thesis
    using codes_then_done [OF codes_bytes [of "''i64''" "to_le 8 (unat v)"], of "\<lambda>xs. word_of_nat (of_le xs) :: i64"]
    by (simp add: readI64_def writeI64_def of_le_to_le)
qed

lemma byte_char_byte [simp]: "byte_char (char_byte c) = c"
proof -
  have "(of_char c :: nat) < 256" by simp
  moreover have "(of_char c :: u8) = word_of_nat (of_char c)" by (simp add: of_nat_of_char)
  ultimately have "unat (of_char c :: u8) = of_char c"
    by (simp add: unsigned_of_nat take_bit_nat_eq_self)
  then show ?thesis by (simp add: byte_char_def char_byte_def)
qed

lemma codes_count: "n < 2 ^ 32 \<Longrightarrow> codes (f n) y cs \<Longrightarrow>
    codes (read_then readU32 (\<lambda>k. f (unat k))) y (writeCount n @ cs)"
proof (rule codes_then)
  show "codes readU32 (word_of_nat n) (writeCount n)" by (simp add: writeCount_def codes_U32)
  assume "n < 2 ^ 32" "codes (f n) y cs"
  then show "codes (f (unat (word_of_nat n :: u32))) y cs" by (simp add: unsigned_of_nat take_bit_nat_eq_self)
qed

lemma codes_string [codes_intros]: "length s < 2 ^ 32 \<Longrightarrow> codes readString s (writeString s)"
proof -
  assume l: "length s < 2 ^ 32"
  have "codes (read_then (read_bytes ''string'' (length s)) (\<lambda>xs. read_done (map byte_char xs))) s (map char_byte s)"
    using codes_then_done [OF codes_bytes [of "''string''" "map char_byte s"], of "map byte_char"]
    by (simp add: comp_def)
  from codes_count [where f = "\<lambda>n. read_then (read_bytes ''string'' n) (\<lambda>xs. read_done (map byte_char xs))", OF l this]
  show ?thesis by (simp add: readString_def writeString_def)
qed

definition str_ok :: "string \<Rightarrow> bool" where "str_ok s = (length s < 2 ^ 32)"

definition strs_ok :: "string list \<Rightarrow> bool" where "strs_ok xs = (length xs < 2 ^ 32 \<and> list_all str_ok xs)"

lemma codes_strings [codes_intros]: "strs_ok xs \<Longrightarrow> codes readStrings xs (writeStrings xs)"
proof -
  assume ok: "strs_ok xs"
  have "codes (reads (length xs) readString) xs (concat (map writeString xs))"
    by (rule codes_reads) (use ok in \<open>auto simp: strs_ok_def str_ok_def list_all_iff intro: codes_string\<close>)
  from codes_count [where f = "\<lambda>n. reads n readString", OF _ this] ok
  show ?thesis by (simp add: readStrings_def writeStrings_def strs_ok_def)
qed

section \<open>Initializers, attributes, nodes\<close>

text \<open>What can be saved and loaded back: lengths that fit their 32-bit counts, initializers in
  default CPU memory with at least one dimension, operator names that match the operator.\<close>

definition init_saveable :: "f32 tensor \<Rightarrow> bool" where
  "init_saveable t = (wf_tensor t \<and> t_alloc t = CpuAlloc \<and> t_shape t \<noteq> [] \<and> length (t_shape t) < 2 ^ 32 \<and>
     vector_fits (t_size t))"

fun attr_saveable :: "attribute \<Rightarrow> bool" where
  "attr_saveable (AInts vs) = (length vs < 2 ^ 32)"
| "attr_saveable _ = True"

definition node_saveable :: "(node \<Rightarrow> string list) \<Rightarrow> node \<Rightarrow> bool" where
  "node_saveable ao n = (node_ok n \<and> str_ok (n_name n) \<and> str_ok (n_opTypeStr n) \<and> strs_ok (n_inputs n) \<and>
     strs_ok (n_outputs n) \<and> strs_ok (ao n) \<and> distinct (ao n) \<and> set (ao n) = dom (n_attrs n) \<and>
     (\<forall>v\<in>ran (n_attrs n). attr_saveable v))"

definition saveable :: "(node \<Rightarrow> string list) \<Rightarrow> model \<Rightarrow> bool" where
  "saveable ao m = (model_ok m \<and> strs_ok (m_initOrder m) \<and> (\<forall>t\<in>ran (m_inits m). init_saveable t) \<and>
     length (nodes_of (m_graph m)) < 2 ^ 32 \<and> (\<forall>n\<in>set (nodes_of (m_graph m)). node_saveable ao n) \<and>
     strs_ok (g_inputs (m_graph m)) \<and> strs_ok (g_outputs (m_graph m)))"

lemma codes_initializer:
  assumes "init_saveable t" "str_ok name"
  shows "codes (load_initializer ins m) (addInitializer ins name t m) (writeInitializer name t)"
proof -
  let ?dims = "t_shape t" and ?vals = "t_data t"
  have wf: "computeSize ?dims = t_size t" "length ?vals = unat (t_size t)" "buffer_fits (t_size t)" "?dims \<noteq> []"
    "vector_fits (t_size t)" "t_alloc t = CpuAlloc" "length ?dims < 2 ^ 32"
    using assms(1) by (auto simp: init_saveable_def wf_tensor_def)
  have total: "foldl (*) 1 ?dims = t_size t" using wf(1,4) by (simp add: computeSize_def)
  have of: "tensor_of ?dims ?vals CpuAlloc = Inr t"
    using wf by (cases t) (simp add: tensor_of_def alloc_fill_def Let_def)
  have dat: "codes (reads (unat (t_size t)) readF32) ?vals (concat (map writeF32 ?vals))"
    using codes_reads [of ?vals readF32 writeF32] wf(2) by (simp add: codes_intros)
  have dims: "codes (reads (length ?dims) readU64) ?dims (concat (map writeU64 ?dims))"
    by (rule codes_reads) (rule codes_intros)
  let ?k = "\<lambda>vals bs. rbind (tensor_of ?dims vals CpuAlloc) (\<lambda>t. Inr (addInitializer ins name t m, bs))"
  have k: "codes (?k ?vals) (addInitializer ins name t m) []" by (simp add: codes_def of)
  have "codes (read_then (reads (unat (t_size t)) readF32) ?k) (addInitializer ins name t m) (concat (map writeF32 ?vals))"
    using codes_then [where f = ?k, OF dat k] by simp
  then have 1: "codes (let total = foldl (*) 1 ?dims
     in if \<not> vector_fits total then read_fail LengthError
        else read_then (reads (unat total) readF32) ?k) (addInitializer ins name t m) (concat (map writeF32 ?vals))"
    using wf(5) by (simp add: total Let_def)
  from codes_then [where f = "\<lambda>dims. let total = foldl (*) 1 dims
     in if \<not> vector_fits total then read_fail LengthError
        else read_then (reads (unat total) readF32) (\<lambda>vals bs.
          rbind (tensor_of dims vals CpuAlloc) (\<lambda>t. Inr (addInitializer ins name t m, bs)))", OF dims 1]
  have 2: "codes (read_then (reads (length ?dims) readU64) (\<lambda>dims. let total = foldl (*) 1 dims
     in if \<not> vector_fits total then read_fail LengthError
        else read_then (reads (unat total) readF32) (\<lambda>vals bs.
          rbind (tensor_of dims vals CpuAlloc) (\<lambda>t. Inr (addInitializer ins name t m, bs)))))
     (addInitializer ins name t m) (concat (map writeU64 ?dims) @ concat (map writeF32 ?vals))" .
  have n: "codes readString name (writeString name)"
    using assms(2) by (intro codes_intros) (simp add: str_ok_def)
  show ?thesis
    unfolding load_initializer_def writeInitializer_def
    by (rule codes_then [OF n], rule codes_count [OF wf(7)], rule 2)
qed

lemma codes_attribute: "attr_saveable v \<Longrightarrow> codes readAttribute v (writeAttribute v)"
proof -
  have tag: "codes (read_bytes ''attribute tag'' 1) [b] [b]" for b
    using codes_bytes [of "''attribute tag''" "[b]"] by simp
  have ints: "codes (read_then readU32 (\<lambda>n. read_then (reads (unat n) readI64) (\<lambda>vs. read_done (AInts vs)))) (AInts vs)
      (writeCount (length vs) @ concat (map writeI64 vs))" if l: "length vs < 2 ^ 32" for vs
  proof (rule codes_count [where f = "\<lambda>n. read_then (reads n readI64) (\<lambda>vs. read_done (AInts vs))", OF l])
    show "codes (read_then (reads (length vs) readI64) (\<lambda>vs. read_done (AInts vs))) (AInts vs) (concat (map writeI64 vs))"
      by (rule codes_then_done, rule codes_reads, rule codes_intros)
  qed
  assume "attr_saveable v"
  then show ?thesis
  proof (cases v)
    case (AInt i)
    have "codes (read_then readI64 (\<lambda>v. read_done (AInt v))) (AInt i) (writeI64 i)"
      by (rule codes_then_done, rule codes_intros)
    with codes_then [OF tag [of 0], of _ v "writeI64 i"] AInt show ?thesis by (simp add: readAttribute_def)
  next
    case (AFloat f)
    have "codes (read_then readF32 (\<lambda>v. read_done (AFloat v))) (AFloat f) (writeF32 f)"
      by (rule codes_then_done, rule codes_intros)
    with codes_then [OF tag [of 1], of _ v "writeF32 f"] AFloat show ?thesis by (simp add: readAttribute_def)
  next
    case (AInts vs)
    assume "attr_saveable v"
    with codes_then [OF tag [of 2], of _ v "writeCount (length vs) @ concat (map writeI64 vs)"] ints [of vs] AInts
    show ?thesis by (simp add: readAttribute_def)
  qed
qed

lemma emplace_all:
  assumes "distinct ks" "set ks \<subseteq> dom m"
  shows "fold (\<lambda>k attrs. if attrs k = None then attrs(k \<mapsto> the (m k)) else attrs) ks a
    = (\<lambda>k. if a k = None \<and> k \<in> set ks then m k else a k)"
  using assms
proof (induction ks arbitrary: a)
  case (Cons k ks)
  then show ?case by (auto simp: fun_eq_iff)
qed simp

lemma codes_node:
  assumes "node_saveable ao n"
  shows "codes readNode n (writeNode ao n)"
proof -
  let ?u = "\<lambda>k attrs. if attrs k = None then attrs(k \<mapsto> the (n_attrs n k)) else attrs"
  let ?w = "\<lambda>k. writeString k @ writeAttribute (the (n_attrs n k))"
  note ok = assms [unfolded node_saveable_def]
  have step: "codes (load_attribute attrs) (?u k attrs) (?w k)" if k: "k \<in> set (ao n)" for k attrs
  proof -
    have "k \<in> dom (n_attrs n)" using ok k by blast
    then have "attr_saveable (the (n_attrs n k))" using ok by (auto simp: ran_def)
    from codes_then_done [OF codes_attribute [OF this], of "\<lambda>v. if attrs k = None then attrs(k \<mapsto> v) else attrs"]
    have 1: "codes (read_then readAttribute (\<lambda>v. read_done (if attrs k = None then attrs(k \<mapsto> v) else attrs)))
        (?u k attrs) (writeAttribute (the (n_attrs n k)))" .
    have "codes readString k (writeString k)"
      by (rule codes_intros) (use ok k in \<open>auto simp: strs_ok_def str_ok_def list_all_iff\<close>)
    then show ?thesis unfolding load_attribute_def by (rule codes_then) (rule 1)
  qed
  have "codes (read_loop (length (ao n)) load_attribute Map.empty) (fold ?u (ao n) Map.empty) (concat (map ?w (ao n)))"
    by (rule codes_loop [where P = "\<lambda>_. True"]) (use step in simp_all)
  moreover have "fold ?u (ao n) Map.empty = n_attrs n"
    using emplace_all [of "ao n" "n_attrs n" Map.empty] ok by (auto simp: fun_eq_iff)
  ultimately have attrs: "codes (read_loop (length (ao n)) load_attribute Map.empty) (n_attrs n) (concat (map ?w (ao n)))"
    by simp
  have n: "mk_node (n_name n) (n_opTypeStr n) (n_inputs n) (n_outputs n) (n_attrs n) = n"
    using ok by (cases n) (simp add: mk_node_def node_ok_def)
  have 2: "codes (read_then (read_loop (length (ao n)) load_attribute Map.empty) (\<lambda>attrs.
      read_done (mk_node (n_name n) (n_opTypeStr n) (n_inputs n) (n_outputs n) attrs))) n (concat (map ?w (ao n)))"
    using codes_then_done [OF attrs, of "mk_node (n_name n) (n_opTypeStr n) (n_inputs n) (n_outputs n)"] n by simp
  show ?thesis
    unfolding readNode_def writeNode_def
    by (rule codes_then, (rule codes_intros, use ok in \<open>simp add: str_ok_def strs_ok_def\<close>))+
      (rule codes_count [where f = "\<lambda>k. read_then (read_loop k load_attribute Map.empty) (\<lambda>attrs.
         read_done (mk_node (n_name n) (n_opTypeStr n) (n_inputs n) (n_outputs n) attrs))"],
       use ok 2 in \<open>simp_all add: strs_ok_def\<close>)
qed

lemma codes_load_node:
  "node_saveable ao n \<Longrightarrow> codes (load_node ins m) (m\<lparr>m_graph := addNode ins n (m_graph m)\<rparr>) (writeNode ao n)"
  unfolding load_node_def by (rule codes_then_done, rule codes_node)

section \<open>Whole files\<close>

lemma fold_addInitializer:
  assumes "ins_ok ins" "set ks \<subseteq> dom f"
  shows "model_ok m \<Longrightarrow> model_ok (fold (\<lambda>k m. addInitializer ins k (the (f k)) m) ks m) \<and>
    m_graph (fold (\<lambda>k m. addInitializer ins k (the (f k)) m) ks m) = m_graph m \<and>
    m_inits (fold (\<lambda>k m. addInitializer ins k (the (f k)) m) ks m) = (\<lambda>k. if k \<in> set ks then f k else m_inits m k)"
  using assms(2)
proof (induction ks arbitrary: m)
  case (Cons k ks)
  have "model_ok (addInitializer ins k (the (f k)) m)" by (rule addInitializer_ok [OF assms(1) Cons.prems(1)])
  from Cons.IH [OF this] Cons.prems(2) show ?case by (auto simp: fun_eq_iff)
qed simp

lemma fold_load_node:
  "fold (\<lambda>n m. m\<lparr>m_graph := addNode ins n (m_graph m)\<rparr>) ns m = m\<lparr>m_graph := add_nodes ins ns (m_graph m)\<rparr>"
  by (induction ns arbitrary: m) (simp_all add: add_nodes_def)

text \<open>What a model is to its users: initializers, nodes in order, declared inputs and outputs.\<close>

definition same_model :: "model \<Rightarrow> model \<Rightarrow> bool" where
  "same_model m m' = (m_inits m' = m_inits m \<and> nodes_of (m_graph m') = nodes_of (m_graph m) \<and>
     g_inputs (m_graph m') = g_inputs (m_graph m) \<and> g_outputs (m_graph m') = g_outputs (m_graph m))"

lemma save_model_ok:
  assumes "model_ok m"
  shows "save_model ao m = Inr (magic @ writeU32 1 @
         writeCount (length (m_initOrder m)) @
         concat (map (\<lambda>k. writeInitializer k (the (m_inits m k))) (m_initOrder m)) @
         writeCount (length (nodes_of (m_graph m))) @ concat (map (writeNode ao) (nodes_of (m_graph m))) @
         writeStrings (g_inputs (m_graph m)) @ writeStrings (g_outputs (m_graph m)))"
proof -
  have g: "graph_ok (m_graph m)" using assms by (simp add: model_ok_def)
  show ?thesis by (simp add: save_model_def nodesInInsertionOrder_ok [OF g] deref_all_nodes [OF g])
qed

lemma load_stream_magic: "load_stream ins path (magic @ r) = read_then readU32 (\<lambda>version.
    if version \<noteq> 1 then read_fail (RuntimeError (''Unsupported OIEN model version: '' @ nat_to_string (unat version)))
    else load_body ins) r"
proof -
  have "take 4 (magic @ r) = magic" "drop 4 (magic @ r) = r" by (simp_all add: magic_def)
  then show ?thesis by (simp add: load_stream_def del: take_append drop_append)
qed

lemma codes_saved:
  assumes ins: "ins_ok ins" and m: "saveable ao m" and bytes: "save_model ao m = Inr bytes"
  shows "\<exists>m'. codes (load_stream ins path) m' bytes \<and> same_model m m' \<and> model_ok m'"
proof -
  note ok = m [unfolded saveable_def]
  define ks where "ks = m_initOrder m"
  define ns where "ns = nodes_of (m_graph m)"
  let ?u = "\<lambda>k m'. addInitializer ins k (the (m_inits m k)) m'"
  define m1 where "m1 = fold ?u ks model_new"
  define m2 where "m2 = m1\<lparr>m_graph := add_nodes ins ns (m_graph m1)\<rparr>"
  define m3 where "m3 = m2\<lparr>m_graph := setOutputs (g_outputs (m_graph m)) (setInputs (g_inputs (m_graph m)) (m_graph m2))\<rparr>"
  have ksd: "set ks = dom (m_inits m)" "graph_ok (m_graph m)"
    using ok by (auto simp: ks_def model_ok_def inits_ok_def)
  then have m1: "model_ok m1" "m_graph m1 = graph_new" "m_inits m1 = m_inits m"
    using fold_addInitializer [OF ins, of ks "m_inits m" model_new] model_new_ok
    by (auto simp: m1_def model_new_def fun_eq_iff)
  have g2: "graph_ok (add_nodes ins ns graph_new)" "nodes_of (add_nodes ins ns graph_new) = ns"
    using add_nodes_ok [OF ins graph_ok_new, of ns] nodes_of_distinct [OF ksd(2)] by (simp_all add: ns_def)
  have "model_ok m3"
    using m1(1) g2(1) by (simp add: m3_def m2_def m1(2) model_ok_graph)
  moreover have "same_model m m3"
    using g2(2) by (simp add: same_model_def m3_def m2_def m1 ns_def) (simp add: setInputs_def setOutputs_def)
  moreover have "codes (load_stream ins path) m3 bytes"
  proof -
    have I: "codes (read_loop (length ks) (load_initializer ins) model_new) m1
        (concat (map (\<lambda>k. writeInitializer k (the (m_inits m k))) ks))"
      unfolding m1_def
    proof (rule codes_loop [where P = "\<lambda>_. True"], simp, rule conjI)
      fix k s assume k: "k \<in> set ks"
      have "the (m_inits m k) \<in> ran (m_inits m)" using k ksd by (auto simp: ran_def)
      moreover have "str_ok k" using ok k by (auto simp: ks_def strs_ok_def list_all_iff)
      ultimately show "codes (load_initializer ins s) (?u k s) (writeInitializer k (the (m_inits m k)))"
        using ok by (intro codes_initializer) auto
    qed simp
    have N: "codes (read_loop (length ns) (load_node ins) m1) m2 (concat (map (writeNode ao) ns))"
      unfolding m2_def fold_load_node [symmetric]
      by (rule codes_loop [where P = "\<lambda>_. True"]) (use ok in \<open>auto simp: ns_def intro: codes_load_node\<close>)
    let ?tl = "\<lambda>m. read_then readStrings (\<lambda>inputs. read_then readStrings (\<lambda>outputs.
       read_done (m\<lparr>m_graph := setOutputs outputs (setInputs inputs (m_graph m))\<rparr>)))"
    have T: "codes (?tl m2) m3 (writeStrings (g_inputs (m_graph m)) @ writeStrings (g_outputs (m_graph m)))"
      unfolding m3_def
      by (rule codes_then, rule codes_strings, use ok in simp, rule codes_then_done, rule codes_strings, use ok in simp)
    have B: "codes (load_body ins) m3 (writeCount (length ks) @ concat (map (\<lambda>k. writeInitializer k (the (m_inits m k))) ks) @
        writeCount (length ns) @ concat (map (writeNode ao) ns) @
        writeStrings (g_inputs (m_graph m)) @ writeStrings (g_outputs (m_graph m)))"
      unfolding load_body_def
      by (rule codes_count [where f = "\<lambda>n. read_then (read_loop n (load_initializer ins) model_new) (\<lambda>m.
            read_then readU32 (\<lambda>numNodes. read_then (read_loop (unat numNodes) (load_node ins) m) ?tl))"],
          use ok in \<open>simp add: ks_def strs_ok_def\<close>, rule codes_then [OF I],
          rule codes_count [where f = "\<lambda>n. read_then (read_loop n (load_node ins) m1) ?tl"],
          use ok in \<open>simp add: ns_def\<close>, rule codes_then [OF N], rule T)
    have V: "codes (read_then readU32 (\<lambda>version.
        if version \<noteq> 1 then read_fail (RuntimeError (''Unsupported OIEN model version: '' @ nat_to_string (unat version)))
        else load_body ins)) m3 (writeU32 1 @ writeCount (length ks) @ concat (map (\<lambda>k. writeInitializer k (the (m_inits m k))) ks) @
        writeCount (length ns) @ concat (map (writeNode ao) ns) @
        writeStrings (g_inputs (m_graph m)) @ writeStrings (g_outputs (m_graph m)))"
      by (rule codes_then, rule codes_U32) (simp add: B)
    have bytes: "bytes = magic @ (writeU32 1 @ writeCount (length ks) @ concat (map (\<lambda>k. writeInitializer k (the (m_inits m k))) ks) @
        writeCount (length ns) @ concat (map (writeNode ao) ns) @
        writeStrings (g_inputs (m_graph m)) @ writeStrings (g_outputs (m_graph m)))"
      using bytes save_model_ok [of m ao] ok by (simp add: ks_def ns_def)
    show ?thesis using V unfolding bytes codes_def append_assoc load_stream_magic .
  qed
  ultimately show ?thesis by blast
qed

text \<open>Readers of the file do not look ahead.\<close>

lemma grows_numbers [grows_intros]: "grows readU32" "grows readU64" "grows readI64" "grows readF32"
  unfolding readU32_def readU64_def readI64_def readF32_def by (intro grows_intros)+

lemma grows_strings [grows_intros]: "grows readString" "grows readStrings"
  unfolding readStrings_def readString_def by (intro grows_intros)+

lemma grows_load_initializer [grows_intros]: "grows (load_initializer ins m)"
proof -
  have "grows (\<lambda>bs. rbind (tensor_of dims vals CpuAlloc) (\<lambda>t. Inr (addInitializer ins name t m, bs)))" for dims vals name
    by (auto simp: grows_def rbind_eq_Inr)
  then show ?thesis unfolding load_initializer_def Let_def by (intro grows_intros)
qed

lemma grows_load_node [grows_intros]: "grows (load_node ins m)"
  unfolding load_node_def readNode_def load_attribute_def readAttribute_def by (intro grows_intros)

lemma grows_load_stream: "grows (load_stream ins path)"
proof -
  have "grows (read_then readU32 (\<lambda>version.
        if version \<noteq> 1 then read_fail (RuntimeError (''Unsupported OIEN model version: '' @ nat_to_string (unat version)))
        else load_body ins))"
    unfolding load_body_def by (intro grows_intros)
  moreover have "length bs \<ge> 4" if "take 4 bs = magic" for bs
  proof -
    have "length (take 4 bs) = 4" unfolding that by (simp add: magic_def)
    then show ?thesis by simp
  qed
  ultimately show ?thesis unfolding grows_def load_stream_def by (auto split: if_splits)
qed

text \<open>No file drives the reader into undefined behaviour: the element count that is checked is the
  one that sizes the buffer.\<close>

definition inits_wf :: "model \<Rightarrow> bool" where
  "inits_wf m = (\<forall>t\<in>ran (m_inits m). wf_tensor t \<and> t_alloc t = CpuAlloc)"

lemma clean_then_True: "clean r (\<lambda>_. True) \<Longrightarrow> (\<And>x. clean (f x) P) \<Longrightarrow> clean (read_then r f) P"
  using clean_then [of r "\<lambda>_. True" f P] by simp

lemma clean_bytes_True [clean_intros]: "clean (read_bytes w n) (\<lambda>_. True)"
  by (rule clean_mono [OF clean_bytes]) simp

lemma clean_done_True [clean_intros]: "clean (read_done x) (\<lambda>_. True)"
  by (rule clean_done) simp

lemma clean_reads_True [clean_intros]: "clean r (\<lambda>_. True) \<Longrightarrow> clean (reads n r) (\<lambda>_. True)"
  by (rule clean_mono [OF clean_reads]) simp_all

lemma clean_loop_True [clean_intros]: "(\<And>s. clean (r s) (\<lambda>_. True)) \<Longrightarrow> clean (read_loop n r s) (\<lambda>_. True)"
  by (rule clean_loop) simp_all

lemma clean_if [clean_intros]: "clean r P \<Longrightarrow> clean s P \<Longrightarrow> clean (if c then r else s) P"
  by simp

lemma clean_numbers [clean_intros]:
  "clean readU32 (\<lambda>_. True)" "clean readU64 (\<lambda>_. True)" "clean readI64 (\<lambda>_. True)" "clean readF32 (\<lambda>_. True)"
  unfolding readU32_def readU64_def readI64_def readF32_def by (intro clean_then_True clean_intros)+

lemma clean_strings [clean_intros]: "clean readString (\<lambda>_. True)" "clean readStrings (\<lambda>_. True)"
  unfolding readStrings_def readString_def by (intro clean_then_True clean_intros)+

lemma clean_readNode [clean_intros]: "clean readNode (\<lambda>_. True)"
  unfolding readNode_def load_attribute_def readAttribute_def
  by (intro clean_then_True clean_intros clean_fail) simp

lemma tensor_of_clean: "vector_fits (foldl (*) 1 dims) \<Longrightarrow>
    case tensor_of dims vals CpuAlloc of Inl e \<Rightarrow> catchable e | Inr t \<Rightarrow> wf_tensor t \<and> t_alloc t = CpuAlloc"
proof -
  assume v: "vector_fits (foldl (*) 1 dims)"
  have "buffer_fits (computeSize dims)"
    using v by (auto simp: buffer_fits_def computeSize_def vector_fits_def)
  then show ?thesis by (auto simp: tensor_of_def Let_def alloc_fill_def wf_tensor_def)
qed

lemma clean_load_initializer: "inits_wf m \<Longrightarrow> clean (load_initializer ins m) inits_wf"
proof -
  assume m: "inits_wf m"
  have "clean (\<lambda>bs. rbind (tensor_of dims vals CpuAlloc) (\<lambda>t. Inr (addInitializer ins name t m, bs))) inits_wf"
    if v: "vector_fits (foldl (*) 1 dims)" for dims vals name
    using tensor_of_clean [OF v, of vals] m
    by (cases "tensor_of dims vals CpuAlloc") (auto simp: clean_def inits_wf_def ran_def)
  then have rest: "clean (if \<not> vector_fits (foldl (*) 1 dims) then read_fail LengthError
        else read_then (reads (unat (foldl (*) 1 dims)) readF32) (\<lambda>vals bs.
          rbind (tensor_of dims vals CpuAlloc) (\<lambda>t. Inr (addInitializer ins name t m, bs)))) inits_wf" for dims name
    by (cases "vector_fits (foldl (*) 1 dims)") (simp_all add: clean_fail, intro clean_then_True clean_intros)
  show ?thesis
    unfolding load_initializer_def Let_def
    by (rule clean_then_True, rule clean_strings(1), rule clean_then_True, rule clean_numbers(1),
        rule clean_then_True, rule clean_reads_True, rule clean_numbers(2), rule rest)
qed

lemma clean_load_stream: "clean (load_stream ins path) inits_wf"
proof -
  have g: "inits_wf (m\<lparr>m_graph := g\<rparr>) = inits_wf m" for m g by (simp add: inits_wf_def)
  have n: "clean (load_node ins m) inits_wf" if "inits_wf m" for m
    unfolding load_node_def by (intro clean_then_True clean_intros clean_done) (simp add: g that)
  have "clean (read_then (read_loop k (load_initializer ins) model_new) (\<lambda>m.
     read_then readU32 (\<lambda>numNodes. read_then (read_loop (unat numNodes) (load_node ins) m) (\<lambda>m.
     read_then readStrings (\<lambda>inputs. read_then readStrings (\<lambda>outputs.
       read_done (m\<lparr>m_graph := setOutputs outputs (setInputs inputs (m_graph m))\<rparr>))))))) inits_wf" for k
  proof (rule clean_then [where Q = inits_wf])
    show "clean (read_loop k (load_initializer ins) model_new) inits_wf"
      by (rule clean_loop [OF clean_load_initializer]) (simp_all add: inits_wf_def model_new_def)
    fix m assume m: "inits_wf m"
    have "clean (read_then (read_loop j (load_node ins) m) (\<lambda>m.
     read_then readStrings (\<lambda>inputs. read_then readStrings (\<lambda>outputs.
       read_done (m\<lparr>m_graph := setOutputs outputs (setInputs inputs (m_graph m))\<rparr>))))) inits_wf" for j
      by (rule clean_then [where Q = inits_wf], rule clean_loop [OF n m], simp)
        (intro clean_then_True clean_intros clean_done, simp add: g)
    from clean_then_True [OF clean_numbers(1) this]
    show "clean (read_then readU32 (\<lambda>numNodes. read_then (read_loop (unat numNodes) (load_node ins) m) (\<lambda>m.
     read_then readStrings (\<lambda>inputs. read_then readStrings (\<lambda>outputs.
       read_done (m\<lparr>m_graph := setOutputs outputs (setInputs inputs (m_graph m))\<rparr>)))))) inits_wf" .
  qed
  from clean_then_True [OF clean_numbers(1) this] have "clean (load_body ins) inits_wf"
    by (simp add: load_body_def)
  then have "clean (read_then readU32 (\<lambda>version.
        if version \<noteq> 1 then read_fail (RuntimeError (''Unsupported OIEN model version: '' @ nat_to_string (unat version)))
        else load_body ins)) inits_wf"
    by (intro clean_then_True clean_numbers clean_if clean_fail) simp_all
  then show ?thesis unfolding clean_def load_stream_def by simp
qed

section \<open>Properties\<close>

text \<open>C12. Saving and loading is the identity on models: for a model whose counts fit the format and
  whose initializers have at least one dimension (\<open>saveable\<close>; one of rank 0 is written without
  elements and not read back, see below), whatever the hash tables' enumeration orders, and
  whatever follows in the file, loading what was saved returns a well-formed model with the same initializers (shapes, bits and all), the same nodes in
  the same order with all their attributes, and the same declared inputs and outputs.\<close>

theorem load_save_roundtrip:
  assumes "ins_ok ins" "saveable ao m"
  shows "\<exists>bytes m'. save_model ao m = Inr bytes \<and> load_model ins path (bytes @ junk) = Inr m' \<and>
    same_model m m' \<and> model_ok m'"
proof -
  have "model_ok m" using assms(2) by (simp add: saveable_def)
  then obtain bytes where b: "save_model ao m = Inr bytes" using save_model_ok by blast
  from codes_saved [OF assms this, of path] obtain m' where
    "codes (load_stream ins path) m' bytes" "same_model m m'" "model_ok m'" by blast
  then show ?thesis using b by (auto simp: codes_def load_model_def)
qed

definition ex_model :: model where
  "ex_model = addInitializer ex_ins ''w'' \<lparr>t_shape = [1, 2], t_data = [0x3F800000, 0xBF800000], t_size = 2, t_alloc = CpuAlloc\<rparr>
     (model_new\<lparr>m_graph := setOutputs [''y''] (setInputs [''x'']
        (addNode ex_ins (mk_node ''g'' ''Gemm'' [''x'', ''w''] [''y''] [''transB'' \<mapsto> AInt 1]) graph_new))\<rparr>)"

lemma ex_model_ok: "model_ok ex_model"
proof -
  have "graph_ok (addNode ex_ins (mk_node ''g'' ''Gemm'' [''x'', ''w''] [''y''] [''transB'' \<mapsto> AInt 1]) graph_new)"
    by (rule addNode_ok [OF graph_ok_new _ ex_ins_ok]) (simp add: graph_new_def)
  then show ?thesis
    unfolding ex_model_def by (intro addInitializer_ok ex_ins_ok model_ok_graph model_new_ok) simp
qed

lemma ex_model_nodes:
  "nodes_of (m_graph ex_model) = [mk_node ''g'' ''Gemm'' [''x'', ''w''] [''y''] [''transB'' \<mapsto> AInt 1]]"
  using addNode_nodes [OF graph_ok_new, of "mk_node ''g'' ''Gemm'' [''x'', ''w''] [''y''] [''transB'' \<mapsto> AInt 1]" ex_ins]
  by (simp add: ex_model_def nodes_of_new) (simp add: graph_new_def)

lemma ex_model_saveable: "saveable (\<lambda>_. [''transB'']) ex_model"
proof -
  have "m_initOrder ex_model = [''w'']" "m_inits ex_model = [''w'' \<mapsto> \<lparr>t_shape = [1, 2], t_data = [0x3F800000, 0xBF800000], t_size = 2, t_alloc = CpuAlloc\<rparr>]"
      "g_inputs (m_graph ex_model) = [''x'']" "g_outputs (m_graph ex_model) = [''y'']"
    by (simp_all add: ex_model_def addInitializer_def ex_ins_def model_new_def setInputs_def setOutputs_def)
  then show ?thesis
    unfolding saveable_def ex_model_nodes using ex_model_ok
    by (simp add: strs_ok_def str_ok_def init_saveable_def wf_tensor_def computeSize_def buffer_fits_def vector_fits_def
        node_saveable_def node_ok_def mk_node_def)
qed

theorem load_save_roundtrip_witness:
  "\<exists>bytes m'. save_model (\<lambda>_. [''transB'']) ex_model = Inr bytes \<and> load_model ex_ins ''m.oien'' (bytes @ [7]) = Inr m' \<and>
    same_model ex_model m' \<and> model_ok m'"
  by (rule load_save_roundtrip [OF ex_ins_ok ex_model_saveable])

text \<open>C29. A saved file that was cut short is never mistaken for a model: loading any strict prefix of it
  throws an exception. The model saved is one the format holds (\<open>saveable\<close>).\<close>

theorem truncated_model_rejected:
  assumes "ins_ok ins" "saveable ao m" "save_model ao m = Inr bytes" "n < length bytes"
  shows "\<exists>e. load_model ins path (take n bytes) = Inl e \<and> catchable e"
proof -
  obtain m' where m': "codes (load_stream ins path) m' bytes" using codes_saved [OF assms(1-3)] by blast
  then have full: "load_stream ins path (take n bytes @ drop n bytes) = Inr (m', [])"
    using append_Nil2 [of bytes] unfolding codes_def append_take_drop_id by metis
  show ?thesis
  proof (cases "load_stream ins path (take n bytes)")
    case (Inl e)
    have "catchable e" using clean_load_stream [of ins path] Inl unfolding clean_def by (metis old.sum.simps(5))
    then show ?thesis using Inl by (simp add: load_model_def)
  next
    case (Inr mr)
    obtain mm r where mr: "mr = (mm, r)" by (cases mr)
    have "load_stream ins path (take n bytes @ drop n bytes) = Inr (mm, r @ drop n bytes)"
      using grows_load_stream [of ins path] Inr unfolding grows_def mr by blast
    then have "drop n bytes = []" using full by simp
    then show ?thesis using assms(4) by simp
  qed
qed

theorem truncated_model_rejected_witness:
  "\<exists>bytes. save_model (\<lambda>_. [''transB'']) ex_model = Inr bytes \<and>
    (\<exists>e. load_model ex_ins ''m.oien'' (take 10 bytes) = Inl e \<and> catchable e)"
proof -
  from save_model_ok [OF ex_model_ok, of "\<lambda>_. [''transB'']"] obtain bytes where
    b: "save_model (\<lambda>_. [''transB'']) ex_model = Inr bytes" and l: "10 < length bytes"
    by (simp add: magic_def writeU32_def writeCount_def writeStrings_def)
  from truncated_model_rejected [OF ex_ins_ok ex_model_saveable b l, of "''m.oien''"] b show ?thesis by blast
qed

text \<open>C31. Loading is total and safe on arbitrary bytes: it either throws an exception of the program
  or returns a model all of whose initializers own a buffer of exactly the size their shape
  says; no file content leads to undefined behaviour.\<close>

theorem load_model_total:
  "case load_model ins path bytes of Inl e \<Rightarrow> catchable e | Inr m \<Rightarrow> inits_wf m"
proof -
  have "case load_stream ins path bytes of Inl e \<Rightarrow> catchable e | Inr (m, rest) \<Rightarrow> inits_wf m"
    using clean_load_stream unfolding clean_def by blast
  then show ?thesis by (cases "load_stream ins path bytes") (auto simp: load_model_def)
qed

text \<open>Two limits of the format. An initializer of rank 0 is written without elements and read back
  as having one, so a model that holds one saves to a file that does not load; and extents whose
  product is a multiple of \<open>2^64\<close> are accepted with no data behind them.\<close>

lemma rank0_initializer_not_loaded:
  assumes "str_ok name"
  shows "load_initializer ins m (writeInitializer name tensor_default @ to_le 4 v @ rest) =
    Inl (InvalidArgument ''Tensor data size does not match shape'')"
proof -
  have n: "readString (writeString name @ bs) = Inr (name, bs)" for bs
    using codes_string [of name] assms by (simp add: codes_def str_ok_def)
  have z: "readU32 (writeCount 0 @ bs) = Inr (0, bs)" for bs
    using codes_U32 [of 0] by (simp add: codes_def writeCount_def)
  have f: "readF32 (to_le 4 v @ bs) = Inr (word_of_nat (of_le (to_le 4 v)), bs)" for bs
    by (simp add: readF32_def read_then_def read_bytes_def read_done_def)
  show ?thesis
    by (simp add: load_initializer_def writeInitializer_def tensor_default_def read_then_def n z f read_done_def
        vector_fits_def tensor_of_def)
qed

lemma wrapped_extents_accepted:
  "tensor_of [2 ^ 32, 2 ^ 32] [] CpuAlloc = Inr \<lparr>t_shape = [2 ^ 32, 2 ^ 32], t_data = [] :: f32 list, t_size = 0, t_alloc = CpuAlloc\<rparr>"
  by (simp add: tensor_of_def computeSize_def alloc_fill_def buffer_fits_def)

end
