(* ===== verification/Session.thy ===== *)
theory Session
  imports Session_Order Profiler Model_File
begin

text \<open>
  runtime/inference_session.h and runtime/inference_session.cpp: building a session (validation,
  optimization, schedules, the tensor store) and running one inference, sequentially or level by
  level on the thread pool.

  After construction the graph never changes, so the \<^verbatim>\<open>Node*\<close> of the schedules are kept as the nodes
  they point to. What a run takes from outside (elapsed times, where the hash table of the profiler
  puts new keys, the contents of thread-local packing buffers, and how the tasks of a level
  overlap) is the record \<open>run_env\<close>. A task of a level reads its inputs when it starts and writes its
  output when it finishes; two tasks that touch a common slot while both run are a data race, which
  is undefined behaviour. That the pool starts and finishes every task exactly once is
  \<open>valid_schedule\<close>, shown for the pool in theory Pool_Results.
\<close>

section \<open>State\<close>

record session =
  s_config :: session_config
  s_model :: model
  s_provider :: cpu_provider
  s_order :: "node list"
  s_levels :: "node list list"
  s_tensors :: store
  s_report :: opt_report
  s_profiler :: profiler
  s_inputName :: string
  s_outputName :: string

section \<open>Construction\<close>

text \<open>\<^verbatim>\<open>std::copy\<close> of all elements of \<open>src\<close> to the beginning of \<open>dst\<close>.\<close>

definition copy_elements :: "'a tensor \<Rightarrow> 'a tensor \<Rightarrow> 'a tensor res" where
  "copy_elements src dst =
     (let n = unat (t_size src)
      in if n \<le> length (t_data src) \<and> n \<le> length (t_data dst)
         then Inr (dst\<lparr>t_data := take n (t_data src) @ drop n (t_data dst)\<rparr>)
         else Inl (Undefined ''copy past the end of a buffer''))"

text \<open>\<^verbatim>\<open>emplace\<close> keeps a value that is already there.\<close>

definition emplace :: "string \<Rightarrow> f32 tensor \<Rightarrow> store \<Rightarrow> store" where
  "emplace name t ts = (if ts name = None then ts(name \<mapsto> t) else ts)"

definition resident :: "alloc_kind \<Rightarrow> f32 tensor \<Rightarrow> f32 tensor res" where
  "resident al t = rbind (tensor_zeros 0 (t_shape t) al) (copy_elements t)"

definition check_node :: "node \<Rightarrow> unit res" where
  "check_node n =
     rbind (require (supports (n_opType n)) (RuntimeError (''Execution provider '' @ [CHR 0x27] @ ''cpu'' @ [CHR 0x27] @
        '' does not support op '' @ [CHR 0x27] @ n_opTypeStr n @ [CHR 0x27] @ '' on node '' @ n_name n))) (\<lambda>_.
     require (length (n_outputs n) = 1) (RuntimeError (''Node '' @ n_name n @ '' must produce exactly one output'')))"

definition check_inputs :: "store \<Rightarrow> node \<Rightarrow> unit res" where
  "check_inputs ts n = rfold (\<lambda>i _. require (ts i \<noteq> None)
     (RuntimeError (''Node '' @ n_name n @ '' reads unknown tensor '' @ [CHR 0x27] @ i @ [CHR 0x27]))) (n_inputs n) ()"

definition fill_store :: "alloc_kind \<Rightarrow> model \<Rightarrow> string \<Rightarrow> node list \<Rightarrow> store res" where
  "fill_store al m input ns =
     rbind (rfold (\<lambda>name ts. rbind (resident al (the (m_inits m name))) (\<lambda>r. Inr (emplace name r ts))) (m_initOrder m) Map.empty) (\<lambda>ts.
     rbind (tensor_zeros 0 [] al) (\<lambda>e.
       Inr (fold (\<lambda>n. emplace (hd (n_outputs n)) e) ns (emplace input e ts))))"

definition optimize_if :: "insert_order \<Rightarrow> cpu_provider \<Rightarrow> thread_ctx \<Rightarrow> session_config \<Rightarrow> model \<Rightarrow> (model \<times> opt_report) res" where
  "optimize_if ins cp ctx c m =
     (if c_graphOptimization c then optimizer_run ins cp ctx (config_optimizerOptions c) m
      else Inr (m, report_new\<lparr>r_nodesBefore := g_size (m_graph m), r_nodesAfter := g_size (m_graph m)\<rparr>))"

definition session_prepare :: "insert_order \<Rightarrow> thread_ctx \<Rightarrow> session_config \<Rightarrow> cpu_provider \<Rightarrow> model \<Rightarrow> profiler \<Rightarrow> session res" where
  "session_prepare ins ctx c cp m pf =
     rbind (require (g_inputs (m_graph m) \<noteq> []) (RuntimeError ''Model graph declares no inputs'')) (\<lambda>_.
     rbind (require (g_outputs (m_graph m) \<noteq> []) (RuntimeError ''Model graph declares no outputs'')) (\<lambda>_.
     rbind (optimize_if ins cp ctx c m) (\<lambda>(m, report).
     let g = m_graph m; input = hd (g_inputs g); out = hd (g_outputs g)
     in rbind (topologicalSort g) (\<lambda>order.
     rbind (executionLevels g) (\<lambda>levels.
     rbind (deref_all g order) (\<lambda>ns.
     rbind (rmap (deref_all g) levels) (\<lambda>nss.
     rbind (rfold (\<lambda>n _. check_node n) ns ()) (\<lambda>_.
     rbind (fill_store (cp_alloc cp) m input ns) (\<lambda>ts.
     rbind (require (ts out \<noteq> None)
        (RuntimeError (''Graph output '' @ [CHR 0x27] @ out @ [CHR 0x27] @ '' is not produced by any node''))) (\<lambda>_.
     rbind (rfold (\<lambda>n _. check_inputs ts n) ns ()) (\<lambda>_.
       Inr \<lparr>s_config = c, s_model = m, s_provider = cp, s_order = ns, s_levels = nss, s_tensors = ts, s_report = report,
            s_profiler = pf, s_inputName = input, s_outputName = out\<rparr>)))))))))))"

definition session_new :: "insert_order \<Rightarrow> thread_ctx \<Rightarrow> model \<Rightarrow> session_config \<Rightarrow> session res" where
  "session_new ins ctx m c =
     rbind (config_validate c) (\<lambda>_.
     rbind (config_cpuOptions c) (\<lambda>opts.
     rbind (makeExecutionProvider (c_executionProvider c) opts) (\<lambda>cp.
       session_prepare ins ctx c cp m (setEnabled (c_profiling c) profiler_new))))"

text \<open>\<^verbatim>\<open>fromConfig\<close>, given the bytes of the model file.\<close>

definition session_fromConfig :: "insert_order \<Rightarrow> thread_ctx \<Rightarrow> u8 list \<Rightarrow> session_config \<Rightarrow> session res" where
  "session_fromConfig ins ctx bytes c =
     rbind (config_validate c) (\<lambda>_.
     rbind (load_model ins (c_modelPath c) bytes) (\<lambda>m. session_new ins ctx m c))"

section \<open>Running\<close>

datatype level_event = Start nat | Finish nat

record run_env =
  re_ctx :: thread_ctx
  re_worker :: "node \<Rightarrow> thread_ctx"
  re_ms :: "node \<Rightarrow> f64"
  re_wall :: f64
  re_order :: insert_order
  re_sched :: "nat \<Rightarrow> level_event list"

text \<open>The timing part of \<^verbatim>\<open>executeNode\<close>, reached when the provider did not throw.\<close>

definition record_node :: "run_env \<Rightarrow> node \<Rightarrow> profiler \<Rightarrow> profiler" where
  "record_node re n pf = (if p_enabled pf then profiler_record (re_order re) (n_name n) (n_opTypeStr n) (re_ms re n) pf else pf)"

type_synonym run_state = "store \<times> profiler"

fun run_nodes :: "run_env \<Rightarrow> cpu_provider \<Rightarrow> node list \<Rightarrow> run_state \<Rightarrow> exn option \<times> run_state" where
  "run_nodes re cp [] st = (None, st)"
| "run_nodes re cp (n # ns) (ts, pf) = (case execute_node cp (re_ctx re) n ts of
     Inl e \<Rightarrow> (Some e, (ts, pf))
   | Inr ts' \<Rightarrow> run_nodes re cp ns (ts', record_node re n pf))"

section \<open>A level on the pool\<close>

record level_state =
  l_store :: store
  l_prof :: profiler
  l_running :: "(nat \<times> (string \<times> f32 tensor) res) list"
  l_errors :: "(nat \<times> exn) list"

definition touches :: "node \<Rightarrow> node \<Rightarrow> bool" where
  "touches a b = (set (n_outputs a) \<inter> (set (n_inputs b) \<union> set (n_outputs b)) \<noteq> {} \<or> set (n_outputs b) \<inter> set (n_inputs a) \<noteq> {})"

fun level_step :: "run_env \<Rightarrow> cpu_provider \<Rightarrow> node list \<Rightarrow> level_event \<Rightarrow> level_state \<Rightarrow> level_state res" where
  "level_step re cp ns (Start i) st =
     (if list_ex (\<lambda>(j, _). touches (ns ! i) (ns ! j)) (l_running st) then Inl (Undefined ''data race on a tensor slot'')
      else Inr (st\<lparr>l_running := (i, node_result cp (re_worker re (ns ! i)) (ns ! i) (l_store st)) # l_running st\<rparr>))"
| "level_step re cp ns (Finish i) st = (case map_of (l_running st) i of
     None \<Rightarrow> Inl (Undefined ''finish of a task that does not run'')
   | Some r \<Rightarrow>
       let st = st\<lparr>l_running := filter (\<lambda>(j, _). j \<noteq> i) (l_running st)\<rparr>
       in Inr (case r of
            Inl e \<Rightarrow> st\<lparr>l_errors := l_errors st @ [(i, e)]\<rparr>
          | Inr (x, t) \<Rightarrow> st\<lparr>l_store := (l_store st)(x \<mapsto> t), l_prof := record_node re (ns ! i) (l_prof st)\<rparr>))"

text \<open>\<^verbatim>\<open>runAll\<close> rethrows the exception of its own task, the first, or else the first one recorded.\<close>

definition level_error :: "(nat \<times> exn) list \<Rightarrow> exn option" where
  "level_error errs = (case map_of errs 0 of Some e \<Rightarrow> Some e | None \<Rightarrow> (case errs of [] \<Rightarrow> None | (_, e) # _ \<Rightarrow> Some e))"

definition run_level :: "run_env \<Rightarrow> cpu_provider \<Rightarrow> level_event list \<Rightarrow> node list \<Rightarrow> run_state \<Rightarrow> exn option \<times> run_state" where
  "run_level re cp evs ns st =
     (case rfold (level_step re cp ns) evs \<lparr>l_store = fst st, l_prof = snd st, l_running = [], l_errors = []\<rparr> of
        Inl e \<Rightarrow> (Some e, st)
      | Inr l \<Rightarrow> (level_error (l_errors l), (l_store l, l_prof l)))"

text \<open>Level \<open>k\<close> first; a level of one node runs on the calling thread.\<close>

fun run_levels :: "run_env \<Rightarrow> cpu_provider \<Rightarrow> nat \<Rightarrow> node list list \<Rightarrow> run_state \<Rightarrow> exn option \<times> run_state" where
  "run_levels re cp k [] st = (None, st)"
| "run_levels re cp k (ns # nss) st =
     (case (if length ns = 1 then run_nodes re cp ns st else run_level re cp (re_sched re k) ns st) of
        (Some e, st') \<Rightarrow> (Some e, st')
      | (None, st') \<Rightarrow> run_levels re cp (k + 1) nss st')"

text \<open>A schedule of the tasks \<open>W\<close> not yet started and \<open>R\<close> running: each starts once and then
  finishes once.\<close>

fun sched_ok :: "nat set \<Rightarrow> nat set \<Rightarrow> level_event list \<Rightarrow> bool" where
  "sched_ok W R [] = (W = {} \<and> R = {})"
| "sched_ok W R (Start i # es) = (i \<in> W \<and> sched_ok (W - {i}) (insert i R) es)"
| "sched_ok W R (Finish i # es) = (i \<in> R \<and> sched_ok W (R - {i}) es)"

definition valid_schedule :: "nat \<Rightarrow> level_event list \<Rightarrow> bool" where
  "valid_schedule n es = sched_ok (set [0..<n]) {} es"

section \<open>The run\<close>

definition load_input :: "session \<Rightarrow> f32 tensor \<Rightarrow> store res" where
  "load_input s x =
     rbind (find_slot (s_tensors s) (s_inputName s)) (\<lambda>slot.
     rbind (if t_shape slot \<noteq> t_shape x then tensor_zeros 0 (t_shape x) (cp_alloc (s_provider s)) else Inr slot) (\<lambda>slot.
     rbind (copy_elements x slot) (\<lambda>slot. Inr ((s_tensors s)(s_inputName s \<mapsto> slot)))))"

definition parallel :: "session \<Rightarrow> bool" where
  "parallel s = (c_interOpParallel (s_config s) \<and> cp_workers (s_provider s) \<noteq> None)"

definition run_schedule :: "run_env \<Rightarrow> session \<Rightarrow> run_state \<Rightarrow> exn option \<times> run_state" where
  "run_schedule re s st =
     (if parallel s then run_levels re (s_provider s) 0 (s_levels s) st else run_nodes re (s_provider s) (s_order s) st)"

definition session_run :: "run_env \<Rightarrow> f32 tensor \<Rightarrow> session \<Rightarrow> f32 tensor res \<times> session" where
  "session_run re x s =
     (if t_size x = 0 then (Inl (InvalidArgument ''Inference input tensor is empty''), s)
      else case load_input s x of
        Inl e \<Rightarrow> (Inl e, s)
      | Inr ts \<Rightarrow> (case run_schedule re s (ts, s_profiler s) of
          (Some e, (ts, pf)) \<Rightarrow> (Inl e, s\<lparr>s_tensors := ts, s_profiler := pf\<rparr>)
        | (None, (ts, pf)) \<Rightarrow>
            (find_slot ts (s_outputName s), s\<lparr>s_tensors := ts, s_profiler := recordTotal (re_wall re) pf\<rparr>)))"

section \<open>Descriptions\<close>

definition levelCount :: "session \<Rightarrow> nat" where
  "levelCount s = length (s_levels s)"

definition parallelLevelCount :: "session \<Rightarrow> nat" where
  "parallelLevelCount s = length (filter (\<lambda>ns. 1 < length ns) (s_levels s))"

fun comma_sep :: "string list \<Rightarrow> string" where
  "comma_sep [] = []"
| "comma_sep [x] = x"
| "comma_sep (x # xs) = x @ '', '' @ comma_sep xs"

definition describeSchedule :: "session \<Rightarrow> string" where
  "describeSchedule s = concat (map (\<lambda>(i, ns). ''  level '' @ nat_to_string i @
       (if 1 < length ns then '' [parallel] '' else ''            '') @
       comma_sep (map (\<lambda>n. n_name n @ ''('' @ n_opTypeStr n @ '')'') ns) @ [newline]) (enumerate 0 (s_levels s)))"

end
