(* ===== verification/Session_Correct.thy ===== *)
theory Session_Correct
  imports Session
begin

text \<open>
  Running a session computes the meaning of its nodes, whatever the schedule: a level run on the
  pool under any interleaving of its tasks, without a data race, leaves in the store what the nodes
  compute one by one; and nothing of an earlier run shows in a later one.
\<close>

section \<open>One task\<close>

lemma find_slots_cong: "(\<And>x. x \<in> set xs \<Longrightarrow> ts x = ts' x) \<Longrightarrow> rmap (find_slot ts) xs = rmap (find_slot ts') xs"
  by (induction xs) (auto simp: find_slot_def)

lemma node_result_cong:
  assumes "\<And>x. x \<in> set (n_inputs n) \<union> set (n_outputs n) \<Longrightarrow> ts x = ts' x"
  shows "node_result cp ctx n ts = node_result cp ctx n ts'"
proof -
  have "rmap (find_slot ts) (n_inputs n) = rmap (find_slot ts') (n_inputs n)"
    using assms by (intro find_slots_cong) blast
  moreover have "find_slot ts x = find_slot ts' x" if "n_outputs n = x # xs" for x xs
    using assms that by (simp add: find_slot_def)
  ultimately show ?thesis by (auto simp: node_result_def split: list.split intro!: rbind_cong)
qed

lemma node_result_Inr:
  assumes "node_result cp ctx n ts = Inr (x, t)"
  shows "x \<in> set (n_outputs n)" "ts x \<noteq> None" "\<forall>i\<in>set (n_inputs n). ts i \<noteq> None"
proof -
  have e: "execute_node cp ctx n ts = Inr (ts(x \<mapsto> t))" using assms by (simp add: execute_node_def)
  obtain ys out where "n_outputs n = x # ys" "find_slot ts x = Inr out"
    using assms unfolding node_result_def by (auto simp: rbind_eq_Inr split: list.splits)
  then show "x \<in> set (n_outputs n)" "ts x \<noteq> None" by (auto simp: find_slot_def split: option.splits)
  show "\<forall>i\<in>set (n_inputs n). ts i \<noteq> None" by (rule execute_node_Inr [OF e]) blast
qed

text \<open>A node that has a meaning in \<open>env\<close>, run where its inputs are as in \<open>env\<close>, yields that meaning.\<close>

lemma node_result_solved:
  assumes n: "node_solved (cp_strategy cp) al env n" and cp: "cp_ok cp" and sane: "sane env"
    and ins: "\<And>i. i \<in> set (n_inputs n) \<Longrightarrow> ts i = env i"
    and out: "\<And>x. x \<in> set (n_outputs n) \<Longrightarrow> \<exists>u. ts x = Some u \<and> slot_ok al u"
  shows "\<exists>x t. n_outputs n = [x] \<and> env x = Some t \<and> node_result cp ctx n ts = Inr (x, t) \<and> execute_node cp ctx n ts = Inr (ts(x \<mapsto> t))"
proof -
  obtain x t where x: "n_outputs n = [x]" "env x = Some t" "node_outcome (cp_strategy cp) n (map env (n_inputs n)) al = Inr t"
    using n by (auto simp: node_solved_def)
  obtain u where u: "ts x = Some u" "slot_ok al u" using out [of x] x(1) by auto
  have m: "map ts (n_inputs n) = map env (n_inputs n)" using ins by simp
  have "list_all (\<lambda>t. t \<noteq> None) (map env (n_inputs n))"
    using x(3) by (auto simp: node_outcome_def provider_compute_def rbind_eq_Inr)
  then have some: "\<forall>i\<in>set (n_inputs n). ts i \<noteq> None" using ins by (simp add: list_all_iff)
  have io: "inputs_ok (map ts (n_inputs n))"
    unfolding m using sane by (auto simp: inputs_ok_def list_all_iff sane_def ran_def split: option.splits)
  have e: "execute_node cp ctx n ts = Inr (ts(x \<mapsto> t))"
    using execute_node_outcome [OF x(1) u cp some io] x(3) by (simp add: m)
  obtain y v where y: "node_result cp ctx n ts = Inr (y, v)" using e by (auto simp: execute_node_def rbind_eq_Inr)
  then have "y = x" using node_result_Inr(1) [OF y] x(1) by simp
  moreover have "v = t" using e y calculation by (auto simp: execute_node_def dest: map_upd_eqD1)
  ultimately show ?thesis using x y e by blast
qed

section \<open>A level under any schedule\<close>

definition apart :: "node list \<Rightarrow> bool" where
  "apart ns = (\<forall>i<length ns. \<forall>j<length ns. i \<noteq> j \<longrightarrow> \<not> touches (ns ! i) (ns ! j))"

definition level_inv :: "(nat \<Rightarrow> (string \<times> f32 tensor) res) \<Rightarrow> store \<Rightarrow> nat set \<Rightarrow> nat set \<Rightarrow> level_state \<Rightarrow> bool" where
  "level_inv rs ts0 D R st =
     (distinct (map fst (l_running st)) \<and> set (l_running st) = (\<lambda>i. (i, rs i)) ` R \<and>
      (\<forall>i\<in>D. \<forall>x t. rs i = Inr (x, t) \<longrightarrow> l_store st x = Some t) \<and>
      (\<forall>y. (\<forall>i\<in>D. \<forall>t. rs i \<noteq> Inr (y, t)) \<longrightarrow> l_store st y = ts0 y) \<and>
      set (l_errors st) = {(i, e). i \<in> D \<and> rs i = Inl e})"

lemma level_inv_running: "level_inv rs ts0 D R st \<Longrightarrow> i \<in> R \<Longrightarrow> map_of (l_running st) i = Some (rs i)"
  unfolding level_inv_def by (intro map_of_is_SomeI) auto

lemma level_start:
  assumes inv: "level_inv rs ts0 D R st" and i: "i \<notin> D" "i \<notin> R" "i < length ns" and DR: "D \<union> R \<subseteq> {..<length ns}"
    and ap: "apart ns" and rs: "\<And>j. j < length ns \<Longrightarrow> rs j = node_result cp (re_worker re (ns ! j)) (ns ! j) ts0"
  shows "\<exists>st'. level_step re cp ns (Start i) st = Inr st' \<and> level_inv rs ts0 D (insert i R) st'"
proof -
  have free: "\<not> touches (ns ! i) (ns ! j)" if "j \<in> D \<union> R" for j
    using ap i that DR unfolding apart_def by blast
  have "l_store st y = ts0 y" if y: "y \<in> set (n_inputs (ns ! i)) \<union> set (n_outputs (ns ! i))" for y
  proof -
    have "rs j \<noteq> Inr (y, t)" if j: "j \<in> D" for j t
    proof
      assume r: "rs j = Inr (y, t)"
      have "j < length ns" using j DR by auto
      from node_result_Inr(1) [OF rs [OF this, symmetric, unfolded r]] have "y \<in> set (n_outputs (ns ! j))" .
      then show False using free [of j] j y unfolding touches_def by blast
    qed
    then show ?thesis using inv unfolding level_inv_def by blast
  qed
  then have res: "node_result cp (re_worker re (ns ! i)) (ns ! i) (l_store st) = rs i"
    unfolding rs [OF i(3)] by (rule node_result_cong)
  have "\<not> list_ex (\<lambda>(j, _). touches (ns ! i) (ns ! j)) (l_running st)"
    using inv free unfolding level_inv_def list_ex_iff by auto
  moreover have "i \<notin> fst ` set (l_running st)" using inv i(2) unfolding level_inv_def by force
  ultimately show ?thesis using inv res by (auto simp: level_inv_def)
qed

lemma level_finish:
  assumes inv: "level_inv rs ts0 D R st" and i: "i \<in> R" "i \<notin> D" and DR: "D \<union> R \<subseteq> {..<length ns}"
    and ap: "apart ns" and rs: "\<And>j. j < length ns \<Longrightarrow> rs j = node_result cp (re_worker re (ns ! j)) (ns ! j) ts0"
  shows "\<exists>st'. level_step re cp ns (Finish i) st = Inr st' \<and> level_inv rs ts0 (insert i D) (R - {i}) st'"
proof -
  have own: "x \<in> set (n_outputs (ns ! j))" if j: "j \<in> D \<union> R" and r: "rs j = Inr (x, t)" for j x t
  proof -
    have "j < length ns" using j DR by auto
    from node_result_Inr(1) [OF rs [OF this, symmetric, unfolded r]] show ?thesis .
  qed
  have other: "x \<noteq> y" if "j \<in> D" "rs j = Inr (x, t)" "rs i = Inr (y, u)" for j x y t u
  proof -
    have "j \<noteq> i" "j < length ns" "i < length ns" using that(1) i DR by auto
    then have "\<not> touches (ns ! i) (ns ! j)" using ap unfolding apart_def by blast
    moreover have "x \<in> set (n_outputs (ns ! j))" "y \<in> set (n_outputs (ns ! i))" using own that i(1) by blast+
    ultimately show ?thesis unfolding touches_def by blast
  qed
  note m = level_inv_running [OF inv i(1)]
  have run: "distinct (map fst (filter (\<lambda>(j, _). j \<noteq> i) (l_running st)))"
      "set (filter (\<lambda>(j, _). j \<noteq> i) (l_running st)) = (\<lambda>i. (i, rs i)) ` (R - {i})"
    using inv unfolding level_inv_def by (auto simp: distinct_map_filter)
  show ?thesis
  proof (cases "rs i")
    case (Inl e)
    then show ?thesis using inv m run by (auto simp: level_inv_def)
  next
    case (Inr yu)
    obtain y u where yu: "yu = (y, u)" by (cases yu)
    then have "\<forall>j\<in>D. \<forall>x t. rs j = Inr (x, t) \<longrightarrow> x \<noteq> y" using other Inr by blast
    then show ?thesis using inv m run Inr yu by (auto simp: level_inv_def)
  qed
qed

lemma level_steps:
  assumes ap: "apart ns" and rs: "\<And>j. j < length ns \<Longrightarrow> rs j = node_result cp (re_worker re (ns ! j)) (ns ! j) ts0"
  shows "sched_ok W R es \<Longrightarrow> level_inv rs ts0 D R st \<Longrightarrow> W \<union> R \<union> D = {..<length ns} \<Longrightarrow> W \<inter> R = {} \<Longrightarrow> W \<inter> D = {} \<Longrightarrow> R \<inter> D = {} \<Longrightarrow>
    \<exists>st'. rfold (level_step re cp ns) es st = Inr st' \<and> level_inv rs ts0 {..<length ns} {} st'"
proof (induction es arbitrary: W R D st)
  case Nil
  then show ?case by simp
next
  case (Cons ev es)
  show ?case
  proof (cases ev)
    case (Start i)
    then have i: "i \<in> W" "sched_ok (W - {i}) (insert i R) es" using Cons.prems(1) by simp_all
    have "i \<notin> D" "i \<notin> R" "i < length ns" "D \<union> R \<subseteq> {..<length ns}" using i(1) Cons.prems(3-6) by auto
    from level_start [OF Cons.prems(2) this ap rs] obtain st1 where
      s: "level_step re cp ns (Start i) st = Inr st1" "level_inv rs ts0 D (insert i R) st1" by blast
    have "\<exists>st'. rfold (level_step re cp ns) es st1 = Inr st' \<and> level_inv rs ts0 {..<length ns} {} st'"
      by (rule Cons.IH [OF i(2) s(2)]) (use i(1) Cons.prems(3-6) in auto)
    then show ?thesis using s(1) Start by simp
  next
    case (Finish i)
    then have i: "i \<in> R" "sched_ok W (R - {i}) es" using Cons.prems(1) by simp_all
    have "i \<notin> D" "D \<union> R \<subseteq> {..<length ns}" using i(1) Cons.prems(3-6) by auto
    from level_finish [OF Cons.prems(2) i(1) this ap rs] obtain st1 where
      s: "level_step re cp ns (Finish i) st = Inr st1" "level_inv rs ts0 (insert i D) (R - {i}) st1" by blast
    have "\<exists>st'. rfold (level_step re cp ns) es st1 = Inr st' \<and> level_inv rs ts0 {..<length ns} {} st'"
      by (rule Cons.IH [OF i(2) s(2)]) (use i(1) Cons.prems(3-6) in auto)
    then show ?thesis using s(1) Finish by simp
  qed
qed

lemma level_error_None: "level_error errs = None \<longleftrightarrow> errs = []"
  by (auto simp: level_error_def split: option.splits list.splits)

lemma level_error_Some: "level_error errs = Some e \<Longrightarrow> \<exists>i. (i, e) \<in> set errs"
  by (auto simp: level_error_def split: option.splits list.splits dest: map_of_SomeD)

lemma run_level_spec:
  fixes cp ts re
  assumes "apart ns" "valid_schedule (length ns) es"
  defines "rs \<equiv> \<lambda>j. node_result cp (re_worker re (ns ! j)) (ns ! j) ts"
  obtains err ts' pf' where "run_level re cp es ns (ts, pf) = (err, (ts', pf'))"
    "err = None \<longleftrightarrow> (\<forall>i<length ns. \<exists>r. rs i = Inr r)" "\<forall>e. err = Some e \<longrightarrow> (\<exists>i<length ns. rs i = Inl e)"
    "\<forall>i<length ns. \<forall>x t. rs i = Inr (x, t) \<longrightarrow> ts' x = Some t"
    "\<forall>y. (\<forall>i<length ns. \<forall>t. rs i \<noteq> Inr (y, t)) \<longrightarrow> ts' y = ts y"
proof -
  let ?st = "\<lparr>l_store = ts, l_prof = pf, l_running = [], l_errors = []\<rparr>"
  have "level_inv rs ts {} {} ?st" by (simp add: level_inv_def)
  moreover have "sched_ok {..<length ns} {} es" using assms(2) by (simp add: valid_schedule_def atLeast0LessThan)
  ultimately obtain st' where st': "rfold (level_step re cp ns) es ?st = Inr st'" "level_inv rs ts {..<length ns} {} st'"
    using level_steps [OF assms(1), of rs cp re ts "{..<length ns}" "{}" es "{}" ?st] by (auto simp: rs_def)
  have err: "set (l_errors st') = {(i, e). i < length ns \<and> rs i = Inl e}"
    and s1: "\<forall>i<length ns. \<forall>x t. rs i = Inr (x, t) \<longrightarrow> l_store st' x = Some t"
    and s2: "\<forall>y. (\<forall>i<length ns. \<forall>t. rs i \<noteq> Inr (y, t)) \<longrightarrow> l_store st' y = ts y"
    using st'(2) by (auto simp: level_inv_def)
  have n: "level_error (l_errors st') = None \<longleftrightarrow> (\<forall>i<length ns. \<exists>r. rs i = Inr r)"
  proof -
    have "level_error (l_errors st') = None \<longleftrightarrow> set (l_errors st') = {}" by (simp add: level_error_None)
    also have "\<dots> \<longleftrightarrow> (\<forall>i<length ns. \<forall>e. rs i \<noteq> Inl e)" unfolding err by blast
    also have "\<dots> \<longleftrightarrow> (\<forall>i<length ns. \<exists>r. rs i = Inr r)" by (metis Inl_Inr_False sum.exhaust)
    finally show ?thesis .
  qed
  have e: "\<forall>e. level_error (l_errors st') = Some e \<longrightarrow> (\<exists>i<length ns. rs i = Inl e)"
    using level_error_Some [of "l_errors st'"] unfolding err by blast
  show ?thesis
    using that [OF _ n e s1 s2] st'(1) by (simp add: run_level_def)
qed

section \<open>A sequence of levels\<close>

text \<open>A level of one node on the calling thread, or a level on the pool, seen alike.\<close>

definition block_ok :: "run_env \<Rightarrow> nat \<Rightarrow> node list \<Rightarrow> bool" where
  "block_ok re k ns = (apart ns \<and> (length ns = 1 \<or> valid_schedule (length ns) (re_sched re k)))"

definition levels_ok :: "run_env \<Rightarrow> nat \<Rightarrow> node list list \<Rightarrow> bool" where
  "levels_ok re k nss = (\<forall>j<length nss. block_ok re (k + j) (nss ! j))"

lemma levels_ok_Cons: "levels_ok re k (ns # nss) \<longleftrightarrow> block_ok re k ns \<and> levels_ok re (k + 1) nss"
  unfolding levels_ok_def by (simp add: All_less_Suc2)

definition run_block :: "run_env \<Rightarrow> cpu_provider \<Rightarrow> nat \<Rightarrow> node list \<Rightarrow> run_state \<Rightarrow> exn option \<times> run_state" where
  "run_block re cp k ns st = (if length ns = 1 then run_nodes re cp ns st else run_level re cp (re_sched re k) ns st)"

lemma run_levels_block: "run_levels re cp k (ns # nss) st = (case run_block re cp k ns st of
    (Some e, st') \<Rightarrow> (Some e, st') | (None, st') \<Rightarrow> run_levels re cp (k + 1) nss st')"
  by (simp add: run_block_def)

lemma run_block_spec:
  fixes cp ts
  assumes "block_ok re k ns"
  obtains ctx err ts' pf' where "run_block re cp k ns (ts, pf) = (err, (ts', pf'))"
    "err = None \<longleftrightarrow> (\<forall>i<length ns. \<exists>r. node_result cp (ctx i) (ns ! i) ts = Inr r)"
    "\<forall>e. err = Some e \<longrightarrow> (\<exists>i<length ns. node_result cp (ctx i) (ns ! i) ts = Inl e)"
    "\<forall>i<length ns. \<forall>x t. node_result cp (ctx i) (ns ! i) ts = Inr (x, t) \<longrightarrow> ts' x = Some t"
    "\<forall>y. (\<forall>i<length ns. \<forall>t. node_result cp (ctx i) (ns ! i) ts \<noteq> Inr (y, t)) \<longrightarrow> ts' y = ts y"
proof (cases "length ns = 1")
  case True
  then obtain n where n: "ns = [n]" by (auto simp: length_Suc_conv)
  show ?thesis
  proof (cases "node_result cp (re_ctx re) n ts")
    case (Inl e)
    then show ?thesis by (intro that [of "Some e" ts pf "\<lambda>_. re_ctx re"]) (auto simp: n run_block_def execute_node_def)
  next
    case (Inr r)
    then show ?thesis
      by (cases r, intro that [of None "ts(fst r \<mapsto> snd r)" "record_node re n pf" "\<lambda>_. re_ctx re"])
        (auto simp: n run_block_def execute_node_def)
  qed
next
  case False
  then have "apart ns" "valid_schedule (length ns) (re_sched re k)" using assms by (simp_all add: block_ok_def)
  then obtain err ts' pf' where r: "run_level re cp (re_sched re k) ns (ts, pf) = (err, (ts', pf'))"
    "err = None \<longleftrightarrow> (\<forall>i<length ns. \<exists>r. node_result cp (re_worker re (ns ! i)) (ns ! i) ts = Inr r)"
    "\<forall>e. err = Some e \<longrightarrow> (\<exists>i<length ns. node_result cp (re_worker re (ns ! i)) (ns ! i) ts = Inl e)"
    "\<forall>i<length ns. \<forall>x t. node_result cp (re_worker re (ns ! i)) (ns ! i) ts = Inr (x, t) \<longrightarrow> ts' x = Some t"
    "\<forall>y. (\<forall>i<length ns. \<forall>t. node_result cp (re_worker re (ns ! i)) (ns ! i) ts \<noteq> Inr (y, t)) \<longrightarrow> ts' y = ts y"
    by (rule run_level_spec [where cp = cp and re = re and ts = ts and pf = pf])
  show ?thesis
    by (rule that [where ctx = "\<lambda>j. re_worker re (ns ! j)", OF _ r(2-5)]) (use r(1) False in \<open>simp add: run_block_def\<close>)
qed

lemma run_nodes_levels: "run_nodes re cp ns st = run_levels re cp k (map (\<lambda>n. [n]) ns) st"
proof (induction ns arbitrary: st k)
  case (Cons n ns)
  obtain ts pf where st: "st = (ts, pf)" by (cases st)
  show ?case using Cons [of _ "k + 1"] by (cases "execute_node cp (re_ctx re) n ts") (simp_all add: st)
qed simp

lemma singles: "concat (map (\<lambda>n. [n]) ns) = ns" "levels_ok re k (map (\<lambda>n. [n]) ns)"
  by (simp_all add: levels_ok_def block_ok_def apart_def)

lemma block_frame:
  assumes "block_ok re k ns" "run_block re cp k ns (ts, pf) = (err, (ts', pf'))" "y \<notin> outputs_of ns"
  shows "ts' y = ts y"
proof -
  obtain ctx err2 ts2 pf2 where b: "run_block re cp k ns (ts, pf) = (err2, (ts2, pf2))"
    "\<forall>y. (\<forall>i<length ns. \<forall>t. node_result cp (ctx i) (ns ! i) ts \<noteq> Inr (y, t)) \<longrightarrow> ts2 y = ts y"
    by (rule run_block_spec [OF assms(1), of cp ts pf]) blast
  have "node_result cp (ctx i) (ns ! i) ts \<noteq> Inr (y, t)" if "i < length ns" for i t
  proof
    assume "node_result cp (ctx i) (ns ! i) ts = Inr (y, t)"
    from node_result_Inr(1) [OF this] nth_mem [OF that] assms(3) show False by (auto simp: outputs_of_def)
  qed
  then show ?thesis using b assms(2) by auto
qed

lemma outputs_of_append [simp]: "outputs_of (as @ bs) = outputs_of as \<union> outputs_of bs"
  by (auto simp: outputs_of_def)

lemma levels_frame:
  "levels_ok re k nss \<Longrightarrow> run_levels re cp k nss (ts, pf) = (err, (ts', pf')) \<Longrightarrow> y \<notin> outputs_of (concat nss) \<Longrightarrow> ts' y = ts y"
proof (induction nss arbitrary: k ts pf)
  case (Cons ns nss)
  obtain e1 ts1 pf1 where b: "run_block re cp k ns (ts, pf) = (e1, (ts1, pf1))" by (metis prod.exhaust)
  have ok: "block_ok re k ns" "levels_ok re (k + 1) nss" using Cons.prems(1) by (simp_all add: levels_ok_Cons)
  have f: "ts1 y = ts y" using block_frame [OF ok(1) b] Cons.prems(3) by simp
  show ?case
  proof (cases e1)
    case None
    then have "run_levels re cp (k + 1) nss (ts1, pf1) = (err, (ts', pf'))"
      using Cons.prems(2) b unfolding run_levels_block by simp
    from Cons.IH [OF ok(2) this] Cons.prems(3) f show ?thesis by simp
  qed (use Cons.prems(2) b f in \<open>unfold run_levels_block, simp\<close>)
qed simp

text \<open>No slot disappears.\<close>

lemma block_domain:
  assumes "block_ok re k ns" "run_block re cp k ns (ts, pf) = (err, (ts', pf'))" "ts y \<noteq> None"
  shows "ts' y \<noteq> None"
proof -
  obtain ctx err2 ts2 pf2 where b: "run_block re cp k ns (ts, pf) = (err2, (ts2, pf2))"
    "\<forall>i<length ns. \<forall>x t. node_result cp (ctx i) (ns ! i) ts = Inr (x, t) \<longrightarrow> ts2 x = Some t"
    "\<forall>y. (\<forall>i<length ns. \<forall>t. node_result cp (ctx i) (ns ! i) ts \<noteq> Inr (y, t)) \<longrightarrow> ts2 y = ts y"
    by (rule run_block_spec [OF assms(1), of cp ts pf]) blast
  have "ts2 y \<noteq> None"
  proof (cases "\<exists>i<length ns. \<exists>t. node_result cp (ctx i) (ns ! i) ts = Inr (y, t)")
    case True
    then show ?thesis using b(2) by blast
  next
    case False
    then have "ts2 y = ts y" using b(3) by blast
    then show ?thesis using assms(3) by simp
  qed
  then show ?thesis using b(1) assms(2) by simp
qed

lemma levels_domain:
  "levels_ok re k nss \<Longrightarrow> run_levels re cp k nss (ts, pf) = (err, (ts', pf')) \<Longrightarrow> ts y \<noteq> None \<Longrightarrow> ts' y \<noteq> None"
proof (induction nss arbitrary: k ts pf)
  case (Cons ns nss)
  obtain e1 ts1 pf1 where b: "run_block re cp k ns (ts, pf) = (e1, (ts1, pf1))" by (metis prod.exhaust)
  have ok: "block_ok re k ns" "levels_ok re (k + 1) nss" using Cons.prems(1) by (simp_all add: levels_ok_Cons)
  have f: "ts1 y \<noteq> None" by (rule block_domain [OF ok(1) b Cons.prems(3)])
  show ?case
  proof (cases e1)
    case None
    then have "run_levels re cp (k + 1) nss (ts1, pf1) = (err, (ts', pf'))"
      using Cons.prems(2) b unfolding run_levels_block by simp
    from Cons.IH [OF ok(2) this f] show ?thesis .
  qed (use Cons.prems(2) b f in \<open>unfold run_levels_block, simp\<close>)
qed simp

text \<open>In a level of a runnable list, nothing reads what the level or a later one writes.\<close>

lemma runnable_append:
  assumes "runnable (as @ bs)"
  shows "runnable as" "runnable bs" "outputs_of as \<inter> outputs_of bs = {}" "\<forall>a\<in>set as. set (n_inputs a) \<inter> outputs_of bs = {}"
  using assms by (auto simp: runnable_def sorted_wrt_append outputs_of_def)

lemma level_reads:
  assumes "runnable (ns @ ms)" "apart ns" "n \<in> set ns"
  shows "set (n_inputs n) \<inter> outputs_of (ns @ ms) = {}"
proof -
  have own: "set (n_inputs n) \<inter> set (n_outputs m) = {}" if m: "m \<in> set ns" for m
  proof (cases "m = n")
    case True
    then show ?thesis using assms(1,3) by (auto simp: runnable_def)
  next
    case False
    obtain i j where ij: "i < length ns" "n = ns ! i" "j < length ns" "m = ns ! j"
      using assms(3) m unfolding in_set_conv_nth by blast
    then have "\<not> touches n m" using assms(2) False unfolding apart_def by blast
    then show ?thesis unfolding touches_def by blast
  qed
  have "set (n_inputs n) \<inter> outputs_of ms = {}" using runnable_append(4) [OF assms(1)] assms(3) by blast
  moreover have "set (n_inputs n) \<inter> outputs_of ns = {}" unfolding outputs_of_def using own by blast
  ultimately show ?thesis by auto
qed

text \<open>If the nodes have a meaning, the levels compute it.\<close>

lemma block_complete:
  assumes ok: "block_ok re k ns" and sol: "list_all (node_solved (cp_strategy cp) al env) ns" and sane: "sane env" and cp: "cp_ok cp"
    and ins: "\<forall>n\<in>set ns. \<forall>i\<in>set (n_inputs n). ts i = env i"
    and outs: "\<forall>x\<in>outputs_of ns. \<exists>u. ts x = Some u \<and> slot_ok al u"
  shows "\<exists>pf'. run_block re cp k ns (ts, pf) = (None, (\<lambda>y. if y \<in> outputs_of ns then env y else ts y, pf'))"
proof -
  obtain ctx err ts' pf' where b: "run_block re cp k ns (ts, pf) = (err, (ts', pf'))"
    "err = None \<longleftrightarrow> (\<forall>i<length ns. \<exists>r. node_result cp (ctx i) (ns ! i) ts = Inr r)"
    "\<forall>i<length ns. \<forall>x t. node_result cp (ctx i) (ns ! i) ts = Inr (x, t) \<longrightarrow> ts' x = Some t"
    by (rule run_block_spec [OF ok, of cp ts pf]) blast
  have one: "\<exists>x t. n_outputs (ns ! i) = [x] \<and> env x = Some t \<and> node_result cp (ctx i) (ns ! i) ts = Inr (x, t)"
    if i: "i < length ns" for i
  proof -
    have n: "ns ! i \<in> set ns" using i by simp
    have "set (n_outputs (ns ! i)) \<subseteq> outputs_of ns" using n by (auto simp: outputs_of_def)
    then show ?thesis
      using node_result_solved [of cp al env "ns ! i" ts "ctx i"] sol sane cp ins outs n
      by (simp add: list_all_iff subset_iff) blast
  qed
  then have "err = None" using b(2) by blast
  moreover have "ts' y = env y" if y: "y \<in> outputs_of ns" for y
  proof -
    from y obtain n where "n \<in> set ns" "y \<in> set (n_outputs n)" by (auto simp: outputs_of_def)
    then obtain i where i: "i < length ns" "y \<in> set (n_outputs (ns ! i))" by (metis in_set_conv_nth)
    from one [OF i(1)] i b(3) show ?thesis by fastforce
  qed
  moreover have "ts' y = ts y" if "y \<notin> outputs_of ns" for y by (rule block_frame [OF ok b(1) that])
  ultimately show ?thesis using b(1) by auto
qed

lemma levels_complete:
  assumes "sane env" "slots_ok al env" "cp_ok cp"
  shows "levels_ok re k nss \<Longrightarrow> runnable (concat nss) \<Longrightarrow> list_all (node_solved (cp_strategy cp) al env) (concat nss) \<Longrightarrow>
    (\<And>y. y \<notin> outputs_of (concat nss) \<Longrightarrow> ts y = env y) \<Longrightarrow>
    (\<And>x. x \<in> outputs_of (concat nss) \<Longrightarrow> \<exists>u. ts x = Some u \<and> slot_ok al u) \<Longrightarrow>
    \<exists>pf'. run_levels re cp k nss (ts, pf) = (None, (env, pf'))"
proof (induction nss arbitrary: k ts pf)
  case Nil
  then have "ts = env" by (auto simp: outputs_of_def)
  then show ?case by simp
next
  case (Cons ns nss)
  have ok: "block_ok re k ns" "levels_ok re (k + 1) nss" using Cons.prems(1) by (simp_all add: levels_ok_Cons)
  have run: "runnable (ns @ concat nss)" using Cons.prems(2) by simp
  let ?ts = "\<lambda>y. if y \<in> outputs_of ns then env y else ts y"
  have ap: "apart ns" using ok(1) by (simp add: block_ok_def)
  have "\<forall>n\<in>set ns. \<forall>i\<in>set (n_inputs n). ts i = env i"
    using level_reads [OF run ap] Cons.prems(4) by (metis concat.simps(2) disjoint_iff)
  moreover have "\<forall>x\<in>outputs_of ns. \<exists>u. ts x = Some u \<and> slot_ok al u" using Cons.prems(5) by simp
  moreover have "list_all (node_solved (cp_strategy cp) al env) ns" using Cons.prems(3) by simp
  ultimately obtain pf1 where b: "run_block re cp k ns (ts, pf) = (None, (?ts, pf1))"
    using block_complete [OF ok(1) _ assms(1,3)] by blast
  have "\<exists>pf'. run_levels re cp (k + 1) nss (?ts, pf1) = (None, (env, pf'))"
  proof (rule Cons.IH [OF ok(2)])
    show "runnable (concat nss)" by (rule runnable_append(2) [OF run])
    show "list_all (node_solved (cp_strategy cp) al env) (concat nss)" using Cons.prems(3) by simp
    show "?ts y = env y" if "y \<notin> outputs_of (concat nss)" for y using Cons.prems(4) [of y] that by simp
    show "\<exists>u. ?ts x = Some u \<and> slot_ok al u" if "x \<in> outputs_of (concat nss)" for x
      using Cons.prems(5) [of x] that runnable_append(3) [OF run] by auto
  qed
  then show ?case unfolding run_levels_block b by simp
qed

text \<open>Whatever the levels leave in the store without an exception is the meaning of the nodes.\<close>

lemma node_result_outcome:
  assumes "n_outputs n = [x]" "node_result cp ctx n ts = Inr (y, t)" "slots_ok al ts" "cp_ok cp" "inputs_ok (map ts (n_inputs n))"
  shows "y = x \<and> node_outcome (cp_strategy cp) n (map ts (n_inputs n)) al = Inr t \<and> slot_ok al t"
proof -
  note r = node_result_Inr [OF assms(2)]
  have y: "y = x" using r(1) assms(1) by simp
  obtain u where u: "ts x = Some u" using r(2) y by auto
  then have so: "slot_ok al u" using assms(3) by (auto simp: slots_ok_def ran_def)
  have "execute_node cp ctx n ts = Inr (ts(x \<mapsto> t))" using assms(2) y by (simp add: execute_node_def)
  then have "node_outcome (cp_strategy cp) n (map ts (n_inputs n)) al = Inr t"
    using execute_node_outcome [OF assms(1) u so assms(4) r(3) assms(5), of ctx]
    by (cases "node_outcome (cp_strategy cp) n (map ts (n_inputs n)) al") (auto dest: map_upd_eqD1)
  then show ?thesis using y node_outcome_slot [OF _ assms(5)] by simp
qed

lemma block_sound:
  assumes ok: "block_ok re k ns" and b: "run_block re cp k ns (ts, pf) = (err, (ts', pf'))" and cp: "cp_ok cp" and so: "slots_ok al ts"
    and one: "\<forall>n\<in>set ns. length (n_outputs n) = 1" and io: "\<forall>n\<in>set ns. inputs_ok (map ts (n_inputs n))"
  shows "slots_ok al ts' \<and> (err = None \<longrightarrow> (\<forall>n\<in>set ns. \<exists>x t. n_outputs n = [x] \<and> ts' x = Some t \<and>
    node_outcome (cp_strategy cp) n (map ts (n_inputs n)) al = Inr t))"
proof -
  obtain ctx where c: "err = None \<longleftrightarrow> (\<forall>i<length ns. \<exists>r. node_result cp (ctx i) (ns ! i) ts = Inr r)"
    "\<forall>i<length ns. \<forall>x t. node_result cp (ctx i) (ns ! i) ts = Inr (x, t) \<longrightarrow> ts' x = Some t"
    "\<forall>y. (\<forall>i<length ns. \<forall>t. node_result cp (ctx i) (ns ! i) ts \<noteq> Inr (y, t)) \<longrightarrow> ts' y = ts y"
    by (rule run_block_spec [OF ok, of cp ts pf]) (use b in force)
  have res: "n_outputs (ns ! i) = [x] \<and> node_outcome (cp_strategy cp) (ns ! i) (map ts (n_inputs (ns ! i))) al = Inr t \<and> slot_ok al t"
    if "i < length ns" "node_result cp (ctx i) (ns ! i) ts = Inr (x, t)" for i x t
  proof -
    have n: "ns ! i \<in> set ns" using that(1) by simp
    then obtain z where "n_outputs (ns ! i) = [z]" using one by (auto simp: length_Suc_conv)
    with node_result_outcome [OF this that(2) so cp] io n show ?thesis by simp
  qed
  have "slot_ok al u" if u: "ts' y = Some u" for y u
  proof (cases "\<exists>i<length ns. \<exists>t. node_result cp (ctx i) (ns ! i) ts = Inr (y, t)")
    case True
    then obtain i t where i: "i < length ns" "node_result cp (ctx i) (ns ! i) ts = Inr (y, t)" by blast
    with c(2) u have "t = u" by fastforce
    then show ?thesis using res [OF i] by simp
  next
    case False
    then have "ts y = Some u" using c(3) u by metis
    then show ?thesis using so by (auto simp: slots_ok_def ran_def)
  qed
  moreover have "\<exists>x t. n_outputs n = [x] \<and> ts' x = Some t \<and> node_outcome (cp_strategy cp) n (map ts (n_inputs n)) al = Inr t"
    if e: "err = None" and n: "n \<in> set ns" for n
  proof -
    obtain i where i: "i < length ns" "n = ns ! i" using n unfolding in_set_conv_nth by blast
    obtain x t where r: "node_result cp (ctx i) (ns ! i) ts = Inr (x, t)" using c(1) e i(1) by fastforce
    show ?thesis using res [OF i(1) r] c(2) i r by blast
  qed
  ultimately show ?thesis by (auto simp: slots_ok_def ran_def)
qed

lemma sane_inputs:
  assumes "sane ts'" "\<forall>i\<in>set xs. ts' i = ts i"
  shows "inputs_ok (map ts xs)"
proof -
  have "modest u" if i: "i \<in> set xs" "ts i = Some u" for i u
  proof -
    have "ts' i = Some u" using assms(2) i by simp
    then show ?thesis using assms(1) by (auto simp: sane_def ran_def)
  qed
  then show ?thesis by (auto simp: inputs_ok_def list_all_iff split: option.splits)
qed

lemma levels_sound:
  assumes cp: "cp_ok cp" and sane: "sane ts'"
  shows "levels_ok re k nss \<Longrightarrow> runnable (concat nss) \<Longrightarrow> run_levels re cp k nss (ts, pf) = (err, (ts', pf')) \<Longrightarrow> slots_ok al ts \<Longrightarrow>
    slots_ok al ts' \<and> (err = None \<longrightarrow> list_all (node_solved (cp_strategy cp) al ts') (concat nss))"
proof (induction nss arbitrary: k ts pf)
  case Nil
  then show ?case by simp
next
  case (Cons ns nss)
  have ok: "block_ok re k ns" "levels_ok re (k + 1) nss" using Cons.prems(1) by (simp_all add: levels_ok_Cons)
  have run: "runnable (ns @ concat nss)" using Cons.prems(2) by simp
  have ap: "apart ns" using ok(1) by (simp add: block_ok_def)
  have keep: "ts' i = ts i" if n: "n \<in> set ns" and i: "i \<in> set (n_inputs n)" for n i
    using levels_frame [OF Cons.prems(1,3)] level_reads [OF run ap n] i by auto
  have io: "\<forall>n\<in>set ns. inputs_ok (map ts (n_inputs n))" using sane_inputs [OF sane] keep by blast
  have one: "\<forall>n\<in>set ns. length (n_outputs n) = 1" using runnable_append(1) [OF run] by (simp add: runnable_def)
  obtain e1 ts1 pf1 where b: "run_block re cp k ns (ts, pf) = (e1, (ts1, pf1))" by (metis prod.exhaust)
  note s = block_sound [OF ok(1) b cp Cons.prems(4) one io]
  show ?case
  proof (cases e1)
    case (Some e)
    then have "err = Some e" "ts1 = ts'" using Cons.prems(3) unfolding run_levels_block b by simp_all
    then show ?thesis using s by simp
  next
    case None
    then have rest: "run_levels re cp (k + 1) nss (ts1, pf1) = (err, (ts', pf'))"
      using Cons.prems(3) b unfolding run_levels_block by simp
    note IH = Cons.IH [OF ok(2) runnable_append(2) [OF run] rest]
    have "node_solved (cp_strategy cp) al ts' n" if n: "n \<in> set ns" for n
    proof -
      obtain x t where x: "n_outputs n = [x]" "ts1 x = Some t" "node_outcome (cp_strategy cp) n (map ts (n_inputs n)) al = Inr t"
        using s None n by blast
      have "x \<in> outputs_of ns" using n x(1) by (force simp: outputs_of_def)
      then have "x \<notin> outputs_of (concat nss)" using runnable_append(3) [OF run] by blast
      from levels_frame [OF ok(2) rest this] have "ts' x = Some t" using x(2) by simp
      moreover have "map ts' (n_inputs n) = map ts (n_inputs n)" using keep [OF n] by simp
      ultimately show ?thesis unfolding node_solved_def using x by metis
    qed
    then show ?thesis using IH s by (auto simp: list_all_iff)
  qed
qed

text \<open>An exception is all that can come out of a run whose nodes have their slots: no task does
  anything undefined.\<close>

lemma node_result_clean:
  assumes "n_outputs n = [x]" "slots_ok al ts" "cp_ok cp" "inputs_ok (map ts (n_inputs n))"
    and "\<forall>i\<in>set (n_inputs n) \<union> set (n_outputs n). ts i \<noteq> None"
  shows "fails_cleanly (node_result cp ctx n ts)"
proof -
  obtain u where u: "ts x = Some u" using assms(1,5) by auto
  then have so: "wf_tensor u" using assms(2) by (auto simp: slots_ok_def ran_def slot_ok_def)
  obtain ys where ys: "rmap (find_slot ts) (n_inputs n) = Inr ys" "map Some ys = map ts (n_inputs n)"
    using find_slots [of "n_inputs n" ts] assms(5) by blast
  have "fails_cleanly (provider_compute cp ctx n (map ts (n_inputs n)) u)"
    unfolding provider_compute_outcome [OF assms(4) so assms(3)] by (rule node_outcome_clean [OF assms(4)])
  then show ?thesis
    using ys u assms(1) by (simp add: node_result_def find_slot_def fails_cleanly_rbind)
qed

lemma block_clean:
  assumes ok: "block_ok re k ns" and b: "run_block re cp k ns (ts, pf) = (Some e, (ts', pf'))" and cp: "cp_ok cp" and so: "slots_ok al ts"
    and one: "\<forall>n\<in>set ns. length (n_outputs n) = 1" and io: "\<forall>n\<in>set ns. inputs_ok (map ts (n_inputs n))"
    and slots: "\<forall>n\<in>set ns. \<forall>i\<in>set (n_inputs n) \<union> set (n_outputs n). ts i \<noteq> None"
  shows "catchable e"
proof -
  obtain ctx where "\<forall>e'. Some e = Some e' \<longrightarrow> (\<exists>i<length ns. node_result cp (ctx i) (ns ! i) ts = Inl e')"
    by (rule run_block_spec [OF ok, of cp ts pf]) (use b in force)
  then obtain i where i: "i < length ns" "node_result cp (ctx i) (ns ! i) ts = Inl e" by blast
  have n: "ns ! i \<in> set ns" using i(1) by simp
  obtain x where x: "n_outputs (ns ! i) = [x]" using one n by (auto simp: length_Suc_conv)
  from node_result_clean [OF x so cp bspec [OF io n] bspec [OF slots n], of "ctx i"] i(2) show ?thesis by simp
qed

lemma levels_clean:
  assumes cp: "cp_ok cp" and sane: "sane ts'"
  shows "levels_ok re k nss \<Longrightarrow> runnable (concat nss) \<Longrightarrow> run_levels re cp k nss (ts, pf) = (Some e, (ts', pf')) \<Longrightarrow> slots_ok al ts \<Longrightarrow>
    \<forall>n\<in>set (concat nss). \<forall>i\<in>set (n_inputs n) \<union> set (n_outputs n). ts i \<noteq> None \<Longrightarrow> catchable e"
proof (induction nss arbitrary: k ts pf)
  case (Cons ns nss)
  have ok: "block_ok re k ns" "levels_ok re (k + 1) nss" using Cons.prems(1) by (simp_all add: levels_ok_Cons)
  have run: "runnable (ns @ concat nss)" using Cons.prems(2) by simp
  have ap: "apart ns" using ok(1) by (simp add: block_ok_def)
  have "ts' i = ts i" if n: "n \<in> set ns" and i: "i \<in> set (n_inputs n)" for n i
    using levels_frame [OF Cons.prems(1,3)] level_reads [OF run ap n] i by auto
  then have io: "\<forall>n\<in>set ns. inputs_ok (map ts (n_inputs n))" using sane_inputs [OF sane] by blast
  have one: "\<forall>n\<in>set ns. length (n_outputs n) = 1" using runnable_append(1) [OF run] by (simp add: runnable_def)
  have slots: "\<forall>n\<in>set ns. \<forall>i\<in>set (n_inputs n) \<union> set (n_outputs n). ts i \<noteq> None"
    using Cons.prems(5) unfolding concat.simps set_append by blast
  obtain e1 ts1 pf1 where b: "run_block re cp k ns (ts, pf) = (e1, (ts1, pf1))" by (metis prod.exhaust)
  show ?case
  proof (cases e1)
    case (Some e')
    then have "run_block re cp k ns (ts, pf) = (Some e, (ts', pf'))" using Cons.prems(3) unfolding run_levels_block b by simp
    from block_clean [OF ok(1) this cp Cons.prems(4) one io slots] show ?thesis .
  next
    case None
    then have rest: "run_levels re cp (k + 1) nss (ts1, pf1) = (Some e, (ts', pf'))"
      using Cons.prems(3) b unfolding run_levels_block by simp
    have so1: "slots_ok al ts1" using block_sound [OF ok(1) b cp Cons.prems(4) one io] by simp
    have "\<forall>n\<in>set (concat nss). \<forall>i\<in>set (n_inputs n) \<union> set (n_outputs n). ts1 i \<noteq> None"
      using block_domain [OF ok(1) b] Cons.prems(5) by (metis Un_iff concat.simps(2) set_append)
    from Cons.IH [OF ok(2) runnable_append(2) [OF run] rest so1 this] show ?thesis .
  qed
qed simp

section \<open>Sessions\<close>

text \<open>What construction establishes and every run keeps: \<open>b\<close> are the values of the slots no run
  writes.\<close>

definition session_inv :: "store \<Rightarrow> session \<Rightarrow> bool" where
  "session_inv b s = (cp_ok (s_provider s) \<and> runnable (s_order s) \<and> runnable (concat (s_levels s)) \<and>
     set (concat (s_levels s)) = set (s_order s) \<and> (\<forall>ns\<in>set (s_levels s). apart ns) \<and>
     slots_ok (cp_alloc (s_provider s)) (s_tensors s) \<and> s_inputName s \<notin> outputs_of (s_order s) \<and>
     (\<forall>y. y \<notin> outputs_of (s_order s) \<and> y \<noteq> s_inputName s \<longrightarrow> s_tensors s y = b y) \<and>
     (\<forall>y. y \<in> outputs_of (s_order s) \<or> y = s_inputName s \<longrightarrow> s_tensors s y \<noteq> None) \<and>
     (\<forall>n\<in>set (s_order s). \<forall>i\<in>set (n_inputs n). s_tensors s i \<noteq> None) \<and> s_tensors s (s_outputName s) \<noteq> None)"

text \<open>Schedules that fit the levels of the session.\<close>

definition env_ok :: "run_env \<Rightarrow> session \<Rightarrow> bool" where
  "env_ok re s = (\<forall>j<length (s_levels s). length (s_levels s ! j) = 1 \<or> valid_schedule (length (s_levels s ! j)) (re_sched re j))"

lemma copy_elements_wf:
  assumes "wf_tensor x" "wf_tensor d" "t_shape d = t_shape x"
  shows "copy_elements x d = Inr (retag (t_alloc d) x)"
proof -
  have l: "length (t_data x) = unat (t_size x)" "length (t_data d) = unat (t_size x)" "t_size d = t_size x"
    using wf_same_shape [OF assms(2,1,3)] assms(1) by (simp_all add: wf_tensor_def)
  then have "d\<lparr>t_data := t_data x\<rparr> = retag (t_alloc d) x"
    using assms(3) by (intro tensor_eqI) simp_all
  then show ?thesis using l by (simp add: copy_elements_def Let_def)
qed

lemma load_input_slot:
  assumes slot: "s_tensors s (s_inputName s) = Some slot" "slot_ok (cp_alloc (s_provider s)) slot" and x: "wf_tensor x"
  shows "load_input s x = Inr ((s_tensors s)(s_inputName s \<mapsto> retag (cp_alloc (s_provider s)) x))"
proof -
  note so = slot(2)
  obtain d where d: "(if t_shape slot \<noteq> t_shape x then tensor_zeros 0 (t_shape x) (cp_alloc (s_provider s)) else Inr slot) = Inr d"
      "wf_tensor d" "t_shape d = t_shape x" "t_alloc d = cp_alloc (s_provider s)"
  proof (cases "t_shape slot = t_shape x")
    case True
    then show ?thesis using that [of slot] so by (simp add: slot_ok_def)
  next
    case False
    have "buffer_fits (computeSize (t_shape x))" using x by (auto simp: wf_tensor_def)
    then obtain z :: "f32 tensor" where z: "tensor_zeros 0 (t_shape x) (cp_alloc (s_provider s)) = Inr z"
        "t_alloc z = cp_alloc (s_provider s)" "t_shape z = t_shape x"
      by (simp add: tensor_zeros_def alloc_fill_def Let_def)
    then show ?thesis using that [of z] False tensor_zeros_wf [OF z(1)] by simp
  qed
  show ?thesis
    using slot(1) d copy_elements_wf [OF x d(2,3)] by (simp add: load_input_def find_slot_def)
qed

lemma load_input_ok:
  assumes "session_inv b s" "wf_tensor x"
  shows "load_input s x = Inr ((s_tensors s)(s_inputName s \<mapsto> retag (cp_alloc (s_provider s)) x))"
proof -
  obtain slot where "s_tensors s (s_inputName s) = Some slot" using assms(1) by (auto simp: session_inv_def)
  moreover then have "slot_ok (cp_alloc (s_provider s)) slot" using assms(1) by (auto simp: session_inv_def slots_ok_def ran_def)
  ultimately show ?thesis using load_input_slot assms(2) by blast
qed

text \<open>Both schedules are lists of levels.\<close>

lemma run_schedule_levels:
  assumes "session_inv b s" "env_ok re s"
  obtains nss where "\<forall>st. run_schedule re s st = run_levels re (s_provider s) 0 nss st" "levels_ok re 0 nss" "runnable (concat nss)"
    "set (concat nss) = set (s_order s)"
proof (cases "parallel s")
  case True
  have "levels_ok re 0 (s_levels s)"
    using assms by (auto simp: levels_ok_def block_ok_def session_inv_def env_ok_def)
  then show ?thesis using that [of "s_levels s"] True assms(1) by (simp add: run_schedule_def session_inv_def)
next
  case False
  show ?thesis
    by (rule that [of "map (\<lambda>n. [n]) (s_order s)"])
       (use False assms(1) singles run_nodes_levels in \<open>simp_all add: run_schedule_def session_inv_def\<close>)
qed

lemma outputs_of_set: "set as = set bs \<Longrightarrow> outputs_of as = outputs_of bs"
  by (simp add: outputs_of_def)

lemma session_inv_run:
  assumes inv: "session_inv b s" and re: "env_ok re s" and x: "modest x" and r: "session_run re x s = (res, s')"
    and sane: "sane (s_tensors s')"
  shows "session_inv b s'" "s_order s' = s_order s" "s_levels s' = s_levels s" "s_provider s' = s_provider s"
    "s_inputName s' = s_inputName s" "s_outputName s' = s_outputName s" "s_config s' = s_config s"
proof -
  let ?al = "cp_alloc (s_provider s)"
  have wx: "wf_tensor x" using x by (simp add: modest_def)
  obtain nss where n: "\<forall>st. run_schedule re s st = run_levels re (s_provider s) 0 nss st" "levels_ok re 0 nss" "runnable (concat nss)"
      "set (concat nss) = set (s_order s)"
    by (rule run_schedule_levels [OF inv re])
  let ?ts = "(s_tensors s)(s_inputName s \<mapsto> retag ?al x)"
  note out = outputs_of_set [OF n(4)]
  have cp: "cp_ok (s_provider s)" and so: "slots_ok ?al (s_tensors s)"
    using inv by (simp_all add: session_inv_def)
  have so': "slots_ok ?al ?ts" using so wx by (auto simp: slots_ok_def ran_def slot_ok_def)
  have "session_inv b s' \<and> s_order s' = s_order s \<and> s_levels s' = s_levels s \<and> s_provider s' = s_provider s \<and>
    s_inputName s' = s_inputName s \<and> s_outputName s' = s_outputName s \<and> s_config s' = s_config s"
  proof (cases "t_size x = 0")
    case True
    then show ?thesis using r inv by (auto simp: session_run_def)
  next
    case False
    obtain err ts' pf' where l: "run_levels re (s_provider s) 0 nss (?ts, s_profiler s) = (err, (ts', pf'))" by (metis prod.exhaust)
    obtain pf2 where s': "s' = s\<lparr>s_tensors := ts', s_profiler := pf2\<rparr>"
      using r False l unfolding session_run_def load_input_ok [OF inv wx] spec [OF n(1)] by (auto split: option.splits)
    have "sane ts'" using sane s' by simp
    from levels_sound [OF cp this n(2,3) l so'] have so2: "slots_ok ?al ts'" by simp
    have "ts' y \<noteq> None" if "y \<in> outputs_of (s_order s) \<or> y = s_inputName s" for y
      using that levels_domain [OF n(2) l] inv by (auto simp: session_inv_def)
    moreover have "\<forall>n\<in>set (s_order s). \<forall>i\<in>set (n_inputs n). ts' i \<noteq> None" "ts' (s_outputName s) \<noteq> None"
      using levels_domain [OF n(2) l] inv by (auto simp: session_inv_def)
    moreover have "ts' y = b y" if "y \<notin> outputs_of (s_order s)" "y \<noteq> s_inputName s" for y
      using levels_frame [OF n(2) l, of y] that inv out by (auto simp: session_inv_def)
    ultimately show ?thesis using inv so2 s' by (auto simp: session_inv_def)
  qed
  then show "session_inv b s'" "s_order s' = s_order s" "s_levels s' = s_levels s" "s_provider s' = s_provider s"
    "s_inputName s' = s_inputName s" "s_outputName s' = s_outputName s" "s_config s' = s_config s" by simp_all
qed

text \<open>A run that fails throws.\<close>

lemma session_run_clean:
  assumes inv: "session_inv b s" and re: "env_ok re s" and x: "modest x" and r: "session_run re x s = (res, s')"
    and sane: "sane (s_tensors s')"
  shows "fails_cleanly res"
proof (cases "t_size x = 0")
  case True
  then show ?thesis using r by (auto simp: session_run_def)
next
  case False
  let ?al = "cp_alloc (s_provider s)"
  have wx: "wf_tensor x" using x by (simp add: modest_def)
  obtain nss where n: "\<forall>st. run_schedule re s st = run_levels re (s_provider s) 0 nss st" "levels_ok re 0 nss" "runnable (concat nss)"
      "set (concat nss) = set (s_order s)"
    by (rule run_schedule_levels [OF inv re])
  let ?ts = "(s_tensors s)(s_inputName s \<mapsto> retag ?al x)"
  have cp: "cp_ok (s_provider s)" and so: "slots_ok ?al (s_tensors s)" using inv by (simp_all add: session_inv_def)
  have so': "slots_ok ?al ?ts" using so wx by (auto simp: slots_ok_def ran_def slot_ok_def)
  have slots: "\<forall>m\<in>set (concat nss). \<forall>i\<in>set (n_inputs m) \<union> set (n_outputs m). ?ts i \<noteq> None"
    using inv unfolding n(4) session_inv_def outputs_of_def by auto
  obtain err ts' pf' where l: "run_levels re (s_provider s) 0 nss (?ts, s_profiler s) = (err, (ts', pf'))" by (metis prod.exhaust)
  have out: "ts' (s_outputName s) \<noteq> None"
    using levels_domain [OF n(2) l, of "s_outputName s"] inv by (auto simp: session_inv_def)
  show ?thesis
  proof (cases err)
    case None
    then show ?thesis using r False l out unfolding session_run_def load_input_ok [OF inv wx] spec [OF n(1)]
      by (auto simp: find_slot_def)
  next
    case (Some e)
    have "res = Inl e" "sane ts'"
      using r False l Some sane unfolding session_run_def load_input_ok [OF inv wx] spec [OF n(1)] by auto
    with levels_clean [OF cp _ n(2,3) l [unfolded Some] so' slots] show ?thesis by simp
  qed
qed

text \<open>One run answers with the meaning of the nodes.\<close>

lemma session_answers_run:
  assumes inv: "session_inv b s" and re: "env_ok re s" and x: "modest x" "t_size x \<noteq> 0"
    and sol: "solves (cp_strategy (s_provider s)) (cp_alloc (s_provider s)) (b(s_inputName s \<mapsto> retag (cp_alloc (s_provider s)) x)) (s_order s) env"
    and o: "env (s_outputName s) = Some t"
  shows "\<exists>s'. session_run re x s = (Inr t, s') \<and> s_tensors s' = env"
proof -
  let ?al = "cp_alloc (s_provider s)"
  let ?ts = "(s_tensors s)(s_inputName s \<mapsto> retag ?al x)"
  have wx: "wf_tensor x" using x by (simp add: modest_def)
  obtain nss where n: "\<forall>st. run_schedule re s st = run_levels re (s_provider s) 0 nss st" "levels_ok re 0 nss" "runnable (concat nss)"
      "set (concat nss) = set (s_order s)"
    by (rule run_schedule_levels [OF inv re])
  note out = outputs_of_set [OF n(4)]
  have S: "list_all (node_solved (cp_strategy (s_provider s)) ?al env) (s_order s)" "sane env"
      "\<And>y. y \<notin> outputs_of (s_order s) \<Longrightarrow> env y = (b(s_inputName s \<mapsto> retag ?al x)) y"
    using sol by (auto simp: solves_def)
  have cp: "cp_ok (s_provider s)" and so: "slots_ok ?al (s_tensors s)" and inp: "s_inputName s \<notin> outputs_of (s_order s)"
    using inv by (simp_all add: session_inv_def)
  have same: "?ts y = env y" if "y \<notin> outputs_of (concat nss)" for y
    using inv S(3) [of y] that out by (auto simp: session_inv_def)
  have slot: "\<exists>u. ?ts y = Some u \<and> slot_ok ?al u" if "y \<in> outputs_of (concat nss)" for y
  proof -
    have "y \<noteq> s_inputName s" "s_tensors s y \<noteq> None" using that inv inp out by (auto simp: session_inv_def)
    then show ?thesis using so by (auto simp: slots_ok_def ran_def)
  qed
  have soe: "slots_ok ?al env"
    unfolding slots_ok_def
  proof
    fix u assume "u \<in> ran env"
    then obtain y where y: "env y = Some u" by (auto simp: ran_def)
    show "slot_ok ?al u"
    proof (cases "y \<in> outputs_of (s_order s)")
      case True
      then obtain n where nn: "n \<in> set (s_order s)" "y \<in> set (n_outputs n)" by (auto simp: outputs_of_def)
      then have "node_solved (cp_strategy (s_provider s)) ?al env n" using S(1) by (simp add: list_all_iff)
      then have "node_outcome (cp_strategy (s_provider s)) n (map env (n_inputs n)) ?al = Inr u"
        using nn(2) y by (auto simp: node_solved_def)
      then show ?thesis using node_outcome_slot sane_inputs [OF S(2), of "n_inputs n" env] by blast
    next
      case False
      then have "?ts y = Some u" using same [of y] y out by simp
      then show ?thesis using so wx by (auto simp: slots_ok_def ran_def slot_ok_def split: if_splits)
    qed
  qed
  have sol': "list_all (node_solved (cp_strategy (s_provider s)) ?al env) (concat nss)"
    using S(1) n(4) unfolding list_all_iff by simp
  obtain pf' where "run_levels re (s_provider s) 0 nss (?ts, s_profiler s) = (None, (env, pf'))"
    using levels_complete [OF S(2) soe cp n(2,3) sol' same slot] by blast
  then show ?thesis using x(2) o unfolding session_run_def load_input_ok [OF inv wx] spec [OF n(1)] by (simp add: find_slot_def)
qed

end
