(* ===== verification/Optimizer_Results.thy ===== *)
theory Optimizer_Results
  imports Optimizer_Correct
begin

text \<open>
  What the graph optimizer promises, for every model the graph operations can build: its result is
  reached by rewrites (sound ones where the model is well formed), its report is exact, no dead node is left, and the graph outputs mean
  what they meant before.
\<close>

section \<open>No candidate left\<close>

lemma dead_step_None:
  assumes m: "model_ok m" and d: "dead_step m = Inr None" and n: "n \<in> set (nodes_of (m_graph m))"
  shows "\<exists>x\<in>set (n_outputs n). x \<in> set (g_outputs (m_graph m)) \<or> (\<exists>k\<in>set (nodes_of (m_graph m)). x \<in> set (n_inputs k))"
proof -
  let ?g = "m_graph m" and ?ns = "nodes_of (m_graph m)"
  have g: "graph_ok ?g" using m by (simp add: model_ok_def)
  define used where "used = (\<Union>n\<in>set ?ns. set (n_inputs n)) \<union> set (g_outputs ?g)"
  have used: "consumed_names ?g (map (pt (nodeMap ?g)) (insertionOrder ?g)) = Inr used"
    unfolding used_def by (rule consumed_names_nodes [OF g])
  have chk: "dead_check ?g used (ptr_of ?g n) = Inr (if list_ex (\<lambda>x. x \<in> used) (n_outputs n) then None else Some (ptr_of ?g n))"
    if "n \<in> set ?ns" for n
    using node_facts(3) [OF g that] by (simp add: dead_check_def)
  show ?thesis
  proof (rule candidate_cases [OF g, of "dead_check ?g used"], goal_cases)
    case (1 k)
    then show ?case using chk by blast
  next
    case 2
    then have "list_ex (\<lambda>x. x \<in> used) (n_outputs n)" using chk [OF n] n by (auto split: if_splits)
    then show ?case by (auto simp: list_ex_iff used_def)
  next
    case (3 k x)
    obtain g' where r: "removeNode (n_name k) ?g = Inr g'" using removeNode_total [OF g] by blast
    have "x = ptr_of ?g k" using 3 chk by (auto split: if_splits)
    then have "dead_step m = Inr (Some (m\<lparr>m_graph := g'\<rparr>))"
      using 3(3) node_facts(3) [OF g 3(1)] r by (simp add: dead_step_def nodesInInsertionOrder_ok [OF g] used)
    then show ?case using d by simp
  qed
qed

section \<open>An example\<close>

text \<open>A node that computes the output, and one whose input is an initializer.\<close>

definition ex_opt_model :: model where
  "ex_opt_model = (addInitializer ex_ins ''w'' ex_x model_new)
     \<lparr>m_graph := setOutputs [''h''] (setInputs [''i'']
        (add_nodes ex_ins [ex_node ''r'' [''i''] [''h''], ex_node ''c'' [''w''] [''k'']] graph_new))\<rparr>"

lemma ex_opt_graph:
  "graph_ok (m_graph ex_opt_model)"
  "nodes_of (m_graph ex_opt_model) = [ex_node ''r'' [''i''] [''h''], ex_node ''c'' [''w''] [''k'']]"
  "g_outputs (m_graph ex_opt_model) = [''h'']" "m_inits ex_opt_model = [''w'' \<mapsto> ex_x]"
  using add_nodes_ok [OF ex_ins_ok graph_ok_new, of "[ex_node ''r'' [''i''] [''h''], ex_node ''c'' [''w''] [''k'']]"]
  by (simp_all add: ex_opt_model_def ex_node_def mk_node_def model_new_def setOutputs_def setInputs_def)
     (simp_all add: graph_ok_def nodes_of_def)

lemma ex_opt_ok: "model_ok ex_opt_model"
proof -
  have "inits_ok ex_opt_model"
    by (simp add: inits_ok_def ex_opt_model_def addInitializer_def model_new_def ex_ins_def)
  then show ?thesis by (simp add: model_ok_def ex_opt_graph)
qed

definition ex_opts :: optimizer_options where
  "ex_opts = \<lparr>o_fuseActivations = True, o_foldConstants = True, o_eliminateDeadNodes = True\<rparr>"

definition ex_ctx :: thread_ctx where "ex_ctx = (False, ([], []))"

text \<open>Its meaning.\<close>

definition ex_opt_env :: store where
  "ex_opt_env = (let y = tensor_mk [2, 2] (map (f32_max 0) (t_data ex_x)) 4 CpuAlloc
     in [''i'' \<mapsto> ex_x, ''w'' \<mapsto> ex_x, ''h'' \<mapsto> y, ''k'' \<mapsto> y])"

lemma ex_relu_outcome:
  "node_outcome s (ex_node a b c) [Some ex_x] CpuAlloc = Inr (tensor_mk [2, 2] (map (f32_max 0) (t_data ex_x)) 4 CpuAlloc)"
proof -
  have "wf_tensor ex_x" using ex_x_modest by (simp add: modest_def)
  then show ?thesis
    using computeRelu_eq [OF _ fresh_wf(1), of ex_x CpuAlloc]
    by (simp add: node_outcome_def provider_compute_def ex_node_def mk_node_def opTypeFromString_def input_at_def
        flip: fresh_def) (simp add: ex_x_def)
qed

lemma ex_opt_solves:
  "solves (cp_strategy ex_cp) CpuAlloc (base CpuAlloc ''i'' ex_x (m_inits ex_opt_model)) (nodes_of (m_graph ex_opt_model)) ex_opt_env"
proof -
  have x: "retag CpuAlloc ex_x = ex_x" by (simp add: retag_def ex_x_def)
  have y: "modest (tensor_mk [2, 2] (map (f32_max 0) (t_data ex_x)) 4 CpuAlloc)"
    by (simp add: modest_def tensor_mk_def ex_x_def wf_tensor_def buffer_fits_def computeSize_def shape_ok_def)
  let ?y = "tensor_mk [2, 2] (map (f32_max 0) (t_data ex_x)) 4 CpuAlloc"
  have env: "ex_opt_env ''i'' = Some ex_x" "ex_opt_env ''w'' = Some ex_x" "ex_opt_env ''h'' = Some ?y" "ex_opt_env ''k'' = Some ?y"
    by (simp_all add: ex_opt_env_def Let_def)
  have "ran ex_opt_env \<subseteq> {ex_x, ?y}" by (auto simp: ex_opt_env_def Let_def ran_def split: if_splits)
  then have "sane ex_opt_env" using ex_x_modest y by (auto simp: sane_def)
  moreover have "node_solved (cp_strategy ex_cp) CpuAlloc ex_opt_env (ex_node n [a] [b])"
    if "ex_opt_env a = Some ex_x" "ex_opt_env b = Some ?y" for n a b
    using that ex_relu_outcome [of "cp_strategy ex_cp" n "[a]" "[b]"]
    by (simp add: node_solved_def ex_node_def mk_node_def)
  moreover have "ex_opt_env k = base CpuAlloc ''i'' ex_x [''w'' \<mapsto> ex_x] k" if "k \<noteq> ''h''" "k \<noteq> ''k''" for k
    using that by (simp add: ex_opt_env_def base_def x Let_def)
  ultimately show ?thesis
    by (simp add: solves_def ex_opt_graph env outputs_of_def) (simp add: ex_node_def mk_node_def)
qed

lemma ex_opt_view: "wf_view ''i'' (view_of ex_opt_model)"
proof -
  have "ranked (nodes_of (m_graph ex_opt_model))"
    unfolding ranked_def by (rule exI [of _ "\<lambda>_. 0"]) (auto simp: ex_opt_graph feeds_def ex_node_def mk_node_def)
  then show ?thesis
    by (simp add: wf_view_def view_of_def ex_opt_graph)
       (simp add: outputs_of_def ex_node_def mk_node_def opTypeFromString_def)
qed

section \<open>Properties\<close>



text \<open>C34. The optimizer's report is exact and elimination is complete: the nodes before are the nodes
  after plus the rewrites reported, and when dead-node elimination is on, every node left has an
  output that some node reads or the graph declares.\<close>

theorem optimizer_report_exact:
  assumes "model_ok m" "ins_ok ins" "optimizer_run ins cp ctx opts m = Inr (m', rep)"
  shows "r_nodesBefore rep = g_size (m_graph m) \<and> r_nodesAfter rep = g_size (m_graph m') \<and>
    r_nodesBefore rep = r_nodesAfter rep + report_total rep \<and>
    (o_eliminateDeadNodes opts \<longrightarrow> (\<forall>n\<in>set (nodes_of (m_graph m')). \<exists>x\<in>set (n_outputs n).
       x \<in> set (g_outputs (m_graph m')) \<or> (\<exists>k\<in>set (nodes_of (m_graph m')). x \<in> set (n_inputs k))))"
proof -
  have s: "rewrites_to cp ctx m m'" "o_eliminateDeadNodes opts \<longrightarrow> dead_step m' = Inr None"
      "r_nodesBefore rep = length (nodes_of (m_graph m))" "r_nodesAfter rep = length (nodes_of (m_graph m'))"
      "r_nodesBefore rep = r_nodesAfter rep + report_total rep"
    using optimizer_run_spec [OF assms(1,2), of cp ctx opts] assms(3) by simp_all
  note ok = rewrites_to_ok [OF s(1)]
  show ?thesis
    using s(2-5) g_size_nodes [OF assms(1)] g_size_nodes [OF ok] dead_step_None [OF ok] by (simp del: length_nodes_of)
qed

text \<open>C6. Optimization preserves meaning: on a well-formed model over distinct names, whenever the nodes
  have a meaning for an input, the optimizer succeeds and the optimized nodes have one that agrees
  with it on every graph output, bit for bit.\<close>

theorem optimizer_preserves_meaning:
  assumes "model_ok m" "ins_ok ins" "cp_ok cp" "wf_view i (view_of m)"
    and "solves (cp_strategy cp) al (base al i x (m_inits m)) (nodes_of (m_graph m)) env"
  shows "\<exists>m' rep env'. optimizer_run ins cp ctx opts m = Inr (m', rep) \<and>
    solves (cp_strategy cp) al (base al i x (m_inits m')) (nodes_of (m_graph m')) env' \<and>
    (\<forall>k\<in>set (g_outputs (m_graph m)). env' k = env k)"
  by (rule optimizer_run_preserves [OF assms, of ctx opts]) blast

theorem optimizer_preserves_meaning_witness:
  "\<exists>m' rep env'. optimizer_run ex_ins ex_cp ex_ctx ex_opts ex_opt_model = Inr (m', rep) \<and>
     env' ''h'' = Some (tensor_mk [2, 2] (map (f32_max 0) (t_data ex_x)) 4 CpuAlloc) \<and>
     solves (cp_strategy ex_cp) CpuAlloc (base CpuAlloc ''i'' ex_x (m_inits m')) (nodes_of (m_graph m')) env'"
  using optimizer_preserves_meaning [OF ex_opt_ok ex_ins_ok ex_cp_ok(1) ex_opt_view ex_opt_solves, of ex_ctx ex_opts]
  by (auto simp: ex_opt_graph ex_opt_env_def Let_def)

theorem optimizer_report_exact_witness:
  "\<exists>m' rep. optimizer_run ex_ins ex_cp ex_ctx ex_opts ex_opt_model = Inr (m', rep) \<and> r_nodesBefore rep = 2 \<and>
     r_nodesBefore rep = r_nodesAfter rep + report_total rep"
proof -
  obtain m' rep env' where r: "optimizer_run ex_ins ex_cp ex_ctx ex_opts ex_opt_model = Inr (m', rep)"
    by (rule optimizer_run_preserves [OF ex_opt_ok ex_ins_ok ex_cp_ok(1) ex_opt_view ex_opt_solves, of ex_ctx ex_opts])
  have "g_size (m_graph ex_opt_model) = 2"
    using g_size_nodes [OF ex_opt_ok] by (simp add: ex_opt_graph del: length_nodes_of)
  with optimizer_report_exact [OF ex_opt_ok ex_ins_ok r] r show ?thesis by simp
qed

text \<open>The passes run once each, folding first: removing the dead reader of a product enables a fusion
  that is not made. A second run makes it.\<close>

definition ex_once_model :: model where
  "ex_once_model = model_new\<lparr>m_graph := setOutputs [''y''] (setInputs [''x''] (add_nodes ex_ins
     [mk_node ''g'' ''Gemm'' [''x'', ''x''] [''h''] Map.empty, ex_node ''r'' [''h''] [''y''], ex_node ''d'' [''h''] [''z'']] graph_new))\<rparr>"

lemmas graph_eval = addNode_def graph_new_def updateEdges_def ex_ins_def upd_entry_def push_children_def push_parents_def
  feeds_def ex_node_def mk_node_def opTypeFromString_def Let_def fun_eq_iff

lemma ex_once_graph:
  "m_graph ex_once_model = \<lparr>nodeMap =
     [''g'' \<mapsto> \<lparr>e_ptr = 1, e_node = mk_node ''g'' ''Gemm'' [''x'', ''x''] [''h''] Map.empty, e_parents = [], e_children = [2, 3]\<rparr>,
      ''r'' \<mapsto> \<lparr>e_ptr = 2, e_node = ex_node ''r'' [''h''] [''y''], e_parents = [1], e_children = []\<rparr>,
      ''d'' \<mapsto> \<lparr>e_ptr = 3, e_node = ex_node ''d'' [''h''] [''z''], e_parents = [1], e_children = []\<rparr>],
     hashOrder = [''d'', ''r'', ''g''], insertionOrder = [''g'', ''r'', ''d''], g_inputs = [''x''], g_outputs = [''y''], nextPtr = 4\<rparr>"
  by (simp add: ex_once_model_def add_nodes_def setOutputs_def setInputs_def graph_eval)

definition ex_once_g1 :: graph where
  "ex_once_g1 = \<lparr>nodeMap =
     [''g'' \<mapsto> \<lparr>e_ptr = 1, e_node = mk_node ''g'' ''Gemm'' [''x'', ''x''] [''h''] Map.empty, e_parents = [], e_children = [2]\<rparr>,
      ''r'' \<mapsto> \<lparr>e_ptr = 2, e_node = ex_node ''r'' [''h''] [''y''], e_parents = [1], e_children = []\<rparr>],
     hashOrder = [''r'', ''g''], insertionOrder = [''g'', ''r''], g_inputs = [''x''], g_outputs = [''y''], nextPtr = 4\<rparr>"

definition ex_once_g2 :: graph where
  "ex_once_g2 = \<lparr>nodeMap =
     [''g'' \<mapsto> \<lparr>e_ptr = 1, e_node = mk_node ''g'' ''GemmRelu'' [''x'', ''x''] [''y''] Map.empty, e_parents = [], e_children = []\<rparr>],
     hashOrder = [''g''], insertionOrder = [''g''], g_inputs = [''x''], g_outputs = [''y''], nextPtr = 4\<rparr>"

lemmas pass_eval = nodesInInsertionOrder_def node_at_def deref_def live_entries_def childrenOf_def parentsOf_def
  hasInitializer_def fold_check_def fuse_check_def dead_check_def consumed_names_def removeNode_def rebuildEdges_def

lemma ex_once_folds: "m_inits m = Map.empty \<Longrightarrow> m_graph m \<in> {m_graph ex_once_model, ex_once_g1, ex_once_g2} \<Longrightarrow>
    fold_step ex_ins ex_cp ex_ctx m = Inr None"
  by (auto simp: fold_step_def ex_once_graph ex_once_g1_def ex_once_g2_def pass_eval graph_eval)

lemma ex_once_fuse:
  "m_graph m = m_graph ex_once_model \<Longrightarrow> fuse_step m = Inr None"
  "m_graph m = ex_once_g1 \<Longrightarrow> fuse_step m = Inr (Some (m\<lparr>m_graph := ex_once_g2\<rparr>))"
  "m_graph m = ex_once_g2 \<Longrightarrow> fuse_step m = Inr None"
  by (simp_all add: fuse_step_def ex_once_graph ex_once_g1_def ex_once_g2_def pass_eval graph_eval update_node_def
      node_setOutputs_def setOpType_def)

lemma ex_once_dead:
  "m_graph m = m_graph ex_once_model \<Longrightarrow> dead_step m = Inr (Some (m\<lparr>m_graph := ex_once_g1\<rparr>))"
  "m_graph m = ex_once_g1 \<Longrightarrow> dead_step m = Inr None"
  "m_graph m = ex_once_g2 \<Longrightarrow> dead_step m = Inr None"
  by (simp_all add: dead_step_def ex_once_graph ex_once_g1_def ex_once_g2_def pass_eval graph_eval)

lemma passes_not_a_fixpoint:
  "\<exists>m1 rep1 m2 rep2. optimizer_run ex_ins ex_cp ex_ctx ex_opts ex_once_model = Inr (m1, rep1) \<and>
     r_fusedActivations rep1 = 0 \<and> r_eliminatedNodes rep1 = 1 \<and>
     optimizer_run ex_ins ex_cp ex_ctx ex_opts m1 = Inr (m2, rep2) \<and> r_fusedActivations rep2 = 1"
proof -
  have i: "m_inits ex_once_model = Map.empty" by (simp add: ex_once_model_def model_new_def)
  have n: "length (insertionOrder (m_graph ex_once_model)) = 3" "length (insertionOrder ex_once_g1) = 2"
      "length (insertionOrder ex_once_g2) = 1"
    by (simp_all add: ex_once_graph ex_once_g1_def ex_once_g2_def)
  show ?thesis
    by (simp add: optimizer_run_def pass_if_def ex_opts_def passes run_pass_def n eval_nat_numeral
        ex_once_folds ex_once_fuse ex_once_dead i)
qed

end
