(* ===== verification/Session_Results.thy ===== *)
theory Session_Results
  imports Session_Correct Optimizer_Results
begin

text \<open>
  What a session promises: it answers with the meaning of the model it was built from, however it
  optimizes, schedules and overlaps the work and whatever was run before.
\<close>

section \<open>Filling the store\<close>

lemma resident_slot: "resident al t = Inr r \<Longrightarrow> slot_ok al r"
proof -
  assume "resident al t = Inr r"
  then obtain z :: "f32 tensor" where z: "tensor_zeros 0 (t_shape t) al = Inr z" "copy_elements t z = Inr r"
    by (auto simp: resident_def rbind_eq_Inr)
  have "wf_tensor z \<and> t_alloc z = al" using tensor_zeros_wf [OF z(1)] z(1) by (auto simp: tensor_zeros_def alloc_fill_def Let_def split: if_splits)
  then show ?thesis using z(2) by (auto simp: copy_elements_def slot_ok_def wf_tensor_def Let_def split: if_splits)
qed

lemma resident_wf: "wf_tensor t \<Longrightarrow> resident al t = Inr (retag al t)"
proof -
  assume t: "wf_tensor t"
  then have "buffer_fits (computeSize (t_shape t))" by (auto simp: wf_tensor_def)
  then obtain z :: "f32 tensor" where z: "tensor_zeros 0 (t_shape t) al = Inr z" "t_alloc z = al" "t_shape z = t_shape t"
    by (simp add: tensor_zeros_def alloc_fill_def Let_def)
  then show ?thesis using copy_elements_wf [OF t _ z(3)] tensor_zeros_wf [OF z(1)] by (simp add: resident_def)
qed

lemma slots_ok_emplace: "slots_ok al ts \<Longrightarrow> slot_ok al t \<Longrightarrow> slots_ok al (emplace k t ts)"
  by (auto simp: slots_ok_def emplace_def ran_def)

lemma empty_slot: "tensor_zeros 0 [] al = Inr (fresh al)" "slot_ok al (fresh al)"
  by (simp_all add: tensor_zeros_def alloc_fill_def buffer_fits_def fresh_def tensor_default_def slot_ok_def wf_tensor_def)

lemma emplace_fold:
  "fold (\<lambda>n. emplace (f n) e) ns ts y = (if ts y = None \<and> y \<in> f ` set ns then Some e else ts y)"
  by (induction ns arbitrary: ts) (auto simp: emplace_def)

lemma slots_ok_fold: "slots_ok al ts \<Longrightarrow> slot_ok al e \<Longrightarrow> slots_ok al (fold (\<lambda>n. emplace (f n) e) ns ts)"
  by (induction ns arbitrary: ts) (auto intro: slots_ok_emplace)

lemma fill_store_slots:
  assumes "fill_store al m input ns = Inr ts"
  shows "slots_ok al ts \<and> (\<forall>y. y = input \<or> (\<exists>n\<in>set ns. y = hd (n_outputs n)) \<longrightarrow> ts y \<noteq> None)"
proof -
  obtain ts0 where t: "rfold (\<lambda>name ts. rbind (resident al (the (m_inits m name))) (\<lambda>r. Inr (emplace name r ts))) (m_initOrder m) Map.empty = Inr ts0"
      "ts = fold (\<lambda>n. emplace (hd (n_outputs n)) (fresh al)) ns (emplace input (fresh al) ts0)"
    using assms by (auto simp: fill_store_def rbind_eq_Inr empty_slot)
  have "slots_ok al u" if "rfold (\<lambda>name ts. rbind (resident al (the (m_inits m name))) (\<lambda>r. Inr (emplace name r ts))) ks ts1 = Inr u" "slots_ok al ts1" for ks ts1 u
    using that by (induction ks arbitrary: ts1) (auto simp: rbind_eq_Inr dest: resident_slot intro: slots_ok_emplace)
  from this [OF t(1)] have "slots_ok al ts0" by (simp add: slots_ok_def)
  then have "slots_ok al ts" unfolding t(2) by (intro slots_ok_fold slots_ok_emplace empty_slot(2))
  then show ?thesis unfolding t(2) emplace_fold by (auto simp: emplace_def)
qed

lemma fill_store_values:
  assumes "inits_ok m" "\<forall>t\<in>ran (m_inits m). wf_tensor t"
  obtains ts where "fill_store al m input ns = Inr ts"
    "\<forall>y. ts y = (case m_inits m y of Some t \<Rightarrow> Some (retag al t)
       | None \<Rightarrow> if y = input \<or> (\<exists>n\<in>set ns. y = hd (n_outputs n)) then Some (fresh al) else None)"
proof -
  have step: "rfold (\<lambda>name ts. rbind (resident al (the (m_inits m name))) (\<lambda>r. Inr (emplace name r ts))) ks ts1
      = Inr (\<lambda>y. if ts1 y = None \<and> y \<in> set ks then map_option (retag al) (m_inits m y) else ts1 y)"
    if "set ks \<subseteq> dom (m_inits m)" for ks ts1
    using that
  proof (induction ks arbitrary: ts1)
    case (Cons k ks)
    then obtain t where t: "m_inits m k = Some t" by auto
    then have "resident al t = Inr (retag al t)" using resident_wf assms(2) by (meson ranI)
    then show ?case using Cons t by (auto simp: emplace_def fun_eq_iff)
  qed simp
  have dom: "set (m_initOrder m) = dom (m_inits m)" using assms(1) by (simp add: inits_ok_def)
  have "fill_store al m input ns = Inr (fold (\<lambda>n. emplace (hd (n_outputs n)) (fresh al)) ns (emplace input (fresh al)
      (\<lambda>y. if y \<in> dom (m_inits m) then map_option (retag al) (m_inits m y) else None)))"
    unfolding fill_store_def using step [of "m_initOrder m" Map.empty] dom by (simp add: empty_slot)
  then show ?thesis
    by (rule that) (auto simp: emplace_fold emplace_def split: option.split)
qed

section \<open>Construction\<close>

lemma touches_feeds: "touches a b \<longleftrightarrow> set (n_outputs a) \<inter> set (n_outputs b) \<noteq> {} \<or> feeds a b \<noteq> [] \<or> feeds b a \<noteq> []"
  unfolding touches_def feeds_iff by blast

lemma no_edges_apart:
  assumes "writes_once ms" "set ns \<subseteq> set ms" "no_edges ns"
  shows "apart ns"
  unfolding apart_def
proof (intro allI impI)
  fix i j assume ij: "i < length ns" "j < length ns" "i \<noteq> j"
  let ?a = "ns ! i" and ?b = "ns ! j"
  have ab: "?a \<in> set ns" "?b \<in> set ns" "?a \<noteq> ?b"
    using ij assms(3) by (simp_all add: no_edges_def nth_eq_iff_index_eq)
  then have "?a \<in> set ms" "?b \<in> set ms" using assms(2) by blast+
  then have "n_name ?a \<noteq> n_name ?b" "set (n_outputs ?a) \<inter> set (n_outputs ?b) = {}"
    using assms(1) ab(3) distinct_named [of ms ?a ?b] unfolding writes_once_def by blast+
  moreover have "edges ?a ?b = 0" "edges ?b ?a = 0" using assms(3) ab by (simp_all add: no_edges_def)
  ultimately show "\<not> touches ?a ?b" unfolding touches_feeds edges_def by auto
qed

lemma optimize_if_rewrites:
  assumes "model_ok m" "ins_ok ins" "optimize_if ins cp ctx c m = Inr (m', rep)"
  shows "rewrites_to cp ctx m m'"
proof (cases "c_graphOptimization c")
  case True
  then show ?thesis
    using assms(3) optimizer_run_spec [OF assms(1,2), of cp ctx "config_optimizerOptions c"] by (simp add: optimize_if_def)
qed (use assms in \<open>simp add: optimize_if_def rewrites_to_refl\<close>)

text \<open>The schedules of a model whose view makes sense.\<close>

lemma schedules:
  assumes m: "model_ok m" and wf: "wf_view i (view_of m)"
  obtains order ns Ls nss where "topologicalSort (m_graph m) = Inr order" "deref_all (m_graph m) order = Inr ns"
    "executionLevels (m_graph m) = Inr Ls" "rmap (deref_all (m_graph m)) Ls = Inr nss"
    "runnable ns" "runnable (concat nss)" "set ns = set (nodes_of (m_graph m))" "set (concat nss) = set ns" "\<forall>ns\<in>set nss. apart ns"
proof -
  have g: "graph_ok (m_graph m)" using m by (simp add: model_ok_def)
  have w: "writes_once (nodes_of (m_graph m))" using wf_view_writes_once [OF wf] by (simp add: view_of_def)
  have "ranked (nodes_of (m_graph m))" using wf by (simp add: wf_view_def view_of_def)
  from ranked_acyclic [OF g this] obtain order where o: "topologicalSort (m_graph m) = Inr order"
    using topologicalSort_iff [OF g] by blast
  obtain ns where ns: "deref_all (m_graph m) order = Inr ns" "distinct ns" "set ns = set (nodes_of (m_graph m))" "forward ns"
    by (rule order_nodes [OF g o])
  obtain Ls nss where L: "executionLevels (m_graph m) = Inr Ls" "rmap (deref_all (m_graph m)) Ls = Inr nss"
      "distinct (concat nss)" "set (concat nss) = set (nodes_of (m_graph m))" "forward (concat nss)" "\<forall>ns\<in>set nss. no_edges ns \<and> ns \<noteq> []"
    by (rule level_nodes [OF g o])
  have "apart ms" if "ms \<in> set nss" for ms
  proof (rule no_edges_apart [OF w])
    show "set ms \<subseteq> set (nodes_of (m_graph m))" unfolding L(4) [symmetric] using that by auto
    show "no_edges ms" using L(6) that by blast
  qed
  then show ?thesis
    using that [OF o ns(1) L(1,2) forward_runnable [OF w ns(3,2,4)] forward_runnable [OF w L(4,3,5)] ns(3)] L(4) ns(3) by auto
qed

lemma provider_of_config:
  assumes "config_valid c"
  obtains strat opts where "gemmStrategyFromString (c_gemmStrategy c) = Inr strat" "config_cpuOptions c = Inr opts"
    "makeExecutionProvider (c_executionProvider c) opts = Inr (cpu_provider_new opts)" "cp_ok (cpu_provider_new opts)"
    "cp_strategy (cpu_provider_new opts) = strat" "cp_alloc (cpu_provider_new opts) = (if c_memoryPool c then PoolAlloc else CpuAlloc)"
proof -
  obtain strat where s: "gemmStrategyFromString (c_gemmStrategy c) = Inr strat"
    using assms gemmStrategyFromString_ok [of "c_gemmStrategy c"] by (auto simp: config_valid_def)
  show ?thesis
    by (rule that [OF s, of "\<lparr>o_strategy = strat, o_intraOpThreads = c_intraOpThreads c, o_useMemoryPool = c_memoryPool c\<rparr>"])
       (use assms s in \<open>auto simp: config_cpuOptions_def config_valid_def makeExecutionProvider_def cp_ok_def cpu_provider_new_def\<close>)
qed

lemma rfold_units: "rfold (\<lambda>x _. f x) xs () = Inr u \<Longrightarrow> \<forall>x\<in>set xs. f x = Inr ()"
  by (induction xs) (auto simp: rbind_eq_Inr)

text \<open>A session that was built satisfies the invariant.\<close>

lemma session_new_inv:
  assumes "model_ok m" "ins_ok ins" "g_inputs (m_graph m) = i # is" "wf_view i (view_of m)" "session_new ins ctx m c = Inr s"
  shows "session_inv (s_tensors s) s \<and> s_inputName s = i"
proof -
  have "config_valid c" using assms(5) by (auto simp: session_new_def rbind_eq_Inr simp flip: config_validate_ok)
  then obtain strat opts where p: "gemmStrategyFromString (c_gemmStrategy c) = Inr strat" "config_cpuOptions c = Inr opts"
    "makeExecutionProvider (c_executionProvider c) opts = Inr (cpu_provider_new opts)" "cp_ok (cpu_provider_new opts)"
    by (rule provider_of_config)
  let ?cp = "cpu_provider_new opts"
  from assms(5) p obtain m1 rep where o: "optimize_if ins ?cp ctx c m = Inr (m1, rep)"
    by (auto simp: session_new_def session_prepare_def rbind_eq_Inr)
  note rw = optimize_if_rewrites [OF assms(1,2) o]
  have m1: "model_ok m1" "g_inputs (m_graph m1) = i # is" using rw assms(3) by (simp_all add: rewrites_to_def)
  have "wf_view i (view_of m1)"
    using rewrites_preserve [of ?cp ctx _ "view_of m" "view_of m1" i] rw assms(4) p(4) unfolding rewrites_to_def by blast
  then obtain order ns Ls nss where sch: "topologicalSort (m_graph m1) = Inr order" "deref_all (m_graph m1) order = Inr ns"
    "executionLevels (m_graph m1) = Inr Ls" "rmap (deref_all (m_graph m1)) Ls = Inr nss"
    "runnable ns" "runnable (concat nss)" "set ns = set (nodes_of (m_graph m1))" "set (concat nss) = set ns" "\<forall>ns\<in>set nss. apart ns"
    by (rule schedules [OF m1(1)])
  from assms(5) p o m1(2) sch(1-4) obtain ts where ts: "fill_store (cp_alloc ?cp) m1 i ns = Inr ts"
      "s_order s = ns" "s_levels s = nss" "s_tensors s = ts" "s_provider s = ?cp" "s_inputName s = i"
      "ts (s_outputName s) \<noteq> None" "rfold (\<lambda>n _. check_inputs ts n) ns () = Inr ()"
    by (auto simp: session_new_def session_prepare_def rbind_eq_Inr Let_def)
  have "i \<notin> outputs_of ns"
    using \<open>wf_view i (view_of m1)\<close> sch(7) by (auto simp: wf_view_def view_of_def outputs_of_def)
  moreover have "ts y \<noteq> None" if "y \<in> outputs_of ns \<or> y = i" for y
  proof -
    have "n_outputs n = [hd (n_outputs n)]" if "n \<in> set ns" for n
      using sch(5) that by (auto simp: runnable_def length_Suc_conv)
    then have "y = i \<or> (\<exists>n\<in>set ns. y = hd (n_outputs n))"
      using that unfolding outputs_of_def by (metis UN_E empty_iff list.set(1) set_ConsD)
    then show ?thesis using fill_store_slots [OF ts(1)] by blast
  qed
  moreover have "ts y \<noteq> None" if n: "n \<in> set ns" "y \<in> set (n_inputs n)" for n y
  proof -
    have "check_inputs ts n = Inr ()" using rfold_units [OF ts(8)] n(1) by blast
    from rfold_units [OF this [unfolded check_inputs_def]] n(2) show ?thesis by simp
  qed
  ultimately show ?thesis
    using fill_store_slots [OF ts(1)] ts p(4) sch by (simp add: session_inv_def)
qed

section \<open>Sequences of runs\<close>

text \<open>The sessions a program can hold after some runs, failed ones included, whose tensors stay of a
  size whose arithmetic does not wrap.\<close>

inductive session_reach :: "session \<Rightarrow> session \<Rightarrow> bool" for s0 where
  built: "session_reach s0 s0"
| ran: "session_reach s0 s \<Longrightarrow> env_ok re s \<Longrightarrow> modest x \<Longrightarrow> session_run re x s = (r, s') \<Longrightarrow> sane (s_tensors s') \<Longrightarrow> session_reach s0 s'"

lemma session_reach_inv:
  "session_reach s0 s \<Longrightarrow> session_inv b s0 \<Longrightarrow> session_inv b s \<and> s_order s = s_order s0 \<and> s_levels s = s_levels s0 \<and>
     s_provider s = s_provider s0 \<and> s_inputName s = s_inputName s0 \<and> s_outputName s = s_outputName s0 \<and> s_config s = s_config s0"
proof (induction rule: session_reach.induct)
  case built
  then show ?case by simp
next
  case (ran s re x r s')
  then have "session_inv b s" by simp
  from session_inv_run [OF this ran.hyps(2-5)] ran.IH [OF ran.prems] show ?case by simp
qed

lemma optimize_if_preserves:
  assumes "model_ok m" "ins_ok ins" "cp_ok cp" "wf_view i (view_of m)"
    and "solves (cp_strategy cp) al (base al i x (m_inits m)) (nodes_of (m_graph m)) env"
  obtains m' rep env' where "optimize_if ins cp ctx c m = Inr (m', rep)" "rewrites_to cp ctx m m'" "wf_view i (view_of m')"
    "solves (cp_strategy cp) al (base al i x (m_inits m')) (nodes_of (m_graph m')) env'"
    "\<forall>k\<in>set (g_outputs (m_graph m)). env' k = env k"
proof (cases "c_graphOptimization c")
  case True
  show ?thesis
    by (rule optimizer_run_preserves [OF assms, of ctx "config_optimizerOptions c"]) (use that True in \<open>simp add: optimize_if_def\<close>)
next
  case False
  show ?thesis
    by (rule that [of m _ env]) (use False assms in \<open>simp_all add: optimize_if_def rewrites_to_refl\<close>)
qed

text \<open>A name with a meaning has a slot.\<close>

lemma solved_has_slot:
  assumes sol: "solves st al (base al i x (m_inits m)) (nodes_of (m_graph m)) env" and ns: "set ns = set (nodes_of (m_graph m))"
    and one: "\<forall>n\<in>set ns. length (n_outputs n) = 1"
    and ts: "\<forall>y. ts y = (case m_inits m y of Some t \<Rightarrow> Some (retag al t)
       | None \<Rightarrow> if y = i \<or> (\<exists>n\<in>set ns. y = hd (n_outputs n)) then Some (fresh al) else None)"
    and y: "env y \<noteq> None"
  shows "ts y \<noteq> None"
proof (cases "y \<in> outputs_of ns")
  case True
  then obtain n where "n \<in> set ns" "y \<in> set (n_outputs n)" by (auto simp: outputs_of_def)
  moreover then have "y = hd (n_outputs n)" using one by (auto simp: length_Suc_conv)
  ultimately show ?thesis using ts by (auto split: option.splits)
next
  case False
  then have "env y = base al i x (m_inits m) y" using sol outputs_of_set [OF ns] by (auto simp: solves_def)
  then show ?thesis using y ts by (auto simp: base_def split: if_splits option.splits)
qed

lemma session_built:
  assumes m: "model_ok m" "ins_ok ins" and c: "config_valid c" and io: "g_inputs (m_graph m) = i # is" "g_outputs (m_graph m) = k # ks"
    and wf: "wf_view i (view_of m)" and st: "gemmStrategyFromString (c_gemmStrategy c) = Inr strat"
    and sol: "solves strat al (base al i x (m_inits m)) (nodes_of (m_graph m)) env"
    and al: "al = (if c_memoryPool c then PoolAlloc else CpuAlloc)" and k: "env k = Some t"
  obtains s env' where "session_new ins ctx m c = Inr s" "s_outputName s = k" "env' k = Some t" "modest x"
    "cp_strategy (s_provider s) = strat" "cp_alloc (s_provider s) = al"
    "solves strat al ((s_tensors s)(i \<mapsto> retag al x)) (s_order s) env'"
proof -
  obtain opts where p: "config_cpuOptions c = Inr opts" "makeExecutionProvider (c_executionProvider c) opts = Inr (cpu_provider_new opts)"
      "cp_ok (cpu_provider_new opts)" "cp_strategy (cpu_provider_new opts) = strat" "cp_alloc (cpu_provider_new opts) = al"
    by (rule provider_of_config [OF c]) (use st al in auto)
  let ?cp = "cpu_provider_new opts"
  obtain m1 rep env' where o: "optimize_if ins ?cp ctx c m = Inr (m1, rep)" "rewrites_to ?cp ctx m m1" "wf_view i (view_of m1)"
      "solves strat al (base al i x (m_inits m1)) (nodes_of (m_graph m1)) env'" "env' k = Some t"
    by (rule optimize_if_preserves [OF m p(3) wf, of al x env ctx c]) (use sol p(4) io(2) k in auto)
  have m1: "model_ok m1" "g_inputs (m_graph m1) = i # is" "g_outputs (m_graph m1) = k # ks" using o(2) io by (simp_all add: rewrites_to_def)
  obtain order ns Ls nss where sch: "topologicalSort (m_graph m1) = Inr order" "deref_all (m_graph m1) order = Inr ns"
    "executionLevels (m_graph m1) = Inr Ls" "rmap (deref_all (m_graph m1)) Ls = Inr nss"
    "runnable ns" "runnable (concat nss)" "set ns = set (nodes_of (m_graph m1))" "set (concat nss) = set ns" "\<forall>ns\<in>set nss. apart ns"
    by (rule schedules [OF m1(1) o(3)])
  have vw: "\<forall>n\<in>set ns. length (n_outputs n) = 1 \<and> supports (n_opType n)" "outputs_of ns \<inter> insert i (dom (m_inits m1)) = {}" "i \<notin> dom (m_inits m1)"
    using o(3) outputs_of_set [OF sch(7)] sch(7) by (auto simp: wf_view_def view_of_def list_all_iff)
  have S: "sane env'" "\<forall>y. y \<notin> outputs_of ns \<longrightarrow> env' y = base al i x (m_inits m1) y" "list_all (node_solved strat al env') ns"
    using o(4) outputs_of_set [OF sch(7)] sch(7) by (auto simp: solves_def list_all_iff)
  have md: "modest u" if "env' y = Some u" for y u using S(1) that by (auto simp: sane_def ran_def)
  have "wf_tensor u" if u: "m_inits m1 y = Some u" for y u
  proof -
    have "y \<notin> outputs_of ns" "y \<noteq> i" using vw(2,3) u by auto
    then have "env' y = Some (retag al u)" using S(2) u by (simp add: base_def)
    from md [OF this] show ?thesis by (simp add: modest_def)
  qed
  then have wfi: "\<forall>u\<in>ran (m_inits m1). wf_tensor u" by (auto simp: ran_def)
  have "inits_ok m1" using m1(1) by (simp add: model_ok_def)
  then obtain ts where ts: "fill_store al m1 i ns = Inr ts" "\<forall>y. ts y = (case m_inits m1 y of Some t \<Rightarrow> Some (retag al t)
       | None \<Rightarrow> if y = i \<or> (\<exists>n\<in>set ns. y = hd (n_outputs n)) then Some (fresh al) else None)"
    by (rule fill_store_values [OF _ wfi])
  have one: "\<forall>n\<in>set ns. length (n_outputs n) = 1" using vw(1) by blast
  note has = solved_has_slot [OF o(4) sch(7) one ts(2)]
  have chk: "rfold (\<lambda>n _. check_node n) ms () = Inr ()" if "set ms \<subseteq> set ns" for ms
    using that vw(1) by (induction ms) (auto simp: check_node_def)
  have chi: "check_inputs ts n = Inr ()" if n: "n \<in> set ns" for n
  proof -
    have "node_solved strat al env' n" using S(3) n by (simp add: list_all_iff)
    then have "list_all (\<lambda>t. t \<noteq> None) (map env' (n_inputs n))"
      by (auto simp: node_solved_def node_outcome_def provider_compute_def rbind_eq_Inr)
    then have "\<forall>j\<in>set (n_inputs n). ts j \<noteq> None" using has by (simp add: list_all_iff)
    moreover have "rfold (\<lambda>j _. require (ts j \<noteq> None) (msg j)) js () = Inr ()" if "\<forall>j\<in>set js. ts j \<noteq> None" for js msg
      using that by (induction js) simp_all
    ultimately show ?thesis by (simp add: check_inputs_def)
  qed
  have chis: "rfold (\<lambda>n _. check_inputs ts n) ms () = Inr ()" if "set ms \<subseteq> set ns" for ms
    using that chi by (induction ms) auto
  let ?s = "\<lparr>s_config = c, s_model = m1, s_provider = ?cp, s_order = ns, s_levels = nss, s_tensors = ts, s_report = rep,
            s_profiler = setEnabled (c_profiling c) profiler_new, s_inputName = i, s_outputName = k\<rparr>"
  have new: "session_new ins ctx m c = Inr ?s"
    using config_validate_ok [of c] c p o(1) sch(1-4) m1 io ts(1) has [of k] o(5) chk [of ns] chis [of ns]
    by (simp add: session_new_def session_prepare_def Let_def)
  have "modest (retag al x)"
  proof -
    have "i \<notin> outputs_of ns" using vw(2) by blast
    then have "env' i = Some (retag al x)" using S(2) by (simp add: base_def)
    from md [OF this] show ?thesis .
  qed
  moreover have "solves strat al (ts(i \<mapsto> retag al x)) ns env'"
    unfolding solves_def
  proof (intro conjI allI impI)
    fix y assume y: "y \<notin> outputs_of ns"
    have "\<not> (\<exists>n\<in>set ns. y = hd (n_outputs n))"
      using y one by (fastforce simp: outputs_of_def length_Suc_conv)
    then have "ts y = (case m_inits m1 y of Some t \<Rightarrow> Some (retag al t) | None \<Rightarrow> if y = i then Some (fresh al) else None)"
      using ts(2) by (auto split: option.split)
    then show "env' y = (ts(i \<mapsto> retag al x)) y" using S(2) y by (auto simp: base_def split: option.split)
  qed (use S in simp_all)
  ultimately show ?thesis using that [OF new, of env'] p(4,5) o(5) by simp
qed

section \<open>A successful run computes a meaning\<close>

lemma session_run_solves:
  assumes inv: "session_inv b s" and re: "env_ok re s" and x: "modest x" and r: "session_run re x s = (Inr t, s')"
    and sane: "sane (s_tensors s')"
  shows "solves (cp_strategy (s_provider s)) (cp_alloc (s_provider s)) (b(s_inputName s \<mapsto> retag (cp_alloc (s_provider s)) x)) (s_order s) (s_tensors s')"
    "s_tensors s' (s_outputName s) = Some t" "t_size x \<noteq> 0"
proof -
  let ?al = "cp_alloc (s_provider s)"
  let ?ts = "(s_tensors s)(s_inputName s \<mapsto> retag ?al x)"
  have wx: "wf_tensor x" using x by (simp add: modest_def)
  obtain nss where n: "\<forall>st. run_schedule re s st = run_levels re (s_provider s) 0 nss st" "levels_ok re 0 nss" "runnable (concat nss)"
      "set (concat nss) = set (s_order s)"
    by (rule run_schedule_levels [OF inv re])
  note out = outputs_of_set [OF n(4)]
  show "t_size x \<noteq> 0" using r by (auto simp: session_run_def)
  obtain err ts' pf' where l: "run_levels re (s_provider s) 0 nss (?ts, s_profiler s) = (err, (ts', pf'))" by (metis prod.exhaust)
  have s': "err = None" "s_tensors s' = ts'" "find_slot ts' (s_outputName s) = Inr t"
    using r \<open>t_size x \<noteq> 0\<close> l unfolding session_run_def load_input_ok [OF inv wx] spec [OF n(1)] by (auto split: option.splits)
  then show "s_tensors s' (s_outputName s) = Some t" by (auto simp: find_slot_def split: option.splits)
  have cp: "cp_ok (s_provider s)" and so: "slots_ok ?al ?ts" using inv wx by (auto simp: session_inv_def slots_ok_def ran_def slot_ok_def)
  have "list_all (node_solved (cp_strategy (s_provider s)) ?al ts') (concat nss)"
    using levels_sound [OF cp _ n(2,3) l so] sane s' by simp
  then have "list_all (node_solved (cp_strategy (s_provider s)) ?al ts') (s_order s)" unfolding list_all_iff n(4) .
  moreover have "ts' y = (b(s_inputName s \<mapsto> retag ?al x)) y" if "y \<notin> outputs_of (s_order s)" for y
    using levels_frame [OF n(2) l, of y] that out inv by (auto simp: session_inv_def)
  ultimately show "solves (cp_strategy (s_provider s)) ?al (b(s_inputName s \<mapsto> retag ?al x)) (s_order s) (s_tensors s')"
    using sane unfolding s'(2) solves_def by blast
qed

section \<open>Schedules exist\<close>

text \<open>The tasks of every level one after the other.\<close>

definition seq_schedule :: "nat \<Rightarrow> level_event list" where
  "seq_schedule n = concat (map (\<lambda>i. [Start i, Finish i]) [0..<n])"

definition seq_env :: "session \<Rightarrow> run_env" where
  "seq_env s = \<lparr>re_ctx = (False, ([], [])), re_worker = (\<lambda>_. (True, ([], []))), re_ms = (\<lambda>_. 0), re_wall = 0, re_order = ex_ins,
     re_sched = (\<lambda>j. seq_schedule (length (s_levels s ! j)))\<rparr>"

lemma seq_schedule_valid: "valid_schedule n (seq_schedule n)"
proof -
  have "sched_ok {k..<k + d} {} (concat (map (\<lambda>i. [Start i, Finish i]) [k..<k + d]))" for k d
  proof (induction d arbitrary: k)
    case (Suc d)
    have "[k..<k + Suc d] = k # [Suc k..<Suc k + d]" by (simp add: upt_conv_Cons)
    moreover have "{k..<k + Suc d} - {k} = {Suc k..<Suc k + d}" by auto
    ultimately show ?case using Suc [of "Suc k"] by simp
  qed simp
  from this [of 0 n] show ?thesis by (simp add: valid_schedule_def seq_schedule_def atLeast0LessThan)
qed

lemma seq_env_ok: "env_ok (seq_env s) s"
  by (simp add: env_ok_def seq_env_def seq_schedule_valid)

definition ex_session_config :: session_config where
  "ex_session_config = ex_config\<lparr>c_memoryPool := False, c_gemmStrategy := ''tiled''\<rparr>"

lemma ex_session_config_ok: "config_valid ex_session_config" "gemmStrategyFromString (c_gemmStrategy ex_session_config) = Inr Tiled"
    "\<not> c_memoryPool ex_session_config"
  by (simp_all add: ex_session_config_def ex_config_def config_default_def config_valid_def gemmStrategyFromString_def)

text \<open>A session for the example, and a run.\<close>

lemma session_new_config: "session_new ins ctx m c = Inr s \<Longrightarrow> s_config s = c"
  by (auto simp: session_new_def session_prepare_def rbind_eq_Inr Let_def)

lemma ex_session_io: "g_inputs (m_graph ex_opt_model) = [''i'']" "g_outputs (m_graph ex_opt_model) = [''h'']"
  by (simp_all add: ex_opt_graph) (simp add: ex_opt_model_def setOutputs_def setInputs_def)

lemma ex_session_run:
  obtains s0 sa where "session_new ex_ins ex_ctx ex_opt_model ex_session_config = Inr s0"
    "session_run (seq_env s0) ex_x s0 = (Inr (tensor_mk [2, 2] (map (f32_max 0) (t_data ex_x)) 4 CpuAlloc), sa)"
    "sane (s_tensors sa)" "modest ex_x" "c_maxBatchSize (s_config s0) = 128"
proof -
  let ?y = "tensor_mk [2, 2] (map (f32_max 0) (t_data ex_x)) 4 CpuAlloc"
  have env: "ex_opt_env ''h'' = Some ?y" by (simp add: ex_opt_env_def Let_def)
  have al: "CpuAlloc = (if c_memoryPool ex_session_config then PoolAlloc else CpuAlloc)" using ex_session_config_ok(3) by simp
  obtain s0 env' where s0: "session_new ex_ins ex_ctx ex_opt_model ex_session_config = Inr s0" "s_outputName s0 = ''h''" "env' ''h'' = Some ?y"
    "modest ex_x" "cp_strategy (s_provider s0) = Tiled" "cp_alloc (s_provider s0) = CpuAlloc"
    "solves Tiled CpuAlloc ((s_tensors s0)(''i'' \<mapsto> retag CpuAlloc ex_x)) (s_order s0) env'"
    by (rule session_built [OF ex_opt_ok ex_ins_ok ex_session_config_ok(1) ex_session_io ex_opt_view ex_session_config_ok(2)
        ex_opt_solves [unfolded ex_cp_ok(2)] al env, of ex_ctx])
  note inv = session_new_inv [OF ex_opt_ok ex_ins_ok ex_session_io(1) ex_opt_view s0(1)]
  have sz: "t_size ex_x \<noteq> 0" by (simp add: ex_x_def)
  obtain sa where sa: "session_run (seq_env s0) ex_x s0 = (Inr ?y, sa)" "s_tensors sa = env'"
    using session_answers_run [of "s_tensors s0" s0 "seq_env s0" ex_x env' ?y] inv s0 sz seq_env_ok by auto
  moreover have "sane (s_tensors sa)" using sa(2) s0(7) by (simp add: solves_def)
  moreover have "c_maxBatchSize (s_config s0) = 128"
    using session_new_config [OF s0(1)] by (simp add: ex_session_config_def ex_config_def config_default_def)
  ultimately show ?thesis using that s0(1,4) by blast
qed

section \<open>Properties\<close>

text \<open>C1. A session answers with the meaning of the model it was given. If the nodes of a well-formed
  model have a meaning for an input, the session is built, with or without graph optimization, and
  after any runs, failed ones included, a run on that input returns exactly the tensor the original,
  unoptimized graph assigns to its first output: sequentially or in parallel, under every schedule
  of the tasks, with any number of threads and any state left in slots and buffers. Tensors of the
  meaning and of earlier runs are \<open>modest\<close>: extents below \<open>2 ^ 31\<close>, element counts that do not wrap.\<close>

theorem session_answers:
  assumes "model_ok m" "ins_ok ins" "config_valid c" "g_inputs (m_graph m) = i # is" "g_outputs (m_graph m) = k # ks"
    and "wf_view i (view_of m)" "gemmStrategyFromString (c_gemmStrategy c) = Inr strat"
    and "al = (if c_memoryPool c then PoolAlloc else CpuAlloc)"
    and "solves strat al (base al i x (m_inits m)) (nodes_of (m_graph m)) env" "env k = Some t" "t_size x \<noteq> 0"
  shows "\<exists>s0. session_new ins ctx m c = Inr s0 \<and>
    (\<forall>s re. session_reach s0 s \<longrightarrow> env_ok re s \<longrightarrow> (\<exists>s'. session_run re x s = (Inr t, s')))"
proof -
  obtain s0 env' where s0: "session_new ins ctx m c = Inr s0" "s_outputName s0 = k" "env' k = Some t" "modest x"
    "cp_strategy (s_provider s0) = strat" "cp_alloc (s_provider s0) = al"
    "solves strat al ((s_tensors s0)(i \<mapsto> retag al x)) (s_order s0) env'"
    by (rule session_built [OF assms(1-7,9,8,10), of ctx])
  note inv = session_new_inv [OF assms(1,2,4,6) s0(1)]
  have "\<exists>s'. session_run re x s = (Inr t, s')" if "session_reach s0 s" "env_ok re s" for s re
    using session_answers_run [of "s_tensors s0" s re x env' t] session_reach_inv [OF that(1), of "s_tensors s0"] inv that(2) s0 assms(11)
    by auto
  then show ?thesis using s0(1) by blast
qed

theorem session_answers_witness:
  "\<exists>s0 s'. session_new ex_ins ex_ctx ex_opt_model ex_session_config = Inr s0 \<and>
     session_run (seq_env s0) ex_x s0 = (Inr (tensor_mk [2, 2] (map (f32_max 0) (t_data ex_x)) 4 CpuAlloc), s')"
proof -
  note io = ex_session_io
  have env: "ex_opt_env ''h'' = Some (tensor_mk [2, 2] (map (f32_max 0) (t_data ex_x)) 4 CpuAlloc)"
    by (simp add: ex_opt_env_def Let_def)
  have "t_size ex_x \<noteq> 0" by (simp add: ex_x_def)
  from session_answers [OF ex_opt_ok ex_ins_ok ex_session_config_ok(1) io ex_opt_view ex_session_config_ok(2) _
      ex_opt_solves [unfolded ex_cp_ok(2)] env this, of ex_ctx]
  obtain s0 where s0: "session_new ex_ins ex_ctx ex_opt_model ex_session_config = Inr s0"
    "\<forall>s re. session_reach s0 s \<longrightarrow> env_ok re s \<longrightarrow>
      (\<exists>s'. session_run re ex_x s = (Inr (tensor_mk [2, 2] (map (f32_max 0) (t_data ex_x)) 4 CpuAlloc), s'))"
    using ex_session_config_ok(3) by auto
  then show ?thesis using seq_env_ok built by blast
qed

text \<open>C2. Neither the schedule nor the past shows. Take any session built from a well-formed
  model (distinct output names, no output under the name of an input or initializer, no cycle of
  tensor names) and two states of it reached by different runs: if a run in the first answers with
  a tensor, then a run on the same input in the second answers with the same tensor, under any
  other schedule and whether the session runs in parallel or not, and leaves the same tensors
  behind. In particular no schedule of a level of such a session has a data race; two nodes of one
  output name do race (\<open>duplicate_outputs_race\<close>). Inputs and tensors of the runs are \<open>modest\<close>.\<close>

theorem session_schedule_invisible:
  assumes "model_ok m" "ins_ok ins" "g_inputs (m_graph m) = i # is" "wf_view i (view_of m)" "session_new ins ctx m c = Inr s0"
    and "session_reach s0 sa" "session_reach s0 sb" "env_ok re1 sa" "env_ok re2 sb" "modest x"
    and "session_run re1 x sa = (Inr t, sa')" "sane (s_tensors sa')"
  shows "\<exists>sb'. session_run re2 x (sb\<lparr>s_config := c'\<rparr>) = (Inr t, sb') \<and> s_tensors sb' = s_tensors sa'"
proof -
  let ?b = "s_tensors s0"
  have "session_inv ?b s0" using session_new_inv [OF assms(1-5)] by blast
  note A = session_reach_inv [OF assms(6) this] and B = session_reach_inv [OF assms(7) this]
  have a: "session_inv ?b sa" using A by blast
  note run = session_run_solves [OF a assms(8,10,11,12)]
  have "session_inv ?b sb" using B by blast
  then have "session_inv ?b (sb\<lparr>s_config := c'\<rparr>)" "env_ok re2 (sb\<lparr>s_config := c'\<rparr>)"
    using assms(9) by (simp_all add: session_inv_def env_ok_def)
  from session_answers_run [OF this assms(10) run(3), of "s_tensors sa'" t] run(1,2) A B show ?thesis by simp
qed

theorem session_schedule_invisible_witness:
  "\<exists>s0 sa t sb. session_new ex_ins ex_ctx ex_opt_model ex_session_config = Inr s0 \<and> session_run (seq_env s0) ex_x s0 = (Inr t, sa) \<and>
     session_run (seq_env s0) ex_x (s0\<lparr>s_config := ex_session_config\<lparr>c_interOpParallel := False\<rparr>\<rparr>) = (Inr t, sb)"
proof -
  obtain s0 sa where s0: "session_new ex_ins ex_ctx ex_opt_model ex_session_config = Inr s0"
    "session_run (seq_env s0) ex_x s0 = (Inr (tensor_mk [2, 2] (map (f32_max 0) (t_data ex_x)) 4 CpuAlloc), sa)"
    "sane (s_tensors sa)" "modest ex_x"
    by (rule ex_session_run)
  from session_schedule_invisible [OF ex_opt_ok ex_ins_ok ex_session_io(1) ex_opt_view s0(1) built built seq_env_ok seq_env_ok s0(4,2,3),
      of "ex_session_config\<lparr>c_interOpParallel := False\<rparr>"] s0(1,2) show ?thesis by blast
qed

end
