(* ===== verification/Session_Errors.thy ===== *)
theory Session_Errors
  imports Session_Results
begin

text \<open>
  When a session is refused, and two things construction does not check: that the nodes of a level
  write different tensors, and that the graph input is not also an initializer.
\<close>

section \<open>What construction accepts\<close>

text \<open>A sequence of checks that can only throw \<^verbatim>\<open>runtime_error\<close>.\<close>

definition is_check :: "unit res \<Rightarrow> bool" where
  "is_check r = (case r of Inr _ \<Rightarrow> True | Inl e \<Rightarrow> \<exists>msg. e = RuntimeError msg)"

lemma is_check_require [simp]: "is_check (require b (RuntimeError msg))"
  by (cases b) (simp_all add: is_check_def)










section \<open>Properties\<close>


definition ex_plain_config :: session_config where
  "ex_plain_config = ex_session_config\<lparr>c_graphOptimization := False\<rparr>"

lemma ex_plain_config_ok: "config_valid ex_plain_config" "\<not> c_graphOptimization ex_plain_config"
  by (simp_all add: ex_plain_config_def ex_session_config_def ex_config_def config_default_def config_valid_def)


section \<open>What is not checked\<close>

text \<open>Two nodes that write the same tensor are in one level: with both running, the pool has a data
  race. The comment on \<^verbatim>\<open>prepare()\<close> says distinct output names are established there.\<close>

definition ex_race_model :: model where
  "ex_race_model = model_new\<lparr>m_graph := setOutputs [''y''] (setInputs [''i'']
     (add_nodes ex_ins [ex_node ''a'' [''i''] [''y''], ex_node ''b'' [''i''] [''y'']] graph_new))\<rparr>"

lemma ex_race_graph:
  "m_graph ex_race_model = \<lparr>nodeMap =
     [''a'' \<mapsto> \<lparr>e_ptr = 1, e_node = ex_node ''a'' [''i''] [''y''], e_parents = [], e_children = []\<rparr>,
      ''b'' \<mapsto> \<lparr>e_ptr = 2, e_node = ex_node ''b'' [''i''] [''y''], e_parents = [], e_children = []\<rparr>],
     hashOrder = [''b'', ''a''], insertionOrder = [''a'', ''b''], g_inputs = [''i''], g_outputs = [''y''], nextPtr = 3\<rparr>"
  by (simp add: ex_race_model_def add_nodes_def setOutputs_def setInputs_def graph_eval)

definition ex_overlap :: run_env where
  "ex_overlap = (seq_env undefined)\<lparr>re_sched := (\<lambda>_. [Start 0, Start 1, Finish 0, Finish 1])\<rparr>"

lemmas session_eval = session_prepare_def optimize_if_def topologicalSort_def executionLevels_def assign_levels_def
  node_level_def deref_all_def check_node_def fill_store_def check_inputs_def

lemma duplicate_outputs_race:
  "\<exists>s. session_new ex_ins ex_ctx ex_race_model (ex_plain_config\<lparr>c_interOpParallel := True\<rparr>) = Inr s \<and> env_ok ex_overlap s \<and>
     fst (session_run ex_overlap ex_x s) = Inl (Undefined ''data race on a tensor slot'')"
proof -
  let ?c = "ex_plain_config\<lparr>c_interOpParallel := True\<rparr>"
  have c: "config_valid ?c" "\<not> c_graphOptimization ?c"
    using ex_plain_config_ok by (simp_all add: config_valid_def)
  obtain strat opts where p: "gemmStrategyFromString (c_gemmStrategy ?c) = Inr strat" "config_cpuOptions ?c = Inr opts"
    "makeExecutionProvider (c_executionProvider ?c) opts = Inr (cpu_provider_new opts)"
    by (rule provider_of_config [OF c(1)])
  have w: "cp_workers (cpu_provider_new opts) \<noteq> None"
    using p(2) by (auto simp: config_cpuOptions_def rbind_eq_Inr cpu_provider_new_def ex_plain_config_def ex_session_config_def ex_config_def)
  let ?a = "ex_node ''a'' [''i''] [''y'']" and ?b = "ex_node ''b'' [''i''] [''y'']"
  have i: "m_initOrder ex_race_model = []" by (simp add: ex_race_model_def model_new_def)
  have "\<exists>s. session_prepare ex_ins ex_ctx ?c (cpu_provider_new opts) ex_race_model (setEnabled (c_profiling ?c) profiler_new) = Inr s \<and>
      s_config s = ?c \<and> s_provider s = cpu_provider_new opts \<and> s_inputName s = ''i'' \<and>
      s_tensors s ''i'' = Some (fresh (cp_alloc (cpu_provider_new opts))) \<and> s_levels s = [[?b, ?a]]"
    using c(2) i
    by (simp add: session_eval ex_race_graph pass_eval empty_slot emplace_def Let_def)
       (simp add: ex_node_def mk_node_def opTypeFromString_def)
  then obtain s where s: "session_new ex_ins ex_ctx ex_race_model ?c = Inr s" "s_config s = ?c" "s_provider s = cpu_provider_new opts"
      "s_inputName s = ''i''" "s_tensors s ''i'' = Some (fresh (cp_alloc (cpu_provider_new opts)))" "s_levels s = [[?b, ?a]]"
    using c(1) p config_validate_ok [of ?c] by (auto simp: session_new_def)
  have ok: "env_ok ex_overlap s" by (auto simp: env_ok_def s(6) ex_overlap_def valid_schedule_def)
  have "wf_tensor ex_x" using ex_x_modest by (simp add: modest_def)
  from resident_wf [OF this, of "cp_alloc (cpu_provider_new opts)"] obtain z :: "f32 tensor" where
    z: "tensor_zeros 0 (t_shape ex_x) (cp_alloc (cpu_provider_new opts)) = Inr z" "copy_elements ex_x z = Inr (retag (cp_alloc (cpu_provider_new opts)) ex_x)"
    by (auto simp: resident_def rbind_eq_Inr)
  have sh: "t_shape ex_x \<noteq> []" "t_size ex_x \<noteq> 0" by (simp_all add: ex_x_def)
  have par: "parallel s" using w s(2,3) by (simp add: parallel_def)
  have t: "touches ?a ?b" by (simp add: touches_def ex_node_def mk_node_def)
  have "fst (session_run ex_overlap ex_x s) = Inl (Undefined ''data race on a tensor slot'')"
    using s(3-6) z sh par t
    by (simp add: session_run_def load_input_def find_slot_def fresh_def tensor_default_def run_schedule_def run_level_def ex_overlap_def)
  then show ?thesis using s(1) ok by blast
qed

text \<open>An initializer under the name of the graph input is a constant to the optimizer, though every run
  overwrites it: the optimized session answers with the value folded from the initializer,
  whatever the input.\<close>

definition ex_default_model :: model where
  "ex_default_model = (addInitializer ex_ins ''i'' ex_x model_new)
     \<lparr>m_graph := setOutputs [''h''] (setInputs [''i''] (add_nodes ex_ins [ex_node ''r'' [''i''] [''h'']] graph_new))\<rparr>"

abbreviation ex_folded :: "f32 tensor" where
  "ex_folded \<equiv> tensor_mk [2, 2] (map (f32_max 0) (t_data ex_x)) 4 CpuAlloc"

definition ex_empty_graph :: graph where
  "ex_empty_graph = \<lparr>nodeMap = Map.empty, hashOrder = [], insertionOrder = [], g_inputs = [''i''], g_outputs = [''h''], nextPtr = 2\<rparr>"

lemma ex_default_graph:
  "m_graph ex_default_model = \<lparr>nodeMap =
     [''r'' \<mapsto> \<lparr>e_ptr = 1, e_node = ex_node ''r'' [''i''] [''h''], e_parents = [], e_children = []\<rparr>],
     hashOrder = [''r''], insertionOrder = [''r''], g_inputs = [''i''], g_outputs = [''h''], nextPtr = 2\<rparr>"
  by (simp add: ex_default_model_def add_nodes_def setOutputs_def setInputs_def graph_eval)

lemma ex_default_folds:
  "optimizer_run ex_ins cp ctx opts ex_default_model = Inr ((addInitializer ex_ins ''h'' ex_folded ex_default_model)\<lparr>m_graph := ex_empty_graph\<rparr>,
     \<lparr>r_fusedActivations = 0, r_foldedConstants = 1, r_eliminatedNodes = 0, r_nodesBefore = 1, r_nodesAfter = 0\<rparr>)"
  if "o_foldConstants opts"
proof -
  have r: "provider_compute cp ctx (ex_node ''r'' [''i''] [''h'']) [Some ex_x] tensor_default = Inr ex_folded"
  proof -
    have "wf_tensor ex_x" using ex_x_modest by (simp add: modest_def)
    then show ?thesis
      using computeRelu_eq [OF _ tensor_default_wf, of ex_x]
      by (simp add: provider_compute_def ex_node_def mk_node_def opTypeFromString_def input_at_def) (simp add: ex_x_def tensor_default_def)
  qed
  have i: "m_inits ex_default_model ''i'' = Some ex_x" by (simp add: ex_default_model_def addInitializer_def model_new_def)
  have f: "fold_step ex_ins cp ctx ex_default_model
      = Inr (Some ((addInitializer ex_ins ''h'' ex_folded ex_default_model)\<lparr>m_graph := ex_empty_graph\<rparr>))"
    using r i by (simp add: fold_step_def ex_default_graph pass_eval graph_eval getInitializer_def ex_empty_graph_def)
  have none: "fold_step ex_ins cp ctx (m\<lparr>m_graph := ex_empty_graph\<rparr>) = Inr None" "fuse_step (m\<lparr>m_graph := ex_empty_graph\<rparr>) = Inr None"
      "dead_step (m\<lparr>m_graph := ex_empty_graph\<rparr>) = Inr None" for m
    by (simp_all add: fold_step_def fuse_step_def dead_step_def pass_eval ex_empty_graph_def)
  have n: "insertionOrder (m_graph ex_default_model) = [''r'']" "insertionOrder ex_empty_graph = []"
      "g_size (m_graph ex_default_model) = 1" "g_size ex_empty_graph = 0"
    by (simp_all add: ex_default_graph ex_empty_graph_def g_size_def)
  show ?thesis
    using that by (simp add: optimizer_run_def pass_if_def passes run_pass_def f none n)
qed

lemma folded_input_ignored:
  assumes "modest x" "t_size x \<noteq> 0"
  shows "\<exists>s. session_new ex_ins ex_ctx ex_default_model ex_session_config = Inr s \<and>
     fst (session_run re x s) = Inr ex_folded"
proof -
  let ?c = ex_session_config
  obtain opts where p: "config_cpuOptions ?c = Inr opts" "makeExecutionProvider (c_executionProvider ?c) opts = Inr (cpu_provider_new opts)"
      "cp_alloc (cpu_provider_new opts) = CpuAlloc"
    by (rule provider_of_config [OF ex_session_config_ok(1)]) (use ex_session_config_ok(3) in auto)
  let ?m = "(addInitializer ex_ins ''h'' ex_folded ex_default_model)\<lparr>m_graph := ex_empty_graph\<rparr>"
  have go: "c_graphOptimization ?c" by (simp add: ex_session_config_def ex_config_def config_default_def)
  have ord: "m_initOrder ?m = [''h'', ''i'']" "m_inits ?m = [''i'' \<mapsto> ex_x, ''h'' \<mapsto> ex_folded]"
    by (simp_all add: addInitializer_def ex_default_model_def model_new_def ex_ins_def)
  have wf: "wf_tensor ex_x" "wf_tensor ex_folded"
    using ex_x_modest by (simp_all add: modest_def tensor_mk_def ex_x_def wf_tensor_def buffer_fits_def computeSize_def)
  have same: "retag CpuAlloc ex_x = ex_x" "retag CpuAlloc ex_folded = ex_folded" by (simp_all add: retag_def ex_x_def tensor_mk_def)
  have "\<exists>s. session_new ex_ins ex_ctx ex_default_model ?c = Inr s \<and> s_order s = [] \<and> s_levels s = [] \<and> s_inputName s = ''i'' \<and>
      s_outputName s = ''h'' \<and> s_tensors s = [''i'' \<mapsto> ex_x, ''h'' \<mapsto> ex_folded] \<and> s_provider s = cpu_provider_new opts"
    using config_validate_ok [of ?c] ex_session_config_ok(1) p go ord resident_wf [OF wf(1)] resident_wf [OF wf(2)] same
    by (simp add: session_new_def session_eval ex_default_folds config_optimizerOptions_def ex_default_graph ex_empty_graph_def
        pass_eval empty_slot emplace_def Let_def fun_upd_twist)
  then obtain s where s: "session_new ex_ins ex_ctx ex_default_model ?c = Inr s" "s_order s = []" "s_levels s = []" "s_inputName s = ''i''"
      "s_outputName s = ''h''" "s_tensors s = [''i'' \<mapsto> ex_x, ''h'' \<mapsto> ex_folded]" "s_provider s = cpu_provider_new opts" by blast
  have "slot_ok CpuAlloc ex_x" using wf(1) by (simp add: slot_ok_def ex_x_def)
  then have "load_input s x = Inr ((s_tensors s)(''i'' \<mapsto> retag CpuAlloc x))"
    using load_input_slot [of s ex_x x] s p(3) assms(1) by (simp add: modest_def)
  then have "fst (session_run re x s) = Inr ex_folded"
    using assms(2) s by (simp add: session_run_def run_schedule_def find_slot_def)
  then show ?thesis using s(1) by blast
qed

end
