(* ===== verification/Engine.thy ===== *)
theory Engine
  imports Session_Results
begin

text \<open>
  runtime/inference_engine.h and runtime/inference_engine.cpp: the facade over a session, with the
  guards on batches; and the interface a serving component relies on, as a locale that the engine
  implements.
\<close>

section \<open>The facade\<close>

definition engine_defaultConfig :: session_config where
  "engine_defaultConfig = config_default\<lparr>c_modelPath := ''<in-memory>''\<rparr>"

definition engine_new :: "insert_order \<Rightarrow> thread_ctx \<Rightarrow> model \<Rightarrow> session_config \<Rightarrow> session res" where
  "engine_new ins ctx m c = session_new ins ctx m c"

definition engine_fromConfig :: "insert_order \<Rightarrow> thread_ctx \<Rightarrow> u8 list \<Rightarrow> session_config \<Rightarrow> session res" where
  "engine_fromConfig ins ctx bytes c = session_fromConfig ins ctx bytes c"

text \<open>\<^verbatim>\<open>infer\<close> returns by value: a copy of the tensor the session keeps.\<close>

definition engine_infer :: "run_env \<Rightarrow> f32 tensor \<Rightarrow> session \<Rightarrow> f32 tensor res \<times> session" where
  "engine_infer re x s = (case session_run re x s of (r, s') \<Rightarrow> (rbind r tensor_copy, s'))"

definition engine_inferBatch :: "run_env \<Rightarrow> f32 tensor \<Rightarrow> session \<Rightarrow> f32 tensor res \<times> session" where
  "engine_inferBatch re x s =
     (if rank x = 0 then (Inl (InvalidArgument ''Batch tensor must have at least one dimension''), s)
      else case Tensor.dim x 0 of
        Inl e \<Rightarrow> (Inl e, s)
      | Inr d \<Rightarrow> if c_maxBatchSize (s_config s) < unat d
          then (Inl (InvalidArgument (''Batch size '' @ nat_to_string (unat d) @ '' exceeds max_batch_size '' @
                  nat_to_string (c_maxBatchSize (s_config s)))), s)
          else session_run re x s)"

section \<open>What a server relies on\<close>

text \<open>\<open>call x e r e'\<close>: a call with \<open>x\<close> in state \<open>e\<close> may return \<open>r\<close> and leave \<open>e'\<close>. A state is \<open>ok\<close> as long
  as the tensors it holds \<open>fits\<close>; then a successful call returns the one answer there is for its
  input, a well-formed tensor, and a call that fails throws: it does nothing undefined.\<close>

locale batch_engine =
  fixes call :: "f32 tensor \<Rightarrow> 'e \<Rightarrow> f32 tensor res \<Rightarrow> 'e \<Rightarrow> bool"
    and ok :: "'e \<Rightarrow> bool" and fits :: "'e \<Rightarrow> bool" and answer :: "f32 tensor \<Rightarrow> f32 tensor \<Rightarrow> bool"
  assumes call_returns: "\<exists>r e'. call x e r e'"
    and call_ok: "ok e \<Longrightarrow> modest x \<Longrightarrow> call x e r e' \<Longrightarrow> fits e' \<Longrightarrow> ok e'"
    and call_answer: "ok e \<Longrightarrow> modest x \<Longrightarrow> call x e (Inr t) e' \<Longrightarrow> fits e' \<Longrightarrow> answer x t \<and> modest t"
    and call_clean: "ok e \<Longrightarrow> modest x \<Longrightarrow> call x e r e' \<Longrightarrow> fits e' \<Longrightarrow> fails_cleanly r"
    and answer_unique: "modest x \<Longrightarrow> answer x t \<Longrightarrow> answer x u \<Longrightarrow> t = u"

text \<open>A call of the engine, under some environment of the run; the states of an engine that started
  as \<open>s0\<close>; and the answers it can give.\<close>

definition engine_call :: "f32 tensor \<Rightarrow> session \<Rightarrow> f32 tensor res \<Rightarrow> session \<Rightarrow> bool" where
  "engine_call x s r s' = (\<exists>re. env_ok re s \<and> engine_inferBatch re x s = (r, s'))"

definition engine_ok :: "session \<Rightarrow> session \<Rightarrow> bool" where
  "engine_ok s0 s = (session_inv (s_tensors s0) s0 \<and> session_inv (s_tensors s0) s \<and> s_order s = s_order s0 \<and> s_levels s = s_levels s0 \<and>
     s_provider s = s_provider s0 \<and> s_inputName s = s_inputName s0 \<and> s_outputName s = s_outputName s0)"

definition engine_answer :: "session \<Rightarrow> f32 tensor \<Rightarrow> f32 tensor \<Rightarrow> bool" where
  "engine_answer s0 x t = (session_inv (s_tensors s0) s0 \<and> t_size x \<noteq> 0 \<and> (\<exists>env. env (s_outputName s0) = Some t \<and>
     solves (cp_strategy (s_provider s0)) (cp_alloc (s_provider s0))
       ((s_tensors s0)(s_inputName s0 \<mapsto> retag (cp_alloc (s_provider s0)) x)) (s_order s0) env))"

lemma engine_call_run:
  assumes "engine_inferBatch re x s = (r, s')"
  shows "(s' = s \<and> (\<exists>e. r = Inl e)) \<or> session_run re x s = (r, s')"
  using assms by (auto simp: engine_inferBatch_def split: if_splits sum.splits)

lemma engine_call_clean:
  assumes "engine_inferBatch re x s = (r, s')" "r = Inl e" "\<not> catchable e"
  shows "session_run re x s = (r, s')"
  using assms by (auto simp: engine_inferBatch_def Tensor.dim_def split: if_splits sum.splits)

interpretation engine: batch_engine engine_call "engine_ok s0" "\<lambda>s. sane (s_tensors s)" "engine_answer s0" for s0
proof
  show "\<exists>r s'. engine_call x s r s'" for x s
    unfolding engine_call_def using seq_env_ok [of s] by (metis prod.exhaust)
  show "engine_ok s0 s'" if a: "engine_ok s0 s" "modest x" "engine_call x s r s'" "sane (s_tensors s')" for s s' x r
  proof -
    obtain re where re: "env_ok re s" "engine_inferBatch re x s = (r, s')" using a(3) by (auto simp: engine_call_def)
    from engine_call_run [OF re(2)] show ?thesis
    proof
      assume r: "session_run re x s = (r, s')"
      have inv: "session_inv (s_tensors s0) s" using a(1) by (simp add: engine_ok_def)
      from session_inv_run [OF inv re(1) a(2) r a(4)] a(1) show ?thesis by (simp add: engine_ok_def)
    qed (use a(1) in simp)
  qed
  show "engine_answer s0 x t \<and> modest t" if a: "engine_ok s0 s" "modest x" "engine_call x s (Inr t) s'" "sane (s_tensors s')" for s s' x t
  proof -
    obtain re where re: "env_ok re s" "engine_inferBatch re x s = (Inr t, s')" using a(3) by (auto simp: engine_call_def)
    have r: "session_run re x s = (Inr t, s')" using engine_call_run [OF re(2)] by simp
    have inv: "session_inv (s_tensors s0) s" using a(1) by (simp add: engine_ok_def)
    note run = session_run_solves [OF inv re(1) a(2) r a(4)]
    have "modest t" using run(2) a(4) by (auto simp: sane_def ran_def)
    moreover have "engine_answer s0 x t"
      unfolding engine_answer_def using run a(1) by (auto simp: engine_ok_def)
    ultimately show ?thesis by blast
  qed
  show "fails_cleanly r" if a: "engine_ok s0 s" "modest x" "engine_call x s r s'" "sane (s_tensors s')" for s s' x r
  proof -
    obtain re where re: "env_ok re s" "engine_inferBatch re x s = (r, s')" using a(3) by (auto simp: engine_call_def)
    have inv: "session_inv (s_tensors s0) s" using a(1) by (simp add: engine_ok_def)
    show ?thesis
      unfolding fails_cleanly_def using engine_call_clean [OF re(2)] session_run_clean [OF inv re(1) a(2) _ a(4)]
      by (metis fails_cleanly_def)
  qed
  show "t = u" if a: "modest x" "engine_answer s0 x t" "engine_answer s0 x u" for x t u
  proof -
    from a(2) obtain env where e: "session_inv (s_tensors s0) s0" "t_size x \<noteq> 0" "env (s_outputName s0) = Some t"
        "solves (cp_strategy (s_provider s0)) (cp_alloc (s_provider s0))
          ((s_tensors s0)(s_inputName s0 \<mapsto> retag (cp_alloc (s_provider s0)) x)) (s_order s0) env"
      by (auto simp: engine_answer_def)
    from a(3) obtain env' where e': "env' (s_outputName s0) = Some u"
        "solves (cp_strategy (s_provider s0)) (cp_alloc (s_provider s0))
          ((s_tensors s0)(s_inputName s0 \<mapsto> retag (cp_alloc (s_provider s0)) x)) (s_order s0) env'"
      by (auto simp: engine_answer_def)
    from session_answers_run [OF e(1) seq_env_ok a(1) e(2,4,3)] session_answers_run [OF e(1) seq_env_ok a(1) e(2) e'(2,1)]
    show ?thesis by auto
  qed
qed

end
