(* ===== verification/Batcher.thy ===== *)
theory Batcher
  imports Engine
begin

text \<open>
  serving/dynamic_batcher.h and serving/dynamic_batcher.cpp: a queue of requests, one worker that
  coalesces them into batches, and a promise per request. Every section under the mutex is one step;
  what the worker does between two locked sections (the engine call, the promises) is one step of
  its own. A request is numbered when it is accepted and the number stands for its promise:
  \<open>b_answers\<close> holds the promises that are satisfied. The engine is a parameter: \<open>call x e r e'\<close> says
  that a call with \<open>x\<close> in state \<open>e\<close> may return \<open>r\<close> and leave \<open>e'\<close>. \<open>b_log\<close>, the accepted requests
  in order, is not part of the program. The condition variable is modelled: a worker whose wait finds
  nothing to do falls asleep, and only a notification wakes it; \<open>b_notify\<close> counts the calls of
  \<^verbatim>\<open>notify_one\<close> and \<^verbatim>\<open>notify_all\<close> that are due, each delivered in a step of its own after
  the section that owes it. A call that does something undefined ends the worker in \<open>Crashed\<close>: no
  handler sees it.
\<close>

section \<open>State\<close>

record request =
  rq_id :: nat
  rq_features :: "f32 list"

record batcher_stats =
  bs_requests :: u64
  bs_batches :: u64
  bs_maxBatchObserved :: u64
  bs_totalBatchMs :: f64

definition batcher_stats_new :: batcher_stats where
  "batcher_stats_new = \<lparr>bs_requests = 0, bs_batches = 0, bs_maxBatchObserved = 0, bs_totalBatchMs = 0\<rparr>"

definition averageBatchSize :: "batcher_stats \<Rightarrow> f64" where
  "averageBatchSize s = (if bs_batches s = 0 then 0
     else f64_div (f64_of_nat (unat (bs_requests s))) (f64_of_nat (unat (bs_batches s))))"

record batcher_conf =
  bc_maxBatchSize :: nat
  bc_maxQueueDelayUs :: nat
  bc_featureCount :: nat

definition batcher_conf_new :: "nat \<Rightarrow> nat \<Rightarrow> nat \<Rightarrow> batcher_conf" where
  "batcher_conf_new maxBatchSize maxQueueDelayUs featureCount =
     \<lparr>bc_maxBatchSize = (if maxBatchSize = 0 then 1 else maxBatchSize), bc_maxQueueDelayUs = maxQueueDelayUs,
      bc_featureCount = featureCount\<rparr>"

text \<open>Where the worker is: about to check whether there is something to do, asleep on the condition
  variable, waiting for the batch to fill, running a batch, about to count a batch that succeeded,
  gone, or lost in undefined behaviour while running a batch.\<close>

datatype batch_worker = Waiting | Sleeping | Delaying | Running "request list" | Counting nat f64 | Gone
  | Crashed exn "request list"

record 'e batcher =
  b_engine :: 'e
  b_queue :: "request list"
  b_stopping :: bool
  b_notify :: nat
  b_worker :: batch_worker
  b_stats :: batcher_stats
  b_answers :: "nat \<rightharpoonup> f32 list res"
  b_next :: nat
  b_log :: "request list"

definition batcher_new :: "'e \<Rightarrow> 'e batcher" where
  "batcher_new e = \<lparr>b_engine = e, b_queue = [], b_stopping = False, b_notify = 0, b_worker = Waiting, b_stats = batcher_stats_new,
     b_answers = Map.empty, b_next = 0, b_log = []\<rparr>"

section \<open>Operations\<close>

definition batcher_enqueue :: "batcher_conf \<Rightarrow> f32 list \<Rightarrow> 'e batcher \<Rightarrow> nat res \<times> 'e batcher" where
  "batcher_enqueue c features b =
     (if length features \<noteq> bc_featureCount c
      then (Inl (InvalidArgument (''Expected '' @ nat_to_string (bc_featureCount c) @ '' features, got '' @
              nat_to_string (length features))), b)
      else if b_stopping b then (Inl (RuntimeError ''Batcher is shutting down''), b)
      else let rq = \<lparr>rq_id = b_next b, rq_features = features\<rparr>
           in (Inr (b_next b), b\<lparr>b_queue := b_queue b @ [rq], b_notify := b_notify b + 1, b_next := b_next b + 1, b_log := b_log b @ [rq]\<rparr>))"

definition batcher_stop :: "'e batcher \<Rightarrow> 'e batcher" where
  "batcher_stop b = (if b_stopping b then b else b\<lparr>b_stopping := True, b_notify := b_notify b + 1\<rparr>)"

text \<open>A notification reaches the condition variable: it wakes the worker if it sleeps, and is lost
  otherwise.\<close>

definition batcher_notify :: "'e batcher \<Rightarrow> 'e batcher" where
  "batcher_notify b = b\<lparr>b_notify := b_notify b - 1, b_worker := (if b_worker b = Sleeping then Waiting else b_worker b)\<rparr>"

definition take_batch :: "batcher_conf \<Rightarrow> 'e batcher \<Rightarrow> 'e batcher" where
  "take_batch c b =
     (let n = (if length (b_queue b) < bc_maxBatchSize c then length (b_queue b) else bc_maxBatchSize c);
          batch = take n (b_queue b)
      in b\<lparr>b_queue := drop n (b_queue b), b_worker := (if batch = [] then Waiting else Running batch)\<rparr>)"

text \<open>The locked part of the loop, when the wait is over: leave, wait for more, or take a batch.\<close>

definition worker_wake :: "batcher_conf \<Rightarrow> 'e batcher \<Rightarrow> 'e batcher" where
  "worker_wake c b =
     (if b_stopping b \<and> b_queue b = [] then b\<lparr>b_worker := Gone\<rparr>
      else if length (b_queue b) < bc_maxBatchSize c \<and> 0 < bc_maxQueueDelayUs c then b\<lparr>b_worker := Delaying\<rparr>
      else take_batch c b)"

section \<open>A batch\<close>

definition copy_at :: "nat \<Rightarrow> 'a list \<Rightarrow> 'a list \<Rightarrow> 'a list res" where
  "copy_at off ys xs =
     (if off + length ys \<le> length xs then Inr (take off xs @ ys @ drop (off + length ys) xs)
      else Inl (Undefined ''copy past the end of a buffer''))"

definition batch_input :: "nat \<Rightarrow> request list \<Rightarrow> f32 tensor res" where
  "batch_input features batch =
     rbind (tensor_zeros 0 [word_of_nat (length batch), word_of_nat features] CpuAlloc) (\<lambda>input.
     rbind (rfold (\<lambda>(i, rq) xs. copy_at (i * features) (rq_features rq) xs) (enumerate 0 batch) (t_data input)) (\<lambda>xs.
       Inr (input\<lparr>t_data := xs\<rparr>)))"

definition row_of :: "f32 tensor \<Rightarrow> nat \<Rightarrow> nat \<Rightarrow> f32 list res" where
  "row_of t classes i =
     (if (i + 1) * classes \<le> length (t_data t) then Inr (take classes (drop (i * classes) (t_data t)))
      else Inl (Undefined ''read past the end of a buffer''))"

definition batch_rows :: "nat \<Rightarrow> f32 tensor \<Rightarrow> f32 list list res" where
  "batch_rows n output =
     (if rank output \<noteq> 2 then Inl (RuntimeError ''Batched output has unexpected shape'')
      else rbind (Tensor.dim output 0) (\<lambda>d.
        if d \<noteq> word_of_nat n then Inl (RuntimeError ''Batched output has unexpected shape'')
        else rbind (Tensor.dim output 1) (\<lambda>classes. rmap (row_of output (unat classes)) [0..<n])))"

definition set_answers :: "request list \<Rightarrow> f32 list res list \<Rightarrow> (nat \<rightharpoonup> f32 list res) \<Rightarrow> (nat \<rightharpoonup> f32 list res)" where
  "set_answers batch rs m = foldl (\<lambda>m (rq, r). m(rq_id rq \<mapsto> r)) m (zip batch rs)"

text \<open>The promises after the engine has returned: a row each, or one exception for all. \<^verbatim>\<open>catch (...)\<close>
  sees exceptions, not undefined behaviour.\<close>

definition batch_done :: "request list \<Rightarrow> f32 tensor res \<Rightarrow> f64 \<Rightarrow> 'e batcher \<Rightarrow> 'e batcher" where
  "batch_done batch r ms b =
     (case rbind r (batch_rows (length batch)) of
        Inr rows \<Rightarrow> b\<lparr>b_answers := set_answers batch (map Inr rows) (b_answers b), b_worker := Counting (length batch) ms\<rparr>
      | Inl e \<Rightarrow> if catchable e
          then b\<lparr>b_answers := set_answers batch (map (\<lambda>_. Inl e) batch) (b_answers b), b_worker := Waiting\<rparr>
          else b\<lparr>b_worker := Crashed e batch\<rparr>)"

definition count_batch :: "nat \<Rightarrow> f64 \<Rightarrow> batcher_stats \<Rightarrow> batcher_stats" where
  "count_batch n ms s = \<lparr>bs_requests = bs_requests s + word_of_nat n, bs_batches = bs_batches s + 1,
     bs_maxBatchObserved = (if bs_maxBatchObserved s < word_of_nat n then word_of_nat n else bs_maxBatchObserved s),
     bs_totalBatchMs = f64_add (bs_totalBatchMs s) ms\<rparr>"

section \<open>Steps\<close>

text \<open>\<^verbatim>\<open>wait\<close> checks its predicate: it returns when stopping or when the queue is not empty, and otherwise
  puts the worker to sleep until a notification; \<^verbatim>\<open>wait_for\<close> may return at any time.\<close>

inductive worker_step :: "(f32 tensor \<Rightarrow> 'e \<Rightarrow> f32 tensor res \<Rightarrow> 'e \<Rightarrow> bool) \<Rightarrow> batcher_conf \<Rightarrow> 'e batcher \<Rightarrow> 'e batcher \<Rightarrow> bool"
  for call c where
  wake: "b_worker b = Waiting \<Longrightarrow> b_stopping b \<or> b_queue b \<noteq> [] \<Longrightarrow> worker_step call c b (worker_wake c b)"
| sleep: "b_worker b = Waiting \<Longrightarrow> \<not> b_stopping b \<Longrightarrow> b_queue b = [] \<Longrightarrow> worker_step call c b (b\<lparr>b_worker := Sleeping\<rparr>)"
| delayed: "b_worker b = Delaying \<Longrightarrow> worker_step call c b (take_batch c b)"
| run: "b_worker b = Running batch \<Longrightarrow> batch_input (bc_featureCount c) batch = Inr x \<Longrightarrow> call x (b_engine b) r e' \<Longrightarrow>
    worker_step call c b (batch_done batch r ms (b\<lparr>b_engine := e'\<rparr>))"
| run_input: "b_worker b = Running batch \<Longrightarrow> batch_input (bc_featureCount c) batch = Inl e \<Longrightarrow>
    worker_step call c b (batch_done batch (Inl e) ms b)"
| count: "b_worker b = Counting n ms \<Longrightarrow> worker_step call c b (b\<lparr>b_stats := count_batch n ms (b_stats b), b_worker := Waiting\<rparr>)"

inductive batcher_step :: "(f32 tensor \<Rightarrow> 'e \<Rightarrow> f32 tensor res \<Rightarrow> 'e \<Rightarrow> bool) \<Rightarrow> batcher_conf \<Rightarrow> 'e batcher \<Rightarrow> 'e batcher \<Rightarrow> bool"
  for call c where
  enqueue: "batcher_enqueue c features b = (r, b') \<Longrightarrow> batcher_step call c b b'"
| stop: "batcher_step call c b (batcher_stop b)"
| notify: "0 < b_notify b \<Longrightarrow> batcher_step call c b (batcher_notify b)"
| worker: "worker_step call c b b' \<Longrightarrow> batcher_step call c b b'"

inductive_cases worker_stepE: "worker_step call c b b'"
inductive_cases batcher_stepE: "batcher_step call c b b'"

definition batcher_reach :: "(f32 tensor \<Rightarrow> 'e \<Rightarrow> f32 tensor res \<Rightarrow> 'e \<Rightarrow> bool) \<Rightarrow> batcher_conf \<Rightarrow> 'e \<Rightarrow> 'e batcher \<Rightarrow> bool" where
  "batcher_reach call c e0 b = (batcher_step call c)\<^sup>*\<^sup>* (batcher_new e0) b"

end
