(* ===== verification/Batcher_Correct.thy ===== *)
theory Batcher_Correct
  imports Batcher
begin

text \<open>
  The batcher keeps its promises: accepted requests are served in order, each once, each with its
  own row of the one answer the engine has for the batch; and stopping drains the queue.
\<close>

section \<open>Batches\<close>

text \<open>The batch the worker took from the queue and has not answered, also when it lost itself in it.\<close>

definition in_flight :: "'e batcher \<Rightarrow> request list" where
  "in_flight b = (case b_worker b of Running batch \<Rightarrow> batch | Crashed e batch \<Rightarrow> batch | _ \<Rightarrow> [])"

lemma rmap_length: "rmap f xs = Inr ys \<Longrightarrow> length ys = length xs"
  by (induction xs arbitrary: ys) (auto simp: rbind_eq_Inr)

lemma rmap_nth: "rmap f xs = Inr ys \<Longrightarrow> i < length xs \<Longrightarrow> f (xs ! i) = Inr (ys ! i)"
  by (induction xs arbitrary: ys i) (auto simp: rbind_eq_Inr nth_Cons split: nat.split)

lemma batch_rows_length: "batch_rows n t = Inr rows \<Longrightarrow> length rows = n"
  by (auto simp: batch_rows_def rbind_eq_Inr split: if_splits dest: rmap_length)

lemma set_answers_range:
  "map rq_id batch = [k..<k + length batch] \<Longrightarrow> length rs = length batch \<Longrightarrow>
    set_answers batch rs m i = (if k \<le> i \<and> i < k + length batch then Some (rs ! (i - k)) else m i)"
proof (induction batch arbitrary: k rs m)
  case Nil
  then show ?case by (auto simp: set_answers_def)
next
  case (Cons rq batch)
  then obtain r rs' where rs: "rs = r # rs'" "length rs' = length batch" by (cases rs) auto
  have id: "rq_id rq = k" "map rq_id batch = [Suc k..<Suc k + length batch]"
    using Cons.prems(1) by (simp_all add: upt_conv_Cons del: upt_Suc)
  show ?case
    using Cons.IH [OF id(2) rs(2), of "m(k \<mapsto> r)"] unfolding set_answers_def rs(1)
    by (cases "i = k") (auto simp: id(1) nth_Cons' Suc_le_eq diff_Suc less_Suc_eq)
qed

lemma dom_extend:
  fixes k :: nat
  assumes "dom m = {..<k}"
  shows "dom (\<lambda>i. if k \<le> i \<and> i < k + n then Some (g i) else m i) = {..<k + n}"
proof -
  have d: "m i \<noteq> None \<longleftrightarrow> i < k" for i using assms by (simp add: dom_def set_eq_iff)
  have "m i = None \<longleftrightarrow> k \<le> i" for i using d [of i] by (cases "m i") auto
  then show ?thesis by (auto simp: dom_def set_eq_iff not_le simp del: not_None_eq)
qed

text \<open>The input of a batch: the features of its requests, row by row.\<close>

lemma copy_rows:
  assumes "\<forall>rq\<in>set batch. length (rq_features rq) = f" "(k + length batch) * f \<le> length xs"
  shows "rfold (\<lambda>(i, rq) xs. copy_at (i * f) (rq_features rq) xs) (enumerate k batch) xs
    = Inr (take (k * f) xs @ concat (map rq_features batch) @ drop ((k + length batch) * f) xs)"
  using assms
proof (induction batch arbitrary: k xs)
  case (Cons rq batch)
  have len: "length (rq_features rq) = f" "k * f + f \<le> length xs"
    using Cons.prems by (auto simp: algebra_simps)
  let ?ys = "take (k * f) xs @ rq_features rq @ drop (k * f + f) xs"
  have "length ?ys = length xs" using len by simp
  then have ih: "rfold (\<lambda>(i, rq) xs. copy_at (i * f) (rq_features rq) xs) (enumerate (Suc k) batch) ?ys
      = Inr (take (Suc k * f) ?ys @ concat (map rq_features batch) @ drop ((Suc k + length batch) * f) ?ys)"
    using Cons.prems by (intro Cons.IH) simp_all
  have t: "take (Suc k * f) ?ys = take (k * f) xs @ rq_features rq" using len by (simp add: add.commute min_absorb2)
  have d: "drop ((Suc k + length batch) * f) ?ys = drop ((k + length (rq # batch)) * f) xs"
    using len by (simp add: algebra_simps)
  show ?case using ih len unfolding t d by (simp add: copy_at_def)
qed simp

definition batch_tensor :: "nat \<Rightarrow> request list \<Rightarrow> f32 tensor" where
  "batch_tensor f batch = \<lparr>t_shape = [word_of_nat (length batch), word_of_nat f], t_data = concat (map rq_features batch),
     t_size = word_of_nat (length batch * f), t_alloc = CpuAlloc\<rparr>"

lemma length_concat_same: "\<forall>rq\<in>set batch. length (rq_features rq) = f \<Longrightarrow> length (concat (map rq_features batch)) = length batch * f"
  by (induction batch) auto

lemma rows_size:
  assumes "n < 2 ^ 31" "f < 2 ^ 31"
  shows "n * f < 2 ^ 31 * 2 ^ 31" "computeSize [word_of_nat n, word_of_nat f] = word_of_nat (n * f)"
    "unat (word_of_nat (n * f) :: u64) = n * f" "buffer_fits (word_of_nat (n * f))"
    "unat (word_of_nat n :: u64) = n" "unat (word_of_nat f :: u64) = f"
proof -
  show p: "n * f < 2 ^ 31 * 2 ^ 31"
  proof (cases "f = 0")
    case False
    then show ?thesis using assms by (intro mult_strict_mono) simp_all
  qed simp
  then show "computeSize [word_of_nat n, word_of_nat f] = word_of_nat (n * f)" by (simp add: computeSize_def)
  show u: "unat (word_of_nat (n * f) :: u64) = n * f" using p by (intro unat_word_of_nat) simp
  show "buffer_fits (word_of_nat (n * f))" unfolding buffer_fits_def u using p by (simp add: mult.commute)
  have "n < 2 ^ 64" "f < 2 ^ 64" using assms by simp_all
  then show "unat (word_of_nat n :: u64) = n" "unat (word_of_nat f :: u64) = f" using unat_word_of_nat by blast+
qed

lemma zeros_rows:
  assumes "n < 2 ^ 31" "f < 2 ^ 31"
  shows "tensor_zeros 0 [word_of_nat n, word_of_nat f] CpuAlloc =
      Inr \<lparr>t_shape = [word_of_nat n, word_of_nat f], t_data = replicate (n * f) (0 :: f32), t_size = word_of_nat (n * f), t_alloc = CpuAlloc\<rparr>"
  unfolding tensor_zeros_def Let_def rows_size(2) [OF assms] alloc_fill_def rows_size(3) [OF assms] using rows_size(4) [OF assms] by simp

lemma batch_input_tensor:
  assumes "\<forall>rq\<in>set batch. length (rq_features rq) = f" "length batch < 2 ^ 31" "f < 2 ^ 31"
  shows "batch_input f batch = Inr (batch_tensor f batch)" "modest (batch_tensor f batch)"
proof -
  note r = rows_size [OF assms(2,3)]
  show "batch_input f batch = Inr (batch_tensor f batch)"
    using copy_rows [OF assms(1), of 0 "replicate (length batch * f) 0"]
    by (simp add: batch_input_def zeros_rows [OF assms(2,3)] batch_tensor_def)
  have l: "length (concat (map rq_features batch)) = unat (word_of_nat (length batch * f) :: u64)"
    unfolding length_concat_same [OF assms(1)] r(3) ..
  show "modest (batch_tensor f batch)"
    unfolding modest_def wf_tensor_def shape_ok_def batch_tensor_def
    using assms(2,3) r(1,4) l by (simp add: r(2,5,6))
qed

text \<open>The rows of an answer.\<close>

lemma row_of_ok:
  assumes "modest t" "n < 2 ^ 64" "t_shape t = [word_of_nat n, d]" "i < n"
  shows "row_of t (unat d) i = Inr (take (unat d) (drop (i * unat d) (t_data t)))"
proof -
  have wf: "wf_tensor t" "shape_ok (t_shape t)" using assms(1) by (simp_all add: modest_def)
  have len: "length (t_data t) = n * unat d"
    using wf computeSize_ok [OF wf(2)] assms(3) unat_word_of_nat [OF assms(2)] by (simp add: wf_tensor_def)
  have "(i + 1) * unat d \<le> n * unat d" using assms(4) by (intro mult_le_mono1) simp
  then show ?thesis by (simp add: row_of_def len)
qed

lemma batch_rows_modest:
  assumes "modest t" "n < 2 ^ 64"
  shows "case batch_rows n t of Inr rows \<Rightarrow> length rows = n \<and> t_shape t = [word_of_nat n, t_shape t ! 1] \<and>
      (\<forall>i<n. rows ! i = take (unat (t_shape t ! 1)) (drop (i * unat (t_shape t ! 1)) (t_data t)))
    | Inl e \<Rightarrow> catchable e"
proof (cases "rank t = 2 \<and> t_shape t ! 0 = word_of_nat n")
  case False
  then have "batch_rows n t = Inl (RuntimeError ''Batched output has unexpected shape'')"
    by (cases "rank t = 2") (simp_all add: batch_rows_def rank_def Tensor.dim_def)
  then show ?thesis by simp
next
  case True
  then obtain d where sh: "t_shape t = [word_of_nat n, d]" by (auto simp: rank_def numeral_2_eq_2 length_Suc_conv)
  have "rmap (row_of t (unat d)) [0..<n] = Inr (map (\<lambda>i. take (unat d) (drop (i * unat d) (t_data t))) [0..<n])"
    using row_of_ok [OF assms sh] by (intro rmap_map) simp
  then show ?thesis using sh by (simp add: batch_rows_def rank_def Tensor.dim_def)
qed

section \<open>The invariant\<close>

definition batcher_inv :: "batcher_conf \<Rightarrow> 'e batcher \<Rightarrow> bool" where
  "batcher_inv c b = (\<exists>k. k \<le> b_next b \<and> dom (b_answers b) = {..<k} \<and> in_flight b @ b_queue b = drop k (b_log b) \<and>
     map rq_id (b_log b) = [0..<b_next b] \<and> (\<forall>rq\<in>set (b_log b). length (rq_features rq) = bc_featureCount c) \<and>
     (case b_worker b of
        Waiting \<Rightarrow> True
      | Sleeping \<Rightarrow> b_stopping b \<or> b_queue b \<noteq> [] \<longrightarrow> 0 < b_notify b
      | Delaying \<Rightarrow> b_queue b \<noteq> []
      | Running batch \<Rightarrow> batch \<noteq> [] \<and> length batch \<le> bc_maxBatchSize c
      | Counting n ms \<Rightarrow> n \<le> bc_maxBatchSize c
      | Gone \<Rightarrow> b_stopping b \<and> b_queue b = []
      | Crashed e batch \<Rightarrow> batch \<noteq> [] \<and> length batch \<le> bc_maxBatchSize c \<and> \<not> catchable e) \<and>
     (\<forall>i r. b_answers b i = Some r \<longrightarrow> fails_cleanly r) \<and>
     unat (bs_maxBatchObserved (b_stats b)) \<le> bc_maxBatchSize c)"

definition conf_ok :: "batcher_conf \<Rightarrow> bool" where
  "conf_ok c = (0 < bc_maxBatchSize c \<and> bc_maxBatchSize c \<le> 4096 \<and> bc_featureCount c < 2 ^ 31)"

lemma batcher_inv_new: "batcher_inv c (batcher_new e)"
  by (simp add: batcher_inv_def batcher_new_def in_flight_def batcher_stats_new_def)

lemma enqueue_inv:
  assumes "batcher_inv c b" "batcher_enqueue c features b = (r, b')"
  shows "batcher_inv c b' \<and> b_answers b' = b_answers b"
proof (cases "length features \<noteq> bc_featureCount c \<or> b_stopping b")
  case True
  then show ?thesis using assms by (auto simp: batcher_enqueue_def split: if_splits)
next
  case False
  let ?rq = "\<lparr>rq_id = b_next b, rq_features = features\<rparr>"
  have b': "b' = b\<lparr>b_queue := b_queue b @ [?rq], b_notify := b_notify b + 1, b_next := b_next b + 1, b_log := b_log b @ [?rq]\<rparr>"
    using assms(2) False by (simp add: batcher_enqueue_def Let_def)
  obtain k where k: "k \<le> b_next b" "dom (b_answers b) = {..<k}" "in_flight b @ b_queue b = drop k (b_log b)"
    "map rq_id (b_log b) = [0..<b_next b]" "\<forall>rq\<in>set (b_log b). length (rq_features rq) = bc_featureCount c"
    using assms(1) unfolding batcher_inv_def by blast
  have len: "length (b_log b) = b_next b" using arg_cong [OF k(4), of length] by simp
  have "in_flight b' = in_flight b" by (simp add: b' in_flight_def)
  then have "in_flight b' @ b_queue b' = drop k (b_log b')" using k(1,3) len by (simp add: b')
  moreover have "case b_worker b' of
        Waiting \<Rightarrow> True
      | Sleeping \<Rightarrow> b_stopping b' \<or> b_queue b' \<noteq> [] \<longrightarrow> 0 < b_notify b'
      | Delaying \<Rightarrow> b_queue b' \<noteq> []
      | Running batch \<Rightarrow> batch \<noteq> [] \<and> length batch \<le> bc_maxBatchSize c
      | Counting n ms \<Rightarrow> n \<le> bc_maxBatchSize c
      | Gone \<Rightarrow> b_stopping b' \<and> b_queue b' = []
      | Crashed e batch \<Rightarrow> batch \<noteq> [] \<and> length batch \<le> bc_maxBatchSize c \<and> \<not> catchable e"
    using assms(1) False unfolding batcher_inv_def b' by (auto split: batch_worker.split)
  ultimately show ?thesis
    using assms(1) k False unfolding batcher_inv_def
    by (intro conjI exI [of _ k]) (auto simp: b')
qed

lemma take_batch_fields [simp]:
  "b_answers (take_batch c b) = b_answers b" "b_log (take_batch c b) = b_log b" "b_next (take_batch c b) = b_next b"
  "b_stopping (take_batch c b) = b_stopping b" "b_engine (take_batch c b) = b_engine b"
  by (simp_all add: take_batch_def Let_def)

lemma take_batch_inv:
  assumes c: "0 < bc_maxBatchSize c" and inv: "batcher_inv c b" and w: "b_worker b = Waiting \<or> b_worker b = Delaying" and q: "b_queue b \<noteq> []"
  obtains batch where "take_batch c b = b\<lparr>b_queue := drop (length batch) (b_queue b), b_worker := Running batch\<rparr>"
    "batch = take (length batch) (b_queue b)" "batch \<noteq> []" "batcher_inv c (take_batch c b)"
proof -
  let ?n = "if length (b_queue b) < bc_maxBatchSize c then length (b_queue b) else bc_maxBatchSize c"
  let ?batch = "take ?n (b_queue b)"
  have n: "length ?batch = ?n" "?n \<le> bc_maxBatchSize c" "?batch \<noteq> []" using c q by auto
  have t: "take_batch c b = b\<lparr>b_queue := drop ?n (b_queue b), b_worker := Running ?batch\<rparr>"
    using n(3) by (simp add: take_batch_def Let_def)
  have f: "in_flight b = []" using w by (auto simp: in_flight_def)
  have i: "batcher_inv c (take_batch c b)"
    using inv n f unfolding batcher_inv_def t by (auto simp: in_flight_def)
  have t': "take_batch c b = b\<lparr>b_queue := drop (length ?batch) (b_queue b), b_worker := Running ?batch\<rparr>"
    unfolding t n(1) ..
  show ?thesis
  proof (rule that [OF t' _ n(3) i])
    show "?batch = take (length ?batch) (b_queue b)" unfolding n(1) ..
  qed
qed

text \<open>What the promises of a batch get.\<close>

definition batch_results :: "request list \<Rightarrow> f32 tensor res \<Rightarrow> f32 list res list" where
  "batch_results batch r = (case rbind r (batch_rows (length batch)) of
     Inl e \<Rightarrow> map (\<lambda>_. Inl e) batch | Inr rows \<Rightarrow> map Inr rows)"

lemma batch_results_length: "length (batch_results batch r) = length batch"
  by (auto simp: batch_results_def rbind_eq_Inr dest: batch_rows_length split: sum.splits)

text \<open>Whether the batch ends in values or in an exception.\<close>

definition batch_clean :: "request list \<Rightarrow> f32 tensor res \<Rightarrow> bool" where
  "batch_clean batch r = fails_cleanly (rbind r (batch_rows (length batch)))"

lemma batch_results_clean: "batch_clean batch r \<Longrightarrow> x \<in> set (batch_results batch r) \<Longrightarrow> fails_cleanly x"
  by (auto simp: batch_clean_def batch_results_def split: sum.splits)

lemma batch_done_fields [simp]:
  "b_queue (batch_done batch r ms b) = b_queue b" "b_log (batch_done batch r ms b) = b_log b"
  "b_next (batch_done batch r ms b) = b_next b" "b_stats (batch_done batch r ms b) = b_stats b"
  "b_engine (batch_done batch r ms b) = b_engine b" "b_stopping (batch_done batch r ms b) = b_stopping b"
  "b_notify (batch_done batch r ms b) = b_notify b"
  by (simp_all add: batch_done_def split: sum.split)

lemma batch_done_answers:
  "b_answers (batch_done batch r ms b) = (if batch_clean batch r then set_answers batch (batch_results batch r) (b_answers b) else b_answers b)"
  by (simp add: batch_done_def batch_results_def batch_clean_def split: sum.split)

lemma batch_done_worker:
  "batch_clean batch r \<Longrightarrow> b_worker (batch_done batch r ms b) = Waiting \<or> b_worker (batch_done batch r ms b) = Counting (length batch) ms"
  "\<not> batch_clean batch r \<Longrightarrow> \<exists>e. \<not> catchable e \<and> b_worker (batch_done batch r ms b) = Crashed e batch"
  by (cases "rbind r (batch_rows (length batch))"; simp add: batch_done_def batch_clean_def)+

lemma batch_done_crash:
  assumes inv: "batcher_inv c b" and w: "b_worker b = Running batch" and "\<not> batch_clean batch r"
  shows "batcher_inv c (batch_done batch r ms b) \<and> b_answers (batch_done batch r ms b) = b_answers b"
proof -
  obtain e where e: "\<not> catchable e" "batch_done batch r ms b = b\<lparr>b_worker := Crashed e batch\<rparr>"
    using assms(3) by (cases "rbind r (batch_rows (length batch))") (auto simp: batch_done_def batch_clean_def)
  show ?thesis unfolding e(2) using inv w e(1) by (simp add: batcher_inv_def in_flight_def)
qed

lemma batch_done_inv:
  assumes inv: "batcher_inv c b" and w: "b_worker b = Running batch" and clean: "batch_clean batch r"
  obtains k where "batcher_inv c (batch_done batch r ms b)" "b_answers b \<subseteq>\<^sub>m b_answers (batch_done batch r ms b)"
    "dom (b_answers b) = {..<k}" "batch = take (length batch) (drop k (b_log b))"
    "b_answers (batch_done batch r ms b) = (\<lambda>i. if k \<le> i \<and> i < k + length batch then Some (batch_results batch r ! (i - k)) else b_answers b i)"
proof -
  obtain k where k: "k \<le> b_next b" "dom (b_answers b) = {..<k}" "batch @ b_queue b = drop k (b_log b)"
    "map rq_id (b_log b) = [0..<b_next b]" "length batch \<le> bc_maxBatchSize c" "\<forall>i r. b_answers b i = Some r \<longrightarrow> fails_cleanly r"
    using inv w unfolding batcher_inv_def in_flight_def by auto
  have len: "length (b_log b) = b_next b" using arg_cong [OF k(4), of length] by simp
  have tk: "batch = take (length batch) (drop k (b_log b))" unfolding k(3) [symmetric] by simp
  have le: "k + length batch \<le> b_next b" using arg_cong [OF k(3), of length] len k(1) by simp
  have "map rq_id batch = take (length batch) (drop k [0..<b_next b])"
    by (subst tk) (simp add: take_map drop_map flip: k(4))
  then have ids: "map rq_id batch = [k..<k + length batch]" using le by (simp add: drop_upt take_upt)
  have dr: "b_queue b = drop (k + length batch) (b_log b)"
    using arg_cong [OF k(3), of "drop (length batch)"] by (simp add: add.commute)
  have ans: "b_answers (batch_done batch r ms b) = (\<lambda>i. if k \<le> i \<and> i < k + length batch then Some (batch_results batch r ! (i - k)) else b_answers b i)"
    using set_answers_range [OF ids batch_results_length] clean by (simp add: batch_done_answers fun_eq_iff)
  have "dom (b_answers (batch_done batch r ms b)) = {..<k + length batch}"
    unfolding ans by (rule dom_extend [OF k(2)])
  moreover have "in_flight (batch_done batch r ms b) = []"
    using batch_done_worker(1) [OF clean, of ms b] by (auto simp: in_flight_def)
  moreover have "fails_cleanly (batch_results batch r ! (i - k))" if "k \<le> i" "i < k + length batch" for i
    using that batch_results_clean [OF clean, of "batch_results batch r ! (i - k)"] batch_results_length [of batch r] by simp
  then have "\<forall>i x. b_answers (batch_done batch r ms b) i = Some x \<longrightarrow> fails_cleanly x"
    using k(6) unfolding ans by auto
  ultimately have "batcher_inv c (batch_done batch r ms b)"
    using inv k(4,5) le dr batch_done_worker(1) [OF clean, of ms b] unfolding batcher_inv_def
    by (intro exI [of _ "k + length batch"]) auto
  moreover have "b_answers b \<subseteq>\<^sub>m b_answers (batch_done batch r ms b)"
    unfolding ans map_le_def using k(2) by auto
  ultimately show ?thesis using that [OF _ _ k(2) tk ans] by blast
qed

lemma batch_done_any:
  assumes "batcher_inv c b" "b_worker b = Running batch"
  shows "batcher_inv c (batch_done batch r ms b)" "b_answers b \<subseteq>\<^sub>m b_answers (batch_done batch r ms b)"
proof -
  have "batcher_inv c (batch_done batch r ms b) \<and> b_answers b \<subseteq>\<^sub>m b_answers (batch_done batch r ms b)"
  proof (cases "batch_clean batch r")
    case True
    show ?thesis by (rule batch_done_inv [OF assms True, of ms]) blast
  next
    case False
    with batch_done_crash [OF assms False, of ms] show ?thesis by simp
  qed
  then show "batcher_inv c (batch_done batch r ms b)" "b_answers b \<subseteq>\<^sub>m b_answers (batch_done batch r ms b)" by blast+
qed

section \<open>Steps\<close>

lemma worker_step_inv:
  assumes c: "0 < bc_maxBatchSize c" "bc_maxBatchSize c < 2 ^ 64" and inv: "batcher_inv c b" and step: "worker_step call c b b'"
  shows "batcher_inv c b' \<and> b_answers b \<subseteq>\<^sub>m b_answers b' \<and> b_log b' = b_log b"
  using step
proof (cases rule: worker_step.cases)
  case wake
  show ?thesis
  proof (cases "b_queue b = []")
    case True
    then have "b' = b\<lparr>b_worker := Gone\<rparr>" using wake by (simp add: worker_wake_def)
    then show ?thesis using inv wake True unfolding batcher_inv_def by (auto simp: in_flight_def)
  next
    case False
    show ?thesis
    proof (cases "length (b_queue b) < bc_maxBatchSize c \<and> 0 < bc_maxQueueDelayUs c")
      case True
      then have "b' = b\<lparr>b_worker := Delaying\<rparr>" using wake False by (simp add: worker_wake_def)
      then show ?thesis using inv wake False unfolding batcher_inv_def by (auto simp: in_flight_def)
    next
      case wait: False
      then have "b' = take_batch c b" using wake False by (auto simp: worker_wake_def)
      moreover have "batcher_inv c (take_batch c b)" by (rule take_batch_inv [OF c(1) inv disjI1 [OF wake(2)] False])
      ultimately show ?thesis by simp
    qed
  qed
next
  case sleep
  then show ?thesis using inv unfolding batcher_inv_def by (auto simp: in_flight_def)
next
  case delayed
  then have "b_queue b \<noteq> []" using inv by (auto simp: batcher_inv_def)
  then have "batcher_inv c (take_batch c b)" by (rule take_batch_inv [OF c(1) inv disjI2 [OF delayed(2)]])
  then show ?thesis using delayed(1) by simp
next
  case (run batch x r e' ms)
  have "batcher_inv c (b\<lparr>b_engine := e'\<rparr>)" using inv run(2) by (simp add: batcher_inv_def in_flight_def)
  moreover have "b_worker (b\<lparr>b_engine := e'\<rparr>) = Running batch" using run(2) by simp
  ultimately have "batcher_inv c b'" "b_answers (b\<lparr>b_engine := e'\<rparr>) \<subseteq>\<^sub>m b_answers b'"
    unfolding run(1) by (rule batch_done_any)+
  moreover have "b_log b' = b_log b" by (simp add: run(1))
  ultimately show ?thesis by simp
next
  case (run_input batch e ms)
  have "batcher_inv c b'" "b_answers b \<subseteq>\<^sub>m b_answers b'"
    unfolding run_input(1) by (rule batch_done_any [OF inv run_input(2)])+
  moreover have "b_log b' = b_log b" by (simp add: run_input(1))
  ultimately show ?thesis by simp
next
  case (count n ms)
  have n: "n \<le> bc_maxBatchSize c" using inv count by (auto simp: batcher_inv_def)
  then have "unat (word_of_nat n :: u64) = n" using c(2) by (intro unat_word_of_nat) simp
  then show ?thesis using inv n count unfolding batcher_inv_def by (auto simp: in_flight_def count_batch_def)
qed

lemma batcher_notify_inv:
  "batcher_inv c b \<Longrightarrow> batcher_inv c (batcher_notify b) \<and> b_answers (batcher_notify b) = b_answers b \<and> b_log (batcher_notify b) = b_log b"
  by (auto simp: batcher_inv_def batcher_notify_def in_flight_def split: batch_worker.splits)

lemma batcher_step_inv:
  assumes c: "0 < bc_maxBatchSize c" "bc_maxBatchSize c < 2 ^ 64" and inv: "batcher_inv c b" and step: "batcher_step call c b b'"
  shows "batcher_inv c b' \<and> b_answers b \<subseteq>\<^sub>m b_answers b'"
  using step
proof (cases rule: batcher_step.cases)
  case (enqueue features r)
  from enqueue_inv [OF inv enqueue] show ?thesis by simp
next
  case stop
  then show ?thesis using inv by (auto simp: batcher_inv_def batcher_stop_def in_flight_def split: batch_worker.splits)
next
  case notify
  with batcher_notify_inv [OF inv] show ?thesis by simp
next
  case worker
  from worker_step_inv [OF c inv worker] show ?thesis by simp
qed

end
