(* ===== verification/Batcher_Results.thy ===== *)
theory Batcher_Results
  imports Batcher_Correct
begin

text \<open>
  What the clients of the batcher see: requests are served in order and each once, each with its own
  row of the engine's answer for its batch; and stopping drains the queue.
\<close>

section \<open>Reachable states\<close>

lemma batcher_steps_inv:
  assumes "0 < bc_maxBatchSize c" "bc_maxBatchSize c < 2 ^ 64" "(batcher_step call c)\<^sup>*\<^sup>* b b'" "batcher_inv c b"
  shows "batcher_inv c b' \<and> b_answers b \<subseteq>\<^sub>m b_answers b'"
  using assms(3,4)
proof (induction rule: rtranclp_induct)
  case (step x y)
  with batcher_step_inv [OF assms(1,2) _ step.hyps(2)] show ?case by (blast intro: map_le_trans)
qed simp

lemma batcher_reach_inv:
  "batcher_reach call c e0 b \<Longrightarrow> 0 < bc_maxBatchSize c \<Longrightarrow> bc_maxBatchSize c < 2 ^ 64 \<Longrightarrow> batcher_inv c b"
  unfolding batcher_reach_def by (blast dest: batcher_steps_inv [OF _ _ _ batcher_inv_new])

lemma batcher_conf_new_pos: "0 < bc_maxBatchSize (batcher_conf_new n us f)"
  by (simp add: batcher_conf_new_def)

section \<open>Answers\<close>

definition fits_call :: "(f32 tensor \<Rightarrow> 'e \<Rightarrow> f32 tensor res \<Rightarrow> 'e \<Rightarrow> bool) \<Rightarrow> ('e \<Rightarrow> bool) \<Rightarrow> f32 tensor \<Rightarrow> 'e \<Rightarrow> f32 tensor res \<Rightarrow> 'e \<Rightarrow> bool" where
  "fits_call call fits x e r e' = (call x e r e' \<and> fits e')"

text \<open>\<open>v\<close> is the row of request \<open>i\<close> in the answer for a batch of consecutive requests.\<close>

definition answered_by :: "(f32 tensor \<Rightarrow> f32 tensor \<Rightarrow> bool) \<Rightarrow> batcher_conf \<Rightarrow> request list \<Rightarrow> nat \<Rightarrow> f32 list \<Rightarrow> bool" where
  "answered_by answer c rqs i v = (\<exists>k m t. k \<le> i \<and> i < k + m \<and> k + m \<le> length rqs \<and> m \<le> bc_maxBatchSize c \<and>
     answer (batch_tensor (bc_featureCount c) (take m (drop k rqs))) t \<and> t_shape t = [word_of_nat m, t_shape t ! 1] \<and>
     v = take (unat (t_shape t ! 1)) (drop ((i - k) * unat (t_shape t ! 1)) (t_data t)))"

lemma answered_by_append:
  assumes "answered_by answer c rqs i v"
  shows "answered_by answer c (rqs @ ys) i v"
proof -
  obtain k m t where k: "k \<le> i" "i < k + m" "k + m \<le> length rqs" "m \<le> bc_maxBatchSize c"
    "answer (batch_tensor (bc_featureCount c) (take m (drop k rqs))) t" "t_shape t = [word_of_nat m, t_shape t ! 1]"
    "v = take (unat (t_shape t ! 1)) (drop ((i - k) * unat (t_shape t ! 1)) (t_data t))"
    using assms unfolding answered_by_def by blast
  moreover have "take m (drop k (rqs @ ys)) = take m (drop k rqs)" using k(3) by simp
  ultimately show ?thesis
    unfolding answered_by_def by (intro exI [of _ k] exI [of _ m] exI [of _ t] conjI) simp_all
qed

text \<open>What the steps do to the engine and to the list of accepted requests.\<close>

lemma worker_wake_fields [simp]:
  "b_engine (worker_wake c b) = b_engine b" "b_answers (worker_wake c b) = b_answers b" "b_log (worker_wake c b) = b_log b"
  "b_stopping (worker_wake c b) = b_stopping b" "b_next (worker_wake c b) = b_next b"
  by (simp_all add: worker_wake_def)

lemma batcher_inv_batch:
  assumes inv: "batcher_inv c b" and w: "b_worker b = Running batch"
  shows "\<forall>rq\<in>set batch. length (rq_features rq) = bc_featureCount c" "length batch \<le> bc_maxBatchSize c" "batch \<noteq> []"
proof -
  obtain k where k: "batch @ b_queue b = drop k (b_log b)" "\<forall>rq\<in>set (b_log b). length (rq_features rq) = bc_featureCount c"
    using inv w by (auto simp: batcher_inv_def in_flight_def)
  have "set batch \<subseteq> set (b_log b)" using arg_cong [OF k(1), of set] set_drop_subset [of k "b_log b"] by auto
  then show "\<forall>rq\<in>set batch. length (rq_features rq) = bc_featureCount c" using k(2) by blast
  show "length batch \<le> bc_maxBatchSize c" "batch \<noteq> []" using inv w by (auto simp: batcher_inv_def)
qed

definition crashed :: "'e batcher \<Rightarrow> bool" where
  "crashed b = (\<exists>e batch. b_worker b = Crashed e batch)"

context batch_engine begin

text \<open>Every value answered is the row of its request, and the worker is not lost.\<close>

definition served :: "batcher_conf \<Rightarrow> 'e batcher \<Rightarrow> bool" where
  "served c b = (ok (b_engine b) \<and> \<not> crashed b \<and> (\<forall>i v. b_answers b i = Some (Inr v) \<longrightarrow> answered_by answer c (b_log b) i v))"

lemma served_run:
  assumes c: "conf_ok c" and inv: "batcher_inv c b" and s: "served c b" and w: "b_worker b = Running batch"
    and x: "batch_input (bc_featureCount c) batch = Inr x" and call: "call x (b_engine b) r e'" "fits e'"
  shows "served c (batch_done batch r ms (b\<lparr>b_engine := e'\<rparr>))"
proof -
  let ?b = "b\<lparr>b_engine := e'\<rparr>"
  have inv': "batcher_inv c ?b" "b_worker ?b = Running batch" using inv w by (auto simp: batcher_inv_def in_flight_def)
  note fl = batcher_inv_batch [OF inv w]
  have lb: "length batch < 2 ^ 31" "bc_featureCount c < 2 ^ 31" using c fl(2) by (simp_all add: conf_ok_def)
  note bt = batch_input_tensor [OF fl(1) lb]
  have xb: "x = batch_tensor (bc_featureCount c) batch" using x bt(1) by simp
  have oke: "ok (b_engine b)" using s by (simp add: served_def)
  have mx: "modest x" using bt(2) xb by simp
  have clean: "batch_clean batch r"
    unfolding batch_clean_def
  proof (rule fails_cleanly_rbind)
    show "fails_cleanly r" by (rule call_clean [OF oke mx call])
    fix t assume "r = Inr t"
    then have "modest t" using call_answer [OF oke mx] call by blast
    from batch_rows_modest [OF this, of "length batch"] lb show "fails_cleanly (batch_rows (length batch) t)"
      by (auto simp: fails_cleanly_def)
  qed
  obtain k where k: "dom (b_answers ?b) = {..<k}" "batch = take (length batch) (drop k (b_log ?b))"
      "b_answers (batch_done batch r ms ?b) = (\<lambda>i. if k \<le> i \<and> i < k + length batch then Some (batch_results batch r ! (i - k)) else b_answers ?b i)"
      "length batch \<le> bc_maxBatchSize c" "k + length batch \<le> length (b_log ?b)"
      "\<forall>rq\<in>set batch. length (rq_features rq) = bc_featureCount c"
  proof -
    obtain k where k: "dom (b_answers ?b) = {..<k}" "batch = take (length batch) (drop k (b_log ?b))"
      "b_answers (batch_done batch r ms ?b) = (\<lambda>i. if k \<le> i \<and> i < k + length batch then Some (batch_results batch r ! (i - k)) else b_answers ?b i)"
      by (rule batch_done_inv [OF inv' clean, of ms])
    have "k + length batch \<le> length (b_log b)" using arg_cong [OF k(2), of length] fl(3) by (cases batch) auto
    then show ?thesis using that [OF k] fl by auto
  qed
  have row: "answered_by answer c (b_log b) i v" if i: "k \<le> i" "i < k + length batch" "batch_results batch r ! (i - k) = Inr v" for i v
  proof -
    obtain t rows where t: "r = Inr t" "batch_rows (length batch) t = Inr rows" "map Inr rows ! (i - k) = (Inr v :: f32 list res)"
      using i by (auto simp: batch_results_def rbind_eq_Inr split: sum.splits)
    have rows: "rows ! (i - k) = v" using i t(3) batch_rows_length [OF t(2)] by simp
    note ans = call_answer [OF oke mx call(1) [unfolded t(1)] call(2)]
    show ?thesis
      unfolding answered_by_def using batch_rows_modest [OF ans [THEN conjunct2], of "length batch"] ans i rows k(2,4,5) t(2) xb lb
      by (intro exI [of _ k] exI [of _ "length batch"] exI [of _ t]) auto
  qed
  have "\<not> crashed (batch_done batch r ms ?b)"
    using batch_done_worker(1) [OF clean, of ms ?b] by (auto simp: crashed_def)
  then show ?thesis
    unfolding served_def using call_ok [OF oke mx call] row s unfolding k(3) served_def by auto
qed

lemma served_step:
  assumes c: "conf_ok c" and inv: "batcher_inv c b" and s: "served c b" and step: "batcher_step (fits_call call fits) c b b'"
  shows "served c b'"
  using step
proof (cases rule: batcher_step.cases)
  case (enqueue features r)
  then obtain ys where "b_log b' = b_log b @ ys" "b_engine b' = b_engine b" "b_answers b' = b_answers b" "b_worker b' = b_worker b"
    by (fastforce simp: batcher_enqueue_def Let_def split: if_splits)
  then show ?thesis using s by (auto simp: served_def crashed_def intro: answered_by_append)
next
  case stop
  then show ?thesis using s by (simp add: served_def crashed_def batcher_stop_def)
next
  case notify
  then show ?thesis using s by (simp add: served_def crashed_def batcher_notify_def)
next
  case worker
  then show ?thesis
  proof (cases rule: worker_step.cases)
    case (run batch x r e' ms)
    then show ?thesis using served_run [OF c inv s run(2,3)] by (simp add: fits_call_def)
  next
    case (run_input batch e ms)
    note fl = batcher_inv_batch [OF inv run_input(2)]
    have "length batch < 2 ^ 31" "bc_featureCount c < 2 ^ 31" using c fl(2) by (simp_all add: conf_ok_def)
    from batch_input_tensor(1) [OF fl(1) this] run_input(3) show ?thesis by simp
  qed (use s in \<open>simp_all add: served_def crashed_def worker_wake_def take_batch_def Let_def\<close>)
qed

lemma served_reach:
  assumes c: "conf_ok c" and ok: "ok e0" and reach: "batcher_reach (fits_call call fits) c e0 b"
  shows "served c b"
proof -
  have "(batcher_step (fits_call call fits) c)\<^sup>*\<^sup>* (batcher_new e0) b" using reach by (simp add: batcher_reach_def)
  then have "batcher_inv c b \<and> served c b"
  proof (induction rule: rtranclp_induct)
    case base
    have "served c (batcher_new e0)" using ok by (simp add: served_def crashed_def batcher_new_def)
    then show ?case by (simp add: batcher_inv_new)
  next
    case (step x y)
    have n: "0 < bc_maxBatchSize c" "bc_maxBatchSize c < 2 ^ 64" using c by (simp_all add: conf_ok_def)
    show ?case using batcher_step_inv [OF n _ step.hyps(2)] served_step [OF c _ _ step.hyps(2)] step.IH by blast
  qed
  then show ?thesis by blast
qed

end

text \<open>For the engine: the value is a row of what the session computes for the batch.\<close>

lemma batcher_row:
  assumes "model_ok m" "ins_ok ins" "g_inputs (m_graph m) = a # as" "wf_view a (view_of m)" "engine_new ins ctx m cf = Inr s0"
    and "batcher_reach (fits_call engine_call (\<lambda>s. sane (s_tensors s))) (batcher_conf_new n us f) s0 b" "n \<le> 4096" "f < 2 ^ 31"
    and "b_answers b i = Some (Inr v)"
  shows "\<exists>k j t. k \<le> i \<and> i < k + j \<and> k + j \<le> length (b_log b) \<and> j \<le> max 1 n \<and>
    (\<forall>re. env_ok re s0 \<longrightarrow> (\<exists>s1. session_run re (batch_tensor f (take j (drop k (b_log b)))) s0 = (Inr t, s1))) \<and>
    t_shape t = [word_of_nat j, t_shape t ! 1] \<and>
    v = take (unat (t_shape t ! 1)) (drop ((i - k) * unat (t_shape t ! 1)) (t_data t))"
proof -
  let ?c = "batcher_conf_new n us f"
  have c: "conf_ok ?c" "bc_maxBatchSize ?c = max 1 n" "bc_featureCount ?c = f" using assms(7,8) by (simp_all add: batcher_conf_new_def conf_ok_def)
  have inv: "session_inv (s_tensors s0) s0"
    using session_new_inv [OF assms(1-4)] assms(5) by (simp add: engine_new_def)
  then have "engine_ok s0 s0" by (simp add: engine_ok_def)
  from engine.served_reach [OF c(1) this assms(6)] assms(9)
  have "answered_by (engine_answer s0) ?c (b_log b) i v" by (simp add: engine.served_def)
  then obtain k j t where k: "k \<le> i" "i < k + j" "k + j \<le> length (b_log b)" "j \<le> max 1 n"
    "engine_answer s0 (batch_tensor f (take j (drop k (b_log b)))) t" "t_shape t = [word_of_nat j, t_shape t ! 1]"
    "v = take (unat (t_shape t ! 1)) (drop ((i - k) * unat (t_shape t ! 1)) (t_data t))"
    unfolding answered_by_def c(2,3) by blast
  let ?x = "batch_tensor f (take j (drop k (b_log b)))"
  have "batcher_inv ?c b" using batcher_reach_inv [OF assms(6)] c(1) by (simp add: conf_ok_def)
  then have "\<forall>rq\<in>set (b_log b). length (rq_features rq) = f" unfolding batcher_inv_def c(3) by blast
  moreover have "set (take j (drop k (b_log b))) \<subseteq> set (b_log b)" by (auto dest: in_set_takeD in_set_dropD)
  ultimately have "\<forall>rq\<in>set (take j (drop k (b_log b))). length (rq_features rq) = f" by blast
  from batch_input_tensor(2) [OF this] k(4) assms(7,8) have mx: "modest ?x" by simp
  obtain env where e: "t_size ?x \<noteq> 0" "env (s_outputName s0) = Some t"
      "solves (cp_strategy (s_provider s0)) (cp_alloc (s_provider s0))
        ((s_tensors s0)(s_inputName s0 \<mapsto> retag (cp_alloc (s_provider s0)) ?x)) (s_order s0) env"
    using k(5) unfolding engine_answer_def by blast
  from session_answers_run [OF inv _ mx e(1,3,2)] k(1-4,6,7) show ?thesis by blast
qed

section \<open>Stopping\<close>

text \<open>The steps left to a batcher that stops: those of the worker, and the notifications that are due.\<close>

inductive drain_step :: "(f32 tensor \<Rightarrow> 'e \<Rightarrow> f32 tensor res \<Rightarrow> 'e \<Rightarrow> bool) \<Rightarrow> batcher_conf \<Rightarrow> 'e batcher \<Rightarrow> 'e batcher \<Rightarrow> bool"
  for call c where
  work: "worker_step call c b b' \<Longrightarrow> drain_step call c b b'"
| deliver: "0 < b_notify b \<Longrightarrow> drain_step call c b (batcher_notify b)"

lemma drain_step_batcher: "drain_step call c b b' \<Longrightarrow> batcher_step call c b b'"
  by (auto elim!: drain_step.cases intro: batcher_step.worker batcher_step.notify)

text \<open>What is still to be done.\<close>

definition worker_weight :: "batch_worker \<Rightarrow> nat" where
  "worker_weight w = (case w of Gone \<Rightarrow> 0 | Crashed e batch \<Rightarrow> 0 | Delaying \<Rightarrow> 1 | Waiting \<Rightarrow> 2 | Sleeping \<Rightarrow> 2
     | Counting n ms \<Rightarrow> 3 | Running batch \<Rightarrow> 4)"

definition batcher_work :: "'e batcher \<Rightarrow> nat" where
  "batcher_work b = 4 * length (b_queue b) + worker_weight (b_worker b) + b_notify b"

lemma take_batch_work:
  assumes "0 < bc_maxBatchSize c" "b_queue b \<noteq> []"
  shows "batcher_work (take_batch c b) \<le> 4 * length (b_queue b) + b_notify b"
proof -
  let ?n = "if length (b_queue b) < bc_maxBatchSize c then length (b_queue b) else bc_maxBatchSize c"
  have "0 < ?n" "?n \<le> length (b_queue b)" using assms by auto
  then show ?thesis using assms(2) by (simp add: batcher_work_def take_batch_def Let_def worker_weight_def del: length_greater_0_conv)
qed

lemma batch_done_work:
  "b_worker b = Running batch \<Longrightarrow> batcher_work (batch_done batch r ms b) < batcher_work b"
  using batch_done_worker [of batch r ms b] by (cases "batch_clean batch r") (auto simp: batcher_work_def worker_weight_def)

lemma worker_step_work:
  assumes c: "0 < bc_maxBatchSize c" and inv: "batcher_inv c b" and s: "b_stopping b" and step: "worker_step call c b b'"
  shows "batcher_work b' < batcher_work b \<and> b_stopping b' \<and> b_next b' = b_next b"
  using step
proof (cases rule: worker_step.cases)
  case wake
  then show ?thesis
    using s take_batch_work [OF c, of b] by (auto simp: worker_wake_def batcher_work_def worker_weight_def)
next
  case delayed
  then have "b_queue b \<noteq> []" using inv by (auto simp: batcher_inv_def)
  from take_batch_work [OF c this] delayed s show ?thesis by (simp add: batcher_work_def worker_weight_def)
next
  case (run batch x r e' ms)
  then show ?thesis
    using s batch_done_work [of "b\<lparr>b_engine := e'\<rparr>" batch r ms] by (simp add: batcher_work_def)
next
  case (run_input batch e ms)
  then show ?thesis using s batch_done_work [of b batch "Inl e" ms] by simp
next
  case (count n ms)
  then show ?thesis using s by (simp add: batcher_work_def worker_weight_def)
qed (use s in simp)

lemma drain_step_work:
  assumes "0 < bc_maxBatchSize c" "batcher_inv c b" "b_stopping b" "drain_step call c b b'"
  shows "batcher_work b' < batcher_work b \<and> b_stopping b' \<and> b_next b' = b_next b"
  using assms(4)
proof (cases rule: drain_step.cases)
  case work
  from worker_step_work [OF assms(1-3) this] show ?thesis .
next
  case deliver
  then show ?thesis using assms(3) by (simp add: batcher_work_def batcher_notify_def worker_weight_def)
qed

text \<open>A worker that is awake and neither gone nor lost has a step to make.\<close>

lemma drain_progress:
  assumes call: "\<And>x e. \<exists>r e'. call x e r e'" and "b_stopping b" "b_worker b \<noteq> Gone" "b_worker b \<noteq> Sleeping" "\<not> crashed b"
  shows "\<exists>b'. worker_step call c b b'"
proof (cases "b_worker b")
  case (Running batch)
  then show ?thesis
    using call by (cases "batch_input (bc_featureCount c) batch") (blast intro: worker_step.intros)+
qed (use assms(2-) in \<open>auto simp: crashed_def intro: worker_step.intros\<close>)

lemma drain_steps_work:
  assumes "0 < bc_maxBatchSize c" "bc_maxBatchSize c < 2 ^ 64" "batcher_inv c b" "b_stopping b" "(drain_step call c ^^ n) b b'"
  shows "batcher_inv c b' \<and> b_stopping b' \<and> b_next b' = b_next b \<and> batcher_work b' + n \<le> batcher_work b"
  using assms(5)
proof (induction n arbitrary: b')
  case (Suc n)
  then obtain b1 where b1: "(drain_step call c ^^ n) b b1" "drain_step call c b1 b'" by auto
  from Suc.IH [OF b1(1)] batcher_step_inv [OF assms(1,2) _ drain_step_batcher [OF b1(2)]] drain_step_work [OF assms(1) _ _ b1(2)]
  show ?case by fastforce
qed (use assms in simp)

lemma drain_steps_reach:
  "(drain_step call c ^^ n) b b' \<Longrightarrow> batcher_reach call c e0 b \<Longrightarrow> batcher_reach call c e0 b'"
proof (induction n arbitrary: b')
  case (Suc n)
  then obtain b1 where "batcher_reach call c e0 b1" "drain_step call c b1 b'" by auto
  then show ?case unfolding batcher_reach_def by (meson drain_step_batcher rtranclp.rtrancl_into_rtrancl)
qed simp

lemma drained_answers:
  assumes "batcher_inv c b" "b_worker b = Gone"
  shows "dom (b_answers b) = {..<b_next b}"
proof -
  obtain k where k: "k \<le> b_next b" "dom (b_answers b) = {..<k}" "[] = drop k (b_log b)" "map rq_id (b_log b) = [0..<b_next b]"
    using assms unfolding batcher_inv_def in_flight_def by auto
  have "k = b_next b" using k(1,3) arg_cong [OF k(4), of length] by simp
  then show ?thesis using k(2) by simp
qed

section \<open>An example\<close>

text \<open>Two requests, one batch.\<close>

definition ex_conf :: batcher_conf where "ex_conf = batcher_conf_new 2 500 2"

definition ex_requests :: "request list" where
  "ex_requests = [\<lparr>rq_id = 0, rq_features = [0x3F800000, 0xBF800000]\<rparr>, \<lparr>rq_id = 1, rq_features = [0x40000000, 0]\<rparr>]"

definition ex_queued :: "'e \<Rightarrow> 'e batcher" where
  "ex_queued e = (batcher_new e)\<lparr>b_queue := ex_requests, b_notify := 2, b_next := 2, b_log := ex_requests\<rparr>"

lemma ex_conf_simps [simp]: "bc_maxBatchSize ex_conf = 2" "bc_maxQueueDelayUs ex_conf = 500" "bc_featureCount ex_conf = 2"
  by (simp_all add: ex_conf_def batcher_conf_new_def)

lemma ex_queued_reach: "batcher_reach call ex_conf e (ex_queued e)"
proof -
  let ?b = "(batcher_new e)\<lparr>b_queue := take 1 ex_requests, b_notify := 1, b_next := 1, b_log := take 1 ex_requests\<rparr>"
  have "batcher_step call ex_conf (batcher_new e) ?b"
    by (rule batcher_step.enqueue [of _ "[0x3F800000, 0xBF800000]" _ "Inr 0"])
      (simp add: batcher_enqueue_def batcher_new_def ex_requests_def Let_def)
  moreover have "batcher_step call ex_conf ?b (ex_queued e)"
    by (rule batcher_step.enqueue [of _ "[0x40000000, 0]" _ "Inr 1"])
      (simp add: batcher_enqueue_def batcher_new_def ex_requests_def ex_queued_def Let_def)
  ultimately show ?thesis unfolding batcher_reach_def by (meson converse_rtranclp_into_rtranclp rtranclp.rtrancl_refl)
qed

lemma ex_batch_input: "batch_tensor 2 ex_requests = ex_x"
  by (simp add: batch_tensor_def ex_requests_def ex_x_def)

text \<open>The batch runs once the engine answers for it.\<close>

lemma ex_batch_steps:
  assumes "call ex_x e (Inr t) e'" "batch_rows 2 t = Inr [u, v]"
  shows "\<exists>b. (batcher_step call ex_conf)\<^sup>*\<^sup>* (ex_queued e) b \<and> b_log b = ex_requests \<and> b_answers b = [0 \<mapsto> Inr u, 1 \<mapsto> Inr v]"
proof -
  let ?r = "(ex_queued e)\<lparr>b_queue := [], b_worker := Running ex_requests\<rparr>"
  have "worker_step call ex_conf (ex_queued e) (worker_wake ex_conf (ex_queued e))"
    by (rule worker_step.wake) (simp_all add: ex_queued_def batcher_new_def ex_requests_def)
  moreover have "worker_wake ex_conf (ex_queued e) = ?r"
    by (simp add: worker_wake_def ex_queued_def batcher_new_def ex_requests_def take_batch_def)
  moreover have "worker_step call ex_conf ?r (batch_done ex_requests (Inr t) 0 (?r\<lparr>b_engine := e'\<rparr>))"
    using batch_input_tensor(1) [of ex_requests 2] assms(1)
    by (intro worker_step.run [where x = ex_x]) (simp_all add: ex_batch_input ex_queued_def batcher_new_def, simp add: ex_requests_def)
  ultimately have "(batcher_step call ex_conf)\<^sup>*\<^sup>* (ex_queued e) (batch_done ex_requests (Inr t) 0 (?r\<lparr>b_engine := e'\<rparr>))"
    by (metis batcher_step.worker converse_rtranclp_into_rtranclp rtranclp.rtrancl_refl)
  moreover have "b_log (ex_queued e) = ex_requests" "b_answers (ex_queued e) = Map.empty"
    by (simp_all add: ex_queued_def batcher_new_def)
  moreover have "length ex_requests = 2" by (simp add: ex_requests_def)
  then have "batch_results ex_requests (Inr t) = [Inr u, Inr v]" "batch_clean ex_requests (Inr t)"
    using assms(2) by (simp_all add: batch_results_def batch_clean_def)
  ultimately show ?thesis by (intro exI [of _ "batch_done ex_requests (Inr t) 0 (?r\<lparr>b_engine := e'\<rparr>)"])
      (simp add: batch_done_answers set_answers_def ex_requests_def)
qed

lemma ex_served:
  assumes "call ex_x e (Inr t) e'" "batch_rows 2 t = Inr [u, v]"
  shows "\<exists>b. batcher_reach call ex_conf e b \<and> b_log b = ex_requests \<and> b_answers b = [0 \<mapsto> Inr u, 1 \<mapsto> Inr v]"
  using ex_batch_steps [of call e t e' u v] assms ex_queued_reach [of call e] unfolding batcher_reach_def by (meson rtranclp_trans)

text \<open>Stopped with the two in the queue, it serves them and ends.\<close>

lemma ex_drains:
  assumes "call ex_x e (Inr t) e'" "batch_rows 2 t = Inr [u, v]"
  shows "\<exists>b. (drain_step call ex_conf ^^ 4) (batcher_stop (ex_queued e)) b \<and> b_worker b = Gone"
proof -
  let ?q = "batcher_stop (ex_queued e)"
  let ?r = "?q\<lparr>b_queue := [], b_worker := Running ex_requests\<rparr>"
  let ?d = "batch_done ex_requests (Inr t) 0 (?r\<lparr>b_engine := e'\<rparr>)"
  let ?w = "?d\<lparr>b_stats := count_batch 2 0 (b_stats ?d), b_worker := Waiting\<rparr>"
  have l: "length ex_requests = 2" by (simp add: ex_requests_def)
  have q: "b_worker ?q = Waiting" "b_queue ?q = ex_requests" "b_stopping ?q" "b_engine ?q = e"
    by (simp_all add: batcher_stop_def ex_queued_def batcher_new_def)
  have "worker_wake ex_conf ?q = ?r" using q(2,3) l by (auto simp: worker_wake_def take_batch_def)
  then have 1: "drain_step call ex_conf ?q ?r"
    using drain_step.work [OF worker_step.wake, of ?q call ex_conf] q by simp
  have 2: "drain_step call ex_conf ?r ?d"
    using batch_input_tensor(1) [of ex_requests 2] assms(1) q
    by (intro drain_step.work worker_step.run [where x = ex_x]) (simp_all add: ex_batch_input, simp add: ex_requests_def)
  have "b_worker ?d = Counting 2 0" using assms(2) l by (simp add: batch_done_def)
  then have 3: "drain_step call ex_conf ?d ?w" by (intro drain_step.work worker_step.count)
  have "worker_wake ex_conf ?w = ?w\<lparr>b_worker := Gone\<rparr>" using q(3) by (simp add: worker_wake_def)
  then have 4: "drain_step call ex_conf ?w (?w\<lparr>b_worker := Gone\<rparr>)"
    using drain_step.work [OF worker_step.wake, of ?w call ex_conf] q(3) by simp
  have "(drain_step call ex_conf ^^ 4) ?q (?w\<lparr>b_worker := Gone\<rparr>)"
    using 1 2 3 4 by (auto simp: numeral_eq_Suc)
  then show ?thesis by (intro exI [of _ "?w\<lparr>b_worker := Gone\<rparr>"]) simp
qed

text \<open>The session of the example serves it.\<close>

lemma ex_engine_call:
  obtains s0 sa t where "engine_new ex_ins ex_ctx ex_opt_model ex_session_config = Inr s0"
    "fits_call engine_call (\<lambda>s. sane (s_tensors s)) ex_x s0 (Inr t) sa"
    "batch_rows 2 t = Inr [map (f32_max 0) [0x3F800000, 0xBF800000], map (f32_max 0) [0x40000000, 0]]"
proof -
  let ?y = "tensor_mk [2, 2] (map (f32_max 0) (t_data ex_x)) 4 CpuAlloc"
  obtain s0 sa where s0: "session_new ex_ins ex_ctx ex_opt_model ex_session_config = Inr s0"
    "session_run (seq_env s0) ex_x s0 = (Inr ?y, sa)" "sane (s_tensors sa)" "c_maxBatchSize (s_config s0) = 128"
    by (rule ex_session_run)
  have "engine_inferBatch (seq_env s0) ex_x s0 = (Inr ?y, sa)"
    using s0(2,4) by (simp add: engine_inferBatch_def ex_x_def rank_def Tensor.dim_def)
  then have "fits_call engine_call (\<lambda>s. sane (s_tensors s)) ex_x s0 (Inr ?y) sa"
    using s0(3) seq_env_ok by (auto simp: fits_call_def engine_call_def)
  moreover have "batch_rows 2 ?y = Inr [map (f32_max 0) [0x3F800000, 0xBF800000], map (f32_max 0) [0x40000000, 0]]"
    by (simp add: batch_rows_def ex_x_def rank_def Tensor.dim_def row_of_def upt_rec tensor_mk_def)
  ultimately show ?thesis using that s0(1) by (simp add: engine_new_def)
qed

section \<open>Properties\<close>

text \<open>C4. Requests are served in order and each once. In every state the batcher reaches, under any
  interleaving of clients, worker and stop and whatever the engine answers, the requests answered
  are the first \<open>k\<close> accepted ones; those of the batch in flight and those in the queue are the rest,
  in the order in which they were accepted; no batch exceeds the maximum; every request keeps the
  number of features the model wants; and a promise that is satisfied never changes.\<close>

theorem batcher_serves_in_order:
  assumes "batcher_reach call c e0 b" "c = batcher_conf_new n us f" "n < 2 ^ 64"
  shows "\<exists>k\<le>b_next b. dom (b_answers b) = {..<k} \<and> in_flight b @ b_queue b = drop k (b_log b) \<and>
    map rq_id (b_log b) = [0..<b_next b] \<and> list_all (\<lambda>rq. length (rq_features rq) = f) (b_log b) \<and>
    length (in_flight b) \<le> max 1 n \<and> unat (bs_maxBatchObserved (b_stats b)) \<le> max 1 n \<and>
    (\<forall>b'. (batcher_step call c)\<^sup>*\<^sup>* b b' \<longrightarrow> b_answers b \<subseteq>\<^sub>m b_answers b')"
proof -
  have c: "0 < bc_maxBatchSize c" "bc_maxBatchSize c < 2 ^ 64" "bc_maxBatchSize c = max 1 n" "bc_featureCount c = f"
    using assms(2,3) by (simp_all add: batcher_conf_new_def)
  have inv: "batcher_inv c b" by (rule batcher_reach_inv [OF assms(1) c(1,2)])
  have "\<forall>b'. (batcher_step call c)\<^sup>*\<^sup>* b b' \<longrightarrow> b_answers b \<subseteq>\<^sub>m b_answers b'"
    using batcher_steps_inv [OF c(1,2) _ inv] by blast
  moreover have "length (in_flight b) \<le> max 1 n"
    using inv c(3) by (auto simp: batcher_inv_def in_flight_def split: batch_worker.splits)
  ultimately show ?thesis using inv unfolding batcher_inv_def c(3,4) list_all_iff by blast
qed

theorem batcher_serves_in_order_witness:
  "\<exists>b. batcher_reach (\<lambda>x e r e'. r = Inr x) ex_conf () b \<and> b_answers b = [0 \<mapsto> Inr [0x3F800000, 0xBF800000], 1 \<mapsto> Inr [0x40000000, 0]] \<and>
     map rq_id (b_log b) = [0..<b_next b]"
proof -
  have "batch_rows 2 ex_x = Inr [[0x3F800000, 0xBF800000], [0x40000000, 0]]"
    by (simp add: batch_rows_def ex_x_def rank_def Tensor.dim_def row_of_def upt_rec)
  from ex_served [where call = "\<lambda>x e r e'. r = Inr x" and e = "()" and e' = "()", OF _ this] obtain b
    where b: "batcher_reach (\<lambda>x e r e'. r = Inr x) ex_conf () b" "b_answers b = [0 \<mapsto> Inr [0x3F800000, 0xBF800000], 1 \<mapsto> Inr [0x40000000, 0]]"
    by blast
  from batcher_serves_in_order [OF b(1) ex_conf_def] b show ?thesis by auto
qed

text \<open>C3. Every answer is the request's own row. Take an engine built from any well-formed model, and a batcher
  in front of it. If the promise of request \<open>i\<close> holds a value, then request \<open>i\<close> was one of \<open>j\<close>
  consecutive accepted requests, at most the maximum, such that the freshly built session answers
  the tensor of their features, under every schedule, with one tensor \<open>t\<close> of \<open>j\<close> rows; and the value
  is the row of \<open>t\<close> at the position of \<open>i\<close> in the batch: no request gets the row of another, nor
  anything left by earlier batches. Batches are of at most 4096 requests, requests of fewer than
  \<open>2 ^ 31\<close> features, and the tensors of the session stay \<open>modest\<close>.\<close>

theorem batcher_answers_rows:
  assumes "model_ok m" "ins_ok ins" "g_inputs (m_graph m) = a # as" "wf_view a (view_of m)" "engine_new ins ctx m cf = Inr s0"
    and "batcher_reach (fits_call engine_call (\<lambda>s. sane (s_tensors s))) (batcher_conf_new n us f) s0 b" "n \<le> 4096" "f < 2 ^ 31"
    and "b_answers b i = Some (Inr v)"
  shows "\<exists>k j t. k \<le> i \<and> i < k + j \<and> k + j \<le> length (b_log b) \<and> j \<le> max 1 n \<and>
    (\<forall>re. env_ok re s0 \<longrightarrow> (\<exists>s1. session_run re (batch_tensor f (take j (drop k (b_log b)))) s0 = (Inr t, s1))) \<and>
    t_shape t = [word_of_nat j, t_shape t ! 1] \<and>
    v = take (unat (t_shape t ! 1)) (drop ((i - k) * unat (t_shape t ! 1)) (t_data t))"
  by (rule batcher_row [OF assms])

theorem batcher_answers_rows_witness:
  "\<exists>s0 (b :: session batcher) k j t. engine_new ex_ins ex_ctx ex_opt_model ex_session_config = Inr s0 \<and>
     b_answers b 1 = Some (Inr (map (f32_max 0) [0x40000000, 0])) \<and> k \<le> 1 \<and> 1 < k + j \<and>
     (\<exists>s1. session_run (seq_env s0) (batch_tensor 2 (take j (drop k (b_log b)))) s0 = (Inr t, s1))"
proof -
  obtain s0 sa t where s0: "engine_new ex_ins ex_ctx ex_opt_model ex_session_config = Inr s0"
    "fits_call engine_call (\<lambda>s. sane (s_tensors s)) ex_x s0 (Inr t) sa"
    "batch_rows 2 t = Inr [map (f32_max 0) [0x3F800000, 0xBF800000], map (f32_max 0) [0x40000000, 0]]"
    by (rule ex_engine_call)
  from ex_served [where call = "fits_call engine_call (\<lambda>s. sane (s_tensors s))", OF s0(2,3)] obtain b
    where b: "batcher_reach (fits_call engine_call (\<lambda>s. sane (s_tensors s))) ex_conf s0 b"
      "b_answers b 1 = Some (Inr (map (f32_max 0) [0x40000000, 0]))" by auto
  from batcher_answers_rows [OF ex_opt_ok ex_ins_ok ex_session_io(1) ex_opt_view s0(1) b(1) [unfolded ex_conf_def] _ _ b(2)]
  have "\<exists>k j t. k \<le> 1 \<and> 1 < k + j \<and> (\<forall>re. env_ok re s0 \<longrightarrow>
      (\<exists>s1. session_run re (batch_tensor 2 (take j (drop k (b_log b)))) s0 = (Inr t, s1)))" by auto
  then show ?thesis using s0(1) b(2) seq_env_ok by blast
qed

text \<open>C19. Stopping drains. Take an engine built from any well-formed model, a batcher in front of it, in
  any state it reaches, and let it be stopping. Then at most \<open>4 q + 4 + d\<close> steps are left, \<open>q\<close> the
  requests in the queue and \<open>d\<close> the notifications that are due; until the worker is gone some step is
  always possible, and if the worker sleeps on the condition variable, a notification is on its
  way; nothing the worker does is undefined, so it is never lost. When it is gone, every request
  ever accepted has its answer, a row or an exception, so no client waits forever. A request that
  comes later is refused. Batches are of at most 4096 requests, requests of fewer than \<open>2 ^ 31\<close>
  features, and the tensors of the session stay \<open>modest\<close>.\<close>

theorem batcher_stop_drains:
  assumes "model_ok m" "ins_ok ins" "g_inputs (m_graph m) = a # as" "wf_view a (view_of m)" "engine_new ins ctx m cf = Inr s0"
    and "batcher_reach (fits_call engine_call (\<lambda>s. sane (s_tensors s))) c s0 b" "c = batcher_conf_new n us f" "n \<le> 4096" "f < 2 ^ 31"
    and "b_stopping b" "(drain_step (fits_call engine_call (\<lambda>s. sane (s_tensors s))) c ^^ j) b b'"
  shows "j \<le> 4 * length (b_queue b) + 4 + b_notify b \<and>
    (case b_worker b' of
       Gone \<Rightarrow> dom (b_answers b') = {..<b_next b} \<and> (\<forall>i e. b_answers b' i = Some (Inl e) \<longrightarrow> catchable e)
     | Crashed e batch \<Rightarrow> False
     | Sleeping \<Rightarrow> 0 < b_notify b'
     | _ \<Rightarrow> \<exists>b''. worker_step engine_call c b' b'') \<and>
    (\<exists>e. batcher_enqueue c features b' = (Inl e, b') \<and> catchable e)"
proof -
  let ?call = "fits_call engine_call (\<lambda>s. sane (s_tensors s))"
  have c: "0 < bc_maxBatchSize c" "bc_maxBatchSize c < 2 ^ 64" "conf_ok c"
    using assms(7-9) by (simp_all add: batcher_conf_new_def conf_ok_def)
  note w = drain_steps_work [OF c(1,2) batcher_reach_inv [OF assms(6) c(1,2)] assms(10,11)]
  have "session_inv (s_tensors s0) s0"
    using session_new_inv [OF assms(1-4)] assms(5) by (simp add: engine_new_def)
  then have "engine_ok s0 s0" by (simp add: engine_ok_def)
  from engine.served_reach [OF c(3) this drain_steps_reach [OF assms(11,6)]]
  have live: "\<not> crashed b'" by (simp add: engine.served_def)
  have "batcher_work b \<le> 4 * length (b_queue b) + 4 + b_notify b"
    by (simp add: batcher_work_def worker_weight_def split: batch_worker.split)
  moreover have "\<exists>b''. worker_step engine_call c b' b''" if "b_worker b' \<noteq> Gone" "b_worker b' \<noteq> Sleeping"
    using drain_progress [of engine_call, OF engine.call_returns] w live that by blast
  moreover have "0 < b_notify b'" if "b_worker b' = Sleeping" using w that by (auto simp: batcher_inv_def)
  moreover have "fails_cleanly x" if "b_answers b' i = Some x" for i x using w that unfolding batcher_inv_def by blast
  then have "\<forall>i e. b_answers b' i = Some (Inl e) \<longrightarrow> catchable e" by fastforce
  moreover have "\<exists>e. batcher_enqueue c features b' = (Inl e, b') \<and> catchable e"
    using w by (simp add: batcher_enqueue_def)
  ultimately show ?thesis
    using w live drained_answers [of c b'] by (auto simp: crashed_def split: batch_worker.split)
qed

text \<open>The two requests of the example are in the queue when the batcher stops: four steps later the
  worker is gone and both are answered.\<close>

theorem batcher_stop_drains_witness:
  "\<exists>s0 b'. engine_new ex_ins ex_ctx ex_opt_model ex_session_config = Inr s0 \<and>
     (drain_step (fits_call engine_call (\<lambda>s. sane (s_tensors s))) ex_conf ^^ 4) (batcher_stop (ex_queued s0)) b' \<and>
     b_worker b' = Gone \<and> dom (b_answers b') = {..<2}"
proof -
  let ?call = "fits_call engine_call (\<lambda>s. sane (s_tensors s))"
  obtain s0 sa t where s0: "engine_new ex_ins ex_ctx ex_opt_model ex_session_config = Inr s0"
    "?call ex_x s0 (Inr t) sa"
    "batch_rows 2 t = Inr [map (f32_max 0) [0x3F800000, 0xBF800000], map (f32_max 0) [0x40000000, 0]]"
    by (rule ex_engine_call)
  let ?b = "batcher_stop (ex_queued s0)"
  obtain b' where b': "(drain_step ?call ex_conf ^^ 4) ?b b'" "b_worker b' = Gone"
    using ex_drains [of ?call s0 t sa] s0(2,3) by blast
  have "batcher_reach ?call ex_conf s0 ?b"
    using ex_queued_reach [of ?call s0] unfolding batcher_reach_def by (rule rtranclp.rtrancl_into_rtrancl) (rule batcher_step.stop)
  moreover have "b_stopping ?b" "b_next ?b = 2" by (simp_all add: batcher_stop_def ex_queued_def batcher_new_def)
  ultimately show ?thesis
    using batcher_stop_drains [OF ex_opt_ok ex_ins_ok ex_session_io(1) ex_opt_view s0(1) _ ex_conf_def _ _ _ b'(1)] b' s0(1)
    by (intro exI [of _ s0] exI [of _ b']) simp
qed

end
