(* ===== verification/Http.thy ===== *)
theory Http
  imports Text Model_File Float_Order
begin

text \<open>
  serving/http_server.cpp, the functions of one connection: framing of responses, reading a request
  from what \<^verbatim>\<open>recv\<close> delivers, and the bodies of inference requests and responses. A connection is the
  list of chunks \<^verbatim>\<open>recv\<close> returns, at most 4096 characters each; an empty chunk, or the end of the
  list, is a peer that closed the connection or an error.
\<close>

section \<open>Responses\<close>

definition kMaxHeaderBytes :: nat where "kMaxHeaderBytes = 8 * 1024"

definition kMaxBodyBytes :: nat where "kMaxBodyBytes = 1024 * 1024"

abbreviation cr :: char where "cr \<equiv> CHR 0x0D"

definition crlf :: string where "crlf = [cr, newline]"

definition httpResponse :: "string \<Rightarrow> string \<Rightarrow> string \<Rightarrow> string" where
  "httpResponse status contentType body =
     ''HTTP/1.1 '' @ status @ crlf @
     ''Content-Type: '' @ contentType @ crlf @
     ''Content-Length: '' @ nat_to_string (length body) @ crlf @
     ''Connection: close'' @ crlf @ crlf @
     body"

abbreviation dquote :: char where "dquote \<equiv> CHR 0x22"

definition json_key :: "string \<Rightarrow> string" where "json_key k = [dquote] @ k @ [dquote, CHR '':'']"

definition errorResponse :: "string \<Rightarrow> string \<Rightarrow> string" where
  "errorResponse status message =
     httpResponse status ''application/json'' (''{'' @ json_key ''error'' @ [dquote] @ message @ [dquote] @ ''}'')"

text \<open>What reaches the peer, given the results of \<^verbatim>\<open>send\<close>.\<close>

fun sendAll :: "int list \<Rightarrow> string \<Rightarrow> string" where
  "sendAll [] payload = []"
| "sendAll (w # ws) payload =
     (if payload = [] \<or> w \<le> 0 then [] else take (nat w) payload @ sendAll ws (drop (nat w) payload))"

section \<open>Reading a request\<close>

text \<open>The text before and after the first empty line.\<close>

fun split_head :: "string \<Rightarrow> (string \<times> string) option" where
  "split_head s =
     (if take 4 s = crlf @ crlf then Some ([], drop 4 s)
      else case s of [] \<Rightarrow> None | c # r \<Rightarrow> map_option (\<lambda>(h, b). (c # h, b)) (split_head r))"

declare split_head.simps [simp del]

datatype head = Closed | TooLarge | Head string string "string list"

fun read_head :: "string \<Rightarrow> string list \<Rightarrow> head" where
  "read_head buffer [] = Closed"
| "read_head buffer (chunk # chunks) =
     (if chunk = [] then Closed
      else let buffer = buffer @ chunk
           in case split_head buffer of
                Some (headers, body) \<Rightarrow> Head headers body chunks
              | None \<Rightarrow> if kMaxHeaderBytes < length buffer then TooLarge else read_head buffer chunks)"

definition strip_cr :: "string \<Rightarrow> string" where
  "strip_cr l = (if l \<noteq> [] \<and> last l = cr then butlast l else l)"

text \<open>\<^verbatim>\<open>stream >> word\<close>.\<close>

definition next_word :: "string \<Rightarrow> string \<times> string" where
  "next_word s = (let s = dropWhile is_space s in (takeWhile (\<lambda>c. \<not> is_space c) s, dropWhile (\<lambda>c. \<not> is_space c) s))"

definition request_parts :: "string \<Rightarrow> string \<times> string" where
  "request_parts l = (let (method, r) = next_word l in (method, fst (next_word r)))"

text \<open>The last content length counts; the left value is the response that refuses the request.\<close>

fun content_length :: "string list \<Rightarrow> nat \<Rightarrow> string + nat" where
  "content_length [] n = Inr n"
| "content_length (l # ls) n =
     (case split_at (CHR '':'') (strip_cr l) of
        None \<Rightarrow> content_length ls n
      | Some (k, v) \<Rightarrow>
          if map to_lower k = ''content-length''
          then (case stoll v of
                  Inl e \<Rightarrow> Inl (errorResponse ''400 Bad Request'' ''invalid content-length'')
                | Inr i \<Rightarrow> if i < 0 \<or> kMaxBodyBytes < nat i then Inl (errorResponse ''413 Payload Too Large'' ''body too large'')
                    else content_length ls (nat i))
          else content_length ls n)"

fun read_body :: "nat \<Rightarrow> string \<Rightarrow> string list \<Rightarrow> string" where
  "read_body n body chunks =
     (if n \<le> length body then body
      else case chunks of [] \<Rightarrow> body | chunk # chunks \<Rightarrow> if chunk = [] then body else read_body n (body @ chunk) chunks)"

declare read_body.simps [simp del]

datatype received = NoReply | Refused string | Accepted string string string

definition read_request :: "string list \<Rightarrow> received" where
  "read_request chunks =
     (case read_head [] chunks of
        Closed \<Rightarrow> NoReply
      | TooLarge \<Rightarrow> Refused (errorResponse ''431 Request Header Fields Too Large'' ''headers too large'')
      | Head headers body chunks \<Rightarrow>
          (let (requestLine, ls) = (case getlines headers of [] \<Rightarrow> ([], []) | l # ls \<Rightarrow> (strip_cr l, ls));
               (method, path) = request_parts requestLine
           in case content_length ls 0 of
                Inl response \<Rightarrow> Refused response
              | Inr n \<Rightarrow> Accepted method path (take n (read_body n body chunks))))"

section \<open>Inference\<close>

definition f32_255 :: f32 where "f32_255 = 0x437F0000"

definition f32_million :: f32 where "f32_million = 0x49742400"

definition f32_minus_million :: f32 where "f32_minus_million = 0xC9742400"

text \<open>\<^verbatim>\<open>memcpy\<close> of \<open>n\<close> floats.\<close>

fun floats_of_bytes :: "nat \<Rightarrow> string \<Rightarrow> f32 list" where
  "floats_of_bytes 0 s = []"
| "floats_of_bytes (Suc n) s = word_of_nat (of_le (map char_byte (take 4 s))) # floats_of_bytes n (drop 4 s)"

definition pixel :: "char \<Rightarrow> f32" where
  "pixel c = f32_div (f32_of_nat (of_char c)) f32_255"

definition in_range :: "f32 \<Rightarrow> bool" where
  "in_range v = (f32_le f32_minus_million v \<and> f32_le v f32_million)"

text \<open>The features of a request, or the response that refuses it.\<close>

definition infer_features :: "nat \<Rightarrow> string \<Rightarrow> string + f32 list" where
  "infer_features featureCount body =
     (case (if length body = featureCount * 4 then Some (floats_of_bytes featureCount body)
            else if length body = featureCount then Some (map pixel body) else None) of
        None \<Rightarrow> Inl (errorResponse ''400 Bad Request'' (''body must be '' @ nat_to_string featureCount @ '' uint8 pixels or '' @
                  nat_to_string (featureCount * 4) @ '' float32 bytes''))
      | Some features \<Rightarrow> if list_all in_range features then Inr features
          else Inl (errorResponse ''400 Bad Request'' ''input contains non-finite or out-of-range values''))"

text \<open>\<^verbatim>\<open>std::max_element\<close>: the first element no later one exceeds.\<close>

definition max_element :: "f32 list \<Rightarrow> nat" where
  "max_element xs = foldl (\<lambda>b i. if f32_lt (xs ! b) (xs ! i) then i else b) 0 [1..<length xs]"

definition f32_fixed :: "nat \<Rightarrow> f32 \<Rightarrow> string" where
  "f32_fixed p x = fpv_fixed p (f32_val x)"

fun commas :: "string list \<Rightarrow> string" where
  "commas [] = []"
| "commas [s] = s"
| "commas (s # ss) = s @ '','' @ commas ss"

definition infer_json :: "f32 list \<Rightarrow> string" where
  "infer_json logits = ''{'' @ json_key ''prediction'' @ nat_to_string (max_element logits) @ '','' @ json_key ''logits'' @
     ''['' @ commas (map (f32_fixed 6) logits) @ '']}''"

text \<open>\<^verbatim>\<open>ex.what()\<close>; the texts of the exceptions of the library are its own, a parameter.\<close>

fun exn_what :: "(exn \<Rightarrow> string) \<Rightarrow> exn \<Rightarrow> string" where
  "exn_what lib (InvalidArgument w) = w"
| "exn_what lib (RuntimeError w) = w"
| "exn_what lib (OutOfRange w) = w"
| "exn_what lib e = lib e"

definition infer_response :: "(exn \<Rightarrow> string) \<Rightarrow> f32 list res \<Rightarrow> string" where
  "infer_response lib r =
     (case r of
        Inr logits \<Rightarrow> httpResponse ''200 OK'' ''application/json'' (infer_json logits)
      | Inl e \<Rightarrow> errorResponse ''500 Internal Server Error'' (exn_what lib e))"

end
