(* ===== verification/Http_Correct.thy ===== *)
theory Http_Correct
  imports Http
begin

text \<open>
  Reading a request does not depend on how the bytes are cut into chunks, and reads a bounded number
  of them; requests and responses that are printed are read back.
\<close>

section \<open>The end of the headers\<close>

lemma split_head_Nil [simp]: "split_head [] = None"
  by (subst split_head.simps) (simp add: crlf_def)

lemma split_head_Cons:
  "split_head (c # r) = (if take 4 (c # r) = crlf @ crlf then Some ([], drop 4 (c # r))
     else map_option (\<lambda>(h, b). (c # h, b)) (split_head r))"
  by (subst split_head.simps) simp

lemma split_head_parts: "split_head s = Some (h, b) \<Longrightarrow> s = h @ crlf @ crlf @ b"
proof (induction s arbitrary: h)
  case (Cons c r)
  show ?case
  proof (cases "take 4 (c # r) = crlf @ crlf")
    case True
    then have "h = []" "b = drop 4 (c # r)" using Cons.prems by (simp_all add: split_head_Cons)
    then show ?thesis using True append_take_drop_id [of 4 "c # r"] by simp
  qed (use Cons in \<open>auto simp: split_head_Cons\<close>)
qed simp

lemma split_head_append: "split_head s = Some (h, b) \<Longrightarrow> split_head (s @ t) = Some (h, b @ t)"
proof (induction s arbitrary: h)
  case (Cons c r)
  show ?case
  proof (cases "take 4 (c # r) = crlf @ crlf")
    case True
    have "length (take 4 (c # r)) = 4" unfolding True by (simp add: crlf_def)
    then have "3 \<le> length r" by simp
    then show ?thesis using Cons.prems True by (simp add: split_head_Cons)
  next
    case False
    then obtain h' where h': "split_head r = Some (h', b)" "h = c # h'" using Cons.prems by (auto simp: split_head_Cons)
    have "3 \<le> length r" using split_head_parts [OF h'(1)] by (simp add: crlf_def)
    then show ?thesis using Cons.IH [OF h'(1)] h'(2) False by (simp add: split_head_Cons)
  qed
qed simp

text \<open>Two strings one of which is a prefix of the other split at the same place, if both split; and a
  prefix that holds the empty line does.\<close>

lemma split_head_prefix:
  assumes "split_head (s @ t) = Some (h, b)" "length h + 4 \<le> length s"
  shows "\<exists>b'. split_head s = Some (h, b') \<and> b = b' @ t"
  using assms
proof (induction s arbitrary: h)
  case (Cons c r)
  show ?case
  proof (cases "take 4 (c # r @ t) = crlf @ crlf")
    case True
    then have h: "h = []" "b = drop 4 (c # r @ t)" using Cons.prems by (simp_all add: split_head_Cons)
    then have l: "3 \<le> length r" using Cons.prems(2) by simp
    then have "take 4 (c # r) = crlf @ crlf" "drop 4 (c # r @ t) = drop 4 (c # r) @ t" using True by simp_all
    then show ?thesis unfolding h split_head_Cons by simp
  next
    case False
    then obtain h' where h': "split_head (r @ t) = Some (h', b)" "h = c # h'" using Cons.prems by (auto simp: split_head_Cons)
    then have l: "length h' + 4 \<le> length r" using Cons.prems(2) by simp
    from Cons.IH [OF h'(1) l] obtain b' where "split_head r = Some (h', b')" "b = b' @ t" by blast
    then show ?thesis using h'(2) False l by (simp add: split_head_Cons)
  qed
qed simp

lemma split_head_none_prefix: "split_head (s @ t) = None \<Longrightarrow> split_head s = None"
  using split_head_append by (cases "split_head s") fastforce+

section \<open>Chunks\<close>

lemma read_head_whole:
  assumes "split_head buffer = None" "[] \<notin> set chunks" "split_head (buffer @ concat chunks) = Some (h, b)" "length h + 3 \<le> kMaxHeaderBytes"
  shows "\<exists>b' rest. read_head buffer chunks = Head h b' rest \<and> b = b' @ concat rest \<and> [] \<notin> set rest"
  using assms
proof (induction chunks arbitrary: buffer)
  case (Cons ch chs)
  let ?buf = "buffer @ ch"
  have ne: "ch \<noteq> []" using Cons.prems(2) by auto
  have w: "split_head (?buf @ concat chs) = Some (h, b)" using Cons.prems(3) by simp
  show ?case
  proof (cases "split_head ?buf")
    case None
    then have "length ?buf \<le> kMaxHeaderBytes" using split_head_prefix [OF w] Cons.prems(4) by fastforce
    then show ?thesis using Cons.IH [OF None _ w Cons.prems(4)] Cons.prems(2) None ne by (simp add: Let_def)
  next
    case (Some p)
    obtain h' b' where p: "p = (h', b')" by (cases p)
    have "h' = h" "b = b' @ concat chs" using split_head_append [OF Some [unfolded p], of "concat chs"] w by simp_all
    then show ?thesis using Some p ne Cons.prems(2) by (simp add: Let_def)
  qed
qed simp

lemma take_read_body: "[] \<notin> set chunks \<Longrightarrow> take n (read_body n body chunks) = take n (body @ concat chunks)"
proof (induction chunks arbitrary: body)
  case Nil
  then show ?case by (subst read_body.simps) simp
next
  case (Cons ch chs)
  then have "ch \<noteq> []" "take n (read_body n (body @ ch) chs) = take n (body @ ch @ concat chs)" by auto
  then show ?case by (subst read_body.simps) simp
qed

section \<open>Lines\<close>

fun head_text :: "string list \<Rightarrow> string" where
  "head_text [] = []"
| "head_text [l] = l"
| "head_text (l # ls) = l @ crlf @ head_text ls"

definition plain_line :: "string \<Rightarrow> bool" where
  "plain_line l = (l \<noteq> [] \<and> cr \<notin> set l \<and> newline \<notin> set l)"

lemma split_head_no_cr:
  "cr \<notin> set s \<Longrightarrow> split_head (s @ r) = map_option (\<lambda>(h, b). (s @ h, b)) (split_head r)"
proof (induction s)
  case (Cons c s)
  then have "take 4 (c # s @ r) \<noteq> crlf @ crlf" by (auto simp: crlf_def)
  then show ?case using Cons by (simp add: split_head_Cons option.map_comp comp_def split_def)
qed (simp add: option.map_ident split_def)

lemma split_head_line:
  assumes "l \<noteq> []" "cr \<notin> set l"
  shows "split_head (crlf @ l @ r) = map_option (\<lambda>(h, b). (crlf @ h, b)) (split_head (l @ r))"
proof -
  obtain c l' where l: "l = c # l'" "c \<noteq> cr" using assms by (cases l) auto
  have "take 4 (crlf @ l @ r) \<noteq> crlf @ crlf" "take 4 (tl (crlf @ l @ r)) \<noteq> crlf @ crlf" using l by (auto simp: crlf_def)
  then show ?thesis by (simp add: crlf_def split_head_Cons option.map_comp comp_def split_def)
qed

lemma split_head_text:
  assumes "ls \<noteq> []" "list_all plain_line ls"
  shows "split_head (head_text ls @ crlf @ crlf @ b) = Some (head_text ls, b)"
  using assms
proof (induction ls rule: head_text.induct)
  case (2 l)
  have "split_head (crlf @ crlf @ b) = Some ([], b)" by (subst split_head.simps) (simp add: crlf_def)
  then show ?case using 2 split_head_no_cr [of l "crlf @ crlf @ b"] by (simp add: plain_line_def)
next
  case (3 l l' ls)
  then have ih: "split_head (head_text (l' # ls) @ crlf @ crlf @ b) = Some (head_text (l' # ls), b)" by simp
  obtain r where r: "head_text (l' # ls) = l' @ r" by (cases ls) auto
  have "split_head (crlf @ head_text (l' # ls) @ crlf @ crlf @ b) = Some (crlf @ head_text (l' # ls), b)"
    using split_head_line [of l' "r @ crlf @ crlf @ b"] ih 3(3) unfolding r by (simp add: plain_line_def)
  then show ?case
    using split_head_no_cr [of l "crlf @ head_text (l' # ls) @ crlf @ crlf @ b"] 3(3) by (simp add: plain_line_def)
qed simp

lemma lines_text:
  assumes "ls \<noteq> []" "list_all plain_line ls"
  shows "map strip_cr (getlines (head_text ls)) = ls"
  using assms
proof (induction ls rule: head_text.induct)
  case (2 l)
  then have l: "newline \<notin> set l" "l \<noteq> []" "cr \<notin> set l" by (simp_all add: plain_line_def)
  then have d: "takeWhile (\<lambda>c. c \<noteq> newline) l = l" "dropWhile (\<lambda>c. c \<noteq> newline) l = []" by (simp_all add: takeWhile_eq_all_conv) auto
  have "getlines l = takeWhile (\<lambda>c. c \<noteq> newline) l # getlines (drop 1 (dropWhile (\<lambda>c. c \<noteq> newline) l))"
    using l(2) by (subst getlines.simps) simp
  then have "getlines l = [l]" unfolding d by simp
  then show ?case using l by (auto simp: strip_cr_def dest: last_in_set)
next
  case (3 l l' ls)
  then have "newline \<notin> set (l @ [cr])" by (simp add: plain_line_def)
  from getlines_line [OF this, of "head_text (l' # ls)"] have "getlines (head_text (l # l' # ls)) = (l @ [cr]) # getlines (head_text (l' # ls))"
    by (simp add: crlf_def)
  then show ?case using 3 by (simp add: strip_cr_def)
qed simp

end
