(* ===== verification/Http_Results.thy ===== *)
theory Http_Results
  imports Http_Correct
begin

text \<open>
  The properties of one connection: a request is read back from any chunks its bytes come in, a
  bounded number of bytes is read, and every response has the form a client relies on.
\<close>

section \<open>Printed requests\<close>

definition http_header :: "string \<times> string \<Rightarrow> string" where
  "http_header h = fst h @ '': '' @ snd h"

definition request_lines :: "string \<Rightarrow> string \<Rightarrow> (string \<times> string) list \<Rightarrow> nat \<Rightarrow> string list" where
  "request_lines method path hs n =
     (method @ '' '' @ path @ '' HTTP/1.1'') # map http_header hs @ [''Content-Length: '' @ nat_to_string n]"

definition print_request :: "string \<Rightarrow> string \<Rightarrow> (string \<times> string) list \<Rightarrow> string \<Rightarrow> string" where
  "print_request method path hs body = head_text (request_lines method path hs (length body)) @ crlf @ crlf @ body"

definition plain_word :: "string \<Rightarrow> bool" where
  "plain_word w = (w \<noteq> [] \<and> list_all (\<lambda>c. \<not> is_space c) w)"

definition plain_header :: "string \<times> string \<Rightarrow> bool" where
  "plain_header h = (CHR '':'' \<notin> set (fst h) \<and> map to_lower (fst h) \<noteq> ''content-length'' \<and>
     cr \<notin> set (fst h) \<and> newline \<notin> set (fst h) \<and> cr \<notin> set (snd h) \<and> newline \<notin> set (snd h))"

lemma plain_line_strip: "plain_line l \<Longrightarrow> strip_cr l = l"
  by (auto simp: plain_line_def strip_cr_def dest: last_in_set)

lemma plain_line_number: "plain_line (''Content-Length: '' @ nat_to_string n)"
  using nat_to_string_digits [of n] by (auto simp: plain_line_def list_all_iff is_digit_def)

lemma plain_header_line: "plain_header h \<Longrightarrow> plain_line (http_header h)"
  by (auto simp: plain_line_def plain_header_def http_header_def)

lemma plain_word_line: "plain_word m \<Longrightarrow> plain_word p \<Longrightarrow> plain_line (m @ '' '' @ p @ '' HTTP/1.1'')"
  by (auto simp: plain_line_def plain_word_def list_all_iff is_space_def)

lemma request_lines_plain:
  "plain_word m \<Longrightarrow> plain_word p \<Longrightarrow> list_all plain_header hs \<Longrightarrow> list_all plain_line (request_lines m p hs n)"
  by (auto simp: request_lines_def plain_word_line plain_line_number [simplified] list_all_iff intro: plain_header_line plain_word_line [simplified])

lemma next_word_plain: "plain_word w \<Longrightarrow> next_word (w @ CHR '' '' # r) = (w, CHR '' '' # r)"
proof -
  assume w: "plain_word w"
  then obtain c w' where c: "w = c # w'" "\<not> is_space c" "list_all (\<lambda>c. \<not> is_space c) w'" by (cases w) (auto simp: plain_word_def)
  then have "takeWhile (\<lambda>c. \<not> is_space c) w' = w'" by (simp add: takeWhile_eq_all_conv list_all_iff)
  have "is_space (CHR '' '')" by (simp add: is_space_def)
  then have "takeWhile (\<lambda>c. \<not> is_space c) (w' @ CHR '' '' # r) = w'" "dropWhile (\<lambda>c. \<not> is_space c) (w' @ CHR '' '' # r) = CHR '' '' # r"
    using c(3) by (simp_all add: takeWhile_append dropWhile_append list_all_iff)
  then show ?thesis using c by (simp add: next_word_def Let_def)
qed

lemma next_word_space: "next_word (CHR '' '' # s) = next_word s"
  by (simp add: next_word_def is_space_def)

lemma request_parts_line: "plain_word m \<Longrightarrow> plain_word p \<Longrightarrow> request_parts (m @ '' '' @ p @ '' HTTP/1.1'') = (m, p)"
  using next_word_plain [of m "p @ '' HTTP/1.1''"] next_word_plain [of p "''HTTP/1.1''"]
  by (simp add: request_parts_def next_word_space)

lemma content_length_stripped:
  "map strip_cr ls = ls' \<Longrightarrow> list_all plain_line ls' \<Longrightarrow> content_length ls n = content_length ls' n"
proof (induction ls arbitrary: ls' n)
  case (Cons l ls)
  then obtain l' ls'' where l: "ls' = l' # ls''" "strip_cr l = l'" "map strip_cr ls = ls''" "list_all plain_line ls''" "strip_cr l' = l'"
    using plain_line_strip by auto
  show ?case using Cons.IH [OF l(3,4)] l(1,2,5) by (simp split: option.split sum.split)
qed simp

lemma content_length_headers: "list_all plain_header hs \<Longrightarrow> content_length (map http_header hs @ ls) n = content_length ls n"
proof (induction hs)
  case (Cons h hs)
  have "split_at (CHR '':'') (fst h @ CHR '':'' # CHR '' '' # snd h) = Some (fst h, CHR '' '' # snd h)"
    using Cons.prems by (intro split_at_append) (simp add: plain_header_def)
  then have "split_at (CHR '':'') (http_header h) = Some (fst h, CHR '' '' # snd h)" by (simp add: http_header_def)
  then show ?case using Cons plain_line_strip [OF plain_header_line, of h] by (simp add: plain_header_def)
qed simp

lemma stoll_space: "stoll (CHR '' '' # s) = stoll s"
  by (simp add: stoll_def split_sign_def is_space_def)

lemma content_length_line:
  "split_at (CHR '':'') (strip_cr l) = Some (k, v) \<Longrightarrow> map to_lower k = ''content-length'' \<Longrightarrow> stoll v = Inr (int n) \<Longrightarrow> n \<le> kMaxBodyBytes \<Longrightarrow>
    content_length (l # ls) m = content_length ls n"
  by simp

lemma content_length_printed:
  assumes "n \<le> kMaxBodyBytes"
  shows "content_length [''Content-Length: '' @ nat_to_string n] k = Inr n"
proof -
  have "split_at (CHR '':'') (''Content-Length'' @ CHR '':'' # CHR '' '' # nat_to_string n) = Some (''Content-Length'', CHR '' '' # nat_to_string n)"
    by (rule split_at_append) simp
  then have s: "split_at (CHR '':'') (''Content-Length: '' @ nat_to_string n) = Some (''Content-Length'', CHR '' '' # nat_to_string n)" by simp
  have l: "map to_lower ''Content-Length'' = ''content-length''" by code_simp
  have "stoll (nat_to_string n) = Inr (int n)" using assms by (intro stoll_nat) (simp add: kMaxBodyBytes_def)
  then have "stoll (CHR '' '' # nat_to_string n) = Inr (int n)" by (simp only: stoll_space)
  from content_length_line [OF _ l this assms, of "''Content-Length: '' @ nat_to_string n"] show ?thesis
    unfolding plain_line_strip [OF plain_line_number] using s by simp
qed

lemma read_request_head:
  assumes "read_head [] chunks = Head (head_text ls) b rest" "ls \<noteq> []" "list_all plain_line ls"
  shows "read_request chunks = (case content_length (tl ls) 0 of
      Inl response \<Rightarrow> Refused response
    | Inr n \<Rightarrow> Accepted (fst (request_parts (hd ls))) (snd (request_parts (hd ls))) (take n (read_body n b rest)))"
proof -
  note t = lines_text [OF assms(2,3)]
  then obtain l ls' where g: "getlines (head_text ls) = l # ls'" using assms(2) by (cases "getlines (head_text ls)") auto
  then have "hd ls = strip_cr l" "map strip_cr ls' = tl ls" using t by auto
  moreover have "list_all plain_line (tl ls)" using assms(2,3) by (cases ls) auto
  ultimately show ?thesis
    using content_length_stripped [of ls' "tl ls" 0] by (cases "request_parts (strip_cr l)") (simp add: read_request_def assms(1) g split: sum.split)
qed

lemma request_read_back:
  assumes "plain_word method" "plain_word path" "list_all plain_header hs" "length body \<le> kMaxBodyBytes"
    and "length (head_text (request_lines method path hs (length body))) + 3 \<le> kMaxHeaderBytes"
    and "[] \<notin> set chunks" "concat chunks = print_request method path hs body @ rest"
  shows "read_request chunks = Accepted method path body"
proof -
  let ?ls = "request_lines method path hs (length body)"
  have ls: "?ls \<noteq> []" "list_all plain_line ?ls" "hd ?ls = method @ '' '' @ path @ '' HTTP/1.1''"
      "tl ?ls = map http_header hs @ [''Content-Length: '' @ nat_to_string (length body)]"
    using request_lines_plain [OF assms(1-3)] by (simp_all add: request_lines_def)
  have "split_head ([] @ concat chunks) = Some (head_text ?ls, body @ rest)"
    using split_head_text [OF ls(1,2), of "body @ rest"] by (simp add: assms(7) print_request_def)
  from read_head_whole [OF split_head_Nil assms(6) this assms(5)] obtain b' chs
    where h: "read_head [] chunks = Head (head_text ?ls) b' chs" "body @ rest = b' @ concat chs" "[] \<notin> set chs" by blast
  have "content_length (tl ?ls) 0 = Inr (length body)"
    unfolding ls(4) content_length_headers [OF assms(3)] by (rule content_length_printed [OF assms(4)])
  moreover have "take (length body) (read_body (length body) b' chs) = body"
    unfolding take_read_body [OF h(3)] h(2) [symmetric] by simp
  ultimately show ?thesis
    using read_request_head [OF h(1) ls(1,2)] request_parts_line [OF assms(1,2)] unfolding ls(3) by simp
qed

section \<open>The prediction\<close>

text \<open>Without a NaN among the logits the prediction is the first of the greatest.\<close>

lemma max_element_greatest:
  assumes "xs \<noteq> []" "\<forall>x\<in>set xs. \<not> f32_is_nan x"
  shows "max_element xs < length xs" "\<And>i. i < length xs \<Longrightarrow> \<not> f32_lt (xs ! max_element xs) (xs ! i)"
    "\<And>i. i < max_element xs \<Longrightarrow> f32_lt (xs ! i) (xs ! max_element xs)"
proof -
  let ?key = "\<lambda>i. fp_key (f32_val (xs ! i))"
  let ?f = "\<lambda>b i. if f32_lt (xs ! b) (xs ! i) then i else b"
  have lt: "f32_lt (xs ! i) (xs ! j) \<longleftrightarrow> key_lt (?key i) (?key j)" if "i < length xs" "j < length xs" for i j
    using that assms(2) by (intro f32_lt_key) simp_all
  define M where "M k = foldl ?f 0 [1..<Suc k]" for k
  have M: "M 0 = 0" "M (Suc k) = (if f32_lt (xs ! M k) (xs ! Suc k) then Suc k else M k)" for k by (simp_all add: M_def)
  have inv: "M k < Suc k \<and> (\<forall>i<Suc k. \<not> key_lt (?key (M k)) (?key i)) \<and> (\<forall>i<M k. key_lt (?key i) (?key (M k)))"
    if "Suc k \<le> length xs" for k
    using that
  proof (induction k)
    case (Suc k)
    then have m: "M k < Suc k" "\<forall>i<Suc k. \<not> key_lt (?key (M k)) (?key i)" "\<forall>i<M k. key_lt (?key i) (?key (M k))" by simp_all
    have e: "M (Suc k) = (if key_lt (?key (M k)) (?key (Suc k)) then Suc k else M k)"
      using lt [of "M k" "Suc k"] m(1) Suc.prems by (simp add: M(2))
    show ?case
    proof (cases "key_lt (?key (M k)) (?key (Suc k))")
      case True
      have g: "key_lt (?key i) (?key (Suc k))" if "i < Suc k" for i
        using m(2) that True key_lt_neg_trans by blast
      moreover have "\<not> key_lt (?key (Suc k)) (?key i)" if "i < Suc (Suc k)" for i
        using g [of i] that key_lt_trans key_lt_irrefl less_Suc_eq by metis
      ultimately show ?thesis using e True by simp
    next
      case False
      then show ?thesis using e m by (auto simp: less_Suc_eq)
    qed
  qed (simp add: M(1))
  obtain k where k: "length xs = Suc k" using assms(1) by (cases xs) auto
  have "max_element xs = M k" by (simp add: max_element_def M_def k)
  then have m: "max_element xs < length xs" "\<forall>i<length xs. \<not> key_lt (?key (max_element xs)) (?key i)"
      "\<forall>i<max_element xs. key_lt (?key i) (?key (max_element xs))"
    using inv [of k] by (simp_all add: k)
  then show "max_element xs < length xs" "\<And>i. i < length xs \<Longrightarrow> \<not> f32_lt (xs ! max_element xs) (xs ! i)"
    "\<And>i. i < max_element xs \<Longrightarrow> f32_lt (xs ! i) (xs ! max_element xs)"
    using lt by simp_all
qed

section \<open>Bounds\<close>

lemma read_head_bound:
  assumes "list_all (\<lambda>ch. length ch \<le> 4096) chunks" "length buffer \<le> kMaxHeaderBytes"
  shows "\<exists>k\<le>length chunks. length buffer + length (concat (take k chunks)) \<le> kMaxHeaderBytes + 4096 \<and>
    (case read_head buffer chunks of
       Head h b rest \<Rightarrow> rest = drop k chunks \<and> length h + 4 + length b \<le> kMaxHeaderBytes + 4096 \<and>
         (\<forall>more. read_head buffer (take k chunks @ more) = Head h b more)
     | r \<Rightarrow> \<forall>more. read_head buffer (take k chunks @ [] # more) = r)"
  using assms
proof (induction chunks arbitrary: buffer)
  case (Cons ch chs)
  let ?buf = "buffer @ ch"
  have len: "length ?buf \<le> kMaxHeaderBytes + 4096" using Cons.prems by simp
  consider "ch = []" | h b where "ch \<noteq> []" "split_head ?buf = Some (h, b)"
    | "ch \<noteq> []" "split_head ?buf = None" "kMaxHeaderBytes < length ?buf" | "ch \<noteq> []" "split_head ?buf = None" "length ?buf \<le> kMaxHeaderBytes"
    by (cases "split_head ?buf"; cases "kMaxHeaderBytes < length ?buf"; cases "ch = []") (fastforce simp: not_less)+
  then show ?case
  proof cases
    case 1
    then show ?thesis using Cons.prems(2) by (intro exI [of _ 0]) simp
  next
    case 2
    then have "length h + 4 + length b = length ?buf" using split_head_parts [OF 2(2)] by (simp add: crlf_def)
    then show ?thesis using 2 len by (intro exI [of _ 1]) (simp add: Let_def)
  next
    case 3
    then show ?thesis using len by (intro exI [of _ 1]) (simp add: Let_def)
  next
    case 4
    from Cons.IH [OF _ 4(3)] Cons.prems(1) obtain k where k: "k \<le> length chs" "length ?buf + length (concat (take k chs)) \<le> kMaxHeaderBytes + 4096"
      "case read_head ?buf chs of
       Head h b rest \<Rightarrow> rest = drop k chs \<and> length h + 4 + length b \<le> kMaxHeaderBytes + 4096 \<and>
         (\<forall>more. read_head ?buf (take k chs @ more) = Head h b more)
     | r \<Rightarrow> \<forall>more. read_head ?buf (take k chs @ [] # more) = r" by auto
    then show ?thesis using 4 by (intro exI [of _ "Suc k"]) (simp add: Let_def split: head.splits)
  qed
qed (auto intro: exI [of _ 0])

lemma read_body_bound:
  assumes "list_all (\<lambda>ch. length ch \<le> 4096) chunks"
  shows "\<exists>k\<le>length chunks. length (concat (take k chunks)) \<le> (if n \<le> length body then 0 else n - length body + 4095) \<and>
    (\<forall>more. read_body n body (take k chunks @ [] # more) = read_body n body chunks)"
  using assms
proof (induction chunks arbitrary: body)
  case Nil
  then show ?case by (simp add: read_body.simps [of n body])
next
  case (Cons ch chs)
  show ?case
  proof (cases "n \<le> length body \<or> ch = []")
    case True
    then show ?thesis by (intro exI [of _ 0]) (auto simp: read_body.simps [of n body])
  next
    case False
    from Cons.IH [of "body @ ch"] Cons.prems obtain k where k: "k \<le> length chs"
      "length (concat (take k chs)) \<le> (if n \<le> length (body @ ch) then 0 else n - length (body @ ch) + 4095)"
      "\<forall>more. read_body n (body @ ch) (take k chs @ [] # more) = read_body n (body @ ch) chs" by auto
    define c where "c = length (concat (take k chs))"
    have "length ch \<le> 4096" using Cons.prems by simp
    then have "length ch + c \<le> n - length body + 4095" using k(2) False unfolding c_def [symmetric] by (auto split: if_splits)
    then have "length (concat (take (Suc k) (ch # chs))) \<le> (if n \<le> length body then 0 else n - length body + 4095)"
      using False by (simp add: c_def)
    moreover have "\<forall>more. read_body n body (take (Suc k) (ch # chs) @ [] # more) = read_body n body (ch # chs)"
      using k(3) False by (simp add: read_body.simps [of n body])
    ultimately show ?thesis using k(1) by (intro exI [of _ "Suc k"]) simp
  qed
qed

lemma content_length_bound: "content_length ls n = Inr m \<Longrightarrow> n \<le> kMaxBodyBytes \<Longrightarrow> m \<le> kMaxBodyBytes"
  by (induction ls arbitrary: n) (auto split: option.splits sum.splits if_splits)

section \<open>Properties\<close>

text \<open>C17. A printed request is read back, however the network cuts it. A request with method and path
  without blanks, any other headers, and a body of at most a mebibyte, whose headers fit the limit,
  is accepted with exactly that method, path and body, whatever the sizes of the chunks in which
  its bytes arrive and whatever follows them on the connection.\<close>

theorem http_request_roundtrip:
  assumes "plain_word method" "plain_word path" "list_all plain_header hs" "length body \<le> kMaxBodyBytes"
    and "length (head_text (request_lines method path hs (length body))) + 3 \<le> kMaxHeaderBytes"
    and "[] \<notin> set chunks" "concat chunks = print_request method path hs body @ rest"
  shows "read_request chunks = Accepted method path body"
  by (rule request_read_back [OF assms])

definition ex_body :: string where "ex_body = [CHR 0x00, CHR 0xFF]"

theorem http_request_roundtrip_witness:
  "read_request [''POST /inf'', ''er HTTP/1.1'' @ crlf @ ''Host: a'' @ crlf @ ''Content-Length: 2'' @ crlf @ [cr], [newline] @ ex_body @ ''x'']
     = Accepted ''POST'' ''/infer'' ex_body"
proof -
  have n: "nat_to_string 2 = ''2''" by code_simp
  have p: "plain_word ''POST''" "plain_word ''/infer''" "list_all plain_header [(''Host'', ''a'')]" by code_simp+
  have t: "print_request ''POST'' ''/infer'' [(''Host'', ''a'')] ex_body =
      ''POST /infer HTTP/1.1'' @ crlf @ ''Host: a'' @ crlf @ ''Content-Length: 2'' @ crlf @ crlf @ ex_body"
    by (simp add: print_request_def request_lines_def http_header_def ex_body_def n numeral_2_eq_2 [symmetric])
  show ?thesis
    by (rule http_request_roundtrip [where hs = "[(''Host'', ''a'')]" and rest = "''x''" and body = ex_body, OF p, unfolded t])
       (simp_all add: ex_body_def kMaxBodyBytes_def kMaxHeaderBytes_def request_lines_def http_header_def n crlf_def numeral_2_eq_2 [symmetric])
qed

text \<open>C23. A connection costs a bounded number of bytes. Whatever a peer sends, after at most 12288
  characters of headers, a mebibyte of body and one chunk the server has made up its mind: the rest
  of the connection is not read, and what it accepts has a body within the limit.\<close>

theorem http_reads_bounded:
  assumes "list_all (\<lambda>ch. length ch \<le> 4096) chunks"
  shows "\<exists>k\<le>length chunks. length (concat (take k chunks)) \<le> kMaxHeaderBytes + 4096 + kMaxBodyBytes + 4095 \<and>
    (\<forall>more. read_request (take k chunks @ [] # more) = read_request chunks) \<and>
    (case read_request chunks of Accepted method path body \<Rightarrow> length body \<le> kMaxBodyBytes | _ \<Rightarrow> True)"
proof -
  obtain k where k: "k \<le> length chunks" "length (concat (take k chunks)) \<le> kMaxHeaderBytes + 4096"
    "case read_head [] chunks of
       Head h b rest \<Rightarrow> rest = drop k chunks \<and> length h + 4 + length b \<le> kMaxHeaderBytes + 4096 \<and>
         (\<forall>more. read_head [] (take k chunks @ more) = Head h b more)
     | r \<Rightarrow> \<forall>more. read_head [] (take k chunks @ [] # more) = r"
    using read_head_bound [OF assms, of "[]"] by auto
  show ?thesis
  proof (cases "read_head [] chunks")
    case (Head h b rest)
    then have r: "rest = drop k chunks" "\<forall>more. read_head [] (take k chunks @ more) = Head h b more" using k(3) by simp_all
    let ?ls = "case getlines h of [] \<Rightarrow> [] | l # ls \<Rightarrow> ls"
    have ls: "snd (case getlines h of [] \<Rightarrow> ([], []) | l # ls \<Rightarrow> (strip_cr l, ls)) = ?ls" by (simp split: list.split)
    show ?thesis
    proof (cases "content_length ?ls 0")
      case (Inl response)
      then show ?thesis using k(1,2) r(2) Head ls by (intro exI [of _ k]) (simp add: read_request_def Let_def split_def)
    next
      case (Inr n)
      have n: "n \<le> kMaxBodyBytes" using content_length_bound [OF Inr] by simp
      obtain j where j: "j \<le> length rest" "length (concat (take j rest)) \<le> (if n \<le> length b then 0 else n - length b + 4095)"
        "\<forall>more. read_body n b (take j rest @ [] # more) = read_body n b rest"
        using read_body_bound [of rest n b] assms r(1) by (auto simp: list_all_iff dest: in_set_dropD)
      have t: "take (k + j) chunks = take k chunks @ take j rest" using r(1) by (simp add: take_add)
      define c where "c = length (concat (take j rest))"
      have "c \<le> kMaxBodyBytes + 4095" using j(2) n unfolding c_def [symmetric] by (auto split: if_splits)
      then have "length (concat (take j rest)) \<le> kMaxBodyBytes + 4095" by (simp add: c_def)
      moreover have "k + j \<le> length chunks" "min (length (read_body n b rest)) n \<le> kMaxBodyBytes" using k(1) j(1) r(1) n by auto
      ultimately show ?thesis
        using k(2) j(3) r Head Inr ls
        by (intro exI [of _ "k + j"]) (simp add: t read_request_def Let_def split_def)
    qed
  qed (use k in \<open>intro exI [of _ k], simp add: read_request_def\<close>)+
qed

theorem http_reads_bounded_witness:
  "\<exists>k\<le>2. \<forall>more. read_request (take k [''GET /health HTTP/1.1'', crlf @ crlf @ ''x''] @ [] # more) = read_request [''GET /health HTTP/1.1'', crlf @ crlf @ ''x'']"
proof -
  have "list_all (\<lambda>ch. length ch \<le> 4096) [''GET /health HTTP/1.1'', crlf @ crlf @ ''x'']" by (simp add: crlf_def)
  from http_reads_bounded [OF this] show ?thesis by (auto simp: numeral_2_eq_2)
qed

section \<open>What the bounds and the replies do not give\<close>

text \<open>The limit on headers is looked at only while their end has not been found: headers longer than
  the limit are accepted when the chunk that crosses it ends them.\<close>

lemma header_limit_exceeded:
  "\<exists>chunks h b rest. list_all (\<lambda>ch. length ch \<le> 4096) chunks \<and> read_head [] chunks = Head h b rest \<and> kMaxHeaderBytes < length h"
proof -
  let ?a = "replicate 4096 (CHR ''a'')"
  have n: "split_head (replicate k (CHR ''a'')) = None" for k using split_head_no_cr [of "replicate k (CHR ''a'')" "[]"] by simp
  have aa: "?a @ ?a = replicate 8192 (CHR ''a'')" by (simp flip: replicate_add)
  have e: "split_head (crlf @ crlf) = Some ([], [])" by (subst split_head.simps) (simp add: crlf_def)
  have w: "split_head ((?a @ ?a) @ CHR ''a'' # crlf @ crlf) = Some (replicate 8192 (CHR ''a'') @ ''a'', [])"
    using split_head_no_cr [of "replicate 8192 (CHR ''a'') @ ''a''" "crlf @ crlf"] e unfolding aa by simp
  have "read_head [] [?a, ?a, CHR ''a'' # crlf @ crlf] = Head (replicate 8192 (CHR ''a'') @ ''a'') [] []"
    using n [of 4096] n [of 8192] w unfolding aa [symmetric] by (simp add: Let_def kMaxHeaderBytes_def aa)
  moreover have "list_all (\<lambda>ch. length ch \<le> 4096) [?a, ?a, CHR ''a'' # crlf @ crlf]" by (simp add: crlf_def)
  moreover have "kMaxHeaderBytes < length (replicate 8192 (CHR ''a'') @ ''a'')" by (simp add: kMaxHeaderBytes_def)
  ultimately show ?thesis by blast
qed

text \<open>An infinite logit is printed as a word that JSON does not have, in a reply with status 200.\<close>

lemma infinite_logit_reply:
  "infer_response lib (Inr [0x7F800000]) = httpResponse ''200 OK'' ''application/json''
     (''{'' @ json_key ''prediction'' @ ''0,'' @ json_key ''logits'' @ ''[inf]}'')"
proof -
  have "f32_fixed 6 0x7F800000 = ''inf''" "nat_to_string 0 = ''0''" by code_simp+
  then show ?thesis by (simp add: infer_response_def infer_json_def max_element_def)
qed

end
