(* ===== verification/Server.thy ===== *)
theory Server
  imports Batcher_Results Http_Results
begin

text \<open>
  serving/http_server.h and serving/http_server.cpp: the server as a whole. A connection runs on a
  thread of its own; what it does to shared state is one step when its request has been read (the
  route, up to the wait for the future) and one when the future is ready. \<open>sv_conns\<close> holds, for every
  connection accepted so far, what it received and where it stands; it is not part of the program.
  The sockets are parameters: the results of the calls that set up the listening socket, the chunks
  a peer sends. \<open>lib\<close> gives the texts of the library's exceptions.
\<close>

section \<open>State\<close>

datatype conn = Dropped | Pending nat | Replied string

record 'e server =
  sv_batcher :: "'e batcher"
  sv_requests :: u64
  sv_errors :: u64
  sv_running :: bool
  sv_listening :: bool
  sv_conns :: "(string list \<times> conn) list"

definition server_new :: "'e batcher \<Rightarrow> 'e server" where
  "server_new b = \<lparr>sv_batcher = b, sv_requests = 0, sv_errors = 0, sv_running = False, sv_listening = False, sv_conns = []\<rparr>"

definition server_stop :: "'e server \<Rightarrow> 'e server" where
  "server_stop s = s\<lparr>sv_running := False, sv_listening := False\<rparr>"

section \<open>Routes\<close>

definition metricsJson :: "'e server \<Rightarrow> string" where
  "metricsJson s =
     (let bs = b_stats (sv_batcher s)
      in ''{'' @ json_key ''requests'' @ nat_to_string (unat (sv_requests s)) @ '','' @ json_key ''errors'' @ nat_to_string (unat (sv_errors s)) @
         '','' @ json_key ''batches'' @ nat_to_string (unat (bs_batches bs)) @
         '','' @ json_key ''batched_requests'' @ nat_to_string (unat (bs_requests bs)) @
         '','' @ json_key ''average_batch_size'' @ f64_fixed 3 (averageBatchSize bs) @
         '','' @ json_key ''max_batch_observed'' @ nat_to_string (unat (bs_maxBatchObserved bs)) @
         '','' @ json_key ''total_batch_ms'' @ f64_fixed 3 (bs_totalBatchMs bs) @ ''}'')"

definition handleInfer :: "(exn \<Rightarrow> string) \<Rightarrow> batcher_conf \<Rightarrow> nat \<Rightarrow> string \<Rightarrow> 'e server \<Rightarrow> conn \<times> 'e server" where
  "handleInfer lib c featureCount body s =
     (case infer_features featureCount body of
        Inl response \<Rightarrow> (Replied response, s\<lparr>sv_errors := sv_errors s + 1\<rparr>)
      | Inr features \<Rightarrow>
          (case batcher_enqueue c features (sv_batcher s) of
             (Inl e, b) \<Rightarrow> (Replied (infer_response lib (Inl e)), s\<lparr>sv_batcher := b, sv_errors := sv_errors s + 1\<rparr>)
           | (Inr i, b) \<Rightarrow> (Pending i, s\<lparr>sv_batcher := b\<rparr>)))"

text \<open>The rest of \<^verbatim>\<open>handleInfer\<close>, when the future is ready. Its handler catches exceptions only: the
  step below takes it for a promise that holds a value or an exception, never for one that marks
  undefined behaviour (and no promise of the batcher ever does).\<close>

definition finish_infer :: "(exn \<Rightarrow> string) \<Rightarrow> f32 list res \<Rightarrow> 'e server \<Rightarrow> conn \<times> 'e server" where
  "finish_infer lib r s =
     (Replied (infer_response lib r),
      (case r of Inr logits \<Rightarrow> s\<lparr>sv_requests := sv_requests s + 1\<rparr> | Inl e \<Rightarrow> s\<lparr>sv_errors := sv_errors s + 1\<rparr>))"

definition server_route :: "(exn \<Rightarrow> string) \<Rightarrow> batcher_conf \<Rightarrow> nat \<Rightarrow> string \<Rightarrow> string \<Rightarrow> string \<Rightarrow> 'e server \<Rightarrow> conn \<times> 'e server" where
  "server_route lib c featureCount method path body s =
     (if method = ''GET'' \<and> path = ''/health''
      then (Replied (httpResponse ''200 OK'' ''application/json'' (''{'' @ json_key ''status'' @ [dquote] @ ''ok'' @ [dquote] @ ''}'')), s)
      else if method = ''GET'' \<and> path = ''/metrics''
      then (Replied (httpResponse ''200 OK'' ''application/json'' (metricsJson s)), s)
      else if method = ''POST'' \<and> path = ''/infer'' then handleInfer lib c featureCount body s
      else (Replied (errorResponse ''404 Not Found'' ''unknown route''), s))"

definition handleClient :: "(exn \<Rightarrow> string) \<Rightarrow> batcher_conf \<Rightarrow> nat \<Rightarrow> string list \<Rightarrow> 'e server \<Rightarrow> conn \<times> 'e server" where
  "handleClient lib c featureCount chunks s =
     (case read_request chunks of
        NoReply \<Rightarrow> (Dropped, s)
      | Refused response \<Rightarrow> (Replied response, s)
      | Accepted method path body \<Rightarrow> server_route lib c featureCount method path body s)"

section \<open>Listening\<close>

record socket_calls =
  so_socket :: bool
  so_inet_pton :: bool
  so_bind :: bool
  so_listen :: bool

text \<open>\<^verbatim>\<open>run\<close> up to its loop.\<close>

definition server_run :: "string \<Rightarrow> int \<Rightarrow> socket_calls \<Rightarrow> 'e server \<Rightarrow> unit res \<times> 'e server" where
  "server_run address port so s =
     (if \<not> so_socket so then (Inl (RuntimeError ''Failed to create server socket''), s)
      else if \<not> so_inet_pton so then (Inl (RuntimeError (''Invalid bind address: '' @ address)), s)
      else if \<not> so_bind so then (Inl (RuntimeError (''Failed to bind '' @ address @ '':'' @ int_to_string port)), s)
      else if \<not> so_listen so then (Inl (RuntimeError ''Failed to listen on socket''), s)
      else (Inr (), s\<lparr>sv_listening := True, sv_running := True\<rparr>))"

section \<open>Steps\<close>

inductive server_step ::
  "(exn \<Rightarrow> string) \<Rightarrow> (f32 tensor \<Rightarrow> 'e \<Rightarrow> f32 tensor res \<Rightarrow> 'e \<Rightarrow> bool) \<Rightarrow> batcher_conf \<Rightarrow> nat \<Rightarrow> 'e server \<Rightarrow> 'e server \<Rightarrow> bool"
  for lib call c f where
  run: "server_run address port so s = (r, s') \<Longrightarrow> server_step lib call c f s s'"
| accept: "sv_running s \<Longrightarrow> handleClient lib c f chunks s = (st, s') \<Longrightarrow>
    server_step lib call c f s (s'\<lparr>sv_conns := sv_conns s' @ [(chunks, st)]\<rparr>)"
| answer: "i < length (sv_conns s) \<Longrightarrow> sv_conns s ! i = (chunks, Pending j) \<Longrightarrow> b_answers (sv_batcher s) j = Some r \<Longrightarrow>
    fails_cleanly r \<Longrightarrow> finish_infer lib r s = (st, s') \<Longrightarrow> server_step lib call c f s (s'\<lparr>sv_conns := (sv_conns s')[i := (chunks, st)]\<rparr>)"
| batcher: "batcher_step call c (sv_batcher s) b \<Longrightarrow> server_step lib call c f s (s\<lparr>sv_batcher := b\<rparr>)"
| stop: "server_step lib call c f s (server_stop s)"

definition server_reach :: "(exn \<Rightarrow> string) \<Rightarrow> (f32 tensor \<Rightarrow> 'e \<Rightarrow> f32 tensor res \<Rightarrow> 'e \<Rightarrow> bool) \<Rightarrow> batcher_conf \<Rightarrow> nat \<Rightarrow> 'e \<Rightarrow> 'e server \<Rightarrow> bool" where
  "server_reach lib call c f e0 s = (server_step lib call c f)\<^sup>*\<^sup>* (server_new (batcher_new e0)) s"

end
