(* ===== verification/Server_Correct.thy ===== *)
theory Server_Correct
  imports Server
begin

text \<open>
  The server in front of the batcher: every reply to an inference request is made from the answer to
  that request, the counters count the replies, and every reply is a framed response.
\<close>

section \<open>Replies\<close>

definition infer_path :: "string list \<Rightarrow> bool" where
  "infer_path chunks = (case read_request chunks of Accepted method path body \<Rightarrow> method = ''POST'' \<and> path = ''/infer'' | _ \<Rightarrow> False)"

text \<open>The features of a connection that asks for an inference.\<close>

definition conn_features :: "nat \<Rightarrow> string list \<Rightarrow> f32 list option" where
  "conn_features f chunks = (case read_request chunks of
     Accepted method path body \<Rightarrow> if method = ''POST'' \<and> path = ''/infer''
       then (case infer_features f body of Inr fs \<Rightarrow> Some fs | Inl _ \<Rightarrow> None) else None
   | _ \<Rightarrow> None)"

text \<open>A reply that counts as a request, and one that counts as an error.\<close>

definition ok_conn :: "string list \<times> conn \<Rightarrow> bool" where
  "ok_conn cn = (infer_path (fst cn) \<and> (\<exists>body. snd cn = Replied (httpResponse ''200 OK'' ''application/json'' body)))"

definition failed_conn :: "string list \<times> conn \<Rightarrow> bool" where
  "failed_conn cn = (infer_path (fst cn) \<and> (\<exists>status body. status \<noteq> ''200 OK'' \<and> cr \<notin> set status \<and>
     snd cn = Replied (httpResponse status ''application/json'' body)))"

definition error_statuses :: "string list" where
  "error_statuses = [''400 Bad Request'', ''404 Not Found'', ''413 Payload Too Large'', ''431 Request Header Fields Too Large'',
     ''500 Internal Server Error'']"

definition framed :: "string \<Rightarrow> bool" where
  "framed r = (\<exists>status body. r = httpResponse status ''application/json'' body \<and> (status = ''200 OK'' \<or> status \<in> set error_statuses))"

lemma error_statuses_clean: "status \<in> set error_statuses \<Longrightarrow> cr \<notin> set status \<and> newline \<notin> set status"
  by (auto simp: error_statuses_def)

lemma framed_error_status: "status \<in> set error_statuses \<Longrightarrow> framed (errorResponse status w)"
  unfolding framed_def errorResponse_def by blast

lemmas framed_error = framed_error_status [where status = "''400 Bad Request''", unfolded error_statuses_def, simplified]
  framed_error_status [where status = "''404 Not Found''", unfolded error_statuses_def, simplified]
  framed_error_status [where status = "''413 Payload Too Large''", unfolded error_statuses_def, simplified]
  framed_error_status [where status = "''431 Request Header Fields Too Large''", unfolded error_statuses_def, simplified]
  framed_error_status [where status = "''500 Internal Server Error''", unfolded error_statuses_def, simplified]

lemma framed_ok: "framed (httpResponse ''200 OK'' ''application/json'' body)"
  unfolding framed_def by blast

lemma response_head:
  assumes "cr \<notin> set status"
  shows "takeWhile (\<lambda>c. c \<noteq> cr) (httpResponse status t body) = ''HTTP/1.1 '' @ status"
proof -
  have "httpResponse status t body = (''HTTP/1.1 '' @ status) @ cr # (newline # ''Content-Type: '' @ t @ crlf @
      ''Content-Length: '' @ nat_to_string (length body) @ crlf @ ''Connection: close'' @ crlf @ crlf @ body)"
    by (simp add: httpResponse_def crlf_def)
  moreover have "takeWhile (\<lambda>c. c \<noteq> cr) ((''HTTP/1.1 '' @ status) @ cr # r) = ''HTTP/1.1 '' @ status" for r
    using assms by (subst takeWhile_append) auto
  ultimately show ?thesis by metis
qed

lemma ok_not_failed: "ok_conn cn \<Longrightarrow> \<not> failed_conn cn"
proof
  assume "ok_conn cn" "failed_conn cn"
  obtain b1 where b1: "snd cn = Replied (httpResponse ''200 OK'' ''application/json'' b1)" using \<open>ok_conn cn\<close> unfolding ok_conn_def by blast
  obtain st b2 where b2: "st \<noteq> ''200 OK''" "cr \<notin> set st" "snd cn = Replied (httpResponse st ''application/json'' b2)"
    using \<open>failed_conn cn\<close> unfolding failed_conn_def by blast
  have "httpResponse ''200 OK'' ''application/json'' b1 = httpResponse st ''application/json'' b2" using b1 b2(3) by simp
  then show False
    using b2(1) response_head [OF b2(2), of "''application/json''" b2] response_head [of "''200 OK''" "''application/json''" b1] by simp
qed

lemma failed_error:
  "status \<noteq> ''200 OK'' \<Longrightarrow> cr \<notin> set status \<Longrightarrow> infer_path chunks \<Longrightarrow> failed_conn (chunks, Replied (errorResponse status w))"
  unfolding failed_conn_def errorResponse_def by auto

lemma infer_response_conn:
  assumes "infer_path chunks"
  shows "ok_conn (chunks, Replied (infer_response lib (Inr v)))" "failed_conn (chunks, Replied (infer_response lib (Inl e)))"
proof -
  show "ok_conn (chunks, Replied (infer_response lib (Inr v)))" using assms by (auto simp: ok_conn_def infer_response_def)
  show "failed_conn (chunks, Replied (infer_response lib (Inl e)))"
    unfolding infer_response_def sum.case by (rule failed_error [OF _ _ assms]) simp_all
qed

section \<open>The invariant\<close>

definition conn_ok :: "(exn \<Rightarrow> string) \<Rightarrow> nat \<Rightarrow> 'e batcher \<Rightarrow> string list \<times> conn \<Rightarrow> bool" where
  "conn_ok lib f b cn = (case cn of (chunks, st) \<Rightarrow>
     (case st of
        Dropped \<Rightarrow> read_request chunks = NoReply
      | Pending i \<Rightarrow> (\<exists>fs. conn_features f chunks = Some fs \<and> i < b_next b \<and> rq_features (b_log b ! i) = fs)
      | Replied r \<Rightarrow> framed r \<and> (case conn_features f chunks of None \<Rightarrow> True | Some fs \<Rightarrow>
          (\<exists>e. r = infer_response lib (Inl e)) \<or>
          (\<exists>i v. i < b_next b \<and> rq_features (b_log b ! i) = fs \<and> b_answers b i = Some (Inr v) \<and> r = infer_response lib (Inr v)))))"

definition server_inv :: "(exn \<Rightarrow> string) \<Rightarrow> batcher_conf \<Rightarrow> nat \<Rightarrow> 'e server \<Rightarrow> bool" where
  "server_inv lib c f s = (batcher_inv c (sv_batcher s) \<and> list_all (conn_ok lib f (sv_batcher s)) (sv_conns s) \<and>
     sv_requests s = word_of_nat (length (filter ok_conn (sv_conns s))) \<and>
     sv_errors s = word_of_nat (length (filter failed_conn (sv_conns s))))"

text \<open>A batcher moves on: requests are added, answers are kept.\<close>

definition batcher_ext :: "'e batcher \<Rightarrow> 'e batcher \<Rightarrow> bool" where
  "batcher_ext b b' = (b_next b \<le> b_next b' \<and> (\<exists>ys. b_log b' = b_log b @ ys) \<and> length (b_log b) = b_next b \<and> b_answers b \<subseteq>\<^sub>m b_answers b')"

lemma batcher_inv_length: "batcher_inv c b \<Longrightarrow> length (b_log b) = b_next b"
  unfolding batcher_inv_def by (metis diff_zero length_map length_upt)

lemma conn_ok_ext: "conn_ok lib f b cn \<Longrightarrow> batcher_ext b b' \<Longrightarrow> conn_ok lib f b' cn"
  unfolding conn_ok_def batcher_ext_def map_le_def
  by (auto simp: nth_append dom_def split: conn.splits option.splits prod.splits) (metis order_less_le_trans)+

lemma batcher_step_ext:
  assumes "0 < bc_maxBatchSize c" "bc_maxBatchSize c < 2 ^ 64" "batcher_inv c b" "batcher_step call c b b'"
  shows "batcher_ext b b'"
proof -
  note inv = batcher_step_inv [OF assms]
  have "\<exists>ys. b_log b' = b_log b @ ys"
    using assms(4)
  proof (cases rule: batcher_step.cases)
    case (enqueue features r)
    then show ?thesis by (auto simp: batcher_enqueue_def Let_def split: if_splits)
  next
    case worker
    from worker_step_inv [OF assms(1-3) worker] show ?thesis by simp
  qed (simp_all add: batcher_stop_def batcher_notify_def)
  moreover from this have "b_next b \<le> b_next b'"
    using batcher_inv_length [OF assms(3)] batcher_inv_length [of c b'] inv by auto
  ultimately show ?thesis using inv batcher_inv_length [OF assms(3)] by (simp add: batcher_ext_def)
qed

section \<open>Steps\<close>

text \<open>The batcher a request leaves behind.\<close>

lemma enqueue_ext:
  assumes "batcher_inv c b" "batcher_enqueue c fs b = (r, b')"
  shows "batcher_inv c b'" "batcher_ext b b'" "r = Inr i \<Longrightarrow> i < b_next b' \<and> rq_features (b_log b' ! i) = fs"
proof -
  note len = batcher_inv_length [OF assms(1)]
  have inv: "batcher_inv c b' \<and> b_answers b' = b_answers b" by (rule enqueue_inv [OF assms])
  then show "batcher_inv c b'" by blast
  have ext: "b_next b \<le> b_next b' \<and> (\<exists>ys. b_log b' = b_log b @ ys)"
    using assms(2) by (auto simp: batcher_enqueue_def Let_def split: if_splits)
  then show "batcher_ext b b'" using inv len by (simp add: batcher_ext_def)
  show "i < b_next b' \<and> rq_features (b_log b' ! i) = fs" if "r = Inr i"
    using assms(2) that len by (auto simp: batcher_enqueue_def Let_def split: if_splits)
qed

text \<open>What one connection does to the counters.\<close>

definition accounted :: "'e server \<Rightarrow> 'e server \<Rightarrow> string list \<times> conn \<Rightarrow> bool" where
  "accounted s s' cn = (sv_conns s' = sv_conns s \<and> sv_requests s' = sv_requests s + (if ok_conn cn then 1 else 0) \<and>
     sv_errors s' = sv_errors s + (if failed_conn cn then 1 else 0))"

lemma accounted_none: "\<not> infer_path chunks \<Longrightarrow> sv_conns s' = sv_conns s \<Longrightarrow> sv_requests s' = sv_requests s \<Longrightarrow> sv_errors s' = sv_errors s \<Longrightarrow>
    accounted s s' (chunks, st)"
  by (simp add: accounted_def ok_conn_def failed_conn_def)

lemma handleInfer_step:
  assumes inv: "batcher_inv c (sv_batcher s)" and h: "handleInfer lib c f body s = (st, s')" and r: "read_request chunks = Accepted ''POST'' ''/infer'' body"
  shows "batcher_inv c (sv_batcher s') \<and> batcher_ext (sv_batcher s) (sv_batcher s') \<and> conn_ok lib f (sv_batcher s') (chunks, st) \<and> accounted s s' (chunks, st)"
proof -
  have p: "infer_path chunks" using r by (simp add: infer_path_def)
  have refl: "batcher_ext (sv_batcher s) (sv_batcher s)" using batcher_inv_length [OF inv] by (simp add: batcher_ext_def)
  show ?thesis
  proof (cases "infer_features f body")
    case (Inl response)
    then obtain w where w: "response = errorResponse ''400 Bad Request'' w"
      by (auto simp: infer_features_def split: option.splits if_splits)
    have fl: "failed_conn (chunks, Replied response)" unfolding w by (rule failed_error [OF _ _ p]) simp_all
    have "framed response" unfolding w by (rule framed_error)
    then have "conn_ok lib f (sv_batcher s) (chunks, Replied response)" using r Inl by (simp add: conn_ok_def conn_features_def)
    moreover have "st = Replied response" "s' = s\<lparr>sv_errors := sv_errors s + 1\<rparr>" using h Inl by (simp_all add: handleInfer_def)
    ultimately show ?thesis using inv refl fl ok_not_failed [of "(chunks, Replied response)"] by (auto simp: accounted_def)
  next
    case (Inr fs)
    have cf: "conn_features f chunks = Some fs" using r Inr by (simp add: conn_features_def)
    obtain res b where e: "batcher_enqueue c fs (sv_batcher s) = (res, b)" by (cases "batcher_enqueue c fs (sv_batcher s)")
    note ext = enqueue_ext [OF inv e]
    show ?thesis
    proof (cases res)
      case (Inl x)
      have fl: "failed_conn (chunks, Replied (infer_response lib (Inl x)))" by (rule infer_response_conn [OF p])
      have "framed (infer_response lib (Inl x))" unfolding infer_response_def sum.case by (rule framed_error)
      moreover have "st = Replied (infer_response lib (Inl x))" "s' = s\<lparr>sv_batcher := b, sv_errors := sv_errors s + 1\<rparr>"
        using h Inr e Inl by (simp_all add: handleInfer_def)
      ultimately show ?thesis
        using ext(1,2) fl ok_not_failed [of "(chunks, Replied (infer_response lib (Inl x)))"] cf by (auto simp: accounted_def conn_ok_def)
    next
      case (Inr i)
      have "st = Pending i" "s' = s\<lparr>sv_batcher := b\<rparr>" using h \<open>infer_features f body = Inr fs\<close> e Inr by (simp_all add: handleInfer_def)
      then show ?thesis using ext(1,2) ext(3) [OF Inr] cf by (auto simp: accounted_def conn_ok_def ok_conn_def failed_conn_def)
    qed
  qed
qed

lemma content_length_refusal: "content_length ls n = Inl r \<Longrightarrow> framed r"
proof (induction ls arbitrary: n)
  case (Cons l ls)
  have "framed (errorResponse ''400 Bad Request'' w)" "framed (errorResponse ''413 Payload Too Large'' w)" for w
    by (rule framed_error)+
  then show ?case using Cons by (auto split: option.splits sum.splits if_splits)
qed simp

lemma read_request_refusal: "read_request chunks = Refused r \<Longrightarrow> framed r"
proof -
  have "framed (errorResponse ''431 Request Header Fields Too Large'' w)" for w by (rule framed_error)
  then show "read_request chunks = Refused r \<Longrightarrow> framed r"
    by (auto simp: read_request_def Let_def split: head.splits sum.splits prod.splits dest: content_length_refusal)
qed

lemma handleClient_step:
  assumes inv: "batcher_inv c (sv_batcher s)" and h: "handleClient lib c f chunks s = (st, s')"
  shows "batcher_inv c (sv_batcher s') \<and> batcher_ext (sv_batcher s) (sv_batcher s') \<and> conn_ok lib f (sv_batcher s') (chunks, st) \<and> accounted s s' (chunks, st)"
proof -
  have refl: "batcher_ext (sv_batcher s) (sv_batcher s)" using batcher_inv_length [OF inv] by (simp add: batcher_ext_def)
  consider (infer) body where "read_request chunks = Accepted ''POST'' ''/infer'' body"
    | (other) "\<not> infer_path chunks" by (cases "read_request chunks") (auto simp: infer_path_def)
  then show ?thesis
  proof cases
    case infer
    then have "handleInfer lib c f body s = (st, s')" using h by (simp add: handleClient_def server_route_def)
    from handleInfer_step [OF inv this infer] show ?thesis .
  next
    case other
    have cf: "conn_features f chunks = None" using other by (auto simp: conn_features_def infer_path_def split: received.splits)
    have e: "framed (errorResponse ''404 Not Found'' w)" for w by (rule framed_error)
    have "s' = s \<and> (case st of Dropped \<Rightarrow> read_request chunks = NoReply | Replied r \<Rightarrow> framed r | Pending i \<Rightarrow> False)"
      using h other read_request_refusal [of chunks] e framed_ok
      by (auto simp: handleClient_def server_route_def infer_path_def split: received.splits if_splits)
    then have "s' = s" "conn_ok lib f (sv_batcher s') (chunks, st)" using cf by (auto simp: conn_ok_def split: conn.splits)
    then show ?thesis using inv refl accounted_none [OF other, of s s st] by simp
  qed
qed

lemma length_filter_update:
  "i < length xs \<Longrightarrow> \<not> P (xs ! i) \<Longrightarrow> length (filter P (xs[i := x])) = length (filter P xs) + (if P x then 1 else 0)"
proof (induction xs arbitrary: i)
  case (Cons y xs)
  then show ?case by (cases i) auto
qed simp

lemma conns_ext: "list_all (conn_ok lib f b) cns \<Longrightarrow> batcher_ext b b' \<Longrightarrow> list_all (conn_ok lib f b') cns"
  unfolding list_all_iff using conn_ok_ext by blast

lemma accept_inv:
  assumes "server_inv lib c f s" "handleClient lib c f chunks s = (st, s')"
  shows "server_inv lib c f (s'\<lparr>sv_conns := sv_conns s' @ [(chunks, st)]\<rparr>)"
proof -
  have "batcher_inv c (sv_batcher s)" using assms(1) by (simp add: server_inv_def)
  note h = handleClient_step [OF this assms(2)]
  have "list_all (conn_ok lib f (sv_batcher s')) (sv_conns s)" using assms(1) h conns_ext unfolding server_inv_def by blast
  then show ?thesis using h assms(1) by (simp add: server_inv_def accounted_def)
qed

lemma answer_inv:
  assumes inv: "server_inv lib c f s" and i: "i < length (sv_conns s)" "sv_conns s ! i = (chunks, Pending j)"
    and a: "b_answers (sv_batcher s) j = Some r" and fin: "finish_infer lib r s = (st, s')"
  shows "server_inv lib c f (s'\<lparr>sv_conns := (sv_conns s')[i := (chunks, st)]\<rparr>)"
proof -
  let ?cn = "(chunks, Replied (infer_response lib r))"
  have st: "st = Replied (infer_response lib r)" "sv_batcher s' = sv_batcher s" "sv_conns s' = sv_conns s"
    using fin by (auto simp: finish_infer_def split: sum.splits)
  have ok: "list_all (conn_ok lib f (sv_batcher s)) (sv_conns s)" using inv by (simp add: server_inv_def)
  then obtain fs where fs: "conn_features f chunks = Some fs" "j < b_next (sv_batcher s)" "rq_features (b_log (sv_batcher s) ! j) = fs"
    using i unfolding list_all_length conn_ok_def by fastforce
  have p: "infer_path chunks" using fs(1) by (auto simp: conn_features_def infer_path_def split: received.splits if_splits)
  have "framed (infer_response lib r)"
    unfolding infer_response_def by (cases r) (simp_all add: framed_ok framed_error)
  then have "conn_ok lib f (sv_batcher s) ?cn"
    using fs a unfolding conn_ok_def by (cases r) auto
  then have "list_all (conn_ok lib f (sv_batcher s)) ((sv_conns s)[i := ?cn])"
    using ok i(1) unfolding list_all_length by (simp add: nth_list_update)
  moreover have "\<not> ok_conn (sv_conns s ! i)" "\<not> failed_conn (sv_conns s ! i)" using i(2) by (simp_all add: ok_conn_def failed_conn_def)
  moreover have "sv_requests s' = sv_requests s + (if ok_conn ?cn then 1 else 0) \<and> sv_errors s' = sv_errors s + (if failed_conn ?cn then 1 else 0)"
  proof (cases r)
    case (Inr v)
    note k = infer_response_conn(1) [OF p, of lib v]
    show ?thesis using fin k ok_not_failed [OF k] Inr by (auto simp: finish_infer_def)
  next
    case (Inl e)
    note k = infer_response_conn(2) [OF p, of lib e]
    show ?thesis using fin k ok_not_failed [of "(chunks, Replied (infer_response lib (Inl e)))"] Inl by (auto simp: finish_infer_def)
  qed
  ultimately show ?thesis
    using inv i(1) st length_filter_update [of i "sv_conns s" ok_conn ?cn] length_filter_update [of i "sv_conns s" failed_conn ?cn]
    by (simp add: server_inv_def)
qed

lemma server_step_inv:
  assumes c: "0 < bc_maxBatchSize c" "bc_maxBatchSize c < 2 ^ 64" and inv: "server_inv lib c f s" and step: "server_step lib call c f s s'"
  shows "server_inv lib c f s'"
  using step
proof (cases rule: server_step.cases)
  case (run address port so r)
  then show ?thesis using inv by (auto simp: server_inv_def server_run_def split: if_splits)
next
  case (accept chunks st s1)
  show ?thesis unfolding accept(1) by (rule accept_inv [OF inv accept(3)])
next
  case (answer i chunks j r st s1)
  show ?thesis unfolding answer(1) by (rule answer_inv [OF inv answer(2-4,6)])
next
  case (batcher b)
  have b: "batcher_inv c (sv_batcher s)" using inv by (simp add: server_inv_def)
  then have "batcher_inv c b" using batcher_step_inv [OF c b batcher(2)] by blast
  moreover have "list_all (conn_ok lib f b) (sv_conns s)"
    using inv conns_ext batcher_step_ext [OF c b batcher(2)] unfolding server_inv_def by blast
  ultimately show ?thesis using inv batcher(1) by (simp add: server_inv_def)
next
  case stop
  then show ?thesis using inv by (simp add: server_inv_def server_stop_def)
qed

lemma server_reach_inv:
  assumes "0 < bc_maxBatchSize c" "bc_maxBatchSize c < 2 ^ 64" "server_reach lib call c f e0 s"
  shows "server_inv lib c f s"
  using assms(3) unfolding server_reach_def
proof (induction rule: rtranclp_induct)
  case base
  show ?case using batcher_inv_new by (simp add: server_inv_def server_new_def)
qed (rule server_step_inv [OF assms(1,2)])

text \<open>So no promise a connection waits for marks undefined behaviour: the step that answers is never
  refused.\<close>

lemma promises_clean:
  assumes "0 < bc_maxBatchSize c" "bc_maxBatchSize c < 2 ^ 64" "server_reach lib call c f e0 s" "b_answers (sv_batcher s) j = Some r"
  shows "fails_cleanly r"
  using server_reach_inv [OF assms(1-3)] assms(4) unfolding server_inv_def batcher_inv_def by blast

text \<open>The batcher of a reachable server is reachable.\<close>

lemma server_reach_batcher:
  assumes "server_reach lib call c f e0 s"
  shows "batcher_reach call c e0 (sv_batcher s)"
  using assms unfolding server_reach_def
proof (induction rule: rtranclp_induct)
  case base
  show ?case by (simp add: server_new_def batcher_reach_def)
next
  case (step s s')
  have "(batcher_step call c)\<^sup>*\<^sup>* (sv_batcher s) (sv_batcher s')"
    using step.hyps(2)
  proof (cases rule: server_step.cases)
    case (accept chunks st s1)
    have e: "(batcher_step call c)\<^sup>*\<^sup>* (sv_batcher s) b" if "batcher_enqueue c fs (sv_batcher s) = (r, b)" for fs r b
      using batcher_step.enqueue [OF that, of call] by blast
    show ?thesis
      using accept(1,3) e by (auto simp: handleClient_def server_route_def handleInfer_def split: received.splits if_splits sum.splits prod.splits)
  qed (auto simp: server_run_def finish_infer_def server_stop_def split: if_splits sum.splits)
  then show ?case using step.IH unfolding batcher_reach_def by (rule rtranclp_trans [rotated])
qed

end
