(* ===== verification/Server_Results.thy ===== *)
theory Server_Results
  imports Server_Correct
begin

text \<open>
  The server as its clients see it: from the bytes of a request through the batcher and the session
  to the bytes of the reply.
\<close>

section \<open>Frames\<close>

lemma httpResponse_text:
  "httpResponse status t body = head_text [''HTTP/1.1 '' @ status, ''Content-Type: '' @ t,
     ''Content-Length: '' @ nat_to_string (length body), ''Connection: close''] @ crlf @ crlf @ body"
  by (simp add: httpResponse_def)

lemma framed_parts:
  assumes "framed r"
  shows "\<exists>status body head. split_head r = Some (head, body) \<and>
    map strip_cr (getlines head) = [''HTTP/1.1 '' @ status, ''Content-Type: application/json'',
      ''Content-Length: '' @ nat_to_string (length body), ''Connection: close''] \<and>
    (status = ''200 OK'' \<or> status \<in> set error_statuses)"
proof -
  obtain status body where r: "r = httpResponse status ''application/json'' body" "status = ''200 OK'' \<or> status \<in> set error_statuses"
    using assms unfolding framed_def by blast
  let ?ls = "[''HTTP/1.1 '' @ status, ''Content-Type: application/json'', ''Content-Length: '' @ nat_to_string (length body), ''Connection: close'']"
  have "cr \<notin> set status \<and> newline \<notin> set status" using r(2) error_statuses_clean by auto
  then have ls: "?ls \<noteq> []" "list_all plain_line ?ls"
    using plain_line_number [of "length body"] by (simp_all add: plain_line_def)
  have "split_head r = Some (head_text ?ls, body)"
    unfolding r(1) httpResponse_text using split_head_text [OF ls, of body] by simp
  then show ?thesis using lines_text [OF ls] r(2) by (intro exI [of _ status] exI [of _ body] exI [of _ "head_text ?ls"] conjI)
qed

section \<open>An example\<close>

text \<open>The two requests of the batcher's example, sent as floats.\<close>

definition ex_chunk :: "string \<Rightarrow> string list" where
  "ex_chunk body = [''POST /infer HTTP/1.1'' @ crlf @ ''Content-Length: 8'' @ crlf @ crlf @ body]"

definition ex_body1 :: string where
  "ex_body1 = [CHR 0x00, CHR 0x00, CHR 0x80, CHR 0x3F, CHR 0x00, CHR 0x00, CHR 0x80, CHR 0xBF]"

definition ex_body2 :: string where
  "ex_body2 = [CHR 0x00, CHR 0x00, CHR 0x00, CHR 0x40, CHR 0x00, CHR 0x00, CHR 0x00, CHR 0x00]"

lemma ex_chunk_read:
  assumes "length body = 8"
  shows "read_request (ex_chunk body) = Accepted ''POST'' ''/infer'' body"
proof -
  have n: "nat_to_string 8 = ''8''" by code_simp
  have w: "plain_word ''POST''" "plain_word ''/infer''" by code_simp+
  have "concat (ex_chunk body) = print_request ''POST'' ''/infer'' [] body @ []"
    by (simp add: ex_chunk_def print_request_def request_lines_def assms n)
  from request_read_back [OF w _ _ _ _ this] show ?thesis
    by (simp add: assms kMaxBodyBytes_def kMaxHeaderBytes_def request_lines_def n crlf_def) (simp add: ex_chunk_def)
qed

lemma ex_floats:
  "floats_of_bytes (Suc (Suc 0)) ex_body1 = [0x3F800000, 0xBF800000]" "floats_of_bytes (Suc (Suc 0)) ex_body2 = [0x40000000, 0]"
  by (simp_all add: ex_body1_def ex_body2_def char_byte_def)

lemma ex_range: "list_all in_range [0x3F800000, 0xBF800000, 0x40000000, 0]"
  by code_simp

lemma ex_features:
  "infer_features 2 ex_body1 = Inr [0x3F800000, 0xBF800000]" "infer_features 2 ex_body2 = Inr [0x40000000, 0]"
proof -
  have l: "length ex_body1 = 2 * 4" "length ex_body2 = 2 * 4" by (simp_all add: ex_body1_def ex_body2_def)
  show "infer_features 2 ex_body1 = Inr [0x3F800000, 0xBF800000]" "infer_features 2 ex_body2 = Inr [0x40000000, 0]"
    unfolding infer_features_def l if_True ex_floats [folded numeral_2_eq_2] using ex_range by simp_all
qed

text \<open>Both are accepted, batched and answered.\<close>

lemma server_reach_batch:
  assumes "server_reach lib call c f e0 s" "(batcher_step call c)\<^sup>*\<^sup>* (sv_batcher s) b"
  shows "server_reach lib call c f e0 (s\<lparr>sv_batcher := b\<rparr>)"
  using assms(2)
proof (induction rule: rtranclp_induct)
  case base
  show ?case using assms(1) by simp
next
  case (step b b')
  have "server_step lib call c f (s\<lparr>sv_batcher := b\<rparr>) (s\<lparr>sv_batcher := b'\<rparr>)"
    using server_step.batcher [of call c "s\<lparr>sv_batcher := b\<rparr>" b' lib f] step.hyps(2) by simp
  with step.IH show ?case unfolding server_reach_def by (rule rtranclp.rtrancl_into_rtrancl)
qed

definition ex_pending :: "'e \<Rightarrow> 'e server" where
  "ex_pending e = (server_new (ex_queued e))\<lparr>sv_running := True, sv_listening := True,
     sv_conns := [(ex_chunk ex_body1, Pending 0), (ex_chunk ex_body2, Pending 1)]\<rparr>"

lemma ex_pending_reach: "server_reach lib call ex_conf 2 e (ex_pending e)"
proof -
  let ?s0 = "server_new (batcher_new e)"
  let ?s1 = "?s0\<lparr>sv_listening := True, sv_running := True\<rparr>"
  let ?rq = "\<lparr>rq_id = 0, rq_features = [0x3F800000, 0xBF800000]\<rparr>"
  let ?b2 = "(batcher_new e)\<lparr>b_queue := [?rq], b_notify := 1, b_next := 1, b_log := [?rq]\<rparr>"
  let ?s2 = "?s1\<lparr>sv_batcher := ?b2, sv_conns := [(ex_chunk ex_body1, Pending 0)]\<rparr>"
  have l: "length ex_body1 = 8" "length ex_body2 = 8" by (simp_all add: ex_body1_def ex_body2_def)
  have "server_run [] 0 \<lparr>so_socket = True, so_inet_pton = True, so_bind = True, so_listen = True\<rparr> ?s0 = (Inr (), ?s1)"
    by (simp add: server_run_def)
  then have 1: "server_step lib call ex_conf 2 ?s0 ?s1" by (rule server_step.run)
  have "handleClient lib ex_conf 2 (ex_chunk ex_body1) ?s1 = (Pending 0, ?s1\<lparr>sv_batcher := ?b2\<rparr>)"
    by (simp add: handleClient_def ex_chunk_read l server_route_def handleInfer_def ex_features batcher_enqueue_def server_new_def batcher_new_def Let_def)
  from server_step.accept [OF _ this, of call]
  have 2: "server_step lib call ex_conf 2 ?s1 ?s2" by (simp add: server_new_def)
  have "handleClient lib ex_conf 2 (ex_chunk ex_body2) ?s2 = (Pending 1, ?s2\<lparr>sv_batcher := ex_queued e\<rparr>)"
    by (simp add: handleClient_def ex_chunk_read l server_route_def handleInfer_def ex_features batcher_enqueue_def server_new_def batcher_new_def Let_def
        ex_queued_def ex_requests_def)
  from server_step.accept [OF _ this, of call]
  have 3: "server_step lib call ex_conf 2 ?s2 (ex_pending e)" by (simp add: server_new_def ex_pending_def)
  show ?thesis unfolding server_reach_def using 1 2 3 by (meson converse_rtranclp_into_rtranclp rtranclp.rtrancl_refl)
qed

lemma ex_replied:
  assumes "call ex_x e (Inr t) e'" "batch_rows 2 t = Inr [u, v]"
  shows "\<exists>s. server_reach lib call ex_conf 2 e s \<and> sv_requests s = 1 \<and>
    sv_conns s = [(ex_chunk ex_body1, Pending 0), (ex_chunk ex_body2, Replied (infer_response lib (Inr v)))]"
proof -
  obtain b where b: "(batcher_step call ex_conf)\<^sup>*\<^sup>* (ex_queued e) b" "b_answers b = [0 \<mapsto> Inr u, 1 \<mapsto> Inr v]"
    using ex_batch_steps [of call e t e' u v] assms by blast
  let ?s = "(ex_pending e)\<lparr>sv_batcher := b\<rparr>"
  have q: "sv_batcher (ex_pending e) = ex_queued e" by (simp add: ex_pending_def server_new_def)
  have r: "server_reach lib call ex_conf 2 e ?s"
    by (rule server_reach_batch [OF ex_pending_reach]) (unfold q, rule b(1))
  have c: "sv_conns (ex_pending e) = [(ex_chunk ex_body1, Pending 0), (ex_chunk ex_body2, Pending 1)]" "sv_requests ?s = 0"
    by (simp_all add: ex_pending_def server_new_def)
  have f: "finish_infer lib (Inr v) ?s = (Replied (infer_response lib (Inr v)), ?s\<lparr>sv_requests := 1\<rparr>)"
    by (simp add: finish_infer_def c(2) ex_pending_def server_new_def)
  have "server_step lib call ex_conf 2 ?s (?s\<lparr>sv_requests := 1, sv_conns := [(ex_chunk ex_body1, Pending 0), (ex_chunk ex_body2, Replied (infer_response lib (Inr v)))]\<rparr>)"
    using server_step.answer [of 1 ?s "ex_chunk ex_body2" 1 "Inr v" lib, OF _ _ _ _ f, of call ex_conf 2] b(2) by (simp add: c(1))
  with r show ?thesis unfolding server_reach_def by (intro exI conjI, rule rtranclp.rtrancl_into_rtrancl) simp_all
qed

section \<open>Properties\<close>

text \<open>C5. What a client of the server gets. Take the engine built from any well-formed model, the batcher and the server
  in front of it, and any interleaving of connections, worker and stop. The reply to a request to
  infer is an error, or it is made of the row the session computes for exactly the features in its
  body: there is a batch of requests, this one at some position \<open>k\<close>, for which the freshly built
  session answers one tensor under every schedule, and the reply is the JSON text of its row \<open>k\<close>
  with the index of its greatest element. Batches are of at most 4096 requests, requests of
  fewer than \<open>2 ^ 31\<close> features, and the tensors of the session stay \<open>modest\<close>.\<close>

theorem server_replies_rows:
  assumes "model_ok m" "ins_ok ins" "g_inputs (m_graph m) = a # as" "wf_view a (view_of m)" "engine_new ins ctx m cf = Inr s0"
    and "server_reach lib (fits_call engine_call (\<lambda>s. sane (s_tensors s))) (batcher_conf_new n us f) f s0 s" "n \<le> 4096" "f < 2 ^ 31"
    and "(chunks, Replied r) \<in> set (sv_conns s)" "read_request chunks = Accepted ''POST'' ''/infer'' body" "infer_features f body = Inr fs"
  shows "(\<exists>w. r = errorResponse ''500 Internal Server Error'' w) \<or>
    (\<exists>rqs k t. k < length rqs \<and> length rqs \<le> max 1 n \<and> rq_features (rqs ! k) = fs \<and>
      (\<forall>re. env_ok re s0 \<longrightarrow> (\<exists>s1. session_run re (batch_tensor f rqs) s0 = (Inr t, s1))) \<and>
      t_shape t = [word_of_nat (length rqs), t_shape t ! 1] \<and>
      r = httpResponse ''200 OK'' ''application/json'' (infer_json (take (unat (t_shape t ! 1)) (drop (k * unat (t_shape t ! 1)) (t_data t)))))"
proof -
  let ?c = "batcher_conf_new n us f" and ?call = "fits_call engine_call (\<lambda>s. sane (s_tensors s))"
  have c: "0 < bc_maxBatchSize ?c" "bc_maxBatchSize ?c < 2 ^ 64" using assms(7) by (simp_all add: batcher_conf_new_def)
  have inv: "server_inv lib ?c f s" by (rule server_reach_inv [OF c assms(6)])
  have cf: "conn_features f chunks = Some fs" using assms(10,11) by (simp add: conn_features_def)
  have "conn_ok lib f (sv_batcher s) (chunks, Replied r)" using inv assms(9) unfolding server_inv_def list_all_iff by blast
  then consider e where "r = infer_response lib (Inl e)"
    | i v where "i < b_next (sv_batcher s)" "rq_features (b_log (sv_batcher s) ! i) = fs" "b_answers (sv_batcher s) i = Some (Inr v)"
        "r = infer_response lib (Inr v)"
    using cf by (auto simp: conn_ok_def)
  then show ?thesis
  proof cases
    case 1
    then show ?thesis by (auto simp: infer_response_def)
  next
    case 2
    from batcher_row [OF assms(1-5) server_reach_batcher [OF assms(6)] assms(7,8) 2(3)]
    obtain k j t where k: "k \<le> i" "i < k + j" "k + j \<le> length (b_log (sv_batcher s))" "j \<le> max 1 n"
      "\<forall>re. env_ok re s0 \<longrightarrow> (\<exists>s1. session_run re (batch_tensor f (take j (drop k (b_log (sv_batcher s))))) s0 = (Inr t, s1))"
      "t_shape t = [word_of_nat j, t_shape t ! 1]"
      "v = take (unat (t_shape t ! 1)) (drop ((i - k) * unat (t_shape t ! 1)) (t_data t))" by blast
    let ?rqs = "take j (drop k (b_log (sv_batcher s)))"
    have l: "length ?rqs = j" "?rqs ! (i - k) = b_log (sv_batcher s) ! i" using k(1-3) by simp_all
    have "r = httpResponse ''200 OK'' ''application/json'' (infer_json v)" using 2(4) by (simp add: infer_response_def)
    then show ?thesis
      using k 2(2) l by (intro disjI2 exI [of _ ?rqs] exI [of _ "i - k"] exI [of _ t] conjI) auto
  qed
qed

theorem server_replies_rows_witness:
  "\<exists>s0 rqs k t. engine_new ex_ins ex_ctx ex_opt_model ex_session_config = Inr s0 \<and> k < length rqs \<and>
     rq_features (rqs ! k) = [0x40000000, 0] \<and> (\<exists>s1. session_run (seq_env s0) (batch_tensor 2 rqs) s0 = (Inr t, s1)) \<and>
     infer_response (\<lambda>_. []) (Inr (map (f32_max 0) [0x40000000, 0])) =
       httpResponse ''200 OK'' ''application/json'' (infer_json (take (unat (t_shape t ! 1)) (drop (k * unat (t_shape t ! 1)) (t_data t))))"
proof -
  let ?call = "fits_call engine_call (\<lambda>s. sane (s_tensors s))" and ?lib = "\<lambda>_. []"
  let ?v = "map (f32_max 0) [0x40000000, 0]"
  obtain s0 sa t where s0: "engine_new ex_ins ex_ctx ex_opt_model ex_session_config = Inr s0"
    "?call ex_x s0 (Inr t) sa" "batch_rows 2 t = Inr [map (f32_max 0) [0x3F800000, 0xBF800000], ?v]"
    by (rule ex_engine_call)
  obtain s where s: "server_reach ?lib ?call ex_conf 2 s0 s"
    "sv_conns s = [(ex_chunk ex_body1, Pending 0), (ex_chunk ex_body2, Replied (infer_response ?lib (Inr ?v)))]"
    using ex_replied [where call = ?call, OF s0(2,3)] by blast
  have m: "(ex_chunk ex_body2, Replied (infer_response ?lib (Inr ?v))) \<in> set (sv_conns s)" using s(2) by simp
  have l: "length ex_body2 = 8" by (simp add: ex_body2_def)
  have ne: "infer_response ?lib (Inr ?v) \<noteq> errorResponse ''500 Internal Server Error'' w" for w
  proof
    assume "infer_response ?lib (Inr ?v) = errorResponse ''500 Internal Server Error'' w"
    then have "takeWhile (\<lambda>c. c \<noteq> cr) (infer_response ?lib (Inr ?v)) = takeWhile (\<lambda>c. c \<noteq> cr) (errorResponse ''500 Internal Server Error'' w)" by simp
    then show False unfolding infer_response_def errorResponse_def sum.case by (simp add: response_head)
  qed
  have "env_ok (seq_env s0) s0" by (rule seq_env_ok)
  with server_replies_rows [OF ex_opt_ok ex_ins_ok ex_session_io(1) ex_opt_view s0(1) s(1) [unfolded ex_conf_def] _ _ m ex_chunk_read [OF l] ex_features(2)] ne
  show ?thesis using s0(1) by (simp del: list.map) blast
qed

text \<open>C21. Every reply is a framed response. In any reachable state every reply parses, by the rules the
  server itself reads requests with, into a status line with a known status, a content type, a
  content length and a closing header, followed by a body of exactly that length; and the two
  counters are the numbers of inference requests that got a result and that got an error.\<close>

theorem server_replies_framed:
  assumes "server_reach lib call (batcher_conf_new n us f) f' e0 s" "n < 2 ^ 64"
  shows "list_all (\<lambda>(chunks, st). case st of
      Replied r \<Rightarrow> \<exists>status body head. split_head r = Some (head, body) \<and>
        map strip_cr (getlines head) = [''HTTP/1.1 '' @ status, ''Content-Type: application/json'',
          ''Content-Length: '' @ nat_to_string (length body), ''Connection: close''] \<and>
        (status = ''200 OK'' \<or> status \<in> set error_statuses)
    | Dropped \<Rightarrow> read_request chunks = NoReply
    | Pending i \<Rightarrow> i < b_next (sv_batcher s)) (sv_conns s) \<and>
    sv_requests s = word_of_nat (length (filter ok_conn (sv_conns s))) \<and>
    sv_errors s = word_of_nat (length (filter failed_conn (sv_conns s)))"
proof -
  let ?c = "batcher_conf_new n us f"
  have c: "0 < bc_maxBatchSize ?c" "bc_maxBatchSize ?c < 2 ^ 64" using assms(2) by (simp_all add: batcher_conf_new_def)
  have inv: "server_inv lib ?c f' s" by (rule server_reach_inv [OF c assms(1)])
  have "list_all (conn_ok lib f' (sv_batcher s)) (sv_conns s)" using inv by (simp add: server_inv_def)
  then show ?thesis
    using inv framed_parts unfolding server_inv_def list_all_iff
    by (intro conjI ballI) (auto simp: conn_ok_def split: conn.splits)
qed

theorem server_replies_framed_witness:
  "\<exists>s :: unit server. (\<exists>r. (ex_chunk ex_body2, Replied r) \<in> set (sv_conns s) \<and> split_head r \<noteq> None) \<and>
     sv_requests s = word_of_nat (length (filter ok_conn (sv_conns s))) \<and> sv_requests s = 1"
proof -
  let ?call = "\<lambda>x e r e'. r = Inr x" and ?lib = "\<lambda>_. []" and ?v = "[0x40000000, 0]"
  have "batch_rows 2 ex_x = Inr [[0x3F800000, 0xBF800000], ?v]"
    by (simp add: batch_rows_def ex_x_def rank_def Tensor.dim_def row_of_def upt_rec)
  from ex_replied [where call = ?call and e = "()" and e' = "()" and lib = ?lib, OF _ this] obtain s
    where s: "server_reach ?lib ?call ex_conf 2 () s" "sv_requests s = 1"
      "sv_conns s = [(ex_chunk ex_body1, Pending 0), (ex_chunk ex_body2, Replied (infer_response ?lib (Inr ?v)))]" by blast
  from server_replies_framed [OF s(1) [unfolded ex_conf_def]]
  have "split_head (infer_response ?lib (Inr ?v)) \<noteq> None \<and> sv_requests s = word_of_nat (length (filter ok_conn (sv_conns s)))"
    using s(3) by auto
  then show ?thesis using s(2,3) by (intro exI [of _ s]) auto
qed

end
