(* ===== verification/Cli.thy ===== *)
theory Cli
  imports Batcher_Results Http
begin

text \<open>
  cli/main.cpp: options, the dataset file, the evaluation loop with its summary, and which command a
  command line runs. Files are a parameter (\<open>files p\<close> is the content of \<open>p\<close>, if it can be opened), the
  clock is one too: the times of the calls are given with the environments of the runs. A command is the
  text it prints, and \<open>cli_main\<close> the exit code and the text of the whole program.
\<close>

section \<open>Options\<close>

definition kImagePixels :: nat where "kImagePixels = 28 * 28"

record cli_options =
  co_config :: session_config
  co_batchSize :: nat

definition missing :: "string \<Rightarrow> exn" where
  "missing what = InvalidArgument (''Missing value for '' @ what)"

definition set_config :: "(session_config \<Rightarrow> session_config) \<Rightarrow> cli_options \<Rightarrow> cli_options" where
  "set_config g opts = opts\<lparr>co_config := g (co_config opts)\<rparr>"

definition use_config_file :: "session_config \<Rightarrow> cli_options \<Rightarrow> cli_options" where
  "use_config_file cf opts =
     (let keepModel = c_modelPath (co_config opts)
      in opts\<lparr>co_config := (if keepModel \<noteq> [] then cf\<lparr>c_modelPath := keepModel\<rparr> else cf)\<rparr>)"

fun parse_args :: "(string \<Rightarrow> string option) \<Rightarrow> string list \<Rightarrow> cli_options \<Rightarrow> cli_options res" where
  "parse_args files [] opts = Inr opts"
| "parse_args files (a # args) opts =
     (if a \<in> {''--config'', ''--batch'', ''--threads'', ''--gemm''}
      then (case args of
          [] \<Rightarrow> Inl (missing a)
        | v # args \<Rightarrow>
            if a = ''--config'' then rbind (config_fromFile v (files v)) (\<lambda>cf. parse_args files args (use_config_file cf opts))
            else if a = ''--batch'' then rbind (stoul v) (\<lambda>n. parse_args files args (opts\<lparr>co_batchSize := n\<rparr>))
            else if a = ''--threads'' then rbind (stoul v) (\<lambda>n. parse_args files args (set_config (c_intraOpThreads_update (\<lambda>_. n)) opts))
            else parse_args files args (set_config (c_gemmStrategy_update (\<lambda>_. v)) opts))
      else if a = ''--parallel'' then parse_args files args (set_config (c_interOpParallel_update (\<lambda>_. True)) opts)
      else if a = ''--no-optimize'' then parse_args files args (set_config (c_graphOptimization_update (\<lambda>_. False)) opts)
      else if a = ''--profile'' then parse_args files args (set_config (c_profiling_update (\<lambda>_. True)) opts)
      else Inl (InvalidArgument (''Unknown option: '' @ a)))"

text \<open>The checks after the loop.\<close>

definition finish_options :: "cli_options \<Rightarrow> cli_options res" where
  "finish_options opts =
     (let opts = (if co_batchSize opts = 0 then opts\<lparr>co_batchSize := 1\<rparr> else opts);
          opts = (if c_maxBatchSize (co_config opts) < co_batchSize opts
                  then set_config (c_maxBatchSize_update (\<lambda>_. co_batchSize opts)) opts else opts)
      in rbind (config_validate (co_config opts)) (\<lambda>_. Inr opts))"

definition parseOptions :: "(string \<Rightarrow> string option) \<Rightarrow> string list \<Rightarrow> nat \<Rightarrow> string \<Rightarrow> cli_options res" where
  "parseOptions files argv firstOption modelPath =
     rbind (parse_args files (drop firstOption argv) \<lparr>co_config = config_default\<lparr>c_modelPath := modelPath\<rparr>, co_batchSize = 1\<rparr>)
       finish_options"

section \<open>Datasets\<close>

record dataset =
  ds_pixels :: "u8 list"
  ds_labels :: "u8 list"
  ds_count :: nat

text \<open>One record of the file: 784 pixels and a label.\<close>

definition load_sample :: "nat \<Rightarrow> u8 list \<times> u8 list \<times> u8 list \<Rightarrow> (u8 list \<times> u8 list \<times> u8 list) res" where
  "load_sample i = (\<lambda>(file, pixels, labels).
     rbind (require (kImagePixels + 1 \<le> length file) (RuntimeError (''Dataset truncated at sample '' @ nat_to_string i))) (\<lambda>_.
     rbind (copy_at (i * kImagePixels) (take kImagePixels file) pixels) (\<lambda>pixels.
     rbind (wr labels i (file ! kImagePixels)) (\<lambda>labels.
       Inr (drop (kImagePixels + 1) file, pixels, labels)))))"

definition loadDataset :: "string \<Rightarrow> u8 list option \<Rightarrow> dataset res" where
  "loadDataset path file =
     (case file of
        None \<Rightarrow> Inl (RuntimeError (''Failed to open dataset file: '' @ path))
      | Some bs \<Rightarrow>
          (let count = of_le (take 4 bs)
           in if length bs < 4 \<or> count = 0 \<or> 10000000 < count
              then Inl (RuntimeError ''Dataset file declares an invalid sample count'')
              else rbind (for_range 0 count load_sample (drop 4 bs, replicate (count * kImagePixels) 0, replicate count 0))
                (\<lambda>(_, pixels, labels). Inr \<lparr>ds_pixels = pixels, ds_labels = labels, ds_count = count\<rparr>)))"

definition readFile :: "string \<Rightarrow> u8 list option \<Rightarrow> u8 list res" where
  "readFile path file = (case file of None \<Rightarrow> Inl (RuntimeError (''Failed to open file: '' @ path)) | Some bs \<Rightarrow> Inr bs)"

definition norm_pixel :: "u8 \<Rightarrow> f32" where
  "norm_pixel p = f32_div (f32_of_nat (unat p)) f32_255"

definition normalize :: "u8 list \<Rightarrow> f32 list" where
  "normalize pixels = map norm_pixel pixels"

section \<open>Evaluation\<close>

definition f64_half :: f64 where "f64_half = 0x3FE0000000000000"

definition f64_95 :: f64 where "f64_95 = 0x3FEE666666666666"

definition f64_99 :: f64 where "f64_99 = 0x3FEFAE147AE147AE"

definition f64_hundred :: f64 where "f64_hundred = 0x4059000000000000"

definition f64_million :: f64 where "f64_million = 0x412E848000000000"

definition f64_thousand :: f64 where "f64_thousand = 0x408F400000000000"

text \<open>\<^verbatim>\<open>static_cast<std::size_t>\<close> of a double, undefined out of range.\<close>

definition f64_to_size :: "f64 \<Rightarrow> nat res" where
  "f64_to_size x = (case f64_val x of
     FFin s m e \<Rightarrow> (let n = (if 0 \<le> e then m * 2 ^ nat e else m div 2 ^ nat (- e))
       in if (s \<and> n \<noteq> 0) \<or> 2 ^ 64 \<le> n then Inl (Undefined ''double out of range of size_t'') else Inr (nat n))
   | _ \<Rightarrow> Inl (Undefined ''double out of range of size_t''))"

text \<open>The class of a row of logits: the index of the first greatest one.\<close>

definition argmax :: "f32 list \<Rightarrow> nat" where
  [simp]: "argmax values = max_element values"

definition percentile :: "f64 list \<Rightarrow> f64 \<Rightarrow> f64 res" where
  "percentile xs p =
     (if xs = [] then Inr 0 else rbind (f64_to_size (f64_mul p (f64_of_nat (length xs - 1)))) (rd xs))"

record eval_state =
  es_session :: session
  es_input :: "f32 tensor"
  es_correct :: nat
  es_latencies :: "f64 list"
  es_total :: f64

definition fill_pixel :: "dataset \<Rightarrow> nat \<Rightarrow> nat \<Rightarrow> nat \<Rightarrow> f32 list \<Rightarrow> f32 list res" where
  "fill_pixel ds offset i p dst =
     rbind (rd (ds_pixels ds) ((offset + i) * kImagePixels + p)) (\<lambda>x. wr dst (i * kImagePixels + p) (norm_pixel x))"

definition eval_input :: "dataset \<Rightarrow> nat \<Rightarrow> nat \<Rightarrow> f32 tensor \<Rightarrow> f32 tensor res" where
  "eval_input ds offset current input =
     rbind (Tensor.dim input 0) (\<lambda>d.
     rbind (if word_of_nat current \<noteq> d then tensor_zeros 0 [word_of_nat current, word_of_nat kImagePixels] CpuAlloc else Inr input) (\<lambda>input.
     rbind (for_range 0 current (\<lambda>i. for_range 0 kImagePixels (fill_pixel ds offset i)) (t_data input)) (\<lambda>xs.
       Inr (input\<lparr>t_data := xs\<rparr>))))"

definition count_correct :: "dataset \<Rightarrow> nat \<Rightarrow> nat \<Rightarrow> f32 tensor \<Rightarrow> nat \<Rightarrow> nat res" where
  "count_correct ds offset current output correct =
     rbind (Tensor.dim output 1) (\<lambda>classes.
       for_range 0 current (\<lambda>i correct.
         rbind (row_of output (unat classes) i) (\<lambda>logits.
         rbind (rd (ds_labels ds) (offset + i)) (\<lambda>label.
           Inr (if argmax logits = unat label then correct + 1 else correct)))) correct)"

definition eval_batch :: "(nat \<Rightarrow> run_env \<times> f64) \<Rightarrow> dataset \<Rightarrow> nat \<Rightarrow> nat \<Rightarrow> eval_state \<Rightarrow> eval_state res" where
  "eval_batch runs ds batchSize offset st =
     (let current = min batchSize (ds_count ds - offset); (re, elapsed) = runs offset
      in rbind (eval_input ds offset current (es_input st)) (\<lambda>input.
         case engine_inferBatch re input (es_session st) of
           (Inl e, _) \<Rightarrow> Inl e
         | (Inr output, s) \<Rightarrow>
             rbind (count_correct ds offset current output (es_correct st)) (\<lambda>correct.
               Inr \<lparr>es_session = s, es_input = input, es_correct = correct, es_latencies = es_latencies st @ [elapsed],
                    es_total = f64_add (es_total st) elapsed\<rparr>)))"

definition eval_loop :: "(nat \<Rightarrow> run_env \<times> f64) \<Rightarrow> dataset \<Rightarrow> nat \<Rightarrow> session \<Rightarrow> eval_state res" where
  "eval_loop runs ds batchSize s =
     rbind (tensor_zeros 0 [word_of_nat batchSize, word_of_nat kImagePixels] CpuAlloc) (\<lambda>input.
       for_step 0 (ds_count ds) batchSize (eval_batch runs ds batchSize)
         \<lparr>es_session = s, es_input = input, es_correct = 0, es_latencies = [], es_total = 0\<rparr>)"

record eval_result =
  er_correct :: nat
  er_samples :: nat
  er_meanMs :: f64
  er_p50 :: f64
  er_p95 :: f64
  er_p99 :: f64
  er_throughput :: f64

definition eval_summary :: "dataset \<Rightarrow> eval_state \<Rightarrow> eval_result res" where
  "eval_summary ds st =
     (let latencies = sort_by f64_lt (es_latencies st)
      in rbind (percentile latencies f64_half) (\<lambda>p50.
         rbind (percentile latencies f64_95) (\<lambda>p95.
         rbind (percentile latencies f64_99) (\<lambda>p99.
           Inr \<lparr>er_correct = es_correct st, er_samples = ds_count ds,
                er_meanMs = f64_div (es_total st) (f64_of_nat (length latencies)), er_p50 = p50, er_p95 = p95, er_p99 = p99,
                er_throughput = f64_div (f64_mul f64_thousand (f64_of_nat (ds_count ds))) (es_total st)\<rparr>))))"

definition evaluate :: "(nat \<Rightarrow> run_env \<times> f64) \<Rightarrow> dataset \<Rightarrow> nat \<Rightarrow> session \<Rightarrow> (eval_result \<times> session) res" where
  "evaluate runs ds batchSize s =
     rbind (eval_loop runs ds batchSize s) (\<lambda>st. rbind (eval_summary ds st) (\<lambda>r. Inr (r, es_session st)))"

section \<open>Commands\<close>

text \<open>\<open>data p\<close> is the content of the binary file \<open>p\<close>, \<open>build\<close> the construction of an engine from a
  configuration; \<open>pf\<close> and \<open>pd\<close> print a float and a double as a stream does by default. A command is the
  text it prints.\<close>

definition line :: "string \<Rightarrow> string" where "line s = s @ [newline]"

definition profile_text :: "session_config \<Rightarrow> session \<Rightarrow> string" where
  "profile_text cf s =
     (if c_profiling cf then [newline] @ line ''Per-node profile:'' @ profiler_report (s_profiler s) else [])"

text \<open>\<^verbatim>\<open>run\<close> classifies the image twice; the second time counts, with its \<open>elapsed\<close> milliseconds.\<close>

definition runSingle ::
  "(session_config \<Rightarrow> session res) \<Rightarrow> (string \<Rightarrow> u8 list option) \<Rightarrow> (f32 \<Rightarrow> string) \<Rightarrow> (f64 \<Rightarrow> string) \<Rightarrow>
    run_env \<Rightarrow> run_env \<times> f64 \<Rightarrow> string \<Rightarrow> cli_options \<Rightarrow> string res" where
  "runSingle build data pf pd re1 run2 imagePath opts =
     rbind (readFile imagePath (data imagePath)) (\<lambda>raw.
     rbind (require (length raw = kImagePixels)
       (RuntimeError (''Expected a 784-byte (28x28) raw uint8 image, got '' @ nat_to_string (length raw) @ '' bytes''))) (\<lambda>_.
     rbind (build (co_config opts)) (\<lambda>s.
     rbind (tensor_of [1, 28, 28] (normalize raw) CpuAlloc) (\<lambda>input.
       case engine_infer re1 input s of
         (Inl e, _) \<Rightarrow> Inl e
       | (Inr _, s) \<Rightarrow> (let (re2, elapsed) = run2 in case engine_infer re2 input s of
           (Inl e, _) \<Rightarrow> Inl e
         | (Inr output, s) \<Rightarrow> rbind (tensor_toString pf output) (\<lambda>out. Inr (
             line (''Out: '' @ out) @
             line (''Predicted digit: '' @ nat_to_string (argmax (t_data output))) @
             line (''Inference latency: '' @ pd elapsed @ '' ms'') @
             profile_text (co_config opts) s)))))))"

text \<open>\<^verbatim>\<open>eval\<close> and \<^verbatim>\<open>inspect\<close>: the text they print.\<close>

definition on_off :: "bool \<Rightarrow> string" where "on_off b = (if b then ''on'' else ''off'')"

definition schedule_text :: "session \<Rightarrow> string" where
  "schedule_text s = nat_to_string (levelCount s) @ '' levels, '' @ nat_to_string (parallelLevelCount s) @ '' parallelizable''"

definition accuracy :: "eval_result \<Rightarrow> f64" where
  "accuracy r = f64_div (f64_mul f64_hundred (f64_of_nat (er_correct r))) (f64_of_nat (er_samples r))"

definition provider_name :: string where "provider_name = ''cpu''"

definition eval_header :: "cli_options \<Rightarrow> session \<Rightarrow> string" where
  "eval_header opts s =
     line (''Graph optimization: '' @ report_toString (s_report s)) @
     line (''Schedule: '' @ schedule_text s) @
     line (''Provider: '' @ provider_name @ '' | gemm: '' @ c_gemmStrategy (co_config opts) @
       '' | threads: '' @ nat_to_string (c_intraOpThreads (co_config opts)) @
       '' | inter-op: '' @ on_off (c_interOpParallel (co_config opts)) @
       '' | batch: '' @ nat_to_string (co_batchSize opts) @ [newline])"

definition eval_text :: "cli_options \<Rightarrow> eval_result \<Rightarrow> session \<Rightarrow> string" where
  "eval_text opts r s =
     line (''Samples: '' @ nat_to_string (er_samples r)) @
     line (''Correct: '' @ nat_to_string (er_correct r)) @
     line (''Accuracy: '' @ f64_fixed 4 (accuracy r) @ ''%'') @
     line (''Latency mean: '' @ f64_fixed 4 (er_meanMs r) @ '' ms per batch'') @
     line (''Latency p50: '' @ f64_fixed 4 (er_p50 r) @ '' ms'') @
     line (''Latency p95: '' @ f64_fixed 4 (er_p95 r) @ '' ms'') @
     line (''Latency p99: '' @ f64_fixed 4 (er_p99 r) @ '' ms'') @
     line (''Throughput: '' @ f64_fixed 1 (er_throughput r) @ '' inferences/sec'') @
     profile_text (co_config opts) s"

definition runEval ::
  "(session_config \<Rightarrow> session res) \<Rightarrow> (string \<Rightarrow> u8 list option) \<Rightarrow> (nat \<Rightarrow> run_env \<times> f64) \<Rightarrow> string \<Rightarrow> cli_options \<Rightarrow> string res" where
  "runEval build data runs datasetPath opts =
     rbind (loadDataset datasetPath (data datasetPath)) (\<lambda>ds.
     rbind (build (co_config opts)) (\<lambda>s.
     rbind (evaluate runs ds (co_batchSize opts) s) (\<lambda>(r, s'). Inr (eval_header opts s @ eval_text opts r s'))))"

definition runInspect :: "(session_config \<Rightarrow> session res) \<Rightarrow> cli_options \<Rightarrow> string res" where
  "runInspect build opts =
     rbind (build (co_config opts)) (\<lambda>s. Inr (
       line ''Config:'' @ line (config_toString (co_config opts)) @
       line (''Graph optimization: '' @ report_toString (s_report s) @ [newline]) @
       line (''Execution schedule ('' @ schedule_text s @ ''):'') @ describeSchedule s))"

text \<open>The part of the dataset \<^verbatim>\<open>bench\<close> runs on, and the configurations it sweeps.\<close>

definition bench_sample :: "dataset \<Rightarrow> dataset" where
  "bench_sample full = (let n = min (ds_count full) 2000
     in \<lparr>ds_pixels = take (n * kImagePixels) (ds_pixels full), ds_labels = take n (ds_labels full), ds_count = n\<rparr>)"

definition bench_strategies :: "session_config \<Rightarrow> session_config list" where
  "bench_strategies cf = map (\<lambda>strategy. cf\<lparr>c_gemmStrategy := strategy, c_intraOpThreads := 1, c_interOpParallel := False\<rparr>)
     [''naive'', ''reordered'', ''tiled'', ''packed'', ''auto'']"

definition bench_batches :: "session_config \<Rightarrow> (nat \<times> session_config) list" where
  "bench_batches cf = map (\<lambda>batch. (batch, cf\<lparr>c_maxBatchSize := max (c_maxBatchSize cf) batch, c_intraOpThreads := 1, c_interOpParallel := False\<rparr>))
     [1, 2, 4, 8, 16, 32, 64, 128]"

definition bench_modes :: "nat \<Rightarrow> session_config \<Rightarrow> session_config list" where
  "bench_modes hw cf = (let workers = min hw 4
     in map (\<lambda>(threads, interOp). cf\<lparr>c_maxBatchSize := max (c_maxBatchSize cf) 32, c_intraOpThreads := threads, c_interOpParallel := interOp\<rparr>)
       [(1, False), (workers, True), (workers, False)])"

definition bench_optimize :: "session_config \<Rightarrow> session_config list" where
  "bench_optimize cf = map (\<lambda>optimize. cf\<lparr>c_graphOptimization := optimize, c_intraOpThreads := 1, c_interOpParallel := False\<rparr>) [False, True]"

text \<open>\<^verbatim>\<open>bench\<close> evaluates the sample under each of them and prints a row for each.\<close>

definition usec :: "eval_result \<Rightarrow> f64" where "usec r = f64_div f64_million (er_throughput r)"

definition bench_each ::
  "(session_config \<Rightarrow> session res) \<Rightarrow> (nat \<Rightarrow> run_env \<times> f64) \<Rightarrow> dataset \<Rightarrow> (nat \<times> session_config) list \<Rightarrow> (eval_result \<times> session) list res" where
  "bench_each build runs ds = rmap (\<lambda>(batch, cf). rbind (build cf) (evaluate runs ds batch))"

text \<open>The first throughput that is not zero is the baseline of a sweep.\<close>

fun speedups :: "f64 \<Rightarrow> eval_result list \<Rightarrow> f64 list" where
  "speedups baseline [] = []"
| "speedups baseline (r # rs) =
     (let baseline = (if fpv_eq (f64_val baseline) (f64_val 0) then er_throughput r else baseline)
      in f64_div (er_throughput r) baseline # speedups baseline rs)"

definition strategy_row :: "string \<Rightarrow> eval_result \<Rightarrow> string" where
  "strategy_row name r = line (''  '' @ padl 12 name @ padr 14 (f64_fixed 1 (er_throughput r)) @ padr 15 (f64_fixed 1 (usec r)) @
     padr 11 (f64_fixed 1 (accuracy r)) @ ''%'')"

definition batch_row :: "nat \<Rightarrow> eval_result \<Rightarrow> f64 \<Rightarrow> string" where
  "batch_row batch r x = line (''  '' @ padl 12 (nat_to_string batch) @ padr 14 (f64_fixed 1 (er_throughput r)) @ padr 15 (f64_fixed 1 (usec r)) @
     padr 11 (f64_fixed 2 x) @ ''x'')"

definition mode_row :: "string \<Rightarrow> eval_result \<Rightarrow> f64 \<Rightarrow> string" where
  "mode_row label r x = line (''  '' @ padl 28 label @ padr 14 (f64_fixed 1 (er_throughput r)) @ padr 11 (f64_fixed 2 x) @ ''x'')"

definition optimize_row :: "bool \<Rightarrow> eval_result \<Rightarrow> session \<Rightarrow> string" where
  "optimize_row optimize r s = line (''  '' @ padl 14 (if optimize then ''optimized'' else ''unoptimized'') @
     padr 12 (f64_fixed 1 (er_throughput r)) @ ''   '' @ report_toString (s_report s))"

definition runBench ::
  "(session_config \<Rightarrow> session res) \<Rightarrow> (string \<Rightarrow> u8 list option) \<Rightarrow> (nat \<Rightarrow> run_env \<times> f64) \<Rightarrow> nat \<Rightarrow> string \<Rightarrow> cli_options \<Rightarrow> string res" where
  "runBench build data runs detected datasetPath opts =
     rbind (loadDataset datasetPath (data datasetPath)) (\<lambda>full.
     let ds = bench_sample full; cf = co_config opts; hw = hardwareThreads detected
     in rbind (bench_each build runs ds (map (Pair 1) (bench_strategies cf))) (\<lambda>rs1.
        rbind (bench_each build runs ds (bench_batches cf)) (\<lambda>rs2.
        rbind (bench_each build runs ds (map (Pair 32) (bench_modes hw cf))) (\<lambda>rs3.
        rbind (bench_each build runs ds (map (Pair 1) (bench_optimize cf))) (\<lambda>rs4. Inr (
          line (''Benchmarking on '' @ nat_to_string (ds_count ds) @ '' samples.'' @ [newline]) @
          line ''GEMM strategy sweep (batch 1, single thread)'' @
          line (''  '' @ padl 12 ''strategy'' @ padr 14 ''inf/sec'' @ padr 15 ''us/inference'' @ padr 12 ''accuracy'') @
          concat (map2 strategy_row [''naive'', ''reordered'', ''tiled'', ''packed'', ''auto''] (map fst rs1)) @
          [newline] @ line ''Batch size sweep (auto gemm, single thread)'' @
          line (''  '' @ padl 12 ''batch'' @ padr 14 ''inf/sec'' @ padr 15 ''us/inference'' @ padr 12 ''speedup'') @
          concat (map (\<lambda>(batch, r, x). batch_row batch r x)
            (zip [1, 2, 4, 8, 16, 32, 64, 128] (zip (map fst rs2) (speedups 0 (map fst rs2))))) @
          [newline] @ line (''Scheduling sweep (batch 32, '' @ nat_to_string hw @ '' hardware threads available)'') @
          line (''  '' @ padl 28 ''mode'' @ padr 14 ''inf/sec'' @ padr 12 ''speedup'') @
          concat (map (\<lambda>(label, r, x). mode_row label r x)
            (zip [''sequential, 1 thread'', ''inter-op branch parallel'', ''intra-op gemm row split'']
              (zip (map fst rs3) (speedups 0 (map fst rs3))))) @
          [newline] @ line ''Graph optimization impact (batch 1)'' @
          concat (map (\<lambda>(optimize, r, s). optimize_row optimize r s) (zip [False, True] rs4))))))))"

datatype command = Usage | Serve string | Inspect cli_options | Run string cli_options | Eval string cli_options | Bench string cli_options

text \<open>What \<^verbatim>\<open>main\<close> decides to do; a left value is printed as an error.\<close>

definition cli_command :: "(string \<Rightarrow> string option) \<Rightarrow> string list \<Rightarrow> command res" where
  "cli_command files argv =
     (if length argv < 3 then Inr Usage
      else let command = argv ! 1
        in if command = ''serve'' then Inr (Serve (argv ! 2))
           else if command = ''inspect'' then rbind (parseOptions files argv 3 (argv ! 2)) (\<lambda>opts. Inr (Inspect opts))
           else if command = ''run'' \<or> command = ''eval'' \<or> command = ''bench''
           then (if length argv < 4 then Inr Usage
                 else rbind (parseOptions files argv 4 (argv ! 2)) (\<lambda>opts.
                   if command = ''run'' then Inr (Run (argv ! 3) opts)
                   else if command = ''eval'' then Inr (Eval (argv ! 3) opts)
                   else Inr (Bench (argv ! 3) opts)))
           else if length argv = 3 then rbind (parseOptions files argv 3 (argv ! 1)) (\<lambda>opts. Inr (Run (argv ! 2) opts))
           else Inr Usage)"

text \<open>\<^verbatim>\<open>runServe\<close>: what it prints, and the batcher and the server it starts; the server runs on.\<close>

definition serve_text :: "session_config \<Rightarrow> session \<Rightarrow> string" where
  "serve_text cf s =
     line (''Loaded model '' @ [CHR 0x27] @ c_name cf @ [CHR 0x27] @ '' from '' @ c_modelPath cf) @
     line (''Graph optimization: '' @ report_toString (s_report s)) @
     line (''Dynamic batching: max_batch_size='' @ nat_to_string (c_maxBatchSize cf) @
       '' max_queue_delay_us='' @ nat_to_string (c_maxQueueDelayMicroseconds cf))"

definition serve_setup ::
  "(session_config \<Rightarrow> session res) \<Rightarrow> (string \<Rightarrow> string option) \<Rightarrow> string \<Rightarrow> (string \<times> batcher_conf \<times> nat \<times> session batcher) res" where
  "serve_setup build files configPath =
     rbind (config_fromFile configPath (files configPath)) (\<lambda>cf.
     rbind (build cf) (\<lambda>s.
       Inr (serve_text cf s, batcher_conf_new (c_maxBatchSize cf) (c_maxQueueDelayMicroseconds cf) kImagePixels,
            kImagePixels, batcher_new s)))"

definition printUsage :: "string \<Rightarrow> string" where
  "printUsage program =
     line ''Usage:'' @
     line (''  '' @ program @ '' run     <model.oien> <image.ubyte> [options]'') @
     line (''  '' @ program @ '' eval    <model.oien> <dataset.bin> [options]'') @
     line (''  '' @ program @ '' bench   <model.oien> <dataset.bin> [options]'') @
     line (''  '' @ program @ '' inspect <model.oien>               [options]'') @
     line (''  '' @ program @ '' serve   <config.yaml>'') @ [newline] @
     line ''Options:'' @
     line ''  --config <file>   load a Triton-style config file'' @
     line ''  --batch <n>       batch size for eval'' @
     line ''  --threads <n>     worker threads (intra-op and inter-op)'' @
     line ''  --gemm <s>        naive | reordered | tiled | packed | auto'' @
     line ''  --parallel        run independent graph branches concurrently'' @
     line ''  --no-optimize     disable graph optimization passes'' @
     line ''  --profile         collect and print per-node timings''"

section \<open>The program\<close>

text \<open>What a run of the program depends on: files, engines, runs with their times, the number of
  hardware threads reported, the printing of floating point numbers, the texts of library exceptions.\<close>

record cli_env =
  ce_files :: "string \<Rightarrow> string option"
  ce_data :: "string \<Rightarrow> u8 list option"
  ce_build :: "session_config \<Rightarrow> session res"
  ce_runs :: "nat \<Rightarrow> run_env \<times> f64"
  ce_detected :: nat
  ce_float :: "f32 \<Rightarrow> string"
  ce_double :: "f64 \<Rightarrow> string"
  ce_lib :: "exn \<Rightarrow> string"

text \<open>A process that exits, with its code and what it wrote: on the standard output when the code is 0,
  on the error stream otherwise; or one that serves.\<close>

datatype cli_end = Exit nat string | Serving string "batcher_conf \<times> nat \<times> session batcher"

fun run_command :: "cli_env \<Rightarrow> command \<Rightarrow> string \<Rightarrow> cli_end res" where
  "run_command env Usage program = Inr (Exit 1 (printUsage program))"
| "run_command env (Serve p) program = rbind (serve_setup (ce_build env) (ce_files env) p) (\<lambda>(t, b). Inr (Serving t b))"
| "run_command env (Inspect opts) program = rbind (runInspect (ce_build env) opts) (\<lambda>t. Inr (Exit 0 t))"
| "run_command env (Run p opts) program =
     rbind (runSingle (ce_build env) (ce_data env) (ce_float env) (ce_double env) (fst (ce_runs env 0)) (ce_runs env 1) p opts)
       (\<lambda>t. Inr (Exit 0 t))"
| "run_command env (Eval p opts) program = rbind (runEval (ce_build env) (ce_data env) (ce_runs env) p opts) (\<lambda>t. Inr (Exit 0 t))"
| "run_command env (Bench p opts) program =
     rbind (runBench (ce_build env) (ce_data env) (ce_runs env) (ce_detected env) p opts) (\<lambda>t. Inr (Exit 0 t))"

definition cli_main :: "cli_env \<Rightarrow> string list \<Rightarrow> cli_end res" where
  "cli_main env argv =
     (case rbind (cli_command (ce_files env) argv) (\<lambda>c. run_command env c (argv ! 0)) of
        Inr r \<Rightarrow> Inr r
      | Inl e \<Rightarrow> if catchable e then Inr (Exit 1 (''Error: '' @ line (exn_what (ce_lib env) e))) else Inl e)"

end
