(* ===== verification/Cli_Results.thy ===== *)
theory Cli_Results
  imports Cli
begin

text \<open>
  The command line: options that are accepted are valid, a dataset file is read exactly or refused,
  and the evaluation counts exactly the samples the model classifies as labelled.
\<close>

section \<open>Options\<close>

lemma config_fromFile_sound:
  "config_fromFile path f = Inl e \<Longrightarrow> catchable e"
proof -
  have line: "catchable e" if "config_line l nc = Inl e" for l nc e
    using that unfolding config_line_def Let_def
    by (cases nc) (auto simp: set_key_def rbind_eq_Inl parseSize_def parseBool_def split: if_splits option.splits sum.splits)
  have lines: "rfold config_line ls nc = Inl e \<Longrightarrow> catchable e" for ls nc e
    by (induction ls arbitrary: nc) (auto simp: rbind_eq_Inl dest: line)
  show "config_fromFile path f = Inl e \<Longrightarrow> catchable e"
    using lines config_validate_error by (fastforce simp: config_fromFile_def rbind_eq_Inl split: option.splits)
qed

lemma stoul_error: "stoul s = Inl e \<Longrightarrow> catchable e"
  by (auto simp: stoul_def Let_def split: prod.splits if_splits)

lemma parse_args_error: "parse_args files args opts = Inl e \<Longrightarrow> catchable e"
proof (induction files args opts rule: parse_args.induct)
  case (2 files a args opts)
  show ?case
  proof (cases "a \<in> {''--config'', ''--batch'', ''--threads'', ''--gemm''}")
    case True
    show ?thesis
    proof (cases args)
      case Nil
      then show ?thesis using 2(8) True by (auto simp: missing_def)
    next
      case (Cons v args')
      note IH = 2(1-4) [OF True Cons]
      show ?thesis
        using 2(8) True Cons IH config_fromFile_sound [of v "files v"] stoul_error [of v]
        by (auto simp: rbind_eq_Inl split: if_splits)
    qed
  next
    case False
    then show ?thesis using 2(5-8) by (auto split: if_splits)
  qed
qed simp

text \<open>The model given on the command line stays.\<close>

lemma parse_args_model:
  "parse_args files args opts = Inr opts' \<Longrightarrow> c_modelPath (co_config opts) \<noteq> [] \<Longrightarrow> c_modelPath (co_config opts') = c_modelPath (co_config opts)"
proof (induction files args opts rule: parse_args.induct)
  case (2 files a args opts)
  show ?case
  proof (cases "a \<in> {''--config'', ''--batch'', ''--threads'', ''--gemm''}")
    case True
    show ?thesis
    proof (cases args)
      case Nil
      then show ?thesis using 2(8) True by simp
    next
      case (Cons v args')
      note IH = 2(1-4) [OF True Cons]
      show ?thesis
        using 2(8,9) True Cons IH
        by (auto simp: rbind_eq_Inr use_config_file_def set_config_def Let_def split: if_splits)
    qed
  next
    case False
    then show ?thesis using 2(5-9) by (auto simp: set_config_def split: if_splits)
  qed
qed simp

lemma finish_options_sound:
  assumes "finish_options opts = Inr o'"
  shows "config_valid (co_config o')" "1 \<le> co_batchSize o'" "co_batchSize o' \<le> c_maxBatchSize (co_config o')"
    "c_modelPath (co_config o') = c_modelPath (co_config opts)"
  using assms config_validate_ok [of "co_config o'"]
  by (auto simp: finish_options_def rbind_eq_Inr Let_def set_config_def split: if_splits)

section \<open>Datasets\<close>

lemma length_concat_const: "\<forall>x\<in>set xs. length (f x) = k \<Longrightarrow> length (concat (map f xs)) = length xs * k"
  by (induction xs) auto

lemma load_samples:
  assumes "n \<le> c"
  shows "rfold load_sample [0..<n] (bs, replicate (c * kImagePixels) 0, replicate c 0) =
    (if n * (kImagePixels + 1) \<le> length bs
     then Inr (drop (n * (kImagePixels + 1)) bs,
       concat (map (\<lambda>i. take kImagePixels (drop (i * (kImagePixels + 1)) bs)) [0..<n]) @ replicate ((c - n) * kImagePixels) 0,
       map (\<lambda>i. bs ! (i * (kImagePixels + 1) + kImagePixels)) [0..<n] @ replicate (c - n) 0)
     else Inl (RuntimeError (''Dataset truncated at sample '' @ nat_to_string (length bs div (kImagePixels + 1)))))"
  using assms
proof (induction n)
  case (Suc n)
  let ?r = "kImagePixels + 1"
  let ?px = "concat (map (\<lambda>i. take kImagePixels (drop (i * ?r) bs)) [0..<n])"
  let ?ls = "map (\<lambda>i. bs ! (i * ?r + kImagePixels)) [0..<n]"
  have ih: "rfold load_sample [0..<n] (bs, replicate (c * kImagePixels) 0, replicate c 0) =
    (if n * ?r \<le> length bs then Inr (drop (n * ?r) bs, ?px @ replicate ((c - n) * kImagePixels) 0, ?ls @ replicate (c - n) 0)
     else Inl (RuntimeError (''Dataset truncated at sample '' @ nat_to_string (length bs div ?r))))"
    using Suc by simp
  have step: "rfold load_sample [0..<Suc n] st = rbind (rfold load_sample [0..<n] st) (load_sample n)" for st
    by (cases "rfold load_sample [0..<n] st") (simp_all add: rfold_append)
  consider "length bs < n * ?r" | "n * ?r \<le> length bs" "length bs < Suc n * ?r" | "Suc n * ?r \<le> length bs" by linarith
  then show ?case
  proof cases
    case 1
    then have "\<not> Suc n * ?r \<le> length bs" by simp
    then show ?thesis unfolding step ih using 1 by simp
  next
    case 2
    then have "length bs div ?r = n" by (intro div_nat_eqI) (simp_all add: mult.commute)
    moreover have "\<not> kImagePixels + 1 \<le> length (drop (n * ?r) bs)" using 2 by simp
    ultimately show ?thesis unfolding step ih using 2 by (simp add: load_sample_def)
  next
    case 3
    then have le: "n * ?r \<le> length bs" "?r \<le> length (drop (n * ?r) bs)" by simp_all
    have "length (take kImagePixels (drop (i * ?r) bs)) = kImagePixels" if "i < n" for i
    proof -
      have "(i + 1) * ?r \<le> n * ?r" using that by (intro mult_le_mono1) simp
      then show ?thesis using le(1) by simp
    qed
    then have lp: "length ?px = n * kImagePixels"
      using length_concat_const [of "[0..<n]" "\<lambda>i. take kImagePixels (drop (i * ?r) bs)" kImagePixels] by simp
    obtain k where k: "c - n = Suc k" "c - Suc n = k" using Suc.prems by (cases "c - n") auto
    have cp: "copy_at (n * kImagePixels) (take kImagePixels (drop (n * ?r) bs)) (?px @ replicate ((c - n) * kImagePixels) 0) =
        Inr (?px @ take kImagePixels (drop (n * ?r) bs) @ replicate ((c - Suc n) * kImagePixels) 0)"
      using le(2) k lp by (simp add: copy_at_def)
    have wl: "wr (?ls @ replicate (c - n) 0) n x = Inr (?ls @ x # replicate (c - Suc n) 0)" for x
      unfolding k using list_update_length [of ?ls 0 "replicate k 0" x] by (simp add: wr_def)
    have nth: "drop (n * ?r) bs ! kImagePixels = bs ! (n * ?r + kImagePixels)" using le(1) by (simp add: nth_drop)
    have l: "load_sample n (drop (n * ?r) bs, ?px @ replicate ((c - n) * kImagePixels) 0, ?ls @ replicate (c - n) 0) =
        Inr (drop (Suc n * ?r) bs, ?px @ take kImagePixels (drop (n * ?r) bs) @ replicate ((c - Suc n) * kImagePixels) 0,
          ?ls @ bs ! (n * ?r + kImagePixels) # replicate (c - Suc n) 0)"
      unfolding load_sample_def prod.case cp rbind.simps nth wl using le(2) by (simp add: ac_simps)
    show ?thesis unfolding step ih if_P [OF le(1)] if_P [OF 3] rbind.simps l by simp
  qed
qed simp

section \<open>Properties\<close>

lemma options_sound:
  assumes "modelPath \<noteq> []"
  shows "case parseOptions files argv firstOption modelPath of
      Inl e \<Rightarrow> catchable e
    | Inr opts \<Rightarrow> config_valid (co_config opts) \<and> c_modelPath (co_config opts) = modelPath \<and>
        1 \<le> co_batchSize opts \<and> co_batchSize opts \<le> c_maxBatchSize (co_config opts) \<and> c_maxBatchSize (co_config opts) \<le> 4096"
proof (cases "parseOptions files argv firstOption modelPath")
  case (Inl e)
  then show ?thesis
    using parse_args_error config_validate_error by (fastforce simp: parseOptions_def finish_options_def rbind_eq_Inl Let_def)
next
  case (Inr opts)
  then obtain o1 where o1: "parse_args files (drop firstOption argv) \<lparr>co_config = config_default\<lparr>c_modelPath := modelPath\<rparr>, co_batchSize = 1\<rparr> = Inr o1"
    "finish_options o1 = Inr opts" by (auto simp: parseOptions_def rbind_eq_Inr)
  have "c_modelPath (co_config o1) = modelPath" using parse_args_model [OF o1(1)] assms by simp
  then show ?thesis using finish_options_sound [OF o1(2)] Inr by (simp add: config_valid_def)
qed

text \<open>C39. Options that are accepted are valid. \<^verbatim>\<open>parseOptions\<close> always returns: it throws an exception \<^verbatim>\<open>main\<close>
  reports, or its options pass every check of the configuration, name the model of the command line
  whatever configuration file was loaded, and ask for a batch the engine accepts.\<close>

theorem parseOptions_sound:
  assumes "modelPath \<noteq> []"
  shows "case parseOptions files argv firstOption modelPath of
      Inl e \<Rightarrow> catchable e
    | Inr opts \<Rightarrow> config_valid (co_config opts) \<and> c_modelPath (co_config opts) = modelPath \<and>
        1 \<le> co_batchSize opts \<and> co_batchSize opts \<le> c_maxBatchSize (co_config opts) \<and> c_maxBatchSize (co_config opts) \<le> 4096"
  by (rule options_sound [OF assms])

theorem parseOptions_sound_witness:
  "\<exists>opts. parseOptions (\<lambda>_. None) [''ie'', ''eval'', ''m.oien'', ''d.bin'', ''--batch'', ''200'', ''--parallel''] 4 ''m.oien'' = Inr opts \<and>
     co_batchSize opts = 200 \<and> c_maxBatchSize (co_config opts) = 200 \<and> config_valid (co_config opts)"
proof -
  have n: "stoul ''200'' = Inr 200"
    by (simp add: stoul_def split_sign_def is_space_def is_digit_def digits_val_def digit_val_def)
  let ?argv = "[''ie'', ''eval'', ''m.oien'', ''d.bin'', ''--batch'', ''200'', ''--parallel'']"
  obtain opts where o: "parseOptions (\<lambda>_. None) ?argv 4 ''m.oien'' = Inr opts" "co_batchSize opts = 200" "c_maxBatchSize (co_config opts) = 200"
    by (simp add: parseOptions_def n set_config_def finish_options_def config_default_def config_validate_def gemmStrategyFromString_def)
  then show ?thesis using parseOptions_sound [of "''m.oien''" "\<lambda>_. None" ?argv 4] by simp
qed

text \<open>The batch size sweep, announced with the automatic kernel, runs with the one that was asked for.\<close>

lemma bench_batches_strategy: "map (\<lambda>(batch, c). c_gemmStrategy c) (bench_batches cf) = replicate 8 (c_gemmStrategy cf)"
  by (simp add: bench_batches_def eval_nat_numeral)

text \<open>Options in front of \<^verbatim>\<open>--config\<close> are lost.\<close>

lemma options_before_config_lost:
  assumes "config_fromFile f (files f) = Inr cf"
  shows "parse_args files [''--threads'', ''8'', ''--profile'', ''--config'', f] opts = parse_args files [''--config'', f] opts"
proof -
  have "stoul ''8'' = Inr 8"
    by (simp add: stoul_def split_sign_def is_space_def is_digit_def digits_val_def digit_val_def)
  then show ?thesis using assms by (simp add: set_config_def use_config_file_def Let_def)
qed

lemma loadDataset_eq:
  "loadDataset path (Some bs) =
     (let n = of_le (take 4 bs); samples = drop 4 bs; r = kImagePixels + 1
      in if length bs < 4 \<or> n = 0 \<or> 10000000 < n then Inl (RuntimeError ''Dataset file declares an invalid sample count'')
         else if length samples < n * r
         then Inl (RuntimeError (''Dataset truncated at sample '' @ nat_to_string (length samples div r)))
         else Inr \<lparr>ds_pixels = concat (map (\<lambda>i. take kImagePixels (drop (i * r) samples)) [0..<n]),
                   ds_labels = map (\<lambda>i. samples ! (i * r + kImagePixels)) [0..<n], ds_count = n\<rparr>)"
  using load_samples [of "of_le (take 4 bs)" "of_le (take 4 bs)" "drop 4 bs"]
  by (simp add: loadDataset_def Let_def for_range_def not_less not_le split: if_splits)

text \<open>C38. A dataset file is read exactly or refused. The count in its first four bytes decides: none, zero or
  more than ten million is refused, a file that is too short is refused with the number of its
  complete samples, and any other file gives the pixels and the labels of its samples in order,
  whatever follows them.\<close>

theorem loadDataset_exact:
  "loadDataset path (Some bs) =
     (let n = of_le (take 4 bs); samples = drop 4 bs; r = kImagePixels + 1
      in if length bs < 4 \<or> n = 0 \<or> 10000000 < n then Inl (RuntimeError ''Dataset file declares an invalid sample count'')
         else if length samples < n * r
         then Inl (RuntimeError (''Dataset truncated at sample '' @ nat_to_string (length samples div r)))
         else Inr \<lparr>ds_pixels = concat (map (\<lambda>i. take kImagePixels (drop (i * r) samples)) [0..<n]),
                   ds_labels = map (\<lambda>i. samples ! (i * r + kImagePixels)) [0..<n], ds_count = n\<rparr>)"
  by (rule loadDataset_eq)

end
