(* ===== verification/Cli_Evaluate.thy ===== *)
theory Cli_Evaluate
  imports Cli_Results
begin

text \<open>
  The evaluation loop: which tensors it feeds to the engine, and that it counts exactly the samples
  whose label is the index of the greatest logit, however the dataset is cut into batches.
\<close>

section \<open>Inputs\<close>

definition ds_ok :: "dataset \<Rightarrow> bool" where
  "ds_ok ds = (length (ds_pixels ds) = ds_count ds * kImagePixels \<and> length (ds_labels ds) = ds_count ds)"

definition sample_request :: "dataset \<Rightarrow> nat \<Rightarrow> request" where
  "sample_request ds i = \<lparr>rq_id = i, rq_features = normalize (take kImagePixels (drop (i * kImagePixels) (ds_pixels ds)))\<rparr>"

definition sample_batch :: "dataset \<Rightarrow> nat \<Rightarrow> nat \<Rightarrow> request list" where
  "sample_batch ds offset n = map (sample_request ds) [offset..<offset + n]"

lemma sample_length:
  assumes "ds_ok ds" "i < ds_count ds"
  shows "length (rq_features (sample_request ds i)) = kImagePixels"
proof -
  have "(i + 1) * kImagePixels \<le> ds_count ds * kImagePixels" using assms(2) by (intro mult_le_mono1) simp
  then show ?thesis using assms(1) by (simp add: ds_ok_def sample_request_def normalize_def)
qed

lemma wr_mid: "wr (a @ x # r) (length a) v = Inr (a @ v # r)"
  by (simp add: wr_def)

lemma fill_row:
  assumes "(offset + i + 1) * kImagePixels \<le> length (ds_pixels ds)" "(i + 1) * kImagePixels \<le> length xs" "j \<le> kImagePixels"
  shows "rfold (fill_pixel ds offset i) [0..<j] xs = Inr (take (i * kImagePixels) xs @
      map norm_pixel (take j (drop ((offset + i) * kImagePixels) (ds_pixels ds))) @ drop (i * kImagePixels + j) xs)"
  using assms(3)
proof (induction j)
  case (Suc j)
  let ?px = "drop ((offset + i) * kImagePixels) (ds_pixels ds)"
  let ?a = "take (i * kImagePixels) xs @ map norm_pixel (take j ?px)"
  have px: "j < length ?px" and xs: "i * kImagePixels + j < length xs" using assms(1,2) Suc.prems by (simp_all add: algebra_simps)
  have d: "drop (i * kImagePixels + j) xs = xs ! (i * kImagePixels + j) # drop (i * kImagePixels + Suc j) xs"
    using xs by (simp add: Cons_nth_drop_Suc)
  have la: "length ?a = i * kImagePixels + j" using px xs by simp
  have "fill_pixel ds offset i j (?a @ drop (i * kImagePixels + j) xs) = Inr (?a @ norm_pixel (?px ! j) # drop (i * kImagePixels + Suc j) xs)"
  proof -
    have "rd (ds_pixels ds) ((offset + i) * kImagePixels + j) = Inr (?px ! j)" using px by (simp add: rd_def)
    moreover have "wr (?a @ x # r) (length ?a) v = Inr (?a @ v # r)" for x v r by (rule wr_mid)
    ultimately show ?thesis unfolding d la fill_pixel_def by simp
  qed
  then show ?case using Suc px by (simp add: rfold_append take_Suc_conv_app_nth)
qed simp

lemma fill_rows:
  assumes "ds_ok ds" "offset + n \<le> ds_count ds" "n * kImagePixels \<le> length xs"
  shows "rfold (\<lambda>i. for_range 0 kImagePixels (fill_pixel ds offset i)) [0..<n] xs =
    Inr (concat (map rq_features (sample_batch ds offset n)) @ drop (n * kImagePixels) xs)"
  using assms(2,3)
proof (induction n)
  case (Suc n)
  let ?a = "concat (map rq_features (sample_batch ds offset n))"
  have f: "\<forall>rq\<in>set (sample_batch ds offset n). length (rq_features rq) = kImagePixels"
    using sample_length [OF assms(1)] Suc.prems(1) by (auto simp: sample_batch_def)
  have la: "length ?a = n * kImagePixels" using length_concat_same [OF f] by (simp add: sample_batch_def)
  let ?xs = "?a @ drop (n * kImagePixels) xs"
  have p: "(offset + n + 1) * kImagePixels \<le> length (ds_pixels ds)"
    using Suc.prems(1) assms(1) mult_le_mono1 [of "offset + n + 1" "ds_count ds" kImagePixels] by (simp add: ds_ok_def)
  have "rfold (fill_pixel ds offset n) [0..<kImagePixels] ?xs = Inr (?a @ rq_features (sample_request ds (offset + n)) @ drop (Suc n * kImagePixels) xs)"
    using fill_row [OF p, of ?xs kImagePixels] la Suc.prems(2) by (simp add: sample_request_def normalize_def add.commute)
  moreover have "sample_batch ds offset (Suc n) = sample_batch ds offset n @ [sample_request ds (offset + n)]" by (simp add: sample_batch_def)
  ultimately show ?case using Suc by (simp add: rfold_append for_range_def)
qed (simp add: sample_batch_def)

text \<open>The input tensor keeps its size while batches are full.\<close>

definition input_ok :: "f32 tensor \<Rightarrow> bool" where
  "input_ok x = (\<exists>n < 2 ^ 31. t_shape x = [word_of_nat n, word_of_nat kImagePixels] \<and> length (t_data x) = n * kImagePixels \<and>
     t_size x = word_of_nat (n * kImagePixels) \<and> t_alloc x = CpuAlloc)"

lemma eval_input_batch:
  assumes ds: "ds_ok ds" "offset + n \<le> ds_count ds" and n: "n < 2 ^ 31" and x: "input_ok x"
  shows "eval_input ds offset n x = Inr (batch_tensor kImagePixels (sample_batch ds offset n))"
    "input_ok (batch_tensor kImagePixels (sample_batch ds offset n))" "modest (batch_tensor kImagePixels (sample_batch ds offset n))"
proof -
  have k: "kImagePixels < 2 ^ 31" by (simp add: kImagePixels_def)
  have f: "\<forall>rq\<in>set (sample_batch ds offset n). length (rq_features rq) = kImagePixels"
    using sample_length [OF ds(1)] ds(2) by (auto simp: sample_batch_def)
  have l: "length (sample_batch ds offset n) = n" by (simp add: sample_batch_def)
  show "modest (batch_tensor kImagePixels (sample_batch ds offset n))" using batch_input_tensor(2) [OF f _ k] n l by simp
  show "input_ok (batch_tensor kImagePixels (sample_batch ds offset n))"
    unfolding input_ok_def using n l length_concat_same [OF f] by (intro exI [of _ n]) (simp add: batch_tensor_def)
  obtain m where m: "m < 2 ^ 31" "t_shape x = [word_of_nat m, word_of_nat kImagePixels]" "length (t_data x) = m * kImagePixels"
    "t_size x = word_of_nat (m * kImagePixels)" "t_alloc x = CpuAlloc" using x unfolding input_ok_def by blast
  have "word_of_nat n = (word_of_nat m :: u64) \<longleftrightarrow> n = m"
    using rows_size(5) [OF n k] rows_size(5) [OF m(1) k] by metis
  then obtain y where y: "(if word_of_nat n \<noteq> (word_of_nat m :: u64) then tensor_zeros 0 [word_of_nat n, word_of_nat kImagePixels] CpuAlloc else Inr x) = Inr y"
      "t_shape y = [word_of_nat n, word_of_nat kImagePixels]" "length (t_data y) = n * kImagePixels"
      "t_size y = word_of_nat (n * kImagePixels)" "t_alloc y = CpuAlloc"
    using m zeros_rows [OF n k] by (cases "n = m") auto
  have "for_range 0 n (\<lambda>i. for_range 0 kImagePixels (fill_pixel ds offset i)) (t_data y) = Inr (concat (map rq_features (sample_batch ds offset n)))"
    using fill_rows [OF ds, of "t_data y"] y(3) by (simp add: for_range_def)
  then show "eval_input ds offset n x = Inr (batch_tensor kImagePixels (sample_batch ds offset n))"
    using y l by (simp add: eval_input_def Tensor.dim_def m(2) batch_tensor_def)
qed

section \<open>Counting\<close>

definition hit :: "dataset \<Rightarrow> (nat \<Rightarrow> f32 list) \<Rightarrow> nat \<Rightarrow> bool" where
  "hit ds logits i = (max_element (logits i) = unat (ds_labels ds ! i))"

lemma count_correct_rows:
  assumes "modest t" "n < 2 ^ 64" "t_shape t = [word_of_nat n, d]" "offset + n \<le> length (ds_labels ds)"
    and "\<forall>i<n. take (unat d) (drop (i * unat d) (t_data t)) = logits (offset + i)"
  shows "count_correct ds offset n t c = Inr (c + length (filter (hit ds logits) [offset..<offset + n]))"
proof -
  have "rfold (\<lambda>i correct. rbind (row_of t (unat d) i) (\<lambda>l. rbind (rd (ds_labels ds) (offset + i)) (\<lambda>label.
      Inr (if max_element l = unat label then correct + 1 else correct)))) [0..<k] c = Inr (c + length (filter (hit ds logits) [offset..<offset + k]))"
    if "k \<le> n" for k
    using that
  proof (induction k)
    case (Suc k)
    then have "row_of t (unat d) k = Inr (logits (offset + k))" using row_of_ok [OF assms(1-3)] assms(5) by simp
    then show ?case using Suc assms(4) by (simp add: rfold_append hit_def)
  qed simp
  then show ?thesis using assms(3) by (simp add: count_correct_def Tensor.dim_def for_range_def)
qed

text \<open>The loop trusts the engine with the number of rows: an output with one row is read past its end
  when the batch has two samples. The batcher refuses the same output.\<close>

lemma eval_rows_not_checked:
  "count_correct \<lparr>ds_pixels = [], ds_labels = [0, 0], ds_count = 2\<rparr> 0 2
     \<lparr>t_shape = [1, 2], t_data = [0, 0], t_size = 2, t_alloc = CpuAlloc\<rparr> 0 = Inl (Undefined ''read past the end of a buffer'') \<and>
   batch_rows 2 \<lparr>t_shape = [1, 2], t_data = [0, 0], t_size = 2, t_alloc = CpuAlloc\<rparr> = Inl (RuntimeError ''Batched output has unexpected shape'')"
  by (simp add: count_correct_def batch_rows_def rank_def Tensor.dim_def row_of_def for_range_def rd_def upt_rec)

section \<open>Batches\<close>

lemma engine_answer_run:
  assumes ok: "engine_ok s0 s" and ans: "engine_answer s0 x t" and x: "modest x" and re: "env_ok re s0"
    and sh: "t_shape x = d # ds" "unat d \<le> c_maxBatchSize (s_config s)"
  shows "\<exists>s'. engine_inferBatch re x s = (Inr t, s') \<and> engine_ok s0 s' \<and> s_config s' = s_config s \<and> modest t"
proof -
  have eq: "s_order s = s_order s0" "s_levels s = s_levels s0" "s_provider s = s_provider s0" "s_inputName s = s_inputName s0" "s_outputName s = s_outputName s0"
    and inv: "session_inv (s_tensors s0) s" using ok by (simp_all add: engine_ok_def)
  have re': "env_ok re s" using re eq(2) by (simp add: env_ok_def)
  obtain env where e: "t_size x \<noteq> 0" "env (s_outputName s0) = Some t" "solves (cp_strategy (s_provider s0)) (cp_alloc (s_provider s0))
      ((s_tensors s0)(s_inputName s0 \<mapsto> retag (cp_alloc (s_provider s0)) x)) (s_order s0) env"
    using ans unfolding engine_answer_def by blast
  obtain s' where s': "session_run re x s = (Inr t, s')" "s_tensors s' = env"
    using session_answers_run [OF inv re' x e(1), of env t] e(2,3) eq by auto
  have sane: "sane (s_tensors s')" using e(3) s'(2) by (simp add: solves_def)
  note run = session_inv_run [OF inv re' x s'(1) sane]
  have "modest t" using sane s'(2) e(2) by (auto simp: sane_def ran_def)
  moreover have "engine_ok s0 s'" using ok run eq by (simp add: engine_ok_def)
  moreover have "engine_inferBatch re x s = (Inr t, s')" using s'(1) sh by (simp add: engine_inferBatch_def rank_def Tensor.dim_def)
  ultimately show ?thesis using run(7) by blast
qed

text \<open>What the engine answers for each batch: the logits of its samples, one row each.\<close>

definition logits_of :: "session \<Rightarrow> dataset \<Rightarrow> nat \<Rightarrow> (nat \<Rightarrow> f32 list) \<Rightarrow> bool" where
  "logits_of s0 ds batchSize logits = (\<forall>offset\<in>set (steps 0 (ds_count ds) batchSize).
     \<exists>t d. let n = min batchSize (ds_count ds - offset)
       in engine_answer s0 (batch_tensor kImagePixels (sample_batch ds offset n)) t \<and> t_shape t = [word_of_nat n, d] \<and>
          (\<forall>i<n. take (unat d) (drop (i * unat d) (t_data t)) = logits (offset + i)))"

definition eval_inv :: "session \<Rightarrow> nat \<Rightarrow> eval_state \<Rightarrow> bool" where
  "eval_inv s0 m st = (engine_ok s0 (es_session st) \<and> c_maxBatchSize (s_config (es_session st)) = m \<and> input_ok (es_input st))"

lemma eval_batch_step:
  assumes ds: "ds_ok ds" and inv: "eval_inv s0 m st" and re: "env_ok (fst (runs offset)) s0" and off: "offset < ds_count ds"
    and n: "n = min batchSize (ds_count ds - offset)" "batchSize \<le> m" "m < 2 ^ 31"
    and ans: "engine_answer s0 (batch_tensor kImagePixels (sample_batch ds offset n)) t" "t_shape t = [word_of_nat n, d]"
      "\<forall>i<n. take (unat d) (drop (i * unat d) (t_data t)) = logits (offset + i)"
  shows "\<exists>st'. eval_batch runs ds batchSize offset st = Inr st' \<and> eval_inv s0 m st' \<and>
    es_correct st' = es_correct st + length (filter (hit ds logits) [offset..<offset + n]) \<and>
    es_latencies st' = es_latencies st @ [snd (runs offset)]"
proof -
  let ?x = "batch_tensor kImagePixels (sample_batch ds offset n)"
  have le: "offset + n \<le> ds_count ds" "n < 2 ^ 31" "n < 2 ^ 64" using n off by auto
  have st: "engine_ok s0 (es_session st)" "c_maxBatchSize (s_config (es_session st)) = m" "input_ok (es_input st)"
    using inv by (simp_all add: eval_inv_def)
  note x = eval_input_batch [OF ds le(1,2) st(3)]
  have sh: "t_shape ?x = word_of_nat n # [word_of_nat kImagePixels]" by (simp add: batch_tensor_def sample_batch_def)
  have "unat (word_of_nat n :: u64) \<le> c_maxBatchSize (s_config (es_session st))" using n st(2) unat_word_of_nat [OF le(3)] by simp
  from engine_answer_run [OF st(1) ans(1) x(3) re sh this] obtain s'
    where s': "engine_inferBatch (fst (runs offset)) ?x (es_session st) = (Inr t, s')" "engine_ok s0 s'"
      "s_config s' = s_config (es_session st)" "modest t" by blast
  have "offset + n \<le> length (ds_labels ds)" using ds le(1) by (simp add: ds_ok_def)
  from count_correct_rows [OF s'(4) le(3) ans(2) this ans(3), of "es_correct st"]
  show ?thesis
    using x(1,2) s' st(2) unfolding eval_batch_def n(1) [symmetric] Let_def by (simp add: split_def eval_inv_def)
qed

lemma eval_batches:
  assumes ds: "ds_ok ds" and re: "\<And>offset. env_ok (fst (runs offset)) s0" and m: "batchSize \<le> m" "m < 2 ^ 31"
    and offs: "set offs \<subseteq> set (steps 0 (ds_count ds) batchSize)" and ans: "logits_of s0 ds batchSize logits" and inv: "eval_inv s0 m st"
  shows "\<exists>st'. rfold (eval_batch runs ds batchSize) offs st = Inr st' \<and> eval_inv s0 m st' \<and>
    es_correct st' = es_correct st + length (filter (hit ds logits) (concat (map (\<lambda>b. [b..<min (b + batchSize) (ds_count ds)]) offs))) \<and>
    es_latencies st' = es_latencies st @ map (\<lambda>b. snd (runs b)) offs"
  using offs inv
proof (induction offs arbitrary: st)
  case (Cons off offs)
  then have o: "off \<in> set (steps 0 (ds_count ds) batchSize)" by simp
  let ?n = "min batchSize (ds_count ds - off)"
  obtain t d where t: "engine_answer s0 (batch_tensor kImagePixels (sample_batch ds off ?n)) t" "t_shape t = [word_of_nat ?n, d]"
    "\<forall>i<?n. take (unat d) (drop (i * unat d) (t_data t)) = logits (off + i)"
    using ans o unfolding logits_of_def Let_def by blast
  have "off < ds_count ds" using steps_bounds [OF o] by simp
  from eval_batch_step [where runs = runs and offset = off, OF ds Cons.prems(2) re this refl m t] obtain st1
    where st1: "eval_batch runs ds batchSize off st = Inr st1" "eval_inv s0 m st1"
      "es_correct st1 = es_correct st + length (filter (hit ds logits) [off..<off + ?n])" "es_latencies st1 = es_latencies st @ [snd (runs off)]" by blast
  have "off + ?n = min (off + batchSize) (ds_count ds)" using \<open>off < ds_count ds\<close> by simp
  then show ?case using Cons.IH [OF _ st1(2)] Cons.prems(1) st1 by fastforce
qed simp

section \<open>An example\<close>

text \<open>The session of the example on any input.\<close>

lemma ex_relu_any:
  assumes "wf_tensor x"
  shows "node_outcome s (ex_node a b c) [Some x] CpuAlloc = Inr (tensor_mk (t_shape x) (map (f32_max 0) (t_data x)) (t_size x) CpuAlloc)"
  using computeRelu_eq [OF assms fresh_wf(1), of CpuAlloc]
  by (simp add: node_outcome_def provider_compute_def ex_node_def mk_node_def opTypeFromString_def input_at_def
      flip: fresh_def)

lemma ex_answer:
  assumes x: "modest x" "t_alloc x = CpuAlloc" "t_size x \<noteq> 0"
  obtains s0 where "engine_new ex_ins ex_ctx ex_opt_model ex_session_config = Inr s0"
    "engine_answer s0 x (tensor_mk (t_shape x) (map (f32_max 0) (t_data x)) (t_size x) CpuAlloc)" "c_maxBatchSize (s_config s0) = 128"
proof -
  let ?y = "\<lambda>x. tensor_mk (t_shape x) (map (f32_max 0) (t_data x)) (t_size x) CpuAlloc"
  define env :: store where "env = [''i'' \<mapsto> x, ''w'' \<mapsto> ex_x, ''h'' \<mapsto> ?y x, ''k'' \<mapsto> ?y ex_x]"
  have env: "env ''i'' = Some x" "env ''w'' = Some ex_x" "env ''h'' = Some (?y x)" "env ''k'' = Some (?y ex_x)" by (simp_all add: env_def)
  have m: "modest z \<Longrightarrow> modest (?y z)" for z by (cases z) (simp add: modest_def tensor_mk_def wf_tensor_def)
  have r: "retag CpuAlloc x = x" using x(2) by (simp add: retag_def)
  have w: "wf_tensor x" "wf_tensor ex_x" using x(1) ex_x_modest by (simp_all add: modest_def)
  have "ran env \<subseteq> {x, ex_x, ?y x, ?y ex_x}" by (auto simp: env_def ran_def split: if_splits)
  then have sane: "sane env" using x(1) ex_x_modest m by (auto simp: sane_def)
  have nodes: "node_solved (cp_strategy ex_cp) CpuAlloc env (ex_node ''r'' [''i''] [''h''])"
    "node_solved (cp_strategy ex_cp) CpuAlloc env (ex_node ''c'' [''w''] [''k''])"
    using ex_relu_any [OF w(1), of "cp_strategy ex_cp" "''r''" "[''i'']" "[''h'']"] ex_relu_any [OF w(2), of "cp_strategy ex_cp" "''c''" "[''w'']" "[''k'']"]
    by (simp_all add: node_solved_def ex_node_def mk_node_def env)
  have "env k = base CpuAlloc ''i'' x [''w'' \<mapsto> ex_x] k" if "k \<noteq> ''h''" "k \<noteq> ''k''" for k
    using that r by (simp add: env_def base_def) (simp add: retag_def ex_x_def)
  then have sol: "solves (cp_strategy ex_cp) CpuAlloc (base CpuAlloc ''i'' x (m_inits ex_opt_model)) (nodes_of (m_graph ex_opt_model)) env"
    using sane nodes by (simp add: solves_def ex_opt_graph outputs_of_def) (simp add: ex_node_def mk_node_def)
  have al: "CpuAlloc = (if c_memoryPool ex_session_config then PoolAlloc else CpuAlloc)" using ex_session_config_ok(3) by simp
  obtain s0 env' where s0: "session_new ex_ins ex_ctx ex_opt_model ex_session_config = Inr s0" "s_outputName s0 = ''h''" "env' ''h'' = Some (?y x)"
    "modest x" "cp_strategy (s_provider s0) = Tiled" "cp_alloc (s_provider s0) = CpuAlloc"
    "solves Tiled CpuAlloc ((s_tensors s0)(''i'' \<mapsto> retag CpuAlloc x)) (s_order s0) env'"
    by (rule session_built [OF ex_opt_ok ex_ins_ok ex_session_config_ok(1) ex_session_io ex_opt_view ex_session_config_ok(2)
        sol [unfolded ex_cp_ok(2)] al env(3), of ex_ctx])
  have inv: "session_inv (s_tensors s0) s0" "s_inputName s0 = ''i''"
    using session_new_inv [OF ex_opt_ok ex_ins_ok ex_session_io(1) ex_opt_view s0(1)] by simp_all
  have "engine_answer s0 x (?y x)" unfolding engine_answer_def using inv s0 x(3) by auto
  moreover have "c_maxBatchSize (s_config s0) = 128"
    using session_new_config [OF s0(1)] by (simp add: ex_session_config_def ex_config_def config_default_def)
  ultimately show ?thesis using that s0(1) by (simp add: engine_new_def)
qed

definition ex_ds :: dataset where
  "ex_ds = \<lparr>ds_pixels = replicate kImagePixels 0, ds_labels = [0], ds_count = 1\<rparr>"

lemma ex_ds_facts: "ds_ok ex_ds" "ds_count ex_ds = 1" "length (sample_batch ex_ds 0 1) = 1"
    "\<forall>rq\<in>set (sample_batch ex_ds 0 1). length (rq_features rq) = kImagePixels"
  using sample_length [of ex_ds] by (auto simp: ds_ok_def ex_ds_def sample_batch_def)

lemma ex_logits:
  obtains s0 logits where "engine_new ex_ins ex_ctx ex_opt_model ex_session_config = Inr s0" "logits_of s0 ex_ds 1 logits"
proof -
  let ?x = "batch_tensor kImagePixels (sample_batch ex_ds 0 1)"
  let ?y = "tensor_mk (t_shape ?x) (map (f32_max 0) (t_data ?x)) (t_size ?x) CpuAlloc"
  let ?l = "\<lambda>_. map (f32_max 0) (t_data ?x)"
  have k: "kImagePixels < 2 ^ 31" by (simp add: kImagePixels_def)
  note f = ex_ds_facts(4) and l = ex_ds_facts(3)
  have mx: "modest ?x" using batch_input_tensor(2) [OF f _ k] l by simp
  have "t_size ?x \<noteq> 0" unfolding batch_tensor_def l by (simp add: kImagePixels_def)
  moreover have "t_alloc ?x = CpuAlloc" by (simp add: batch_tensor_def)
  ultimately obtain s0 where s0: "engine_new ex_ins ex_ctx ex_opt_model ex_session_config = Inr s0" "engine_answer s0 ?x ?y"
    using ex_answer [OF mx] by blast
  have ld: "length (t_data ?y) = kImagePixels" using length_concat_same [OF f] l by (simp add: batch_tensor_def tensor_mk_def)
  have sh: "t_shape ?y = [word_of_nat 1, word_of_nat kImagePixels]" unfolding tensor_mk_def batch_tensor_def l by simp
  have st: "steps 0 1 1 = [0]" by (simp add: steps_Cons)
  have u: "unat (word_of_nat kImagePixels :: u64) = kImagePixels" using k by (intro unat_word_of_nat) simp
  have "\<forall>i<1. take (unat (word_of_nat kImagePixels :: u64)) (drop (i * unat (word_of_nat kImagePixels :: u64)) (t_data ?y)) = ?l (0 + i)"
    using ld u by (simp add: tensor_mk_def)
  with s0(2) sh have "\<exists>t d. let n = 1 in engine_answer s0 (batch_tensor kImagePixels (sample_batch ex_ds 0 n)) t \<and> t_shape t = [word_of_nat n, d] \<and>
      (\<forall>i<n. take (unat d) (drop (i * unat d) (t_data t)) = ?l (0 + i))" unfolding Let_def by blast
  then have "logits_of s0 ex_ds 1 ?l" unfolding logits_of_def ex_ds_facts(2) st by simp
  then show ?thesis using s0(1) by (rule that [rotated])
qed

section \<open>Property\<close>

lemma eval_loop_counts:
  assumes "model_ok m" "ins_ok ins" "g_inputs (m_graph m) = a # as" "wf_view a (view_of m)" "engine_new ins ctx m cf = Inr s0"
    and "ds_ok ds" "0 < batchSize" "batchSize \<le> c_maxBatchSize cf" "logits_of s0 ds batchSize logits" "\<And>offset. env_ok (fst (runs offset)) s0"
  shows "\<exists>st. eval_loop runs ds batchSize s0 = Inr st \<and>
    es_correct st = length (filter (\<lambda>i. max_element (logits i) = unat (ds_labels ds ! i)) [0..<ds_count ds]) \<and>
    es_latencies st = map (\<lambda>offset. snd (runs offset)) (steps 0 (ds_count ds) batchSize)"
proof -
  have new: "session_new ins ctx m cf = Inr s0" using assms(5) by (simp add: engine_new_def)
  then have "config_valid cf" by (auto simp: session_new_def rbind_eq_Inr simp flip: config_validate_ok)
  then have b: "c_maxBatchSize cf < 2 ^ 31" "batchSize < 2 ^ 31" using assms(8) by (auto simp: config_valid_def)
  have k: "kImagePixels < 2 ^ 31" by (simp add: kImagePixels_def)
  let ?x = "\<lparr>t_shape = [word_of_nat batchSize, word_of_nat kImagePixels], t_data = replicate (batchSize * kImagePixels) (0 :: f32),
    t_size = word_of_nat (batchSize * kImagePixels), t_alloc = CpuAlloc\<rparr>"
  let ?st = "\<lparr>es_session = s0, es_input = ?x, es_correct = 0, es_latencies = [], es_total = 0\<rparr>"
  have "session_inv (s_tensors s0) s0" using session_new_inv [OF assms(1-4) new] by blast
  then have "engine_ok s0 s0" by (simp add: engine_ok_def)
  moreover have "input_ok ?x" unfolding input_ok_def using b(2) by (intro exI [of _ batchSize]) simp
  ultimately have inv: "eval_inv s0 (c_maxBatchSize cf) ?st" using session_new_config [OF new] by (simp add: eval_inv_def)
  from eval_batches [where runs = runs, OF assms(6,10,8) b(1) subset_refl assms(9) inv] obtain st
    where st: "rfold (eval_batch runs ds batchSize) (steps 0 (ds_count ds) batchSize) ?st = Inr st"
      "es_correct st = length (filter (hit ds logits) (concat (map (\<lambda>b. [b..<min (b + batchSize) (ds_count ds)]) (steps 0 (ds_count ds) batchSize))))"
      "es_latencies st = map (\<lambda>b. snd (runs b)) (steps 0 (ds_count ds) batchSize)" by auto
  have "filter (hit ds logits) [0..<ds_count ds] = filter (\<lambda>i. max_element (logits i) = unat (ds_labels ds ! i)) [0..<ds_count ds]"
    by (rule arg_cong [of _ _ "\<lambda>p. filter p _"]) (simp add: hit_def fun_eq_iff)
  then show ?thesis
    using st(1,3) st(2) [unfolded steps_blocks [OF assms(7)]] by (simp add: eval_loop_def zeros_rows [OF b(2) k] for_step_def)
qed

text \<open>C13. The evaluation counts right. Take the engine built from any well-formed model, a dataset as the loader gives
  it, and a batch size the engine accepts. If the engine has an answer for every batch of the dataset,
  with one row of logits per sample, then the loop ends without an exception, counts exactly the
  samples whose label is the index of the greatest of their logits, and records the time of every
  batch, in order: under every schedule of the runs, and by the same count whatever the times were.\<close>

theorem evaluate_exact:
  assumes "model_ok m" "ins_ok ins" "g_inputs (m_graph m) = a # as" "wf_view a (view_of m)" "engine_new ins ctx m cf = Inr s0"
    and "ds_ok ds" "0 < batchSize" "batchSize \<le> c_maxBatchSize cf" "logits_of s0 ds batchSize logits" "\<And>offset. env_ok (fst (runs offset)) s0"
  shows "\<exists>st. eval_loop runs ds batchSize s0 = Inr st \<and>
    es_correct st = length (filter (\<lambda>i. max_element (logits i) = unat (ds_labels ds ! i)) [0..<ds_count ds]) \<and>
    es_latencies st = map (\<lambda>offset. snd (runs offset)) (steps 0 (ds_count ds) batchSize)"
  by (rule eval_loop_counts [OF assms])

theorem evaluate_exact_witness:
  "\<exists>s0 st ds logits. engine_new ex_ins ex_ctx ex_opt_model ex_session_config = Inr s0 \<and> ds_count ds = 1 \<and> ds_ok ds \<and>
     eval_loop (\<lambda>_. (seq_env s0, 7)) ds 1 s0 = Inr st \<and> es_latencies st = [7] \<and>
     es_correct st = (if max_element (logits (0 :: nat)) = unat (ds_labels ds ! 0) then 1 else 0)"
proof -
  obtain s0 logits where s0: "engine_new ex_ins ex_ctx ex_opt_model ex_session_config = Inr s0" "logits_of s0 ex_ds 1 logits"
    by (rule ex_logits)
  have st: "steps 0 1 1 = [0]" by (simp add: steps_Cons)
  have re: "env_ok (fst ((\<lambda>_. (seq_env s0, 7)) offset)) s0" for offset :: nat using seq_env_ok by simp
  have b: "(1::nat) \<le> c_maxBatchSize ex_session_config" by (simp add: ex_session_config_def ex_config_def config_default_def)
  obtain st' where "eval_loop (\<lambda>_. (seq_env s0, 7)) ex_ds 1 s0 = Inr st'"
    "es_correct st' = length (filter (\<lambda>i. max_element (logits i) = unat (ds_labels ex_ds ! i)) [0..<1])" "es_latencies st' = map (\<lambda>offset. 7) [0::nat]"
    using evaluate_exact [OF ex_opt_ok ex_ins_ok ex_session_io(1) ex_opt_view s0(1) ex_ds_facts(1) zero_less_one b s0(2) re]
    unfolding ex_ds_facts(2) st by auto
  then show ?thesis using s0(1) ex_ds_facts(1,2) by (intro exI [of _ s0] exI [of _ st'] exI [of _ ex_ds] exI [of _ logits]) simp
qed

end
