(* ===== verification/Cli_Main.thy ===== *)
theory Cli_Main
  imports Cli_Evaluate
begin

text \<open>
  The whole program on an evaluation: the percentiles never index outside the latencies, so the
  summary always comes out, and what \<^verbatim>\<open>main\<close> prints and returns follows from the options, the dataset
  and the session.
\<close>

section \<open>The index of a percentile\<close>

lemma f64_uint_of_int: "0 \<le> p \<Longrightarrow> p < 2 ^ 64 \<Longrightarrow> uint (word_of_int p :: f64) = p"
  by (simp add: unsigned_of_int take_bit_int_eq_self_iff)

lemma f64_emin: "fp_emin 11 52 = - 1074"
  by (simp add: fp_emin_def)

text \<open>The value of a normal pattern; a significand that was rounded up to the next power of two
  carries into the exponent.\<close>

lemma f64_pattern_val:
  fixes x k :: int
  assumes "0 \<le> x" "x \<le> 2000" "2 ^ 52 \<le> k" "k \<le> 2 ^ 53"
  shows "f64_val (word_of_int (x * 2 ^ 52 + k)) =
    (if k < 2 ^ 53 then FFin False k (x - 1074) else FFin False (2 ^ 52) (x - 1073))"
proof -
  define n where "n = x * 2 ^ 52 + k"
  have b: "0 \<le> n" "n < 2 ^ 63" using assms by (simp_all add: n_def)
  then have u: "uint (word_of_int n :: f64) = n" by (intro f64_uint_of_int) simp_all
  have s: "n div 2 ^ (11 + 52) = 0" using b by simp
  define c where "c = k div 2 ^ 52"
  have c: "c = (if k < 2 ^ 53 then 1 else 2)" using assms(3,4) by (auto simp: c_def)
  have q: "n div 2 ^ 52 = x + c" by (simp add: n_def c_def)
  have r: "n mod 2 ^ 52 = k - c * 2 ^ 52"
    by (simp add: n_def c_def minus_div_mult_eq_mod [symmetric])
  have m: "(x + c) mod 2 ^ 11 = x + c" using assms(1,2) c by simp
  have e: "x + c \<noteq> 2 ^ 11 - 1" "x + c \<noteq> 0" using assms(1,2) c by simp_all
  have "fp_unpack 11 52 n = FFin False (2 ^ 52 + (k - c * 2 ^ 52)) (x + c - 1 + fp_emin 11 52)"
    unfolding fp_unpack_def Let_def s q m r if_not_P [OF e(1)] if_not_P [OF e(2)] by simp
  then show ?thesis
    using c assms(4) unfolding n_def [symmetric] by (auto simp: f64_val_def u f64_emin)
qed

lemma f64_val_zero: "f64_val 0 = FFin False 0 (- 1074)"
  by (simp add: f64_val_def fp_unpack_def f64_emin)

text \<open>A normal result of rounding a positive number.\<close>

lemma f64_round_normal:
  fixes m :: int
  assumes "0 < m" "- 1022 < e + int (bitlen m)" "e + int (bitlen m) < 900"
    and k: "k = (if 53 \<le> bitlen m then rne m (bitlen m - 53) else m * 2 ^ (53 - bitlen m))" "2 ^ 52 \<le> k" "k \<le> 2 ^ 53"
  shows "f64_val (word_of_int (fp_round 11 52 False m e)) =
    (if k < 2 ^ 53 then FFin False k (e + int (bitlen m) - 53) else FFin False (2 ^ 52) (e + int (bitlen m) - 52))"
proof -
  define q where "q = e + int (bitlen m) - 53"
  have mx: "max (e + int (bitlen m) - int 52 - 1) (fp_emin 11 52) = q" using assms(2) by (simp add: f64_emin q_def)
  have kk: "(if q \<le> e then m * 2 ^ nat (e - q) else rne m (nat (q - e))) = k"
  proof (cases "53 < bitlen m")
    case True
    then have "nat (q - e) = bitlen m - 53" "\<not> q \<le> e" by (simp_all add: q_def)
    with True k(1) show ?thesis by simp
  next
    case False
    then have "nat (e - q) = 53 - bitlen m" "q \<le> e" by (simp_all add: q_def)
    with False k(1) show ?thesis by (auto simp: rne_def)
  qed
  have "(q + 1074) * 2 ^ 52 + k < (2 ^ 11 - 1) * 2 ^ 52"
  proof -
    have "(q + 1074) * 2 ^ 52 \<le> 2000 * 2 ^ 52" using assms(3) by (intro mult_right_mono) (simp_all add: q_def)
    with k(3) show ?thesis by simp
  qed
  then have "fp_round 11 52 False m e = (q + 1074) * 2 ^ 52 + k"
    using assms(1) unfolding fp_round_def Let_def mx kk by (simp add: f64_emin fp_sign_def)
  then show ?thesis
    using f64_pattern_val [of "q + 1074" k] assms(2,3) k(2,3) by (simp add: q_def)
qed

lemma bitlen_bounds: "0 < m \<Longrightarrow> 2 ^ (bitlen m - 1) \<le> m \<and> m < 2 ^ bitlen m \<and> 0 < bitlen m"
  using bitlen_lower bitlen_upper bitlen_pos by simp

lemma f64_of_nat_val:
  assumes "0 < n" "n < 2 ^ 53"
  shows "f64_val (f64_of_nat n) = FFin False (int n * 2 ^ (53 - bitlen (int n))) (int (bitlen (int n)) - 53)"
proof -
  let ?m = "int n" and ?B = "bitlen (int n)"
  note b = bitlen_bounds [of ?m]
  have B: "?B \<le> 53" using assms by (intro bitlen_le) simp_all
  define k where "k = ?m * 2 ^ (53 - ?B)"
  have "2 ^ (?B - 1) * 2 ^ (53 - ?B) \<le> k" using b assms(1) by (simp add: k_def)
  then have lo: "2 ^ 52 \<le> k" using B b assms(1) by (simp flip: power_add)
  have "k < 2 ^ ?B * 2 ^ (53 - ?B)" using b assms(1) by (simp add: k_def)
  then have hi: "k < 2 ^ 53" using B by (simp flip: power_add)
  have kk: "k = (if 53 \<le> ?B then rne ?m (?B - 53) else ?m * 2 ^ (53 - ?B))"
    using B by (cases "?B = 53") (simp_all add: k_def rne_def)
  show ?thesis
    using f64_round_normal [OF _ _ _ kk lo] hi assms(1) B by (simp add: f64_of_nat_def k_def)
qed

lemma zdiv_below:
  fixes m :: int
  assumes "0 < b" "m < c * b"
  shows "m div b < c"
proof (rule ccontr)
  assume "\<not> m div b < c"
  then have "c * b \<le> m div b * b" using assms(1) by (intro mult_right_mono) simp_all
  also have "\<dots> \<le> m" using pos_mod_sign [OF assms(1), of m] div_mult_mod_eq [of m b] by linarith
  finally show False using assms(2) by simp
qed

text \<open>Rounding up does not pass an integer bound.\<close>

lemma rne_bounds: "m div 2 ^ d \<le> rne m d" "rne m d \<le> m div 2 ^ d + 1"
  by (auto simp: rne_def Let_def)

lemma f64_to_size_val:
  assumes "f64_val x = FFin False m e" "(if 0 \<le> e then m * 2 ^ nat e else m div 2 ^ nat (- e)) = i" "0 \<le> i" "i < 2 ^ 53"
  shows "f64_to_size x = Inr (nat i)"
  unfolding f64_to_size_def assms(1) fpv.case Let_def assms(2) using assms(3,4) by simp

lemma percentile_index:
  fixes mp :: int
  assumes p: "f64_val p = FFin False mp (- 53)" "2 ^ 52 \<le> mp" "mp < 2 ^ 53" and n: "n < 2 ^ 53"
  shows "\<exists>i\<le>n. f64_to_size (f64_mul p (f64_of_nat n)) = Inr i"
proof (cases "n = 0")
  case True
  then have "f64_mul p (f64_of_nat n) = 0"
    by (simp add: f64_mul_def f64_of_nat_def p(1) fp_round_def fp_sign_def f64_val_zero)
  then show ?thesis by (simp add: f64_to_size_def f64_val_zero)
next
  case False
  define m where "m = mp * int n"
  define B where "B = bitlen m"
  have m0: "0 < m" using p(2) False by (simp add: m_def)
  note b = bitlen_bounds [OF m0, folded B_def]
  have n': "int n < 2 ^ 53" using n by simp
  have lower: "2 ^ 52 \<le> m" using p(2) False mult_mono [of "2 ^ 52" mp 1 "int n"] by (simp add: m_def)
  have mn: "m < 2 ^ 53 * int n" using p(3) False by (simp add: m_def)
  have upper: "m < 2 ^ 106"
  proof -
    have "2 ^ 53 * int n < 2 ^ 53 * 2 ^ 53" using n' by simp
    with mn show ?thesis by simp
  qed
  have B: "52 < B" "B \<le> 106"
    using bitlen_ge [OF lower] bitlen_le [of m 106] m0 upper by (simp_all add: B_def)
  define d where "d = B - 53"
  have d: "d \<le> 53" "B = d + 53" using B by (simp_all add: d_def)
  define k where "k = rne m d"
  have quot: "2 ^ 52 \<le> m div 2 ^ d" "m div 2 ^ d < 2 ^ 53" "m div 2 ^ d < int n * 2 ^ (53 - d)"
  proof -
    have "2 ^ 52 * 2 ^ d \<le> m" using b d(2) by (simp add: power_add mult.commute)
    then show "2 ^ 52 \<le> m div 2 ^ d" using zdiv_mono1 [of "2 ^ 52 * 2 ^ d" m "2 ^ d"] by simp
    have "m < 2 ^ 53 * 2 ^ d" using b d(2) by (simp add: power_add mult.commute)
    then show "m div 2 ^ d < 2 ^ 53" by (intro zdiv_below) simp_all
    have e: "int n * 2 ^ (53 - d) * 2 ^ d = 2 ^ 53 * int n" using d(1) by (simp flip: power_add)
    show "m div 2 ^ d < int n * 2 ^ (53 - d)" by (rule zdiv_below) (simp, unfold e, rule mn)
  qed
  have k: "2 ^ 52 \<le> k" "k \<le> 2 ^ 53" "k \<le> int n * 2 ^ (53 - d)"
    using quot rne_bounds [of m d] by (simp_all add: k_def)
  have kk: "k = (if 53 \<le> bitlen m then rne m (bitlen m - 53) else m * 2 ^ (53 - bitlen m))"
    using B by (simp add: k_def d_def B_def)
  let ?l = "int (bitlen (int n))"
  have "f64_mul p (f64_of_nat n) = word_of_int (fp_round 11 52 False (mp * (int n * 2 ^ (53 - bitlen (int n)))) (- 53 + (?l - 53)))"
    using f64_of_nat_val [OF _ n] False by (simp add: f64_mul_def p(1))
  moreover have "bitlen (int n) \<le> 53" using n' by (intro bitlen_le) simp_all
  ultimately have "f64_mul p (f64_of_nat n) = word_of_int (fp_round 11 52 False m (- 53))"
    using fp_round_shift [of m 11 52 False "53 - bitlen (int n)" "- 53"] m0 by (simp add: m_def mult.assoc)
  then have v: "f64_val (f64_mul p (f64_of_nat n)) =
      (if k < 2 ^ 53 then FFin False k (int d - 53) else FFin False (2 ^ 52) (int d - 52))"
    using f64_round_normal [OF m0 _ _ kk k(1,2), of "- 53"] B d by (simp add: B_def)
  define i where "i = k div 2 ^ (53 - d)"
  have i: "0 \<le> i" "i \<le> int n"
  proof -
    show "0 \<le> i" using k(1) by (simp add: i_def pos_imp_zdiv_nonneg_iff)
    show "i \<le> int n" using zdiv_mono1 [OF k(3), of "2 ^ (53 - d)"] by (simp add: i_def)
  qed
  have "f64_to_size (f64_mul p (f64_of_nat n)) = Inr (nat i)"
  proof (cases "k < 2 ^ 53")
    case True
    have "(if 0 \<le> int d - 53 then k * 2 ^ nat (int d - 53) else k div 2 ^ nat (- (int d - 53))) = i"
    proof (cases "d = 53")
      case False
      then have "nat (- (int d - 53)) = 53 - d" "\<not> 0 \<le> int d - 53" using d(1) by simp_all
      then show ?thesis by (simp add: i_def)
    qed (simp add: i_def)
    from f64_to_size_val [OF _ this i(1)] True v i(2) n' show ?thesis by simp
  next
    case False
    then have k53: "k = 2 ^ 53" using k(2) by simp
    have "d \<noteq> 53" using k(3) k53 n' by auto
    then obtain j where j: "53 - d = Suc j" "nat (- (int d - 52)) = j" "int d - 52 \<le> 0" using d(1) by (cases "53 - d") auto
    have "(2 :: int) ^ 53 div (2 * 2 ^ j) = 2 ^ 52 div 2 ^ j"
      using zdiv_zmult2_eq [of "2" "2 ^ j" "2 ^ 53 :: int"] by simp
    then have "(if 0 \<le> int d - 52 then 2 ^ 52 * 2 ^ nat (int d - 52) else 2 ^ 52 div 2 ^ nat (- (int d - 52))) = i"
      using j k53 by (cases "int d - 52 = 0") (auto simp: i_def)
    from f64_to_size_val [OF _ this i(1)] False v i(2) n' show ?thesis by simp
  qed
  with i show ?thesis by (intro exI [of _ "nat i"]) simp
qed

text \<open>So a percentile of the evaluation is one of its latencies.\<close>

lemma percentile_constants:
  "f64_val f64_half = FFin False (2 ^ 52) (- 53)"
  "f64_val f64_95 = FFin False 8556839292003942 (- 53)"
  "f64_val f64_99 = FFin False 8917127262193582 (- 53)"
  by (simp_all add: f64_val_def fp_unpack_def f64_emin f64_half_def f64_95_def f64_99_def)

lemma percentile_some:
  assumes "length xs < 2 ^ 53" "xs \<noteq> []" "p \<in> {f64_half, f64_95, f64_99}"
  shows "\<exists>x\<in>set xs. percentile xs p = Inr x"
proof -
  obtain i where i: "i \<le> length xs - 1" "f64_to_size (f64_mul p (f64_of_nat (length xs - 1))) = Inr i"
    using percentile_index [of p _ "length xs - 1"] percentile_constants assms by fastforce
  then have "i < length xs" using assms(2) by (cases xs) auto
  with i assms(2) show ?thesis by (auto simp: percentile_def rd_def)
qed

section \<open>The summary\<close>

lemma length_steps: "0 < st \<Longrightarrow> length (steps lo hi st) \<le> hi - lo"
proof (induction lo hi st rule: steps.induct)
  case (1 lo hi st)
  then show ?case by (cases "lo < hi") (auto simp: steps_Cons)
qed

lemma steps_nonempty: "0 < hi \<Longrightarrow> 0 < st \<Longrightarrow> steps 0 hi st \<noteq> []"
  by (simp add: steps_Cons)

lemma eval_summary_some:
  assumes "length (es_latencies st) < 2 ^ 53" "es_latencies st \<noteq> []"
  shows "\<exists>r. eval_summary ds st = Inr r \<and> er_correct r = es_correct st \<and> er_samples r = ds_count ds \<and>
    {er_p50 r, er_p95 r, er_p99 r} \<subseteq> set (es_latencies st)"
proof -
  define l where "l = sort_by f64_lt (es_latencies st)"
  have m: "mset l = mset (es_latencies st)" by (simp add: l_def)
  then have len: "length l = length (es_latencies st)" by (rule mset_eq_length)
  then have ne: "l \<noteq> []" using assms(2) by auto
  have n: "length l < 2 ^ 53" using assms(1) unfolding len .
  obtain a where a: "a \<in> set l" "percentile l f64_half = Inr a" using percentile_some [OF n ne, of f64_half] by auto
  obtain b where b: "b \<in> set l" "percentile l f64_95 = Inr b" using percentile_some [OF n ne, of f64_95] by auto
  obtain c where c: "c \<in> set l" "percentile l f64_99 = Inr c" using percentile_some [OF n ne, of f64_99] by auto
  have "set l = set (es_latencies st)" using m by (rule mset_eq_setD)
  with a b c show ?thesis unfolding eval_summary_def Let_def l_def [symmetric] by simp
qed

lemma loaded_dataset:
  assumes "loadDataset path contents = Inr ds"
  shows "ds_ok ds" "0 < ds_count ds" "ds_count ds \<le> 10000000"
proof -
  obtain bs where c: "contents = Some bs" using assms by (cases contents) (simp_all add: loadDataset_def)
  define n where "n = of_le (take 4 bs)"
  let ?s = "drop 4 bs" and ?r = "kImagePixels + 1"
  have n: "n \<noteq> 0" "n \<le> 10000000" "n * ?r \<le> length ?s"
    and ds: "ds = \<lparr>ds_pixels = concat (map (\<lambda>i. take kImagePixels (drop (i * ?r) ?s)) [0..<n]),
      ds_labels = map (\<lambda>i. ?s ! (i * ?r + kImagePixels)) [0..<n], ds_count = n\<rparr>"
    using assms [unfolded c loadDataset_eq Let_def, folded n_def] by (simp_all split: if_splits)
  have "length (take kImagePixels (drop (i * ?r) ?s)) = kImagePixels" if "i < n" for i
  proof -
    have "(i + 1) * ?r \<le> n * ?r" using that by (intro mult_le_mono1) simp
    then show ?thesis using n(3) by simp
  qed
  then have "length (concat (map (\<lambda>i. take kImagePixels (drop (i * ?r) ?s)) [0..<n])) = n * kImagePixels"
    using length_concat_const [of "[0..<n]" "\<lambda>i. take kImagePixels (drop (i * ?r) ?s)" kImagePixels] by simp
  then show "ds_ok ds" "0 < ds_count ds" "ds_count ds \<le> 10000000" using n by (simp_all add: ds ds_ok_def)
qed

section \<open>Property\<close>

text \<open>C10. The program reports the exact accuracy. When \<^verbatim>\<open>eval\<close> is asked for with options that parse, the dataset
  loads, the engine is built from any well-formed model and has an answer for every batch, with one row of
  logits per sample, then \<^verbatim>\<open>main\<close> exits with code 0, having printed the header of the session and a
  result whose sample count is that of the file, whose number of correct samples is exact, and whose
  percentiles are latencies that were measured: nothing on the way throws or is undefined.\<close>

theorem main_eval_reports:
  assumes "cli_command (ce_files env) argv = Inr (Eval path opts)" "argv ! 2 \<noteq> []"
    and "loadDataset path (ce_data env path) = Inr ds"
    and "model_ok m" "ins_ok ins" "g_inputs (m_graph m) = a # as" "wf_view a (view_of m)"
    and "engine_new ins ctx m (co_config opts) = Inr s0" "ce_build env (co_config opts) = Inr s0"
    and "logits_of s0 ds (co_batchSize opts) logits" "\<And>offset. env_ok (fst (ce_runs env offset)) s0"
  shows "\<exists>r s. cli_main env argv = Inr (Exit 0 (eval_header opts s0 @ eval_text opts r s)) \<and>
    er_samples r = ds_count ds \<and>
    er_correct r = length (filter (\<lambda>i. argmax (logits i) = unat (ds_labels ds ! i)) [0..<ds_count ds]) \<and>
    {er_p50 r, er_p95 r, er_p99 r} \<subseteq> (\<lambda>offset. snd (ce_runs env offset)) ` set (steps 0 (ds_count ds) (co_batchSize opts))"
proof -
  note ds = loaded_dataset [OF assms(3)]
  have "parseOptions (ce_files env) argv 4 (argv ! 2) = Inr opts"
    using assms(1) by (auto simp: cli_command_def Let_def rbind_eq_Inr split: if_splits)
  then have o: "1 \<le> co_batchSize opts" "co_batchSize opts \<le> c_maxBatchSize (co_config opts)"
    using options_sound [OF assms(2), of "ce_files env" argv 4] by simp_all
  then have b: "0 < co_batchSize opts" by simp
  obtain st where st: "eval_loop (ce_runs env) ds (co_batchSize opts) s0 = Inr st"
    "es_correct st = length (filter (\<lambda>i. max_element (logits i) = unat (ds_labels ds ! i)) [0..<ds_count ds])"
    "es_latencies st = map (\<lambda>offset. snd (ce_runs env offset)) (steps 0 (ds_count ds) (co_batchSize opts))"
    using eval_loop_counts [where runs = "ce_runs env", OF assms(4-8) ds(1) b o(2) assms(10,11)] by blast
  have "length (es_latencies st) < 2 ^ 53" "es_latencies st \<noteq> []"
    using length_steps [OF b, of 0 "ds_count ds"] ds(2,3) steps_nonempty [OF ds(2) b] by (simp_all add: st(3))
  then obtain r where r: "eval_summary ds st = Inr r" "er_correct r = es_correct st" "er_samples r = ds_count ds"
    "{er_p50 r, er_p95 r, er_p99 r} \<subseteq> set (es_latencies st)"
    using eval_summary_some by blast
  have "runEval (ce_build env) (ce_data env) (ce_runs env) path opts = Inr (eval_header opts s0 @ eval_text opts r (es_session st))"
    by (simp add: runEval_def assms(3,9) evaluate_def st(1) r(1))
  then have "cli_main env argv = Inr (Exit 0 (eval_header opts s0 @ eval_text opts r (es_session st)))"
    by (simp add: cli_main_def assms(1))
  with r st(2,3) show ?thesis by (intro exI [of _ r] exI [of _ "es_session st"]) simp
qed

definition ex_env :: "session \<Rightarrow> cli_env" where
  "ex_env s0 = \<lparr>ce_files = \<lambda>_. Some (config_toString ex_session_config),
     ce_data = \<lambda>_. Some ([1, 0, 0, 0] @ replicate kImagePixels 0 @ [0]), ce_build = \<lambda>_. Inr s0,
     ce_runs = \<lambda>_. (seq_env s0, 7), ce_detected = 8, ce_float = \<lambda>_. [], ce_double = \<lambda>_. [], ce_lib = \<lambda>_. []\<rparr>"

definition ex_argv :: "string list" where
  "ex_argv = [''ie'', ''eval'', ''models/mnist.oien'', ''d.bin'', ''--config'', ''c'']"

definition ex_opts :: cli_options where
  "ex_opts = \<lparr>co_config = ex_session_config, co_batchSize = 1\<rparr>"

lemma ex_session_config_read: "config_fromFile path (Some (config_toString ex_session_config)) = Inr ex_session_config"
  by (rule read_config_printed [OF ex_session_config_ok(1)]) (simp_all add: ex_session_config_def ex_config_def config_default_def plain_def is_blank_def)

lemma ex_command: "cli_command (ce_files (ex_env s0)) ex_argv = Inr (Eval ''d.bin'' ex_opts)"
proof -
  have m: "c_modelPath ex_session_config = ''models/mnist.oien''" "1 \<le> c_maxBatchSize ex_session_config"
    by (simp_all add: ex_session_config_def ex_config_def config_default_def)
  have u: "use_config_file ex_session_config \<lparr>co_config = config_default\<lparr>c_modelPath := ''models/mnist.oien''\<rparr>, co_batchSize = 1\<rparr> = ex_opts"
    using m(1) by (simp add: use_config_file_def ex_opts_def ex_session_config_def ex_config_def config_default_def)
  have "finish_options ex_opts = Inr ex_opts"
    using m(2) ex_session_config_ok(1) [folded config_validate_ok] by (simp add: finish_options_def ex_opts_def)
  then show ?thesis by (simp add: cli_command_def ex_argv_def ex_env_def parseOptions_def ex_session_config_read u [unfolded One_nat_def])
qed

lemma ex_data: "loadDataset path (ce_data (ex_env s0) path) = Inr ex_ds"
  by (simp add: ex_env_def loadDataset_eq Let_def ex_ds_def kImagePixels_def nth_append)

theorem main_eval_reports_witness:
  "\<exists>s0 r s. engine_new ex_ins ex_ctx ex_opt_model ex_session_config = Inr s0 \<and>
     cli_main (ex_env s0) ex_argv = Inr (Exit 0 (eval_header ex_opts s0 @ eval_text ex_opts r s)) \<and>
     er_samples r = 1 \<and> er_correct r \<le> 1 \<and> er_p50 r = 7 \<and> er_p95 r = 7 \<and> er_p99 r = 7"
proof -
  obtain s0 logits where s0: "engine_new ex_ins ex_ctx ex_opt_model ex_session_config = Inr s0" "logits_of s0 ex_ds 1 logits"
    by (rule ex_logits)
  have o: "co_config ex_opts = ex_session_config" "co_batchSize ex_opts = 1" by (simp_all add: ex_opts_def)
  have re: "env_ok (fst (ce_runs (ex_env s0) offset)) s0" for offset using seq_env_ok by (simp add: ex_env_def)
  have b: "ce_build (ex_env s0) (co_config ex_opts) = Inr s0" by (simp add: ex_env_def)
  have "ex_argv ! 2 \<noteq> []" by (simp add: ex_argv_def)
  from main_eval_reports [where env = "ex_env s0", OF ex_command this ex_data ex_opt_ok ex_ins_ok ex_session_io(1) ex_opt_view
      s0(1) [folded o(1)] b s0(2) [folded o(2)] re] obtain r s
    where r: "cli_main (ex_env s0) ex_argv = Inr (Exit 0 (eval_header ex_opts s0 @ eval_text ex_opts r s))" "er_samples r = 1"
      "er_correct r = length (filter (\<lambda>i. argmax (logits i) = unat (ds_labels ex_ds ! i)) [0..<1])"
      "{er_p50 r, er_p95 r, er_p99 r} \<subseteq> (\<lambda>offset. snd (ce_runs (ex_env s0) offset)) ` set (steps 0 1 1)"
    unfolding ex_ds_facts(2) o(2) by blast
  have "er_correct r \<le> 1" unfolding r(3) using length_filter_le [of _ "[0..<1::nat]"] by (rule order_trans) simp
  with s0(1) r(1,2,4) show ?thesis by (auto simp: ex_env_def)
qed

end
