(* ===== verification/Spec2Isabelle.thy ===== *)
theory Spec2Isabelle
  imports Tensor_Results Pool_Results Session_Errors Server_Results Cli_Main
begin

text \<open>
  A verification development for the C++ inference engine under \<^verbatim>\<open>src/inference-engine/engine\<close>, from
  the matrix kernels to the HTTP server and the command line. File names below are relative to
  \<^verbatim>\<open>include/ie\<close> and \<^verbatim>\<open>src\<close> of that directory.

  \<^bold>\<open>The program.\<close> A model file holds a graph of nodes and initializer tensors. A session loads and
  validates it, optimizes the graph, orders it and cuts it into levels, allocates a slot per tensor,
  and runs the nodes on an execution provider, one after the other or level by level on a thread
  pool. The provider implements Gemm, Relu, Gemm with a fused Relu, Add and Flatten over five matrix kernels. An
  engine wraps a session; a batcher puts queued requests into one batched call of the engine; a
  server reads requests from sockets and waits on the batcher; a command line evaluates, benchmarks
  and serves.

  \<^bold>\<open>Foundations.\<close>
  Prelude: exceptions as values (\<open>exn + 'a\<close>), the monad \<open>rbind\<close>, loops over it, checked buffer accesses;
  undefined behaviour of C++ is the value \<open>Undefined\<close>, which no \<^verbatim>\<open>catch\<close> sees, so a theorem that a
  result is \<open>Inr\<close> or fails by a \<open>catchable\<close> exception excludes it. Floats: binary32 and binary64 as bit patterns with every
  operation rounded once. Float_Order: comparison as an order, sorting by a comparator, printing with
  a fixed number of digits. Text: \<^verbatim>\<open>getline\<close>, \<^verbatim>\<open>stoll\<close>, \<^verbatim>\<open>stoul\<close> and decimal printing.

  \<^bold>\<open>The components, in the order in which they build on each other.\<close>
  \<^item> Tensor: core/tensor.h. Shapes and sizes are 64-bit words, buffers are lists.
  \<^item> Gemm, Gemm_Correct, Gemm_Results: kernels/gemm.cpp. The kernels are written over a record of element
    operations, instantiated at binary32 and at exact integers; the results relate each of them to
    the sum over the inner dimension, in the order of its own loop nest, to each other, and to any
    split of the rows over workers.
  \<^item> Allocator: core/allocator.cpp. Addresses are numbers, \<^verbatim>\<open>operator new\<close> is a parameter. Locale
    \<open>block_allocator\<close>, interpreted on both allocators: buffers in use never overlap.
  \<^item> Tensor_Memory, Tensor_Ownership, Tensor_Results: core/tensor.h again, now with raw pointers: objects that
    acquire and release buffers of the two allocators over one heap, and cells of memory. Locale
    \<open>tensor_allocator\<close> is what a tensor relies on; it is interpreted on the two allocators together. Every
    program over objects does what the same operations do on the values of Tensor, until memory
    runs out, and every buffer has one owner and is given back. This is why the other theories may
    pass tensors around as values.
  \<^item> Node, Graph, Graph_Edges, Graph_Topo: graph/node.cpp, graph/graph.cpp. Node pointers are numbers, so that
    a dangling one is visible; the hash table is a map with the order in which it is enumerated. On a graph
    built by removals and by additions under new names edges run exactly from the producer of a tensor to
    its other readers; sorting succeeds exactly on graphs without
    a cycle and gives a topological order; levels are the longest-path layers. An addition under the
    name of a live node leaves dangling pointers behind, which is shown too. The depth-first
    search has fuel, the number of nodes plus one, which is proved enough.
  \<^item> Thread_Pool, Pool_Correct, Pool_Results: core/thread_pool.cpp. Workers, \<^verbatim>\<open>runAll\<close> and the destructor as a step
    relation: a step per critical section, per notification and per task body. A thread that waits sleeps until it is
    notified, and a task of the caller may call \<^verbatim>\<open>runAll\<close> again, so that groups of tasks share the queue. Every task of a
    call runs once before it returns, with the exception the code picks; no wake-up is lost, no thread waits forever, and
    the steps are bounded. \<^verbatim>\<open>parallelFor\<close> covers its range exactly, on 64-bit counts.
  \<^item> Provider: providers/ and kernels/operators.cpp. What a node computes depends on the node, its inputs
    and the strategy only; the fused node is the composition; it agrees with the reference operators.
  \<^item> Model, Model_File: model/. The file format as readers over bytes: saving and loading round-trips, a
    truncated file is refused, and loading any bytes gives a well-formed model or an exception.
  \<^item> Config: runtime/config.cpp. Printing and reading round-trips; what is read is within all bounds.
  \<^item> Semantics: the meaning of a model, an assignment of tensors that agrees with its inputs and
    initializers and solves every node.
  \<^item> Optimizer, Optimizer_Correct, Optimizer_Results: graph/graph_optimizer.cpp. The three passes refine a
    rewriting system on node lists whose rules preserve that meaning on well-formed models. A pass has fuel, the number of
    nodes plus one, which is proved enough.
  \<^item> Profiler: runtime/profiler.cpp.
  \<^item> Session, Session_Order, Session_Correct, Session_Results, Session_Errors: runtime/inference_session.cpp. The
    tasks of a level start and finish in any order; two of them that touch a slot at once are a
    data race, which is undefined. A session answers with the meaning of the unoptimized model,
    under every schedule and whatever ran before.
  \<^item> Engine: runtime/inference_engine.cpp, and the locale \<open>batch_engine\<close>: what a server relies on, a call that
    returns, keeps the engine usable, answers every input with one tensor and otherwise fails by an exception. It is interpreted on
    the engine.
  \<^item> Batcher, Batcher_Correct, Batcher_Results: serving/dynamic_batcher.cpp. A step per section under the mutex,
    one per notification and one for the batch that runs outside it; a worker with nothing to do sleeps until it is
    notified. Requests are answered in order and once, with their own row; stopping wakes the worker and drains the
    queue within a bounded number of steps, and nothing it does is undefined.
  \<^item> Http, Http_Correct, Http_Results, Server, Server_Correct, Server_Results: serving/http_server.cpp. One
    connection as a function of the chunks it receives, the server as a step relation over
    connections, batcher and stop. Requests round-trip through any chunks, the bytes read are
    bounded, replies are framed, and a reply to an inference request carries the row the session
    computes for exactly the features in its body.
  \<^item> Cli, Cli_Results, Cli_Evaluate, Cli_Main: cli/main.cpp. Options that are accepted are valid, dataset files are read
    exactly or refused, and the evaluation counts exactly the samples that are classified as labelled.
    \<open>cli_main\<close> is the whole program: the exit code and what it prints, or the server it becomes. Up to \<open>2^53\<close>
    latencies the rounded index of a percentile stays inside them, so an evaluation ends with its summary.

  \<^bold>\<open>Parameters.\<close> Where a hash table puts a new key; the addresses \<^verbatim>\<open>operator new\<close> returns; the schedules of
  threads; the times the clock gives; the contents of files; the results of socket calls and the chunks a
  peer sends; how a stream prints a float or a double by default; how many hardware threads are reported; the texts of the library's exceptions.
  A tensor is \<open>modest\<close> when it is well-formed, its extents are below \<open>2^31\<close> and their product does not
  wrap: the theorems on sessions and servers ask for it of the tensors they start from and meet.

  \<^bold>\<open>Not modelled.\<close> Running out of memory outside the allocators and the tensor objects; what a command printed
  before it failed; loop counters within one tile of
  \<open>2^64\<close>; a compiler that contracts a product and a sum into one operation; a node that writes
  one of its own inputs; condition variables that wake for no reason (such a thread only checks its
  predicate again); several threads that call one pool from outside it; moved-from objects after their last use; the sockets
  themselves; the order in which two counters of the server are read for one report. The tests,
  the Python scripts and the Go program under \<^verbatim>\<open>src/mapreduce\<close> are separate and not part of this.
\<close>

end
